(* ===== verification/Goble_Prelude.thy ===== *)
theory Goble_Prelude
  imports Main "HOL-Library.AList" "HOL-Library.Word"
begin

text \<open>
  Shared vocabulary of the development: the result type of fallible operations, clocks and
  machine integers, the parts of the Rust standard library the modelled code uses on strings
  (\<open>str::trim\<close>, \<open>split_whitespace\<close>, \<open>format!\<close> of an unsigned integer), the keyed-store contract
  that hash maps and database tables meet, and reachability with its invariant rule.

  A Rust \<open>String\<close> is a \<^typ>\<open>string\<close> holding its UTF-8 bytes; an \<open>Instant\<close> or \<open>DateTime\<close> is an
  integer number of nanoseconds, given to an operation as an argument where the code reads the
  clock; a \<open>HashMap\<close> is an association list with distinct keys, whose order stands for the
  unspecified iteration order.
\<close>

named_theorems ledger_defs "definitions of the transcript-ledger operations"
named_theorems daemon_defs "definitions of the daemon operations"

section \<open>Results, clocks, machine integers\<close>

type_synonym ('e, 'a) result = "'e + 'a"

abbreviation Err :: "'e \<Rightarrow> ('e, 'a) result" where
  "Err \<equiv> Inl"

abbreviation Ok :: "'a \<Rightarrow> ('e, 'a) result" where
  "Ok \<equiv> Inr"

type_synonym timestamp = int

type_synonym u32 = "32 word"
type_synonym u64 = "64 word"

definition saturating_add :: "'a::len word \<Rightarrow> 'a word \<Rightarrow> 'a word" where
  "saturating_add a b = (if uint a + uint b < 2 ^ LENGTH('a) then a + b else - 1)"

definition saturating_sub :: "'a::len word \<Rightarrow> 'a word \<Rightarrow> 'a word" where
  "saturating_sub a b = (if b \<le> a then a - b else 0)"

lemma uint_add_less_iff:
  "uint a + uint b < 2 ^ LENGTH('a) \<longleftrightarrow> unat a + unat b < 2 ^ LENGTH('a)" for a b :: "'a::len word"
proof -
  have "uint a + uint b < 2 ^ LENGTH('a) \<longleftrightarrow> int (unat a + unat b) < int (2 ^ LENGTH('a))" by simp
  then show ?thesis by (simp only: of_nat_less_iff)
qed

lemma unat_saturating_add:
  "unat (saturating_add a b) = min (unat a + unat b) (2 ^ LENGTH('a) - 1)"
  for a b :: "'a::len word"
proof (cases "unat a + unat b < 2 ^ LENGTH('a)")
  case True
  then have "unat (a + b) = unat a + unat b"
    by (simp add: unat_word_ariths)
  with True show ?thesis by (simp add: saturating_add_def uint_add_less_iff)
next
  case False
  then show ?thesis by (simp add: saturating_add_def uint_add_less_iff unsigned_minus_1_eq_mask mask_eq_exp_minus_1)
qed

lemma unat_saturating_sub: "unat (saturating_sub a b) = unat a - unat b"
  by (auto simp: saturating_sub_def unat_sub word_le_nat_alt)

section \<open>Generic list facts\<close>

lemma take_map_upt: "take k [0..<n] = [0..<min k n]"
  by (simp add: min_def)

lemma list_update_map_same:
  "f y = f (xs ! i) \<Longrightarrow> map f (xs[i := y]) = map f xs"
  by (metis list_update_id map_update)

lemma concat_map_update:
  assumes "i < length xs"
  shows "concat (map f (xs[i := y])) =
    concat (map f (take i xs)) @ f y @ concat (map f (drop (Suc i) xs))"
  using assms by (simp add: upd_conv_take_nth_drop)

lemma find_Some_iff_hd: "find P xs = Some x \<Longrightarrow> P x \<and> x \<in> set xs"
  by (auto simp: find_Some_iff)

section \<open>Rust strings\<close>

subsection \<open>Decimal rendering of an unsigned integer\<close>

definition digit :: "nat \<Rightarrow> char" where
  "digit d = char_of (48 + d)"

fun show_nat :: "nat \<Rightarrow> string" where
  "show_nat n = (if n < 10 then [digit n] else show_nat (n div 10) @ [digit (n mod 10)])"

declare show_nat.simps [simp del]

definition read_nat :: "string \<Rightarrow> nat" where
  "read_nat = foldl (\<lambda>a c. 10 * a + (of_char c - 48)) 0"

lemma of_char_digit [simp]: "d < 10 \<Longrightarrow> (of_char (digit d) :: nat) = 48 + d"
  by (simp add: digit_def)

lemma read_show_nat [simp]: "read_nat (show_nat n) = n"
proof (induction n rule: show_nat.induct)
  case (1 n)
  show ?case
  proof (cases "n < 10")
    case True
    then show ?thesis by (simp add: show_nat.simps [of n] read_nat_def)
  next
    case False
    with 1 have "read_nat (show_nat (n div 10)) = n div 10" by simp
    with False show ?thesis
      by (simp add: show_nat.simps [of n] read_nat_def)
  qed
qed

lemma show_nat_inject [simp]: "show_nat m = show_nat n \<longleftrightarrow> m = n"
  by (metis read_show_nat)

lemma show_nat_not_Nil [simp]: "show_nat n \<noteq> []"
  by (simp add: show_nat.simps [of n])

subsection \<open>Unicode white space on UTF-8 bytes\<close>

text \<open>
  \<open>ws_len s\<close> is the number of bytes of the white-space character at the front of \<open>s\<close>, and 0 when
  the first character is not white space. The code points are those of the Unicode property
  White\_Space, which \<open>char::is_whitespace\<close> tests: U+0009..U+000D, U+0020, U+0085, U+00A0,
  U+1680, U+2000..U+200A, U+2028, U+2029, U+202F, U+205F and U+3000.
\<close>

definition ws1 :: "nat \<Rightarrow> bool" where
  "ws1 a \<longleftrightarrow> (9 \<le> a \<and> a \<le> 13) \<or> a = 32"

definition ws2 :: "nat \<Rightarrow> nat \<Rightarrow> bool" where
  "ws2 a b \<longleftrightarrow> a = 194 \<and> (b = 133 \<or> b = 160)"

definition ws3 :: "nat \<Rightarrow> nat \<Rightarrow> nat \<Rightarrow> bool" where
  "ws3 a b c \<longleftrightarrow>
     (a = 225 \<and> b = 154 \<and> c = 128) \<or>
     (a = 226 \<and> b = 128 \<and> (128 \<le> c \<and> c \<le> 138 \<or> c = 168 \<or> c = 169 \<or> c = 175)) \<or>
     (a = 226 \<and> b = 129 \<and> c = 159) \<or>
     (a = 227 \<and> b = 128 \<and> c = 128)"

fun ws_len :: "string \<Rightarrow> nat" where
  "ws_len [] = 0"
| "ws_len [a] = (if ws1 (of_char a) then 1 else 0)"
| "ws_len [a, b] =
     (if ws1 (of_char a) then 1 else if ws2 (of_char a) (of_char b) then 2 else 0)"
| "ws_len (a # b # c # s) =
     (if ws1 (of_char a) then 1 else if ws2 (of_char a) (of_char b) then 2
      else if ws3 (of_char a) (of_char b) (of_char c) then 3 else 0)"

text \<open>The same test at the end of a string, on its reversed bytes.\<close>

fun ws_len_rev :: "string \<Rightarrow> nat" where
  "ws_len_rev [] = 0"
| "ws_len_rev [a] = (if ws1 (of_char a) then 1 else 0)"
| "ws_len_rev [a, b] =
     (if ws1 (of_char a) then 1 else if ws2 (of_char b) (of_char a) then 2 else 0)"
| "ws_len_rev (a # b # c # s) =
     (if ws1 (of_char a) then 1 else if ws2 (of_char b) (of_char a) then 2
      else if ws3 (of_char c) (of_char b) (of_char a) then 3 else 0)"

lemma ws_len_Nil_or_pos: "0 < ws_len s \<Longrightarrow> s \<noteq> []"
  by (cases s) auto

function trim_start :: "string \<Rightarrow> string" where
  "trim_start s = (if ws_len s = 0 then s else trim_start (drop (ws_len s) s))"
  by pat_completeness auto
termination
  by (relation "measure length") (auto dest: ws_len_Nil_or_pos intro!: diff_less)

function trim_rev :: "string \<Rightarrow> string" where
  "trim_rev s = (if ws_len_rev s = 0 \<or> s = [] then s else trim_rev (drop (ws_len_rev s) s))"
  by pat_completeness auto
termination
  by (relation "measure length") auto

declare trim_start.simps [simp del] trim_rev.simps [simp del]

definition trim_end :: "string \<Rightarrow> string" where
  "trim_end s = rev (trim_rev (rev s))"

definition trim :: "string \<Rightarrow> string" where
  "trim s = trim_end (trim_start s)"

lemma trim_start_Nil [simp]: "trim_start [] = []"
  by (simp add: trim_start.simps [of "[]"])

lemma trim_Nil [simp]: "trim [] = []"
  by (simp add: trim_def trim_end_def trim_rev.simps [of "[]"])

text \<open>\<open>str::split_whitespace\<close>: the maximal runs of non-white-space characters.\<close>

function split_ws :: "string \<Rightarrow> string \<Rightarrow> string list" where
  "split_ws cur s =
     (if s = [] then (if cur = [] then [] else [cur])
      else if ws_len s = 0 then split_ws (cur @ [hd s]) (tl s)
      else (if cur = [] then [] else [cur]) @ split_ws [] (drop (ws_len s) s))"
  by pat_completeness auto
termination
  by (relation "measure (\<lambda>(cur, s). length s)") auto

declare split_ws.simps [simp del]

definition split_whitespace :: "string \<Rightarrow> string list" where
  "split_whitespace s = split_ws [] s"

fun join :: "string \<Rightarrow> string list \<Rightarrow> string" where
  "join sep [] = []"
| "join sep [x] = x"
| "join sep (x # y # xs) = x @ sep @ join sep (y # xs)"

text \<open>\<open>Path::join\<close> on Unix paths: an absolute part replaces the base.\<close>

definition path_join :: "string \<Rightarrow> string \<Rightarrow> string" where
  "path_join base part =
     (if part \<noteq> [] \<and> hd part = CHR ''/'' then part
      else if base = [] then part
      else if last base = CHR ''/'' then base @ part
      else base @ ''/'' @ part)"

lemma path_join_inject:
  "base \<noteq> [] \<Longrightarrow> hd a \<noteq> CHR ''/'' \<Longrightarrow> hd b \<noteq> CHR ''/'' \<Longrightarrow>
   path_join base a = path_join base b \<longleftrightarrow> a = b"
  by (auto simp: path_join_def)

section \<open>Keyed stores\<close>

text \<open>
  What a client may rely on of a store of values under keys: a hash map, or a database table
  with a primary key written by an upsert.
\<close>

locale keyed_store =
  fixes look :: "'s \<Rightarrow> 'k \<Rightarrow> 'v option"
    and put :: "'k \<Rightarrow> 'v \<Rightarrow> 's \<Rightarrow> 's"
    and del :: "'k \<Rightarrow> 's \<Rightarrow> 's"
    and wf :: "'s \<Rightarrow> bool"
  assumes look_put: "wf s \<Longrightarrow> look (put k v s) = (look s)(k \<mapsto> v)"
    and look_del: "wf s \<Longrightarrow> look (del k s) = (look s)(k := None)"
    and wf_put: "wf s \<Longrightarrow> wf (put k v s)"
    and wf_del: "wf s \<Longrightarrow> wf (del k s)"
begin

lemma look_put_same: "wf s \<Longrightarrow> look (put k v s) k = Some v"
  by (simp add: look_put)

lemma look_put_other: "wf s \<Longrightarrow> k' \<noteq> k \<Longrightarrow> look (put k v s) k' = look s k'"
  by (simp add: look_put)

lemma put_put: "wf s \<Longrightarrow> look (put k w (put k v s)) = look (put k w s)"
  by (simp add: look_put wf_put)

lemma del_put: "wf s \<Longrightarrow> look (del k (put k v s)) = look (del k s)"
  by (simp add: look_put look_del wf_put)

lemma look_del_same: "wf s \<Longrightarrow> look (del k s) k = None"
  by (simp add: look_del)

end

abbreviation distinct_keys :: "('k \<times> 'v) list \<Rightarrow> bool" where
  "distinct_keys al \<equiv> distinct (map fst al)"

text \<open>\<open>HashMap::get\<close>, \<open>insert\<close> and \<open>remove\<close> on association lists.\<close>

interpretation hm: keyed_store map_of AList.update AList.delete distinct_keys
  by unfold_locales
    (auto simp: update_conv' delete_conv' distinct_update AList.distinct_delete)

lemma set_alist_update:
  "e \<in> set (AList.update k v al) \<Longrightarrow> e = (k, v) \<or> e \<in> set al"
  by (induction al) (auto split: if_splits)

lemma set_alist_delete: "e \<in> set (AList.delete k al) \<Longrightarrow> e \<in> set al"
  by (auto simp: AList.delete_eq)

section \<open>Reachability\<close>

inductive reachable :: "('s \<Rightarrow> bool) \<Rightarrow> ('s \<Rightarrow> 's \<Rightarrow> bool) \<Rightarrow> 's \<Rightarrow> bool"
  for init :: "'s \<Rightarrow> bool" and step :: "'s \<Rightarrow> 's \<Rightarrow> bool"
where
  reachable_init: "init s \<Longrightarrow> reachable init step s"
| reachable_step: "reachable init step s \<Longrightarrow> step s t \<Longrightarrow> reachable init step t"

locale inductive_invariant =
  fixes init :: "'s \<Rightarrow> bool" and step :: "'s \<Rightarrow> 's \<Rightarrow> bool" and inv :: "'s \<Rightarrow> bool"
  assumes inv_init: "init s \<Longrightarrow> inv s"
    and inv_step: "inv s \<Longrightarrow> step s t \<Longrightarrow> inv t"
begin

lemma inv_reachable: "reachable init step s \<Longrightarrow> inv s"
  by (induction rule: reachable.induct) (blast intro: inv_init inv_step)+

end

end
