(* ===== verification/Harness_Types.thy ===== *)
theory Harness_Types
  imports Goble_Prelude
begin

text \<open>
  The harness seam: the model-facing types of \<open>crates/goble-harness-types\<close>, the wire events of
  \<open>crates/goble-harness-protocol\<close>, and the execution contract and registry of
  \<open>crates/goble-harness-runtime\<close>. A newtype around \<open>String\<close> keeps a one-constructor datatype of
  its own, so identifiers of different kinds cannot be mixed.
\<close>

section \<open>Identifiers\<close>

datatype harness_id = HarnessId (hid: string)
datatype project_id = ProjectId (pid: string)
datatype session_id = SessionId (sid: string)
datatype medium_id = MediumId (mid: string)

section \<open>Opaque JSON\<close>

text \<open>\<open>serde_json::Value\<close>, carried but never inspected by the modelled code.\<close>

datatype json =
    JNull
  | JBool bool
  | JNumber string
  | JString string
  | JArray "json list"
  | JObject "(string \<times> json) list"

section \<open>Turn requests\<close>

datatype interaction_hint = HintText | HintVoice bool | HintAuto

datatype grant_mode = ReadOnly | ReadWrite

record grant =
  grant_repo :: string
  grant_mode :: grant_mode

definition read_only :: "string \<Rightarrow> grant" where
  "read_only repo = \<lparr>grant_repo = repo, grant_mode = ReadOnly\<rparr>"

definition read_write :: "string \<Rightarrow> grant" where
  "read_write repo = \<lparr>grant_repo = repo, grant_mode = ReadWrite\<rparr>"

datatype sandbox_level = SandboxNone | SandboxAllowList | SandboxHardened

record harness_capabilities =
  cap_voice :: bool
  cap_screen :: bool
  cap_sandbox_level :: sandbox_level
  cap_tools :: "string list"
  cap_reversible :: bool

definition capabilities_internal :: harness_capabilities where
  "capabilities_internal =
     \<lparr>cap_voice = False, cap_screen = False, cap_sandbox_level = SandboxAllowList,
      cap_tools = [], cap_reversible = False\<rparr>"

record harness_snapshot =
  snap_kind :: string
  snap_data :: json

datatype command_decision = Approve string | Edit string | Reject string

datatype chat_role = RoleSystem | RoleUser | RoleAssistant | RoleTool

record chat_message =
  msg_role :: chat_role
  msg_content :: string

datatype schedule = SchedManual | SchedCron string | SchedHttp string | SchedHeartbeat u64

record harness_turn =
  turn_harness_id :: harness_id
  turn_project_id :: project_id
  turn_session_id :: session_id
  turn_medium_id :: medium_id
  turn_goal :: string
  turn_context :: "chat_message list"
  turn_permissions :: "grant list"
  turn_interaction :: interaction_hint
  turn_schedule :: "schedule option"

definition harness_turn_new :: "harness_id \<Rightarrow> session_id \<Rightarrow> string \<Rightarrow> harness_turn" where
  "harness_turn_new h s goal =
     \<lparr>turn_harness_id = h, turn_project_id = ProjectId ''default'', turn_session_id = s,
      turn_medium_id = MediumId ''local'', turn_goal = goal, turn_context = [],
      turn_permissions = [], turn_interaction = HintAuto, turn_schedule = None\<rparr>"

section \<open>Harness events\<close>

record tool_schema_wire =
  tool_name :: string
  tool_description :: string
  tool_parameters :: json

datatype harness_server_event =
    HReady
  | HToolList "tool_schema_wire list"
  | HAssistantDelta session_id string
  | HToolCallStarted session_id string string json
  | HToolCallFinished session_id string string
  | HToolCallError session_id string string
  | HAskUser session_id string "string list"
  | HCommandProposed session_id string "string list" string
  | HSubAgentSpawned session_id string string string string string bool
  | HSubAgentProgress session_id string string string string u32 u32 u64 u64
  | HSubAgentFinished session_id string string string "string option" "string option"
      u64 u32 u32 u64
  | HMissionUpdated session_id string string
  | HTokenUsage session_id string u64 "u64 option" u64
  | HReasoningStarted session_id nat string
  | HReasoningDelta session_id string
  | HReasoningDone session_id nat string string string
  | HDone session_id
  | HError session_id string
  | HCheckpoint session_id harness_snapshot

section \<open>The execution contract and the registry\<close>

text \<open>
  \<open>HarnessRuntime\<close> is an object-safe trait, so a harness is any record of its methods. A harness
  keeps private state, so each method that may answer differently on two calls takes the time of
  the call. A stream of events is the list of events it yields before it ends.
\<close>

record harness_runtime =
  hr_id :: harness_id
  hr_capabilities :: harness_capabilities
  hr_run :: "timestamp \<Rightarrow> harness_turn \<Rightarrow> harness_server_event list"
  hr_resume :: "timestamp \<Rightarrow> session_id \<Rightarrow> string \<Rightarrow> (string \<times> string) option
     \<Rightarrow> harness_server_event list option"
  hr_resume_command :: "timestamp \<Rightarrow> session_id \<Rightarrow> command_decision
     \<Rightarrow> harness_server_event list option"
  hr_snapshot :: "timestamp \<Rightarrow> session_id \<Rightarrow> harness_snapshot option"
  hr_restore :: "timestamp \<Rightarrow> session_id \<Rightarrow> harness_snapshot
     \<Rightarrow> harness_server_event list option"

text \<open>The trait's provided methods: no resumption, no command approval, no snapshots.\<close>

definition harness_default ::
  "harness_id \<Rightarrow> harness_capabilities \<Rightarrow> (timestamp \<Rightarrow> harness_turn \<Rightarrow> harness_server_event list)
   \<Rightarrow> harness_runtime"
where
  "harness_default i caps run =
     \<lparr>hr_id = i, hr_capabilities = caps, hr_run = run,
      hr_resume = (\<lambda>_ _ _ _. None), hr_resume_command = (\<lambda>_ _ _. None),
      hr_snapshot = (\<lambda>_ _. None), hr_restore = (\<lambda>_ _ _. None)\<rparr>"

definition mock_harness :: "harness_id \<Rightarrow> string \<Rightarrow> harness_runtime" where
  "mock_harness i reply =
     harness_default i capabilities_internal
       (\<lambda>_ turn. [HAssistantDelta (turn_session_id turn) reply, HDone (turn_session_id turn)])"

type_synonym harness_registry = "(harness_id \<times> harness_runtime) list"

definition registry_new :: harness_registry where
  "registry_new = []"

definition registry_register :: "harness_runtime \<Rightarrow> harness_registry \<Rightarrow> harness_registry" where
  "registry_register h reg = AList.update (hr_id h) h reg"

definition registry_resolve :: "harness_registry \<Rightarrow> harness_id \<Rightarrow> harness_runtime option" where
  "registry_resolve reg i = map_of reg i"

definition registry_list :: "harness_registry \<Rightarrow> harness_id list" where
  "registry_list reg = map fst reg"

text \<open>Every entry is filed under the identifier its harness reports, and no key occurs twice.\<close>

definition registry_wf :: "harness_registry \<Rightarrow> bool" where
  "registry_wf reg \<longleftrightarrow> distinct_keys reg \<and> (\<forall>(k, h) \<in> set reg. hr_id h = k)"

lemma registry_wf_new [simp]: "registry_wf registry_new"
  by (simp add: registry_wf_def registry_new_def)

lemma registry_wf_register: "registry_wf reg \<Longrightarrow> registry_wf (registry_register h reg)"
  by (auto simp: registry_wf_def registry_register_def distinct_update
      dest!: set_alist_update)

lemma registry_resolve_id:
  "registry_wf reg \<Longrightarrow> registry_resolve reg i = Some h \<Longrightarrow> hr_id h = i"
  by (auto simp: registry_wf_def registry_resolve_def dest: map_of_SomeD)

lemma registry_resolve_register:
  "registry_resolve (registry_register h reg) i =
     (if i = hr_id h then Some h else registry_resolve reg i)"
  by (simp add: registry_resolve_def registry_register_def update_conv')

end
