(* ===== verification/Replay_Ledger.thy ===== *)
theory Replay_Ledger
  imports Harness_Types
begin

text \<open>
  The reversible-execution ledger of \<open>crates/goble-replay/src/lib.rs\<close>: a per-session transcript of
  turns with rewind, fork, checkpoint, restore, replay and the settlement protocol
  (select, apply, release, discard). An operation takes the ledger's locked state and returns
  its result with the state it leaves; where the code reads the clock, the time is an argument.
  The theory proves the index invariant for every sequence of operations, the behaviour of every
  operation, and that the ledger keeps the contract of a log of turns that are extended by index.
\<close>

section \<open>Data\<close>

datatype replay_error =
    NoTurn
  | IndexOutOfRange nat nat
  | CandidateNotSelected nat "nat option"

datatype turn_status = TurnRunning | TurnSuccess | TurnFailed string | TurnCancelled

record turn_record =
  tr_index :: nat
  tr_turn :: harness_turn
  tr_started_at :: timestamp
  tr_finished_at :: "timestamp option"
  tr_status :: turn_status
  tr_events :: "harness_server_event list"

record checkpoint =
  cp_session_id :: session_id
  cp_at :: nat
  cp_turns :: "turn_record list"
  cp_created_at :: timestamp

record ledger_state =
  ls_session_id :: session_id
  ls_turns :: "turn_record list"
  ls_selected :: "nat option"

section \<open>Operations\<close>

definition ledger_new :: "session_id \<Rightarrow> ledger_state" where
  "ledger_new s = \<lparr>ls_session_id = s, ls_turns = [], ls_selected = None\<rparr>"

definition from_checkpoint :: "checkpoint \<Rightarrow> ledger_state" where
  "from_checkpoint cp =
     \<lparr>ls_session_id = cp_session_id cp, ls_turns = cp_turns cp, ls_selected = None\<rparr>"

definition ledger_len :: "ledger_state \<Rightarrow> nat" where
  "ledger_len l = length (ls_turns l)"

definition ledger_is_empty :: "ledger_state \<Rightarrow> bool" where
  "ledger_is_empty l \<longleftrightarrow> ledger_len l = 0"

definition record_turn :: "timestamp \<Rightarrow> harness_turn \<Rightarrow> ledger_state \<Rightarrow> nat \<times> ledger_state" where
  "record_turn now turn l =
     (let index = length (ls_turns l) in
      (index, l\<lparr>ls_turns := ls_turns l @
        [\<lparr>tr_index = index, tr_turn = turn, tr_started_at = now, tr_finished_at = None,
          tr_status = TurnRunning, tr_events = []\<rparr>]\<rparr>))"

definition add_events :: "harness_server_event list \<Rightarrow> turn_record \<Rightarrow> turn_record" where
  "add_events evs t = t\<lparr>tr_events := tr_events t @ evs\<rparr>"

definition settle_record :: "timestamp \<Rightarrow> turn_status \<Rightarrow> turn_record \<Rightarrow> turn_record" where
  "settle_record now st t = t\<lparr>tr_status := st, tr_finished_at := Some now\<rparr>"

definition append_events ::
  "harness_server_event list \<Rightarrow> ledger_state \<Rightarrow> (replay_error, unit) result \<times> ledger_state"
where
  "append_events evs l =
     (if ls_turns l = [] then (Err NoTurn, l)
      else (Ok (), l\<lparr>ls_turns := butlast (ls_turns l) @ [add_events evs (last (ls_turns l))]\<rparr>))"

definition settle_turn ::
  "timestamp \<Rightarrow> turn_status \<Rightarrow> ledger_state \<Rightarrow> (replay_error, unit) result \<times> ledger_state"
where
  "settle_turn now st l =
     (if ls_turns l = [] then (Err NoTurn, l)
      else (Ok (), l\<lparr>ls_turns :=
        butlast (ls_turns l) @ [settle_record now st (last (ls_turns l))]\<rparr>))"

definition append_events_to ::
  "nat \<Rightarrow> harness_server_event list \<Rightarrow> ledger_state
   \<Rightarrow> (replay_error, unit) result \<times> ledger_state"
where
  "append_events_to i evs l =
     (let len = length (ls_turns l) in
      if i < len
      then (Ok (), l\<lparr>ls_turns := (ls_turns l)[i := add_events evs (ls_turns l ! i)]\<rparr>)
      else (Err (IndexOutOfRange i len), l))"

definition settle_turn_at ::
  "nat \<Rightarrow> timestamp \<Rightarrow> turn_status \<Rightarrow> ledger_state
   \<Rightarrow> (replay_error, unit) result \<times> ledger_state"
where
  "settle_turn_at i now st l =
     (let len = length (ls_turns l) in
      if i < len
      then (Ok (), l\<lparr>ls_turns := (ls_turns l)[i := settle_record now st (ls_turns l ! i)]\<rparr>)
      else (Err (IndexOutOfRange i len), l))"

definition ledger_select ::
  "nat \<Rightarrow> ledger_state \<Rightarrow> (replay_error, unit) result \<times> ledger_state"
where
  "ledger_select at l =
     (let len = length (ls_turns l) in
      if len \<le> at then (Err (IndexOutOfRange at len), l)
      else (Ok (), l\<lparr>ls_selected := Some at\<rparr>))"

definition ledger_apply ::
  "nat \<Rightarrow> ledger_state \<Rightarrow> (replay_error, nat) result \<times> ledger_state"
where
  "ledger_apply at l =
     (let len = length (ls_turns l) in
      if len \<le> at then (Err (IndexOutOfRange at len), l)
      else if ls_selected l \<noteq> Some at then (Err (CandidateNotSelected at (ls_selected l)), l)
      else (Ok (len - at - 1),
            l\<lparr>ls_turns := take (at + 1) (ls_turns l), ls_selected := None\<rparr>))"

definition ledger_release ::
  "nat \<Rightarrow> ledger_state \<Rightarrow> (replay_error, bool) result \<times> ledger_state"
where
  "ledger_release at l =
     (let len = length (ls_turns l) in
      if len \<le> at then (Err (IndexOutOfRange at len), l)
      else (let was = (ls_selected l = Some at) in
            (Ok was, if was then l\<lparr>ls_selected := None\<rparr> else l)))"

definition ledger_discard ::
  "nat \<Rightarrow> ledger_state \<Rightarrow> (replay_error, nat) result \<times> ledger_state"
where
  "ledger_discard at l =
     (let len = length (ls_turns l) in
      if len \<le> at then (Err (IndexOutOfRange at len), l)
      else (Ok (len - at), l\<lparr>ls_turns := take at (ls_turns l), ls_selected := None\<rparr>))"

definition rewind_to :: "nat \<Rightarrow> ledger_state \<Rightarrow> nat \<times> ledger_state" where
  "rewind_to index l =
     (let n = length (ls_turns l) in
      if n \<le> index then (0, l)
      else (n - index, l\<lparr>ls_turns := take index (ls_turns l)\<rparr>))"

definition revert_to :: "nat \<Rightarrow> ledger_state \<Rightarrow> nat \<times> ledger_state" where
  "revert_to index l = rewind_to index l"

definition ledger_fork :: "nat \<Rightarrow> session_id \<Rightarrow> ledger_state \<Rightarrow> ledger_state" where
  "ledger_fork at new_id l =
     (let at' = min at (length (ls_turns l)) in
      \<lparr>ls_session_id = new_id, ls_turns = take at' (ls_turns l), ls_selected = None\<rparr>)"

definition checkpoint_full :: "timestamp \<Rightarrow> ledger_state \<Rightarrow> checkpoint" where
  "checkpoint_full now l =
     \<lparr>cp_session_id = ls_session_id l, cp_at = length (ls_turns l), cp_turns = ls_turns l,
      cp_created_at = now\<rparr>"

definition checkpoint_at :: "timestamp \<Rightarrow> nat \<Rightarrow> ledger_state \<Rightarrow> checkpoint" where
  "checkpoint_at now at l =
     (let at' = min at (length (ls_turns l)) in
      \<lparr>cp_session_id = ls_session_id l, cp_at = at', cp_turns = take at' (ls_turns l),
       cp_created_at = now\<rparr>)"

definition ledger_restore :: "checkpoint \<Rightarrow> ledger_state \<Rightarrow> ledger_state" where
  "ledger_restore cp l =
     l\<lparr>ls_session_id := cp_session_id cp, ls_turns := cp_turns cp, ls_selected := None\<rparr>"

definition ledger_replay :: "nat \<Rightarrow> ledger_state \<Rightarrow> harness_server_event list" where
  "ledger_replay at l =
     (let at' = min at (length (ls_turns l)) in concat (map tr_events (drop at' (ls_turns l))))"

definition ledger_turn :: "nat \<Rightarrow> ledger_state \<Rightarrow> turn_record option" where
  "ledger_turn i l = (if i < length (ls_turns l) then Some (ls_turns l ! i) else None)"

declare
  ledger_new_def [ledger_defs] from_checkpoint_def [ledger_defs] ledger_len_def [ledger_defs]
  record_turn_def [ledger_defs] append_events_def [ledger_defs] settle_turn_def [ledger_defs]
  append_events_to_def [ledger_defs] settle_turn_at_def [ledger_defs]
  ledger_select_def [ledger_defs] ledger_apply_def [ledger_defs] ledger_release_def [ledger_defs]
  ledger_discard_def [ledger_defs] rewind_to_def [ledger_defs] revert_to_def [ledger_defs]
  ledger_fork_def [ledger_defs] checkpoint_full_def [ledger_defs] checkpoint_at_def [ledger_defs]
  ledger_restore_def [ledger_defs] ledger_replay_def [ledger_defs] ledger_turn_def [ledger_defs]
  add_events_def [ledger_defs] settle_record_def [ledger_defs]

section \<open>The index invariant\<close>

text \<open>Turn records sit at the position they carry: 0-based and contiguous.\<close>

definition wf_turns :: "turn_record list \<Rightarrow> bool" where
  "wf_turns ts \<longleftrightarrow> map tr_index ts = [0..<length ts]"

definition wf_ledger :: "ledger_state \<Rightarrow> bool" where
  "wf_ledger l \<longleftrightarrow> wf_turns (ls_turns l)"

definition wf_checkpoint :: "checkpoint \<Rightarrow> bool" where
  "wf_checkpoint cp \<longleftrightarrow> cp_at cp = length (cp_turns cp) \<and> wf_turns (cp_turns cp)"

lemma tr_fields_add_events [simp]:
  "tr_index (add_events evs t) = tr_index t" "tr_turn (add_events evs t) = tr_turn t"
  "tr_status (add_events evs t) = tr_status t" "tr_events (add_events evs t) = tr_events t @ evs"
  "tr_started_at (add_events evs t) = tr_started_at t"
  "tr_finished_at (add_events evs t) = tr_finished_at t"
  by (simp_all add: add_events_def)

lemma tr_fields_settle_record [simp]:
  "tr_index (settle_record now st t) = tr_index t" "tr_turn (settle_record now st t) = tr_turn t"
  "tr_status (settle_record now st t) = st" "tr_events (settle_record now st t) = tr_events t"
  "tr_started_at (settle_record now st t) = tr_started_at t"
  "tr_finished_at (settle_record now st t) = Some now"
  by (simp_all add: settle_record_def)

lemma wf_turns_take [intro]: "wf_turns ts \<Longrightarrow> wf_turns (take k ts)"
  by (simp add: wf_turns_def take_map [symmetric] take_map_upt min.commute)

lemma wf_turns_update [intro]:
  "wf_turns ts \<Longrightarrow> tr_index t = tr_index (ts ! i) \<Longrightarrow> wf_turns (ts[i := t])"
  by (simp add: wf_turns_def list_update_map_same)

lemma wf_turns_snoc [intro]: "wf_turns ts \<Longrightarrow> tr_index t = length ts \<Longrightarrow> wf_turns (ts @ [t])"
  by (simp add: wf_turns_def)

lemma butlast_snoc_update: "xs \<noteq> [] \<Longrightarrow> butlast xs @ [y] = xs[length xs - 1 := y]"
  by (metis append_butlast_last_id length_butlast list_update_length)

lemma wf_turns_last [intro]:
  "wf_turns ts \<Longrightarrow> ts \<noteq> [] \<Longrightarrow> tr_index t = tr_index (last ts) \<Longrightarrow> wf_turns (butlast ts @ [t])"
  by (simp add: butlast_snoc_update last_conv_nth wf_turns_update)

lemma wf_turns_nth: "wf_turns ts \<Longrightarrow> i < length ts \<Longrightarrow> tr_index (ts ! i) = i"
  unfolding wf_turns_def by (metis add.left_neutral length_map nth_map nth_upt)

section \<open>All operations as one step\<close>

datatype ledger_op =
    OpRecord timestamp harness_turn
  | OpAppend "harness_server_event list"
  | OpSettle timestamp turn_status
  | OpAppendTo nat "harness_server_event list"
  | OpSettleAt nat timestamp turn_status
  | OpSelect nat
  | OpApply nat
  | OpRelease nat
  | OpDiscard nat
  | OpRewind nat
  | OpRestore checkpoint

datatype ledger_outcome = OutUnit | OutNat nat | OutBool bool | OutErr replay_error

definition outcome :: "('a \<Rightarrow> ledger_outcome) \<Rightarrow> (replay_error, 'a) result \<Rightarrow> ledger_outcome" where
  "outcome f r = (case r of Inl e \<Rightarrow> OutErr e | Inr x \<Rightarrow> f x)"

lemma outcome_simps [simp]: "outcome f (Inl e) = OutErr e" "outcome f (Inr x) = f x"
  by (simp_all add: outcome_def)

fun ledger_exec :: "ledger_op \<Rightarrow> ledger_state \<Rightarrow> ledger_outcome \<times> ledger_state" where
  "ledger_exec (OpRecord now t) l = apfst OutNat (record_turn now t l)"
| "ledger_exec (OpAppend evs) l = apfst (outcome (\<lambda>_. OutUnit)) (append_events evs l)"
| "ledger_exec (OpSettle now st) l = apfst (outcome (\<lambda>_. OutUnit)) (settle_turn now st l)"
| "ledger_exec (OpAppendTo i evs) l = apfst (outcome (\<lambda>_. OutUnit)) (append_events_to i evs l)"
| "ledger_exec (OpSettleAt i now st) l =
     apfst (outcome (\<lambda>_. OutUnit)) (settle_turn_at i now st l)"
| "ledger_exec (OpSelect at) l = apfst (outcome (\<lambda>_. OutUnit)) (ledger_select at l)"
| "ledger_exec (OpApply at) l = apfst (outcome OutNat) (ledger_apply at l)"
| "ledger_exec (OpRelease at) l = apfst (outcome OutBool) (ledger_release at l)"
| "ledger_exec (OpDiscard at) l = apfst (outcome OutNat) (ledger_discard at l)"
| "ledger_exec (OpRewind i) l = apfst OutNat (rewind_to i l)"
| "ledger_exec (OpRestore cp) l = (OutUnit, ledger_restore cp l)"

fun op_ok :: "ledger_op \<Rightarrow> bool" where
  "op_ok (OpRestore cp) = wf_checkpoint cp"
| "op_ok _ = True"

inductive ledger_step :: "ledger_state \<Rightarrow> ledger_state \<Rightarrow> bool" where
  "op_ok opn \<Longrightarrow> ledger_exec opn l = (out, l') \<Longrightarrow> ledger_step l l'"

inductive_cases ledger_stepE: "ledger_step l l'"

lemma wf_ledger_exec: "wf_ledger l \<Longrightarrow> op_ok opn \<Longrightarrow> wf_ledger (snd (ledger_exec opn l))"
  by (cases opn)
    (auto simp: wf_ledger_def wf_checkpoint_def Let_def record_turn_def append_events_def
      settle_turn_def append_events_to_def settle_turn_at_def ledger_select_def ledger_apply_def
      ledger_release_def ledger_discard_def rewind_to_def ledger_restore_def)

lemma wf_ledger_new [simp]: "wf_ledger (ledger_new s)"
  by (simp add: wf_ledger_def wf_turns_def ledger_new_def)

interpretation ledger_inv: inductive_invariant "\<lambda>l. \<exists>s. l = ledger_new s" ledger_step wf_ledger
proof
  show "\<exists>s. l = ledger_new s \<Longrightarrow> wf_ledger l" for l
    by auto
  show "wf_ledger l \<Longrightarrow> ledger_step l l' \<Longrightarrow> wf_ledger l'" for l l'
    by (auto elim!: ledger_stepE dest: wf_ledger_exec)
qed

section \<open>What a recorder of turns relies on\<close>

text \<open>
  The contract a client that records live turns uses: a pushed turn gets the next index and
  starts empty, and an indexed append extends the addressed turn and no other. Clients may
  interleave the appends of several turns.
\<close>

locale turn_log =
  fixes len :: "'l \<Rightarrow> nat"
    and get :: "nat \<Rightarrow> 'l \<Rightarrow> 'r option"
    and push :: "'t \<Rightarrow> 'l \<Rightarrow> nat \<times> 'l"
    and extend :: "nat \<Rightarrow> 'e list \<Rightarrow> 'l \<Rightarrow> 'l"
    and cut :: "nat \<Rightarrow> 'l \<Rightarrow> 'l"
    and evs :: "'r \<Rightarrow> 'e list"
  assumes get_None: "get i l = None \<longleftrightarrow> len l \<le> i"
    and push_index: "fst (push t l) = len l"
    and get_push: "i < len l \<Longrightarrow> get i (snd (push t l)) = get i l"
    and get_pushed: "map_option evs (get (len l) (snd (push t l))) = Some []"
    and evs_extend:
      "map_option evs (get i (extend j es l)) =
         map_option (\<lambda>r. evs r @ (if i = j then es else [])) (get i l)"
    and get_cut: "get i (cut k l) = (if i < k then get i l else None)"
begin

lemma evs_interleaved:
  "map_option evs (get i (fold (\<lambda>(j, es). extend j es) ops l)) =
     map_option (\<lambda>r. evs r @ concat (map snd (filter (\<lambda>(j, es). j = i) ops))) (get i l)"
proof (induction ops arbitrary: l)
  case Nil
  then show ?case by (simp add: option.map_comp comp_def)
next
  case (Cons opn ops)
  obtain j es where opn: "opn = (j, es)" by (cases opn)
  have "map_option evs (get i (fold (\<lambda>(j, es). extend j es) (opn # ops) l)) =
    map_option (\<lambda>xs. xs @ concat (map snd (filter (\<lambda>(j, es). j = i) ops)))
      (map_option evs (get i (extend j es l)))"
    by (simp add: opn Cons option.map_comp comp_def)
  also have "\<dots> = map_option (\<lambda>r. evs r @ concat (map snd (filter (\<lambda>(j, es). j = i) (opn # ops))))
      (get i l)"
    by (auto simp: evs_extend opn option.map_comp comp_def intro!: option.map_cong)
  finally show ?case .
qed

lemma len_cut: "len (cut k l) = min k (len l)"
proof -
  have "len (cut k l) \<le> i \<longleftrightarrow> min k (len l) \<le> i" for i
    using get_None [of i l] get_None [of i "cut k l"] by (auto simp: get_cut split: if_splits)
  then show ?thesis by (metis le_antisym order_refl)
qed

lemma evs_fresh_turn:
  "map_option evs (get (len l) (fold (\<lambda>(j, es). extend j es) ops (snd (push t l)))) =
     Some (concat (map snd (filter (\<lambda>(j, es). j = len l) ops)))"
  using evs_interleaved [of "len l" ops "snd (push t l)"] get_pushed [of l t]
  by (cases "get (len l) (snd (push t l))") auto

end

interpretation tl: turn_log ledger_len ledger_turn "\<lambda>(now, t). record_turn now t"
  "\<lambda>i es l. snd (append_events_to i es l)" "\<lambda>k l. snd (rewind_to k l)" tr_events
  by unfold_locales
    (auto simp: ledger_len_def ledger_turn_def record_turn_def append_events_to_def rewind_to_def
      Let_def nth_append)

section \<open>Properties\<close>

text \<open>A concrete request and a two-turn ledger, on which the hypotheses below are exhibited.\<close>

abbreviation demo_turn :: harness_turn where
  "demo_turn \<equiv> harness_turn_new (HarnessId ''mock'') (SessionId ''s'') ''goal''"

abbreviation demo_ledger :: ledger_state where
  "demo_ledger \<equiv> snd (record_turn 2 demo_turn (snd (record_turn 1 demo_turn
     (ledger_new (SessionId ''s'')))))"

lemma concat_map_take_drop:
  "concat (map f (take k xs)) @ concat (map f (drop k xs)) = concat (map f xs)"
  by (metis append_take_drop_id concat_append map_append)

lemma ledger_replay_drop: "ledger_replay k l = concat (map tr_events (drop k (ls_turns l)))"
  by (cases "k \<le> length (ls_turns l)") (simp_all add: ledger_replay_def Let_def min_def)

lemma ls_turns_rewind_to: "ls_turns (snd (rewind_to k l)) = take k (ls_turns l)"
  by (simp add: rewind_to_def Let_def)

lemma ledger_replay_split:
  "ledger_replay 0 (snd (rewind_to k l)) @ ledger_replay k l = ledger_replay 0 l"
  by (simp add: ledger_replay_drop ls_turns_rewind_to concat_map_take_drop)

lemma ledger_replay_fork:
  "ledger_replay 0 (ledger_fork k s l) = ledger_replay 0 (snd (rewind_to k l))"
  by (simp add: ledger_replay_drop ls_turns_rewind_to ledger_fork_def Let_def min_def)

text \<open>Every sequence of ledger operations from a fresh ledger keeps the recorded turns at the
  positions they carry: 0-based, contiguous, with \<open>turn(i)\<close> answering exactly for the indices
  below \<open>len\<close>.\<close>

theorem ledger_indices_contiguous:
  assumes "reachable (\<lambda>l. \<exists>s. l = ledger_new s) ledger_step l"
  shows "(ledger_turn i l = None \<longleftrightarrow> ledger_len l \<le> i) \<and>
    (\<forall>t. ledger_turn i l = Some t \<longrightarrow> tr_index t = i)"
proof -
  from assms have "wf_turns (ls_turns l)"
    using ledger_inv.inv_reachable wf_ledger_def by blast
  then show ?thesis
    by (auto simp: ledger_turn_def ledger_len_def wf_turns_nth)
qed

theorem ledger_indices_contiguous_witness:
  "ledger_turn 1 demo_ledger \<noteq> None \<and> map_option tr_index (ledger_turn 1 demo_ledger) = Some 1"
proof -
  have step: "ledger_step l (snd (record_turn now demo_turn l))" for now l
    by (rule ledger_step.intros [of "OpRecord now demo_turn" l "OutNat (ledger_len l)"])
      (simp_all add: record_turn_def ledger_len_def Let_def)
  have "reachable (\<lambda>l. \<exists>s. l = ledger_new s) ledger_step demo_ledger"
    using reachable_step [where step = ledger_step, OF _ step]
      reachable_init [where init = "\<lambda>l. \<exists>s. l = ledger_new s" and step = ledger_step] by blast
  from ledger_indices_contiguous [OF this, of 1] show ?thesis
    by (auto simp: ledger_len_def record_turn_def ledger_new_def Let_def)
qed

text \<open>Rewinding to \<open>k\<close> keeps exactly the first \<open>k\<close> turns unchanged, reports the number dropped,
  leaves the session alone, and splits the transcript: what the rewound ledger replays followed
  by what the original replays from \<open>k\<close> is the whole original transcript. At or past the end
  nothing changes.\<close>

theorem rewind_to_correct:
  "ls_turns (snd (rewind_to k l)) = take k (ls_turns l) \<and>
   fst (rewind_to k l) = ledger_len l - k \<and>
   fst (rewind_to k l) + ledger_len (snd (rewind_to k l)) = ledger_len l \<and>
   ls_session_id (snd (rewind_to k l)) = ls_session_id l \<and>
   ledger_replay 0 (snd (rewind_to k l)) @ ledger_replay k l = ledger_replay 0 l"
  using ledger_replay_split [of k l]
  by (simp add: rewind_to_def ledger_len_def Let_def)

text \<open>A checkpoint restores what it captured: restoring a full checkpoint into any ledger, or
  building a ledger from it, gives back the session and every turn with only the pending
  candidate cleared; a prefix checkpoint at \<open>k\<close> gives the ledger rewound to \<open>k\<close>.\<close>

theorem checkpoint_restore_roundtrip:
  "from_checkpoint (checkpoint_full now l) = l\<lparr>ls_selected := None\<rparr> \<and>
   ledger_restore (checkpoint_full now l) m = l\<lparr>ls_selected := None\<rparr> \<and>
   from_checkpoint (checkpoint_at now k l) = (snd (rewind_to k l))\<lparr>ls_selected := None\<rparr> \<and>
   checkpoint_at now (ledger_len l) l = checkpoint_full now l"
  by (simp add: from_checkpoint_def checkpoint_full_def ledger_restore_def checkpoint_at_def
      rewind_to_def ledger_len_def Let_def min_def)

text \<open>A fork at \<open>k\<close> carries exactly the recorded prefix into the new session with nothing
  selected, replays the prefix's events, and its checkpoint is the source's prefix checkpoint
  under the new session.\<close>

theorem fork_carries_prefix:
  "ls_session_id (ledger_fork k s l) = s \<and>
   ls_turns (ledger_fork k s l) = take k (ls_turns l) \<and>
   ls_selected (ledger_fork k s l) = None \<and>
   ledger_replay 0 (ledger_fork k s l) @ ledger_replay k l = ledger_replay 0 l \<and>
   checkpoint_full now (ledger_fork k s l) = (checkpoint_at now k l)\<lparr>cp_session_id := s\<rparr>"
proof -
  have "ledger_replay 0 (ledger_fork k s l) @ ledger_replay k l = ledger_replay 0 l"
    using ledger_replay_split [of k l] by (simp add: ledger_replay_fork)
  then show ?thesis
    by (simp add: ledger_fork_def checkpoint_full_def checkpoint_at_def Let_def min_def)
qed

text \<open>Drains of several turns of one ledger may interleave in any order: after any sequence of
  indexed appends, a turn holds exactly the events it had followed by the events addressed to it,
  in order; appends addressed past the end change nothing.\<close>

theorem interleaved_appends_land_on_own_turn:
  assumes "i < ledger_len l"
  shows "ledger_turn i (fold (\<lambda>(j, es) l. snd (append_events_to j es l)) ops l) =
    Some (add_events (concat (map snd (filter (\<lambda>(j, es). j = i) ops))) (ls_turns l ! i))"
  using assms
proof (induction ops arbitrary: l)
  case Nil
  then show ?case by (simp add: ledger_turn_def ledger_len_def add_events_def)
next
  case (Cons opn ops)
  obtain j es where opn: "opn = (j, es)" by (cases opn)
  let ?l = "snd (append_events_to j es l)"
  from Cons.prems have len: "i < ledger_len ?l"
    by (simp add: append_events_to_def ledger_len_def Let_def)
  from Cons.prems have "ls_turns ?l ! i = add_events (if j = i then es else []) (ls_turns l ! i)"
    by (auto simp: append_events_to_def ledger_len_def Let_def add_events_def)
  with Cons.IH [OF len] show ?case
    by (simp add: opn add_events_def)
qed

theorem interleaved_appends_witness:
  "map_option tr_events (ledger_turn 0 (fold (\<lambda>(j, es) l. snd (append_events_to j es l))
      [(0, [HReady]), (1, [HDone (SessionId ''s'')]), (0, [HDone (SessionId ''s'')])] demo_ledger))
    = Some [HReady, HDone (SessionId ''s'')]"
proof -
  have "0 < ledger_len demo_ledger"
    by (simp add: ledger_len_def record_turn_def Let_def)
  from interleaved_appends_land_on_own_turn [OF this, of
      "[(0, [HReady]), (1, [HDone (SessionId ''s'')]), (0, [HDone (SessionId ''s'')])]"]
  show ?thesis
    by (simp add: record_turn_def ledger_new_def Let_def)
qed

text \<open>The settlement protocol: a selected in-range candidate is committed by \<open>apply\<close>, which keeps
  the candidate and its prefix, reports the rest as removed and clears the selection; \<open>discard\<close>
  drops the candidate as well; \<open>release\<close> only clears the marker; and \<open>apply\<close> on a turn that is not
  the selected one is refused with the ledger unchanged.\<close>

theorem settlement_protocol:
  assumes "at < ledger_len l"
  shows "ledger_apply at (snd (ledger_select at l)) =
      (Ok (ledger_len l - at - 1),
       l\<lparr>ls_turns := take (Suc at) (ls_turns l), ls_selected := None\<rparr>) \<and>
    ledger_release at (snd (ledger_select at l)) = (Ok True, l\<lparr>ls_selected := None\<rparr>) \<and>
    ledger_discard at l =
      (Ok (ledger_len l - at),
       l\<lparr>ls_turns := take at (ls_turns l), ls_selected := None\<rparr>) \<and>
    (ls_selected l \<noteq> Some at \<longrightarrow>
      ledger_apply at l = (Err (CandidateNotSelected at (ls_selected l)), l))"
  using assms
  by (simp add: ledger_apply_def ledger_select_def ledger_release_def ledger_discard_def
      ledger_len_def Let_def)

theorem settlement_protocol_witness:
  "0 < ledger_len demo_ledger \<and>
   fst (ledger_apply 0 (snd (ledger_select 0 demo_ledger))) = Ok 1 \<and>
   fst (ledger_apply 0 demo_ledger) = Err (CandidateNotSelected 0 None)"
proof -
  have len: "0 < ledger_len demo_ledger"
    by (simp add: ledger_len_def record_turn_def Let_def)
  from len settlement_protocol [OF len] show ?thesis
    by (simp add: ledger_len_def record_turn_def ledger_new_def Let_def)
qed

text \<open>An operation that reports an error leaves the ledger exactly as it was.\<close>

theorem ledger_error_unchanged:
  assumes "ledger_exec opn l = (OutErr e, l')"
  shows "l' = l"
  using assms
  by (cases opn)
    (auto simp: record_turn_def append_events_def settle_turn_def append_events_to_def
      settle_turn_at_def ledger_select_def ledger_apply_def ledger_release_def ledger_discard_def
      rewind_to_def Let_def split: if_splits)

theorem ledger_error_unchanged_witness:
  "snd (ledger_exec (OpApply 5) demo_ledger) = demo_ledger"
proof -
  have "ledger_exec (OpApply 5) demo_ledger =
      (OutErr (IndexOutOfRange 5 2), snd (ledger_exec (OpApply 5) demo_ledger))"
    by (simp add: ledger_apply_def record_turn_def ledger_new_def Let_def)
  then show ?thesis by (rule ledger_error_unchanged)
qed

text \<open>A rewind keeps the selection: after a rewind below the selected turn, \<open>selected()\<close> names a
  turn that no longer exists, and once new turns are recorded up to that position, \<open>apply\<close>
  commits a turn that was never selected.\<close>

theorem rewind_leaves_stale_selection:
  assumes "at < ledger_len l" and "k \<le> at"
    and turns: "length ts = Suc at - k"
  defines "rewound \<equiv> snd (rewind_to k (snd (ledger_select at l)))"
  defines "rerun \<equiv> fold (\<lambda>(now, t) l. snd (record_turn now t l)) ts rewound"
  shows "ls_selected rewound = Some at \<and> ledger_turn at rewound = None \<and>
    fst (ledger_apply at rerun) = Ok 0"
proof -
  have rec: "length (ls_turns (fold (\<lambda>(now, t) l. snd (record_turn now t l)) ts m)) =
      length (ls_turns m) + length ts \<and>
    ls_selected (fold (\<lambda>(now, t) l. snd (record_turn now t l)) ts m) = ls_selected m" for m ts
    by (induction ts arbitrary: m) (auto simp: record_turn_def Let_def)
  from assms have sel: "ls_selected rewound = Some at" and "ledger_turn at rewound = None"
    and "length (ls_turns rewound) = k"
    by (auto simp: rewind_to_def ledger_select_def ledger_turn_def ledger_len_def Let_def)
  moreover from this have "length (ls_turns rerun) = Suc at" "ls_selected rerun = Some at"
    using rec [of ts rewound] turns \<open>k \<le> at\<close> by (simp_all add: rerun_def)
  ultimately show ?thesis
    by (simp add: ledger_apply_def Let_def)
qed

theorem rewind_leaves_stale_selection_witness:
  "fst (ledger_apply 1 (snd (record_turn 4 demo_turn (snd (record_turn 3 demo_turn
      (snd (rewind_to 0 (snd (ledger_select 1 demo_ledger))))))))) = Ok 0"
proof -
  have len: "1 < ledger_len demo_ledger"
    by (simp add: ledger_len_def record_turn_def Let_def)
  show ?thesis
    using rewind_leaves_stale_selection [OF len, of 0 "[(3, demo_turn), (4, demo_turn)]"] by simp
qed

end
