(* ===== verification/Checkpoint_Store.thy ===== *)
theory Checkpoint_Store
  imports Replay_Ledger "HOL-Library.Char_ord" "HOL-Library.List_Lexorder"
    "HOL-Library.Multiset"
begin

text \<open>
  The durable store of \<open>crates/goble-persistence/src/lib.rs\<close>: checkpoints and the Project, Session,
  Task and ProjectSandbox rows in SQLite tables with a text primary key. A table is an association
  list from the key to the other columns, in row order; an upsert (\<open>INSERT ... ON CONFLICT DO
  UPDATE\<close>) replaces the columns in place or appends, as \<open>AList.update\<close> does. \<open>ORDER BY\<close> compares
  text bytewise; the order of rows with equal sort keys is row order.

  JSON encoding and decoding of a checkpoint (\<open>serde_json\<close>) and the RFC 3339 rendering of a time
  are arguments. Failures of SQLite itself other than a violated primary key (a full disk, a
  corrupt file) are not modelled: the code hands them on as \<open>PersistenceError::Sqlite\<close>, here only the
  encoding of a checkpoint can make \<open>save_checkpoint\<close> fail.
\<close>

section \<open>Entities\<close>

datatype persistence_error = Sqlite string | Serde string

record project =
  prj_project_id :: project_id
  prj_directory :: string
  prj_created_at :: string

record session_entity =
  ses_session_id :: session_id
  ses_project_id :: project_id
  ses_medium_id :: medium_id
  ses_created_at :: string

record task_entity =
  tsk_task_id :: string
  tsk_session_id :: session_id
  tsk_trigger :: string
  tsk_status :: string
  tsk_created_at :: string

record project_sandbox =
  sbx_project_id :: project_id
  sbx_provider :: string
  sbx_sandbox_name :: string
  sbx_sandbox_id :: "string option"
  sbx_workspace_path :: string
  sbx_updated_at :: string

section \<open>Tables\<close>

type_synonym 'r table = "(string \<times> 'r) list"

type_synonym checkpoint_row = "string \<times> string"
type_synonym project_row = "string \<times> string"
type_synonym session_row = "string \<times> string \<times> string"
type_synonym task_row = "string \<times> string \<times> string \<times> string"
type_synonym sandbox_row = "string \<times> string \<times> string option \<times> string \<times> string"

record checkpoint_store =
  st_checkpoints :: "checkpoint_row table"
  st_projects :: "project_row table"
  st_sessions :: "session_row table"
  st_tasks :: "task_row table"
  st_sandboxes :: "sandbox_row table"

definition order_by :: "('r \<Rightarrow> string) \<Rightarrow> 'r table \<Rightarrow> 'r table" where
  "order_by col t = sort_key (col \<circ> snd) t"

section \<open>Opening a store and the legacy migration\<close>

text \<open>
  On disk a table may be absent. Before the entity tables existed the name \<open>sessions\<close> was used by
  the checkpoint table; \<open>pragma_table_info\<close> tells the two apart by their columns.
\<close>

datatype sessions_table = LegacySessions "checkpoint_row table" | EntitySessions "session_row table"

record database =
  db_checkpoints :: "checkpoint_row table option"
  db_sessions :: "sessions_table option"
  db_projects :: "project_row table option"
  db_tasks :: "task_row table option"
  db_sandboxes :: "sandbox_row table option"

definition empty_database :: database where
  "empty_database = \<lparr>db_checkpoints = None, db_sessions = None, db_projects = None,
     db_tasks = None, db_sandboxes = None\<rparr>"

text \<open>The three statements of the migration batch. Each commits on its own: the batch opens no
  transaction.\<close>

definition mig_create :: "database \<Rightarrow> database" where
  "mig_create db = db\<lparr>db_checkpoints := Some (case db_checkpoints db of None \<Rightarrow> [] | Some t \<Rightarrow> t)\<rparr>"

definition mig_insert :: "checkpoint_row table \<Rightarrow> database \<Rightarrow> (persistence_error, unit) result \<times> database"
where
  "mig_insert legacy db =
     (let t = (case db_checkpoints db of None \<Rightarrow> [] | Some t \<Rightarrow> t) in
      if fst ` set legacy \<inter> fst ` set t = {}
      then (Ok (), db\<lparr>db_checkpoints := Some (t @ legacy)\<rparr>)
      else (Err (Sqlite ''UNIQUE constraint failed: checkpoints.session_id''), db))"

definition mig_drop :: "database \<Rightarrow> database" where
  "mig_drop db = db\<lparr>db_sessions := None\<rparr>"

definition migrate_legacy_checkpoint_table ::
  "database \<Rightarrow> (persistence_error, unit) result \<times> database"
where
  "migrate_legacy_checkpoint_table db =
     (case db_sessions db of
        Some (LegacySessions legacy) \<Rightarrow>
          (case mig_insert legacy (mig_create db) of
             (Inl e, db') \<Rightarrow> (Err e, db')
           | (Inr _, db') \<Rightarrow> (Ok (), mig_drop db'))
      | _ \<Rightarrow> (Ok (), db))"

text \<open>\<open>CREATE TABLE IF NOT EXISTS\<close> for the five tables of the schema.\<close>

definition create_schema :: "database \<Rightarrow> database" where
  "create_schema db =
     \<lparr>db_checkpoints = Some (case db_checkpoints db of None \<Rightarrow> [] | Some t \<Rightarrow> t),
      db_sessions = Some (case db_sessions db of None \<Rightarrow> EntitySessions [] | Some t \<Rightarrow> t),
      db_projects = Some (case db_projects db of None \<Rightarrow> [] | Some t \<Rightarrow> t),
      db_tasks = Some (case db_tasks db of None \<Rightarrow> [] | Some t \<Rightarrow> t),
      db_sandboxes = Some (case db_sandboxes db of None \<Rightarrow> [] | Some t \<Rightarrow> t)\<rparr>"

definition store_init :: "database \<Rightarrow> (persistence_error, unit) result \<times> database" where
  "store_init db =
     (case migrate_legacy_checkpoint_table db of
        (Inl e, db') \<Rightarrow> (Err e, db')
      | (Inr _, db') \<Rightarrow> (Ok (), create_schema db'))"

text \<open>The open connection as the tables the operations below read and write, and back.\<close>

definition store_of :: "database \<Rightarrow> checkpoint_store" where
  "store_of db =
     \<lparr>st_checkpoints = the (db_checkpoints db), st_projects = the (db_projects db),
      st_sessions = (case db_sessions db of Some (EntitySessions t) \<Rightarrow> t | _ \<Rightarrow> []),
      st_tasks = the (db_tasks db), st_sandboxes = the (db_sandboxes db)\<rparr>"

definition database_of :: "checkpoint_store \<Rightarrow> database" where
  "database_of st =
     \<lparr>db_checkpoints = Some (st_checkpoints st),
      db_sessions = Some (EntitySessions (st_sessions st)),
      db_projects = Some (st_projects st), db_tasks = Some (st_tasks st),
      db_sandboxes = Some (st_sandboxes st)\<rparr>"

section \<open>Checkpoints\<close>

definition save_checkpoint ::
  "(checkpoint \<Rightarrow> (string, string) result) \<Rightarrow> string \<Rightarrow> checkpoint \<Rightarrow> checkpoint_store
   \<Rightarrow> (persistence_error, unit) result \<times> checkpoint_store"
where
  "save_checkpoint to_json now cp st =
     (case to_json cp of
        Inl e \<Rightarrow> (Err (Serde e), st)
      | Inr js \<Rightarrow> (Ok (), st\<lparr>st_checkpoints :=
          AList.update (sid (cp_session_id cp)) (js, now) (st_checkpoints st)\<rparr>))"

definition load_checkpoint ::
  "(string \<Rightarrow> (string, checkpoint) result) \<Rightarrow> session_id \<Rightarrow> checkpoint_store
   \<Rightarrow> (persistence_error, checkpoint option) result"
where
  "load_checkpoint from_json s st =
     (case map_of (st_checkpoints st) (sid s) of
        None \<Rightarrow> Ok None
      | Some (js, _) \<Rightarrow>
          (case from_json js of Inl e \<Rightarrow> Err (Serde e) | Inr cp \<Rightarrow> Ok (Some cp)))"

definition list_checkpoint_sessions :: "checkpoint_store \<Rightarrow> session_id list" where
  "list_checkpoint_sessions st = map (SessionId \<circ> fst) (rev (order_by snd (rev (st_checkpoints st))))"

definition delete_checkpoint_session :: "session_id \<Rightarrow> checkpoint_store \<Rightarrow> checkpoint_store" where
  "delete_checkpoint_session s st =
     st\<lparr>st_checkpoints := AList.delete (sid s) (st_checkpoints st)\<rparr>"

text \<open>The \<open>CheckpointSink\<close> implementation drops the result of the write.\<close>

definition persist ::
  "(checkpoint \<Rightarrow> (string, string) result) \<Rightarrow> string \<Rightarrow> checkpoint \<Rightarrow> checkpoint_store
   \<Rightarrow> checkpoint_store"
where
  "persist to_json now cp st = snd (save_checkpoint to_json now cp st)"

section \<open>Projects, sandboxes, sessions, tasks\<close>

definition project_row :: "project \<Rightarrow> project_row" where
  "project_row p = (prj_directory p, prj_created_at p)"

definition project_of :: "string \<Rightarrow> project_row \<Rightarrow> project" where
  "project_of k r = \<lparr>prj_project_id = ProjectId k, prj_directory = fst r, prj_created_at = snd r\<rparr>"

definition upsert_project :: "project \<Rightarrow> checkpoint_store \<Rightarrow> checkpoint_store" where
  "upsert_project p st =
     st\<lparr>st_projects := AList.update (pid (prj_project_id p)) (project_row p) (st_projects st)\<rparr>"

definition load_project :: "project_id \<Rightarrow> checkpoint_store \<Rightarrow> project option" where
  "load_project i st = map_option (project_of (pid i)) (map_of (st_projects st) (pid i))"

definition list_projects :: "checkpoint_store \<Rightarrow> project list" where
  "list_projects st = map (\<lambda>(k, r). project_of k r) (order_by snd (st_projects st))"

definition delete_project :: "project_id \<Rightarrow> checkpoint_store \<Rightarrow> checkpoint_store" where
  "delete_project i st = st\<lparr>st_projects := AList.delete (pid i) (st_projects st)\<rparr>"

definition sandbox_row :: "project_sandbox \<Rightarrow> sandbox_row" where
  "sandbox_row b = (sbx_provider b, sbx_sandbox_name b, sbx_sandbox_id b, sbx_workspace_path b,
     sbx_updated_at b)"

definition sandbox_of :: "string \<Rightarrow> sandbox_row \<Rightarrow> project_sandbox" where
  "sandbox_of k r = (case r of (pr, nm, i, ws, up) \<Rightarrow>
     \<lparr>sbx_project_id = ProjectId k, sbx_provider = pr, sbx_sandbox_name = nm, sbx_sandbox_id = i,
      sbx_workspace_path = ws, sbx_updated_at = up\<rparr>)"

definition upsert_project_sandbox :: "project_sandbox \<Rightarrow> checkpoint_store \<Rightarrow> checkpoint_store" where
  "upsert_project_sandbox b st =
     st\<lparr>st_sandboxes := AList.update (pid (sbx_project_id b)) (sandbox_row b) (st_sandboxes st)\<rparr>"

definition load_project_sandbox :: "project_id \<Rightarrow> checkpoint_store \<Rightarrow> project_sandbox option" where
  "load_project_sandbox i st = map_option (sandbox_of (pid i)) (map_of (st_sandboxes st) (pid i))"

definition list_project_sandboxes :: "checkpoint_store \<Rightarrow> project_sandbox list" where
  "list_project_sandboxes st =
     map (\<lambda>(k, r). sandbox_of k r)
       (order_by (\<lambda>(pr, nm, i, ws, up). up) (st_sandboxes st))"

definition delete_project_sandbox :: "project_id \<Rightarrow> checkpoint_store \<Rightarrow> checkpoint_store" where
  "delete_project_sandbox i st = st\<lparr>st_sandboxes := AList.delete (pid i) (st_sandboxes st)\<rparr>"

definition session_row :: "session_entity \<Rightarrow> session_row" where
  "session_row s = (pid (ses_project_id s), mid (ses_medium_id s), ses_created_at s)"

definition session_of :: "string \<Rightarrow> session_row \<Rightarrow> session_entity" where
  "session_of k r = (case r of (p, m, c) \<Rightarrow>
     \<lparr>ses_session_id = SessionId k, ses_project_id = ProjectId p, ses_medium_id = MediumId m,
      ses_created_at = c\<rparr>)"

definition upsert_session :: "session_entity \<Rightarrow> checkpoint_store \<Rightarrow> checkpoint_store" where
  "upsert_session s st =
     st\<lparr>st_sessions := AList.update (sid (ses_session_id s)) (session_row s) (st_sessions st)\<rparr>"

definition load_session :: "session_id \<Rightarrow> checkpoint_store \<Rightarrow> session_entity option" where
  "load_session i st = map_option (session_of (sid i)) (map_of (st_sessions st) (sid i))"

definition list_sessions :: "checkpoint_store \<Rightarrow> session_entity list" where
  "list_sessions st = map (\<lambda>(k, r). session_of k r) (order_by (\<lambda>(p, m, c). c) (st_sessions st))"

definition delete_session :: "session_id \<Rightarrow> checkpoint_store \<Rightarrow> checkpoint_store" where
  "delete_session i st = st\<lparr>st_sessions := AList.delete (sid i) (st_sessions st)\<rparr>"

definition task_row :: "task_entity \<Rightarrow> task_row" where
  "task_row t = (sid (tsk_session_id t), tsk_trigger t, tsk_status t, tsk_created_at t)"

definition task_of :: "string \<Rightarrow> task_row \<Rightarrow> task_entity" where
  "task_of k r = (case r of (s, tg, ss, c) \<Rightarrow>
     \<lparr>tsk_task_id = k, tsk_session_id = SessionId s, tsk_trigger = tg, tsk_status = ss,
      tsk_created_at = c\<rparr>)"

definition upsert_task :: "task_entity \<Rightarrow> checkpoint_store \<Rightarrow> checkpoint_store" where
  "upsert_task t st =
     st\<lparr>st_tasks := AList.update (tsk_task_id t) (task_row t) (st_tasks st)\<rparr>"

definition load_task :: "string \<Rightarrow> checkpoint_store \<Rightarrow> task_entity option" where
  "load_task i st = map_option (task_of i) (map_of (st_tasks st) i)"

definition list_tasks :: "checkpoint_store \<Rightarrow> task_entity list" where
  "list_tasks st = map (\<lambda>(k, r). task_of k r) (order_by (\<lambda>(s, tg, ss, c). c) (st_tasks st))"

definition delete_task :: "string \<Rightarrow> checkpoint_store \<Rightarrow> checkpoint_store" where
  "delete_task i st = st\<lparr>st_tasks := AList.delete i (st_tasks st)\<rparr>"

section \<open>The entity-table contract\<close>

definition wf_store :: "checkpoint_store \<Rightarrow> bool" where
  "wf_store st \<longleftrightarrow> distinct_keys (st_checkpoints st) \<and> distinct_keys (st_projects st) \<and>
     distinct_keys (st_sessions st) \<and> distinct_keys (st_tasks st) \<and> distinct_keys (st_sandboxes st)"

text \<open>What the composition root relies on when it seeds the running state from a table.\<close>

locale entity_table =
  fixes key_of :: "'e \<Rightarrow> 'i"
    and upsert :: "'e \<Rightarrow> 's \<Rightarrow> 's"
    and load :: "'i \<Rightarrow> 's \<Rightarrow> 'e option"
    and remove :: "'i \<Rightarrow> 's \<Rightarrow> 's"
    and entries :: "'s \<Rightarrow> 'e list"
    and wf :: "'s \<Rightarrow> bool"
  assumes load_upsert: "load i (upsert e s) = (if i = key_of e then Some e else load i s)"
    and load_remove: "load i (remove j s) = (if i = j then None else load i s)"
    and load_key: "load i s = Some e \<Longrightarrow> key_of e = i"
    and in_entries: "wf s \<Longrightarrow> e \<in> set (entries s) \<longleftrightarrow> load (key_of e) s = Some e"
    and wf_upsert: "wf s \<Longrightarrow> wf (upsert e s)"
    and wf_remove: "wf s \<Longrightarrow> wf (remove i s)"
begin

lemma entries_upsert:
  "wf s \<Longrightarrow> set (entries (upsert e s)) = insert e {x \<in> set (entries s). key_of x \<noteq> key_of e}"
  by (auto simp: in_entries wf_upsert load_upsert split: if_splits)

lemma entries_remove:
  "wf s \<Longrightarrow> set (entries (remove i s)) = {x \<in> set (entries s). key_of x \<noteq> i}"
  by (auto simp: in_entries wf_remove load_remove split: if_splits)

lemma upsert_overwrites:
  "key_of e = key_of e' \<Longrightarrow> load i (upsert e (upsert e' s)) = load i (upsert e s)"
  by (simp add: load_upsert)

lemma remove_after_upsert: "load i (remove (key_of e) (upsert e s)) = load i (remove (key_of e) s)"
  by (simp add: load_remove load_upsert)

end

lemma set_order_by [simp]: "set (order_by c t) = set t"
  by (simp add: order_by_def)

lemma mset_order_by [simp]: "mset (order_by c t) = mset t"
  by (simp add: order_by_def)

lemma sorted_order_by: "sorted (map (c \<circ> snd) (order_by c t))"
  by (simp add: order_by_def)

lemma in_rows:
  assumes "distinct_keys t" and "\<And>k r. key (f k r) = k"
  shows "e \<in> set (map (\<lambda>(k, r). f k r) (order_by c t)) \<longleftrightarrow>
    map_option (f (key e)) (map_of t (key e)) = Some e"
  using assms by (force simp: map_of_eq_Some_iff)

lemmas store_defs =
  upsert_project_def load_project_def delete_project_def project_of_def project_row_def
  upsert_session_def load_session_def delete_session_def session_of_def session_row_def
  upsert_task_def load_task_def delete_task_def task_of_def task_row_def
  upsert_project_sandbox_def load_project_sandbox_def delete_project_sandbox_def sandbox_of_def
  sandbox_row_def

lemma in_list_projects:
  "wf_store s \<Longrightarrow> e \<in> set (list_projects s) \<longleftrightarrow> load_project (prj_project_id e) s = Some e"
  unfolding list_projects_def load_project_def
  by (rule in_rows) (auto simp: wf_store_def project_of_def)

lemma in_list_sessions:
  "wf_store s \<Longrightarrow> e \<in> set (list_sessions s) \<longleftrightarrow> load_session (ses_session_id e) s = Some e"
  unfolding list_sessions_def load_session_def
  by (rule in_rows) (auto simp: wf_store_def session_of_def split: prod.splits)

lemma in_list_tasks:
  "wf_store s \<Longrightarrow> e \<in> set (list_tasks s) \<longleftrightarrow> load_task (tsk_task_id e) s = Some e"
  unfolding list_tasks_def load_task_def
  by (rule in_rows) (auto simp: wf_store_def task_of_def split: prod.splits)

lemma in_list_project_sandboxes:
  "wf_store s \<Longrightarrow>
     e \<in> set (list_project_sandboxes s) \<longleftrightarrow> load_project_sandbox (sbx_project_id e) s = Some e"
  unfolding list_project_sandboxes_def load_project_sandbox_def
  by (rule in_rows) (auto simp: wf_store_def sandbox_of_def split: prod.splits)

lemmas table_simps = update_conv' delete_conv' distinct_update AList.distinct_delete
  in_list_projects in_list_sessions in_list_tasks in_list_project_sandboxes

interpretation projects: entity_table prj_project_id upsert_project load_project delete_project
  list_projects wf_store
  by unfold_locales
    (auto simp: store_defs wf_store_def table_simps project_id.expand)

interpretation entity_sessions: entity_table ses_session_id upsert_session load_session
  delete_session list_sessions wf_store
  by unfold_locales
    (auto simp: store_defs wf_store_def table_simps session_id.expand split: prod.splits)

interpretation tasks: entity_table tsk_task_id upsert_task load_task delete_task list_tasks wf_store
  by unfold_locales
    (auto simp: store_defs wf_store_def table_simps split: prod.splits)

interpretation sandboxes: entity_table sbx_project_id upsert_project_sandbox load_project_sandbox
  delete_project_sandbox list_project_sandboxes wf_store
  by unfold_locales
    (auto simp: store_defs wf_store_def table_simps project_id.expand split: prod.splits)

section \<open>Properties\<close>

text \<open>The checkpoint table as a keyed store: a saved checkpoint is found again, the others are
  untouched.\<close>

lemma load_after_save:
  assumes "to_json cp = Ok js" and "from_json js = Ok cp"
  shows "load_checkpoint from_json s (snd (save_checkpoint to_json now cp st)) =
    (if s = cp_session_id cp then Ok (Some cp) else load_checkpoint from_json s st)"
  using assms by (auto simp: load_checkpoint_def save_checkpoint_def update_conv' session_id.expand)

text \<open>A checkpoint that cannot be encoded is not written: the write reports the error and leaves
  the store, so the sink, which drops the error, keeps the previous checkpoint.\<close>

theorem failed_save_keeps_previous:
  assumes "to_json cp = Err e"
  shows "save_checkpoint to_json now cp st = (Err (Serde e), st) \<and>
    persist to_json now cp st = st"
  using assms by (simp add: save_checkpoint_def persist_def)

theorem failed_save_keeps_previous_witness:
  "persist (\<lambda>_. Err ''key must be a string'') ''now'' (checkpoint_full 7 demo_ledger)
     (store_of (create_schema empty_database)) = store_of (create_schema empty_database)"
  using failed_save_keeps_previous [of "\<lambda>_. Err ''key must be a string''"
      "checkpoint_full 7 demo_ledger" "''key must be a string''"] by simp

text \<open>Each entity table behaves as a map from identifiers to entities: an upsert replaces the
  entity with that identifier and no other, a delete removes exactly it, and the listing holds
  exactly the entities that load.\<close>

theorem entity_tables_are_maps:
  assumes "wf_store st"
  shows "set (list_projects (upsert_project p st)) =
      insert p {x \<in> set (list_projects st). prj_project_id x \<noteq> prj_project_id p} \<and>
    set (list_sessions (upsert_session s st)) =
      insert s {x \<in> set (list_sessions st). ses_session_id x \<noteq> ses_session_id s} \<and>
    set (list_tasks (upsert_task t st)) =
      insert t {x \<in> set (list_tasks st). tsk_task_id x \<noteq> tsk_task_id t} \<and>
    set (list_project_sandboxes (upsert_project_sandbox b st)) =
      insert b {x \<in> set (list_project_sandboxes st). sbx_project_id x \<noteq> sbx_project_id b} \<and>
    load_project i (delete_project j st) = (if i = j then None else load_project i st) \<and>
    load_session si (delete_session sj st) = (if si = sj then None else load_session si st) \<and>
    load_task ti (delete_task tj st) = (if ti = tj then None else load_task ti st) \<and>
    load_project_sandbox i (delete_project_sandbox j st) =
      (if i = j then None else load_project_sandbox i st)"
  using projects.entries_upsert [OF assms] entity_sessions.entries_upsert [OF assms]
    tasks.entries_upsert [OF assms] sandboxes.entries_upsert [OF assms]
  by (simp add: projects.load_remove entity_sessions.load_remove tasks.load_remove
      sandboxes.load_remove)

theorem entity_tables_are_maps_witness:
  "let p = \<lparr>prj_project_id = ProjectId ''p'', prj_directory = ''/w'', prj_created_at = ''t''\<rparr>;
       st = store_of (create_schema empty_database)
   in wf_store st \<and> set (list_projects (upsert_project p st)) = {p}"
proof -
  have wf: "wf_store (store_of (create_schema empty_database))"
    by (simp add: wf_store_def store_of_def create_schema_def empty_database_def)
  show ?thesis
    using wf entity_tables_are_maps [OF wf, of "\<lparr>prj_project_id = ProjectId ''p'',
        prj_directory = ''/w'', prj_created_at = ''t''\<rparr>"]
    by (simp add: Let_def list_projects_def order_by_def store_of_def create_schema_def
        empty_database_def)
qed

lemma sorted_listing:
  assumes "\<And>k r. col (f k r) = c r"
  shows "sorted (map col (map (\<lambda>(k, r). f k r) (order_by c t)))"
proof -
  have "map col (map (\<lambda>(k, r). f k r) (order_by c t)) = map (c \<circ> snd) (order_by c t)"
    using assms by auto
  then show ?thesis by (simp only: sorted_order_by)
qed

definition checkpoint_updated_at :: "checkpoint_store \<Rightarrow> session_id \<Rightarrow> string" where
  "checkpoint_updated_at st s = snd (the (map_of (st_checkpoints st) (sid s)))"

lemma updated_at_listing:
  assumes "wf_store st"
  shows "map (checkpoint_updated_at st) (list_checkpoint_sessions st) =
    rev (map (snd \<circ> snd) (order_by snd (rev (st_checkpoints st))))"
  using assms
  by (auto simp: list_checkpoint_sessions_def rev_map checkpoint_updated_at_def wf_store_def
      intro!: map_cong)

text \<open>Listings come in the documented order and lose nothing: checkpoint sessions most recently
  updated first, entities by creation time ascending, each a reordering of the rows.\<close>

theorem listings_ordered:
  assumes "wf_store st"
  shows "sorted (rev (map (checkpoint_updated_at st) (list_checkpoint_sessions st))) \<and>
   mset (list_checkpoint_sessions st) = mset (map (SessionId \<circ> fst) (st_checkpoints st)) \<and>
   sorted (map prj_created_at (list_projects st)) \<and>
   sorted (map ses_created_at (list_sessions st)) \<and>
   sorted (map tsk_created_at (list_tasks st)) \<and>
   sorted (map sbx_updated_at (list_project_sandboxes st)) \<and>
   length (list_projects st) = length (st_projects st) \<and>
   length (list_sessions st) = length (st_sessions st) \<and>
   length (list_tasks st) = length (st_tasks st)"
proof -
  have "sorted (map prj_created_at (list_projects st))"
    unfolding list_projects_def by (rule sorted_listing) (simp add: project_of_def)
  moreover have "sorted (map ses_created_at (list_sessions st))"
    unfolding list_sessions_def by (rule sorted_listing) (simp add: session_of_def split: prod.splits)
  moreover have "sorted (map tsk_created_at (list_tasks st))"
    unfolding list_tasks_def by (rule sorted_listing) (simp add: task_of_def split: prod.splits)
  moreover have "sorted (map sbx_updated_at (list_project_sandboxes st))"
    unfolding list_project_sandboxes_def
    by (rule sorted_listing) (simp add: sandbox_of_def split: prod.splits)
  moreover have "mset (list_checkpoint_sessions st) = mset (map (SessionId \<circ> fst) (st_checkpoints st))"
    by (simp add: list_checkpoint_sessions_def)
  ultimately show ?thesis
    by (simp add: updated_at_listing [OF assms] sorted_order_by list_projects_def list_sessions_def
        list_tasks_def order_by_def)
qed

theorem listings_ordered_witness:
  "sorted (rev (map (checkpoint_updated_at \<lparr>st_checkpoints = [(''a'', ''{}'', ''1''), (''b'', ''{}'', ''2'')],
      st_projects = [], st_sessions = [], st_tasks = [], st_sandboxes = []\<rparr>)
    (list_checkpoint_sessions \<lparr>st_checkpoints = [(''a'', ''{}'', ''1''), (''b'', ''{}'', ''2'')],
      st_projects = [], st_sessions = [], st_tasks = [], st_sandboxes = []\<rparr>)))"
  using listings_ordered [of "\<lparr>st_checkpoints = [(''a'', ''{}'', ''1''), (''b'', ''{}'', ''2'')],
      st_projects = [], st_sessions = [], st_tasks = [], st_sandboxes = []\<rparr>"]
  by (simp add: wf_store_def)

text \<open>Opening a database written before the entity tables existed carries every legacy
  checkpoint row into the checkpoint table, frees the name for an empty session table, keeps the
  other tables, and opening it again changes nothing.\<close>

theorem legacy_migration_preserves:
  assumes "db_sessions db = Some (LegacySessions legacy)"
    and "fst ` set legacy \<inter> fst ` set (case db_checkpoints db of None \<Rightarrow> [] | Some t \<Rightarrow> t) = {}"
  shows "fst (store_init db) = Ok () \<and>
    db_checkpoints (snd (store_init db)) =
      Some ((case db_checkpoints db of None \<Rightarrow> [] | Some t \<Rightarrow> t) @ legacy) \<and>
    db_sessions (snd (store_init db)) = Some (EntitySessions []) \<and>
    store_init (snd (store_init db)) = (Ok (), snd (store_init db))"
  using assms
  by (simp add: store_init_def migrate_legacy_checkpoint_table_def mig_create_def mig_insert_def
      mig_drop_def create_schema_def Let_def)

theorem legacy_migration_preserves_witness:
  "db_checkpoints (snd (store_init
      (empty_database\<lparr>db_sessions := Some (LegacySessions [(''s'', ''{}'', ''t'')])\<rparr>)))
    = Some [(''s'', ''{}'', ''t'')]"
  using legacy_migration_preserves
    [of "empty_database\<lparr>db_sessions := Some (LegacySessions [(''s'', ''{}'', ''t'')])\<rparr>"
      "[(''s'', ''{}'', ''t'')]"]
  by (simp add: empty_database_def)

text \<open>The migration is not restartable: its statements commit one by one, and if the process
  stops after the rows were copied and before the old table was dropped, every later open fails
  with a violated primary key and never gets past it.\<close>

theorem interrupted_migration_blocks_open:
  assumes "db_sessions db = Some (LegacySessions legacy)" and "legacy \<noteq> []"
    and copied: "mig_insert legacy (mig_create db) = (Ok (), db')"
  shows "store_init db' =
    (Err (Sqlite ''UNIQUE constraint failed: checkpoints.session_id''), db')"
proof -
  from copied have db': "db_sessions db' = Some (LegacySessions legacy)"
      "\<exists>t. db_checkpoints db' = Some (t @ legacy)"
    using assms(1) by (auto simp: mig_insert_def mig_create_def Let_def split: if_splits)
  moreover have "fst ` set legacy \<inter> fst ` set (t @ legacy) \<noteq> {}" for t :: "checkpoint_row table"
    using assms(2) by (cases legacy) auto
  ultimately show ?thesis
    by (auto simp del: set_append simp: store_init_def migrate_legacy_checkpoint_table_def
        mig_create_def mig_insert_def Let_def)
qed

theorem interrupted_migration_blocks_open_witness:
  "fst (store_init (snd (mig_insert [(''s'', ''{}'', ''t'')] (mig_create
      (empty_database\<lparr>db_sessions := Some (LegacySessions [(''s'', ''{}'', ''t'')])\<rparr>)))))
    = Err (Sqlite ''UNIQUE constraint failed: checkpoints.session_id'')"
proof -
  let ?db = "empty_database\<lparr>db_sessions := Some (LegacySessions [(''s'', ''{}'', ''t'')])\<rparr>"
  let ?db' = "snd (mig_insert [(''s'', ''{}'', ''t'')] (mig_create ?db))"
  have "mig_insert [(''s'', ''{}'', ''t'')] (mig_create ?db) = (Ok (), ?db')"
    by (simp add: mig_insert_def mig_create_def empty_database_def Let_def)
  from interrupted_migration_blocks_open [OF _ _ this] show ?thesis by simp
qed

end
