(* ===== verification/Workflow_Model.thy ===== *)
theory Workflow_Model
  imports Harness_Types "HOL-Library.Sublist"
begin

text \<open>
  The data of the workflow subsystem, \<open>crates/goble-workflow/src/lib.rs\<close>: workflows, steps and
  triggers, the status log of a run, the journal entry of the host, and the step identifier
  \<open>slug\<close> derives from a phase title, with its normal form.
\<close>

section \<open>Workflows and runs\<close>

datatype workflow_id = WorkflowId (wid: string)
datatype step_id = StepId (stid: string)

datatype trigger = TrManual | TrSchedule string | TrEvent string

record step =
  step_id :: step_id
  step_name :: string

definition step_new :: "string \<Rightarrow> string \<Rightarrow> step" where
  "step_new i name = \<lparr>step_id = StepId i, step_name = name\<rparr>"

record workflow =
  wf_id :: workflow_id
  wf_name :: string
  wf_steps :: "step list"
  wf_trigger :: trigger
  wf_script :: "string option"

text \<open>
  The payload of \<open>WorkflowError::Cron\<close> is kept as the arguments of its \<open>format!\<close> call: the
  expression and its number of fields, or the expression and the parser's message.
\<close>

datatype cron_message = FieldCount string nat | CronSyntax string string

datatype workflow_error =
    NoSteps workflow_id
  | DuplicateStepId step_id
  | ScriptError string
  | CronError cron_message

datatype step_outcome = OutSucceeded | OutFailed string

datatype step_status = StepSkipped | StepSucceeded | StepFailed string

datatype run_status = RunRunning | RunSucceeded | RunFailed string

record step_execution =
  se_index :: nat
  se_step_id :: step_id
  se_name :: string
  se_status :: step_status
  se_started_at :: timestamp
  se_finished_at :: "timestamp option"

record workflow_run =
  wr_workflow_id :: workflow_id
  wr_status :: run_status
  wr_steps :: "step_execution list"
  wr_started_at :: timestamp
  wr_finished_at :: "timestamp option"
  wr_output :: "json option"
  wr_log :: "string list"

record workflow_host_request =
  req_seq :: u64
  req_request_id :: string
  req_workflow_id :: workflow_id
  req_trigger :: trigger
  req_payload :: json
  req_submitted_at :: timestamp

definition workflow_host_request_new ::
  "timestamp \<Rightarrow> u64 \<Rightarrow> string \<Rightarrow> workflow_id \<Rightarrow> trigger \<Rightarrow> json \<Rightarrow> workflow_host_request"
where
  "workflow_host_request_new now seq rid w t payload =
     \<lparr>req_seq = seq, req_request_id = rid, req_workflow_id = w, req_trigger = t,
      req_payload = payload, req_submitted_at = now\<rparr>"

definition workflow_new :: "workflow_id \<Rightarrow> string \<Rightarrow> workflow" where
  "workflow_new i name =
     \<lparr>wf_id = i, wf_name = name, wf_steps = [], wf_trigger = TrManual, wf_script = None\<rparr>"

definition with_steps :: "step list \<Rightarrow> workflow \<Rightarrow> workflow" where
  "with_steps steps w = w\<lparr>wf_steps := steps\<rparr>"

definition with_step :: "step \<Rightarrow> workflow \<Rightarrow> workflow" where
  "with_step s w = w\<lparr>wf_steps := wf_steps w @ [s]\<rparr>"

definition with_trigger :: "trigger \<Rightarrow> workflow \<Rightarrow> workflow" where
  "with_trigger t w = w\<lparr>wf_trigger := t\<rparr>"

section \<open>Slugs\<close>

definition ascii_upper :: "char \<Rightarrow> bool" where
  "ascii_upper c \<longleftrightarrow> 65 \<le> (of_char c :: nat) \<and> (of_char c :: nat) \<le> 90"

definition ascii_lower :: "char \<Rightarrow> bool" where
  "ascii_lower c \<longleftrightarrow> 97 \<le> (of_char c :: nat) \<and> (of_char c :: nat) \<le> 122"

definition ascii_digit :: "char \<Rightarrow> bool" where
  "ascii_digit c \<longleftrightarrow> 48 \<le> (of_char c :: nat) \<and> (of_char c :: nat) \<le> 57"

definition ascii_alphabetic :: "char \<Rightarrow> bool" where
  "ascii_alphabetic c \<longleftrightarrow> ascii_upper c \<or> ascii_lower c"

definition ascii_alphanumeric :: "char \<Rightarrow> bool" where
  "ascii_alphanumeric c \<longleftrightarrow> ascii_alphabetic c \<or> ascii_digit c"

definition to_ascii_lowercase :: "char \<Rightarrow> char" where
  "to_ascii_lowercase c = (if ascii_upper c then char_of ((of_char c :: nat) + 32) else c)"

text \<open>
  \<open>slug_loop rest out dash\<close> is the loop of \<open>slug\<close> with its two variables. The code walks
  characters, the model bytes: every byte of a character outside ASCII is at least 128, so it is
  treated as the character is.
\<close>

fun slug_loop :: "string \<Rightarrow> string \<Rightarrow> bool \<Rightarrow> string" where
  "slug_loop [] out dash = out"
| "slug_loop (ch # s) out dash =
     (if ascii_alphanumeric ch
      then slug_loop s
        ((if dash \<and> out \<noteq> [] then out @ ''-'' else out) @ [to_ascii_lowercase ch]) False
      else slug_loop s out True)"

definition slug :: "string \<Rightarrow> string" where
  "slug title = (let out = slug_loop title [] False in if out = [] then ''phase'' else out)"

subsection \<open>The normal form of a slug\<close>

definition slug_char :: "char \<Rightarrow> bool" where
  "slug_char c \<longleftrightarrow> ascii_lower c \<or> ascii_digit c"

text \<open>
  The automaton of slugs: words of lower-case letters and digits with single dashes between
  them. The flag says whether the character before was such a letter or digit.
\<close>

fun slug_form :: "bool \<Rightarrow> string \<Rightarrow> bool" where
  "slug_form after [] = after"
| "slug_form after (c # s) =
     (if slug_char c then slug_form True s else c = CHR ''-'' \<and> after \<and> slug_form False s)"

lemma slug_char_lowercase: "ascii_alphanumeric c \<Longrightarrow> slug_char (to_ascii_lowercase c)"
  by (auto simp: ascii_alphanumeric_def ascii_alphabetic_def slug_char_def to_ascii_lowercase_def
      ascii_upper_def ascii_lower_def ascii_digit_def)

lemma slug_char_alphanumeric:
  "slug_char c \<Longrightarrow> ascii_alphanumeric c \<and> to_ascii_lowercase c = c"
  by (auto simp: ascii_alphanumeric_def ascii_alphabetic_def slug_char_def to_ascii_lowercase_def
      ascii_upper_def ascii_lower_def ascii_digit_def)

lemma dash_not_alphanumeric [simp]:
  "\<not> ascii_alphanumeric CHR ''-''" "\<not> slug_char CHR ''-''"
  by (simp_all add: ascii_alphanumeric_def ascii_alphabetic_def slug_char_def
      ascii_upper_def ascii_lower_def ascii_digit_def)

lemma slug_form_append: "slug_form a xs \<Longrightarrow> slug_form True ys \<Longrightarrow> slug_form a (xs @ ys)"
  by (induction a xs rule: slug_form.induct) (auto split: if_splits)

lemma slug_loop_form:
  "out = [] \<or> slug_form False out \<Longrightarrow>
   slug_loop s out dash = [] \<or> slug_form False (slug_loop s out dash)"
proof (induction s out dash rule: slug_loop.induct)
  case (2 ch s out dash)
  show ?case
  proof (cases "ascii_alphanumeric ch")
    case True
    then have c: "slug_char (to_ascii_lowercase ch)" by (rule slug_char_lowercase)
    have "slug_form False ((if dash \<and> out \<noteq> [] then out @ ''-'' else out) @ [to_ascii_lowercase ch])"
      using 2(3) c slug_form_append [of False out "''-'' @ [to_ascii_lowercase ch]"]
        slug_form_append [of False out "[to_ascii_lowercase ch]"]
      by (cases "out = []") auto
    with 2(1) True show ?thesis by simp
  next
    case False
    with 2 show ?thesis by simp
  qed
qed simp

lemma slug_form_slug: "slug_form False (slug title)"
proof -
  have "slug_form False ''phase''"
    by (simp add: slug_char_def ascii_lower_def)
  moreover have "slug_loop title [] False = [] \<or> slug_form False (slug_loop title [] False)"
    by (rule slug_loop_form) simp
  ultimately show ?thesis unfolding slug_def Let_def by presburger
qed

lemma slug_loop_fixed:
  "out \<noteq> [] \<Longrightarrow> slug_form (\<not> dash) s \<Longrightarrow>
   slug_loop s out dash = (if dash then out @ ''-'' @ s else out @ s)"
  by (induction s out dash rule: slug_loop.induct)
    (auto simp: slug_char_alphanumeric split: if_splits)

lemma slug_form_fixed: "slug_form False s \<Longrightarrow> slug s = s"
  by (cases s) (auto simp: slug_def slug_loop_fixed slug_char_alphanumeric split: if_splits)

lemma slug_form_set: "slug_form a s \<Longrightarrow> set s \<subseteq> {c. slug_char c} \<union> {CHR ''-''}"
  by (induction a s rule: slug_form.induct) (auto split: if_splits)

lemma slug_form_last: "slug_form a s \<Longrightarrow> s \<noteq> [] \<Longrightarrow> last s \<noteq> CHR ''-''"
  by (induction a s rule: slug_form.induct) (auto split: if_splits)

lemma slug_form_hd: "slug_form False s \<Longrightarrow> s \<noteq> [] \<and> hd s \<noteq> CHR ''-''"
  by (cases s) (auto split: if_splits)

lemma slug_form_no_double: "slug_form a s \<Longrightarrow> \<not> sublist ''--'' s"
proof (induction a s rule: slug_form.induct)
  case (2 after c s)
  moreover have "\<not> prefix ''--'' (c # s)"
    using 2(3) by (cases s) (auto split: if_splits)
  ultimately show ?case by (auto simp: sublist_Cons_right split: if_splits)
qed simp

text \<open>A step identifier derived from a phase title is never empty, consists of lower-case
letters, digits and dashes, neither starts nor ends with a dash, has no two dashes in a row, and
deriving an identifier from it again changes nothing.\<close>

theorem slug_normal_form:
  "slug t \<noteq> [] \<and> set (slug t) \<subseteq> {c. slug_char c} \<union> {CHR ''-''} \<and>
   hd (slug t) \<noteq> CHR ''-'' \<and> last (slug t) \<noteq> CHR ''-'' \<and> \<not> sublist ''--'' (slug t) \<and>
   slug (slug t) = slug t"
proof -
  note form = slug_form_slug [of t]
  note hd = slug_form_hd [OF form] and set = slug_form_set [OF form]
    and double = slug_form_no_double [OF form] and fixed = slug_form_fixed [OF form]
  from hd have "last (slug t) \<noteq> CHR ''-''" using slug_form_last [OF form] by simp
  with hd set double fixed show ?thesis by blast
qed

end
