(* ===== verification/Daemon_Protocol.thy ===== *)
theory Daemon_Protocol
  imports Harness_Types Workflow_Model
begin

text \<open>
  The wire between a client and the daemon, \<open>crates/goble-daemon-protocol/src/lib.rs\<close>, and the
  mapping of harness events into it, \<open>crates/goble-daemon/src/state/events.rs\<close>.
\<close>

section \<open>Requests, events, frames\<close>

datatype daemon_request =
    RunHarness harness_turn
  | Resume session_id string
  | ResumeCommand session_id command_decision
  | Cancel session_id
  | ListHarnesses
  | Snapshot
  | Rewind session_id nat
  | Fork session_id nat session_id
  | Replay session_id nat
  | Checkpoints session_id
  | Select session_id nat
  | Apply session_id nat
  | Release session_id nat
  | Discard session_id nat
  | RunWorkflow workflow_host_request

datatype daemon_event =
    DAssistantDelta session_id string
  | DToolCallStarted session_id string string json
  | DToolCallFinished session_id string string
  | DToolCallError session_id string string
  | DAskUser session_id string "string list"
  | DCommandProposed session_id string "string list" string
  | DSubAgentSpawned session_id string string string string string bool
  | DSubAgentProgress session_id string string string string u32 u32 u64 u64
  | DSubAgentFinished session_id string string string "string option" "string option"
      u64 u32 u32 u64
  | DMissionUpdated session_id string string
  | DTokenUsage session_id string u64 "u64 option" u64
  | DReasoningStarted session_id nat string
  | DReasoningDelta session_id string
  | DReasoningDone session_id nat string string string
  | DDone session_id
  | DError session_id string
  | DTraceStarted session_id string project_id medium_id
  | DTraceFinished session_id string string project_id medium_id

datatype daemon_message = MRequest daemon_request | MEvent daemon_event

text \<open>
  Framing, over the JSON printer and parser of serde: a frame is one line, and the reader trims
  the line it is given.
\<close>

definition to_line :: "(daemon_message \<Rightarrow> string) \<Rightarrow> daemon_message \<Rightarrow> string" where
  "to_line print m = print m @ [CHR 0x0A]"

definition from_line ::
  "(string \<Rightarrow> (string, daemon_message) result) \<Rightarrow> string \<Rightarrow> (string, daemon_message) result" where
  "from_line parse line = parse (trim line)"

section \<open>The mapping of harness events\<close>

fun map_event :: "harness_server_event \<Rightarrow> daemon_event option" where
  "map_event HReady = None"
| "map_event (HToolList tools) = None"
| "map_event (HCheckpoint s snap) = None"
| "map_event (HAssistantDelta s delta) = Some (DAssistantDelta s delta)"
| "map_event (HToolCallStarted s i name args) = Some (DToolCallStarted s i name args)"
| "map_event (HToolCallFinished s i res) = Some (DToolCallFinished s i res)"
| "map_event (HToolCallError s i message) = Some (DToolCallError s i message)"
| "map_event (HAskUser s question replies) = Some (DAskUser s question replies)"
| "map_event (HCommandProposed s i candidates cwd) = Some (DCommandProposed s i candidates cwd)"
| "map_event (HSubAgentSpawned s chat sub typ desc call bg) =
     Some (DSubAgentSpawned s chat sub typ desc call bg)"
| "map_event (HSubAgentProgress s chat sub status activity turns calls tokens ms) =
     Some (DSubAgentProgress s chat sub status activity turns calls tokens ms)"
| "map_event (HSubAgentFinished s chat sub status out err ms turns calls tokens) =
     Some (DSubAgentFinished s chat sub status out err ms turns calls tokens)"
| "map_event (HMissionUpdated s m status) = Some (DMissionUpdated s m status)"
| "map_event (HTokenUsage s chat input cached output) = Some (DTokenUsage s chat input cached output)"
| "map_event (HReasoningStarted s n mode) = Some (DReasoningStarted s n mode)"
| "map_event (HReasoningDelta s delta) = Some (DReasoningDelta s delta)"
| "map_event (HReasoningDone s n mode content decision) =
     Some (DReasoningDone s n mode content decision)"
| "map_event (HDone s) = Some (DDone s)"
| "map_event (HError s message) = Some (DError s message)"

text \<open>\<open>filter_map(map_event)\<close>.\<close>

definition mirror :: "harness_server_event list \<Rightarrow> daemon_event list" where
  "mirror evs = List.map_filter map_event evs"

lemma mirror_simps [simp]:
  "mirror [] = []"
  "mirror (e # evs) = (case map_event e of None \<Rightarrow> mirror evs | Some d \<Rightarrow> d # mirror evs)"
  by (simp_all add: mirror_def map_filter_simps split: option.split)

lemma mirror_append [simp]: "mirror (a @ b) = mirror a @ mirror b"
  by (induction a) (auto split: option.split)

text \<open>The harness event a wire event mirrors; trace events mirror none.\<close>

fun unmap_event :: "daemon_event \<Rightarrow> harness_server_event option" where
  "unmap_event (DAssistantDelta s delta) = Some (HAssistantDelta s delta)"
| "unmap_event (DToolCallStarted s i name args) = Some (HToolCallStarted s i name args)"
| "unmap_event (DToolCallFinished s i res) = Some (HToolCallFinished s i res)"
| "unmap_event (DToolCallError s i message) = Some (HToolCallError s i message)"
| "unmap_event (DAskUser s question replies) = Some (HAskUser s question replies)"
| "unmap_event (DCommandProposed s i candidates cwd) = Some (HCommandProposed s i candidates cwd)"
| "unmap_event (DSubAgentSpawned s chat sub typ desc call bg) =
     Some (HSubAgentSpawned s chat sub typ desc call bg)"
| "unmap_event (DSubAgentProgress s chat sub status activity turns calls tokens ms) =
     Some (HSubAgentProgress s chat sub status activity turns calls tokens ms)"
| "unmap_event (DSubAgentFinished s chat sub status out err ms turns calls tokens) =
     Some (HSubAgentFinished s chat sub status out err ms turns calls tokens)"
| "unmap_event (DMissionUpdated s m status) = Some (HMissionUpdated s m status)"
| "unmap_event (DTokenUsage s chat input cached output) = Some (HTokenUsage s chat input cached output)"
| "unmap_event (DReasoningStarted s n mode) = Some (HReasoningStarted s n mode)"
| "unmap_event (DReasoningDelta s delta) = Some (HReasoningDelta s delta)"
| "unmap_event (DReasoningDone s n mode content decision) =
     Some (HReasoningDone s n mode content decision)"
| "unmap_event (DDone s) = Some (HDone s)"
| "unmap_event (DError s message) = Some (HError s message)"
| "unmap_event (DTraceStarted s trace p m) = None"
| "unmap_event (DTraceFinished s trace status p m) = None"

lemma unmap_map_event: "map_event e = Some d \<Longrightarrow> unmap_event d = Some e"
  by (cases e) auto

text \<open>The daemon's event mapping loses nothing it keeps: two harness events that reach the
client as the same wire event are the same event, and only the discovery frames and the
checkpoint frame are dropped.\<close>

theorem map_event_faithful:
  "(map_event a = Some d \<longrightarrow> map_event b = Some d \<longrightarrow> a = b) \<and>
   (map_event a = None \<longleftrightarrow>
      a = HReady \<or> (\<exists>tools. a = HToolList tools) \<or> (\<exists>s snap. a = HCheckpoint s snap))"
proof
  show "map_event a = Some d \<longrightarrow> map_event b = Some d \<longrightarrow> a = b"
    using unmap_map_event by (metis option.inject)
  show "map_event a = None \<longleftrightarrow>
      a = HReady \<or> (\<exists>tools. a = HToolList tools) \<or> (\<exists>s snap. a = HCheckpoint s snap)"
    by (cases a) simp_all
qed

theorem map_event_faithful_witness:
  "map_event (HDone (SessionId ''s'')) = Some (DDone (SessionId ''s'')) \<and>
   HDone (SessionId ''s'') = HDone (SessionId ''s'') \<and> map_event HReady = None"
  using map_event_faithful [of "HDone (SessionId ''s'')" "DDone (SessionId ''s'')"
      "HDone (SessionId ''s'')"]
  by simp

end
