(* ===== verification/Workflow_Script.thy ===== *)
theory Workflow_Script
  imports Workflow_Model
begin

text \<open>
  Script workflows, \<open>crates/goble-workflow/src/script.rs\<close>: the header check of a script body, the
  scanner that rejects clock and blocking calls, the host functions a script calls (\<open>agent\<close>,
  \<open>parallel\<close>, \<open>phase\<close>, \<open>log\<close>, \<open>budget\<close>, \<open>complete\<close>, \<open>json_encode\<close>), the per-run state with its
  agent budget, and the settlement of a run.

  The Rhai interpreter, serde and JSON printing are third-party code: they are the fields of the
  record \<open>rhai\<close>. Evaluating a compiled script is a tree of host calls: each node is the next
  host call and what the script does with its reply. Every path of the tree is finite, because
  the engine caps the operations of an evaluation.
\<close>

section \<open>Data\<close>

definition DEFAULT_BUDGET :: u32 where
  "DEFAULT_BUDGET = 128"

record phase_meta =
  pm_title :: string
  pm_detail :: "string option"

record meta =
  meta_name :: string
  meta_description :: string
  meta_when_to_use :: "string option"
  meta_phases :: "phase_meta list"

record agent_opts =
  ao_prompt :: string
  ao_label :: "string option"
  ao_phase :: "string option"
  ao_agent_type :: "string option"

definition agent_opts_default :: agent_opts where
  "agent_opts_default = \<lparr>ao_prompt = [], ao_label = None, ao_phase = None, ao_agent_type = None\<rparr>"

record agent_outcome =
  out_agent_id :: string
  out_success :: bool
  out_output :: string
  out_tokens_used :: u64
  out_duration_ms :: u64

text \<open>A host: one agent call and one progress line, over its own state.\<close>

record 'h script_host =
  sh_agent :: "'h \<Rightarrow> agent_opts \<Rightarrow> agent_outcome \<times> 'h"
  sh_log :: "'h \<Rightarrow> string \<Rightarrow> 'h"

record agent_call =
  ac_label :: string
  ac_phase :: "string option"
  ac_prompt :: string
  ac_success :: bool
  ac_output :: string
  ac_tokens_used :: u64
  ac_duration_ms :: u64

record phase_run =
  ph_title :: string
  ph_status :: step_status
  ph_started_at :: timestamp
  ph_finished_at :: "timestamp option"

record script_run =
  sr_meta :: meta
  sr_status :: run_status
  sr_phases :: "phase_run list"
  sr_output :: "json option"
  sr_log :: "string list"
  sr_calls :: "agent_call list"
  sr_started_at :: timestamp
  sr_finished_at :: timestamp

record validation_report =
  vr_meta :: meta
  vr_status :: run_status
  vr_phases :: "phase_run list"
  vr_calls :: nat

definition to_workflow_run :: "workflow_id \<Rightarrow> script_run \<Rightarrow> workflow_run" where
  "to_workflow_run w r =
     \<lparr>wr_workflow_id = w, wr_status = sr_status r,
      wr_steps = map (\<lambda>(index, ph).
        \<lparr>se_index = index, se_step_id = StepId (slug (ph_title ph)), se_name = ph_title ph,
         se_status = ph_status ph, se_started_at = ph_started_at ph,
         se_finished_at = (case ph_finished_at ph of Some t \<Rightarrow> Some t
           | None \<Rightarrow> Some (sr_finished_at r))\<rparr>) (enumerate 0 (sr_phases r)),
      wr_started_at = sr_started_at r, wr_finished_at = Some (sr_finished_at r),
      wr_output = sr_output r, wr_log = sr_log r\<rparr>"

section \<open>Script values and host calls\<close>

datatype rhai_value =
    RUnit
  | RBool bool
  | RInt int
  | RStr string
  | RArray "rhai_value list"
  | RMap "(string \<times> rhai_value) list"
  | ROther

datatype host_call =
    CallAgent string "(string \<times> rhai_value) list option"
  | CallParallel "rhai_value list"
  | CallPhase string
  | CallLog string
  | CallBudget
  | CallComplete rhai_value
  | CallJsonEncode rhai_value

text \<open>
  A host function returns a value, raises an error the script may catch (\<open>ErrorRuntime\<close>), or
  ends the evaluation (\<open>ErrorTerminated\<close>, which a script cannot catch).
\<close>

datatype host_reply = Reply rhai_value | RuntimeError string | Terminated

text \<open>
  An evaluation: it ends normally or with an uncaught error, leaving the value the script's
  scope has for \<open>meta\<close>, or it calls the host and goes on with the reply.
\<close>

datatype evaluation =
    Finished "rhai_value option"
  | Raised string "rhai_value option"
  | HostCall host_call "host_reply \<Rightarrow> evaluation"

record 'ast rhai =
  rhai_compile :: "string \<Rightarrow> (string, 'ast) result"
  rhai_eval :: "nat \<Rightarrow> 'ast \<Rightarrow> (string \<times> rhai_value) list \<Rightarrow> evaluation"
  rhai_from_dynamic :: "rhai_value \<Rightarrow> (string, json) result"
  rhai_to_dynamic :: "json \<Rightarrow> rhai_value option"
  json_to_string :: "json \<Rightarrow> string"
  meta_from_json :: "json \<Rightarrow> (string, meta) result"

section \<open>The scanner for clock and blocking calls\<close>

definition ident_char :: "char \<Rightarrow> bool" where
  "ident_char c \<longleftrightarrow> ascii_alphanumeric c \<or> c = CHR ''_''"

definition ident_start :: "char \<Rightarrow> bool" where
  "ident_start c \<longleftrightarrow> ascii_alphabetic c \<or> c = CHR ''_''"

definition ascii_whitespace :: "char \<Rightarrow> bool" where
  "ascii_whitespace c \<longleftrightarrow> (of_char c :: nat) \<in> {9, 10, 12, 13, 32}"

definition calls_forbidden :: "string \<Rightarrow> string \<Rightarrow> bool" where
  "calls_forbidden word rest \<longleftrightarrow>
     (word = ''sleep'' \<or> word = ''timestamp'') \<and>
     (case dropWhile ascii_whitespace rest of [] \<Rightarrow> False | c # _ \<Rightarrow> c = CHR ''('')"

lemma ident_start_char: "ident_start c \<Longrightarrow> ident_char c"
  by (auto simp: ident_start_def ident_char_def ascii_alphanumeric_def)

text \<open>
  The loop of \<open>forbidden_call\<close>: the list is what the byte index \<open>i\<close> has left of the source, the
  flag is \<open>in_string\<close>. The code's \<open>i += 2\<close> after a backslash may leave the index past the end,
  where the loop stops, as it does here on the empty list.
\<close>

function forbidden_scan :: "bool \<Rightarrow> string \<Rightarrow> string option" where
  "forbidden_scan in_string [] = None"
| "forbidden_scan in_string (c # s) =
     (if in_string then
        (if c = CHR 0x5C then forbidden_scan True (drop 1 s)
         else forbidden_scan (c \<noteq> CHR 0x22) s)
      else if c = CHR 0x22 then forbidden_scan True s
      else if c = CHR ''/'' \<and> s \<noteq> [] \<and> hd s = CHR ''/''
        then forbidden_scan False (dropWhile (\<lambda>b. b \<noteq> CHR 0x0A) (c # s))
      else if ident_start c then
        (let word = takeWhile ident_char (c # s); rest = dropWhile ident_char (c # s) in
         if calls_forbidden word rest then Some word else forbidden_scan False rest)
      else forbidden_scan False s)"
  by pat_completeness auto
termination
  by (relation "measure (\<lambda>(b, s). length s)")
    (auto simp: ident_start_char less_Suc_eq_le length_dropWhile_le)

declare forbidden_scan.simps [simp del]

definition forbidden_call :: "string \<Rightarrow> string option" where
  "forbidden_call source = forbidden_scan False source"

section \<open>The header of a script\<close>

definition stub_agent :: rhai_value where
  "stub_agent = RMap [(''agent_id'', RStr ''stub''), (''success'', RBool True),
     (''output'', RStr []), (''tokens_used'', RInt 0), (''duration_ms'', RInt 0)]"

text \<open>The host functions of \<open>stub_engine\<close>: every call is harmless.\<close>

fun stub_reply :: "host_call \<Rightarrow> rhai_value" where
  "stub_reply (CallAgent prompt opts) = stub_agent"
| "stub_reply (CallParallel calls) = RArray (map (\<lambda>_. stub_agent) calls)"
| "stub_reply (CallPhase title) = RUnit"
| "stub_reply (CallLog line) = RUnit"
| "stub_reply CallBudget = RMap []"
| "stub_reply (CallComplete v) = RUnit"
| "stub_reply (CallJsonEncode v) = RStr []"

primrec stub_eval :: "evaluation \<Rightarrow> rhai_value option" where
  "stub_eval (Finished m) = m"
| "stub_eval (Raised e m) = m"
| "stub_eval (HostCall c k) = stub_eval (k (Reply (stub_reply c)))"

definition starts_with :: "string \<Rightarrow> string \<Rightarrow> bool" where
  "starts_with pre s \<longleftrightarrow> take (length pre) s = pre"

definition meta_of :: "'ast rhai \<Rightarrow> string \<Rightarrow> (string, meta) result" where
  "meta_of R source =
     (case forbidden_call source of
        Some call \<Rightarrow> Err (call @ ''() is not available in workflow scripts: a run must be deterministic and must never block'')
      | None \<Rightarrow>
        (let head = trim_start source in
         if \<not> (starts_with ''let meta'' head \<or> starts_with ''const meta'' head
               \<or> starts_with ''export let meta'' head)
         then Err ''the script must start with `let meta = #{ name: ..., phases: [...] }`''
         else case rhai_compile R source of
             Err e \<Rightarrow> Err (''compile failed: '' @ e)
           | Ok ast \<Rightarrow>
             (case stub_eval (rhai_eval R 50000 ast []) of
                None \<Rightarrow> Err ''the script's `meta` map did not evaluate''
              | Some v \<Rightarrow>
                (case rhai_from_dynamic R v of
                   Err e \<Rightarrow> Err (''meta must be a map of plain values: '' @ e)
                 | Ok j \<Rightarrow>
                   (case meta_from_json R j of
                      Err e \<Rightarrow> Err (''meta is malformed: '' @ e)
                    | Ok m \<Rightarrow> Ok m)))))"

section \<open>The state of a run\<close>

record phase_state =
  ps_title :: string
  ps_started_at :: timestamp
  ps_finished_at :: "timestamp option"
  ps_status :: step_status

text \<open>
  The last field counts the readings of the clock: the model's clock is the function from the
  number of a reading to its value.
\<close>

record run_state =
  rs_started_at :: timestamp
  rs_budget :: u32
  rs_spent :: u32
  rs_log :: "string list"
  rs_calls :: "agent_call list"
  rs_phases :: "phase_state list"
  rs_open :: "nat option"
  rs_completed :: "json option"
  rs_failure :: "string option"
  rs_reads :: nat

type_synonym clock = "nat \<Rightarrow> timestamp"

definition run_state_new :: "timestamp \<Rightarrow> u32 \<Rightarrow> nat \<Rightarrow> run_state" where
  "run_state_new started budget reads =
     \<lparr>rs_started_at = started, rs_budget = budget, rs_spent = 0, rs_log = [], rs_calls = [],
      rs_phases = [], rs_open = None, rs_completed = None, rs_failure = None, rs_reads = reads\<rparr>"

definition clock_now :: "clock \<Rightarrow> run_state \<Rightarrow> timestamp \<times> run_state" where
  "clock_now clk st = (clk (rs_reads st), st\<lparr>rs_reads := Suc (rs_reads st)\<rparr>)"

definition close_phase :: "clock \<Rightarrow> step_status option \<Rightarrow> run_state \<Rightarrow> run_state" where
  "close_phase clk status st =
     (case rs_open st of
        None \<Rightarrow> st
      | Some index \<Rightarrow>
        (let (t, st) = clock_now clk (st\<lparr>rs_open := None\<rparr>);
             ph = rs_phases st ! index;
             ph = (case status of None \<Rightarrow> ph | Some s \<Rightarrow> ph\<lparr>ps_status := s\<rparr>)
         in st\<lparr>rs_phases := (rs_phases st)[index := ph\<lparr>ps_finished_at := Some t\<rparr>]\<rparr>))"

definition push_phase :: "clock \<Rightarrow> string \<Rightarrow> run_state \<Rightarrow> nat \<times> run_state" where
  "push_phase clk title st =
     (let (t, st) = clock_now clk st;
          st = st\<lparr>rs_phases := rs_phases st @
            [\<lparr>ps_title = title, ps_started_at = t, ps_finished_at = None,
              ps_status = StepSucceeded\<rparr>]\<rparr>;
          index = length (rs_phases st) - 1
      in (index, st\<lparr>rs_open := Some index\<rparr>))"

definition phase_status :: "clock \<Rightarrow> string \<Rightarrow> run_state \<Rightarrow> nat \<times> run_state" where
  "phase_status clk title st =
     (case rs_open st of
        Some index \<Rightarrow>
          (if ps_title (rs_phases st ! index) = title then (index, st)
           else push_phase clk title (close_phase clk None st))
      | None \<Rightarrow> push_phase clk title st)"

definition fail_here :: "clock \<Rightarrow> string \<Rightarrow> run_state \<Rightarrow> run_state" where
  "fail_here clk message st =
     (let st = (case rs_open st of Some _ \<Rightarrow> st | None \<Rightarrow> snd (phase_status clk ''Run'' st)) in
      case rs_open st of
        None \<Rightarrow> st
      | Some index \<Rightarrow>
        (if ps_status (rs_phases st ! index) = StepSucceeded
         then st\<lparr>rs_phases := (rs_phases st)[index :=
                (rs_phases st ! index)\<lparr>ps_status := StepFailed message\<rparr>]\<rparr>
         else st))"

fun to_step_status :: "run_status \<Rightarrow> step_status" where
  "to_step_status RunSucceeded = StepSucceeded"
| "to_step_status (RunFailed message) = StepFailed message"
| "to_step_status RunRunning = StepSucceeded"

definition settle_status :: "run_state \<Rightarrow> run_status" where
  "settle_status st =
     (case rs_failure st of
        Some failure \<Rightarrow> RunFailed failure
      | None \<Rightarrow>
        (case find (\<lambda>call. \<not> ac_success call) (rs_calls st) of
           Some first \<Rightarrow> RunFailed (ac_label first @ '': agent call failed'')
         | None \<Rightarrow> RunSucceeded))"

definition settle :: "clock \<Rightarrow> meta \<Rightarrow> timestamp \<Rightarrow> run_state \<Rightarrow> script_run" where
  "settle clk m finished_at st0 =
     (let st = close_phase clk None st0;
          status = settle_status st;
          phases = (if rs_phases st = []
            then [\<lparr>ps_title = (if trim (meta_name m) = [] then ''Run'' else meta_name m),
                   ps_started_at = rs_started_at st, ps_finished_at = Some finished_at,
                   ps_status = to_step_status status\<rparr>]
            else rs_phases st)
      in \<lparr>sr_meta = m, sr_status = status,
          sr_phases = map (\<lambda>ph. \<lparr>ph_title = ps_title ph, ph_status = ps_status ph,
            ph_started_at = ps_started_at ph, ph_finished_at = ps_finished_at ph\<rparr>) phases,
          sr_output = rs_completed st, sr_log = rs_log st, sr_calls = rs_calls st,
          sr_started_at = rs_started_at st, sr_finished_at = finished_at\<rparr>)"

section \<open>The host functions\<close>

fun option_string :: "rhai_value \<Rightarrow> string option" where
  "option_string (RStr s) = Some s"
| "option_string _ = None"

definition map_option_str :: "(string \<times> rhai_value) list \<Rightarrow> string \<Rightarrow> string option" where
  "map_option_str m key = Option.bind (map_of m key) option_string"

definition unwrap_or_default :: "string option \<Rightarrow> string" where
  "unwrap_or_default v = (case v of None \<Rightarrow> [] | Some s \<Rightarrow> s)"

definition opts_from :: "(string \<times> rhai_value) list \<Rightarrow> agent_opts" where
  "opts_from m =
     \<lparr>ao_prompt = unwrap_or_default (map_option_str m ''prompt''),
      ao_label = map_option_str m ''label'', ao_phase = map_option_str m ''phase'',
      ao_agent_type = map_option_str m ''agent_type''\<rparr>"

definition with_prompt :: "string \<Rightarrow> agent_opts \<Rightarrow> agent_opts" where
  "with_prompt prompt opts = opts\<lparr>ao_prompt := prompt\<rparr>"

text \<open>\<open>str::lines().next()\<close>: up to the first line feed, less a carriage return before it.\<close>

definition first_line :: "string \<Rightarrow> string" where
  "first_line s =
     (let line = takeWhile (\<lambda>c. c \<noteq> CHR 0x0A) s in
      if length line < length s \<and> line \<noteq> [] \<and> last line = CHR 0x0D then butlast line else line)"

definition outcome_map :: "agent_outcome \<Rightarrow> rhai_value" where
  "outcome_map oc =
     RMap [(''agent_id'', RStr (out_agent_id oc)), (''success'', RBool (out_success oc)),
       (''output'', RStr (out_output oc)), (''tokens_used'', RInt (sint (out_tokens_used oc))),
       (''duration_ms'', RInt (sint (out_duration_ms oc)))]"

definition budget_message :: "u32 \<Rightarrow> string" where
  "budget_message b =
     ''workflow budget exhausted: '' @ show_nat (unat b) @ '' agent calls allowed''"

definition record_call :: "clock \<Rightarrow> string \<Rightarrow> agent_opts \<Rightarrow> agent_outcome \<Rightarrow> run_state \<Rightarrow> run_state" where
  "record_call clk prompt opts outcome st =
     (let label = (case ao_label opts of Some l \<Rightarrow> l | None \<Rightarrow> first_line prompt);
          st = st\<lparr>rs_calls := rs_calls st @
            [\<lparr>ac_label = label, ac_phase = ao_phase opts, ac_prompt = prompt,
              ac_success = out_success outcome, ac_output = out_output outcome,
              ac_tokens_used = out_tokens_used outcome,
              ac_duration_ms = out_duration_ms outcome\<rparr>]\<rparr>
      in if out_success outcome then st else fail_here clk (''agent call failed: '' @ label) st)"

definition call_agent ::
  "clock \<Rightarrow> 'h script_host \<Rightarrow> string \<Rightarrow> agent_opts \<Rightarrow> run_state \<Rightarrow> 'h
   \<Rightarrow> host_reply \<times> run_state \<times> 'h"
where
  "call_agent clk host prompt opts0 st h =
     (let opts = with_prompt prompt opts0 in
      if rs_budget st \<le> rs_spent st then
        (let message = budget_message (rs_budget st) in
         (RuntimeError message, fail_here clk message (st\<lparr>rs_failure := Some message\<rparr>), h))
      else
        (let st = st\<lparr>rs_spent := rs_spent st + 1\<rparr>;
             st = (case ao_phase opts of None \<Rightarrow> st | Some ph \<Rightarrow> snd (phase_status clk ph st));
             (outcome, h) = sh_agent host h opts;
             st = record_call clk prompt opts outcome st
         in (Reply (outcome_map outcome), st, h)))"

fun parallel_opts :: "rhai_value \<Rightarrow> agent_opts" where
  "parallel_opts (RMap m) =
     with_prompt (unwrap_or_default (map_option_str m ''prompt'')) (opts_from m)"
| "parallel_opts v = agent_opts_default\<lparr>ao_prompt := unwrap_or_default (option_string v)\<rparr>"

fun reply_or_unit :: "host_reply \<Rightarrow> rhai_value" where
  "reply_or_unit (Reply v) = v"
| "reply_or_unit _ = RUnit"

fun call_parallel ::
  "clock \<Rightarrow> 'h script_host \<Rightarrow> rhai_value list \<Rightarrow> run_state \<Rightarrow> 'h
   \<Rightarrow> rhai_value list \<times> run_state \<times> 'h"
where
  "call_parallel clk host [] st h = ([], st, h)"
| "call_parallel clk host (call # calls) st h =
     (let opts = parallel_opts call;
          (r, st, h) = call_agent clk host (ao_prompt opts) opts st h;
          (vs, st, h) = call_parallel clk host calls st h
      in (reply_or_unit r # vs, st, h))"

definition budget_map :: "run_state \<Rightarrow> rhai_value" where
  "budget_map st =
     RMap [(''total'', RInt (uint (rs_budget st))), (''spent'', RInt (uint (rs_spent st))),
       (''reserved'', RInt 0),
       (''remaining'', RInt (uint (saturating_sub (rs_budget st) (rs_spent st))))]"

text \<open>The functions \<open>build_engine\<close> registers.\<close>

fun host_fn ::
  "'ast rhai \<Rightarrow> clock \<Rightarrow> 'h script_host \<Rightarrow> host_call \<Rightarrow> run_state \<Rightarrow> 'h
   \<Rightarrow> host_reply \<times> run_state \<times> 'h"
where
  "host_fn R clk host (CallAgent prompt None) st h =
     call_agent clk host prompt agent_opts_default st h"
| "host_fn R clk host (CallAgent prompt (Some m)) st h =
     call_agent clk host prompt (opts_from m) st h"
| "host_fn R clk host (CallParallel calls) st h =
     (let (vs, st, h) = call_parallel clk host calls st h in (Reply (RArray vs), st, h))"
| "host_fn R clk host (CallPhase title) st h = (Reply RUnit, snd (phase_status clk title st), h)"
| "host_fn R clk host (CallLog line) st h =
     (Reply RUnit, st\<lparr>rs_log := rs_log st @ [line]\<rparr>, sh_log host h line)"
| "host_fn R clk host CallBudget st h = (Reply (budget_map st), st, h)"
| "host_fn R clk host (CallComplete v) st h =
     (Terminated,
      st\<lparr>rs_completed := (case rhai_from_dynamic R v of Err _ \<Rightarrow> None | Ok j \<Rightarrow> Some j)\<rparr>, h)"
| "host_fn R clk host (CallJsonEncode v) st h =
     (Reply (RStr (case rhai_from_dynamic R v of Err _ \<Rightarrow> ''null'' | Ok j \<Rightarrow> json_to_string R j)),
      st, h)"

section \<open>Running a script\<close>

text \<open>
  Evaluation against the real host functions. The first component is the error \<open>run\<close> matches
  on: nothing for a normal end and for \<open>ErrorTerminated\<close>.
\<close>

primrec run_eval ::
  "'ast rhai \<Rightarrow> clock \<Rightarrow> 'h script_host \<Rightarrow> evaluation \<Rightarrow> run_state \<Rightarrow> 'h
   \<Rightarrow> string option \<times> run_state \<times> 'h"
where
  "run_eval R clk host (Finished m) st h = (None, st, h)"
| "run_eval R clk host (Raised e m) st h = (Some e, st, h)"
| "run_eval R clk host (HostCall c k) st h =
     (case host_fn R clk host c st h of
        (Terminated, st, h) \<Rightarrow> (None, st, h)
      | (Reply v, st, h) \<Rightarrow> run_eval R clk host (k (Reply v)) st h
      | (RuntimeError e, st, h) \<Rightarrow> run_eval R clk host (k (RuntimeError e)) st h)"

record script_engine =
  eng_budget :: u32

definition script_engine_new :: script_engine where
  "script_engine_new = \<lparr>eng_budget = DEFAULT_BUDGET\<rparr>"

definition with_budget :: "u32 \<Rightarrow> script_engine \<Rightarrow> script_engine" where
  "with_budget budget eng = eng\<lparr>eng_budget := max 1 (min budget 1024)\<rparr>"

definition note_failure :: "string option \<Rightarrow> run_state \<Rightarrow> run_state" where
  "note_failure err st =
     (case (err, rs_failure st) of (Some e, None) \<Rightarrow> st\<lparr>rs_failure := Some e\<rparr> | _ \<Rightarrow> st)"

definition script_engine_run ::
  "'ast rhai \<Rightarrow> clock \<Rightarrow> script_engine \<Rightarrow> string \<Rightarrow> json \<Rightarrow> 'h script_host \<Rightarrow> 'h
   \<Rightarrow> (string, script_run) result \<times> 'h"
where
  "script_engine_run R clk eng source args host h =
     (case meta_of R source of
        Err e \<Rightarrow> (Err e, h)
      | Ok m \<Rightarrow>
        (case rhai_compile R source of
           Err e \<Rightarrow> (Err (''compile failed: '' @ e), h)
         | Ok ast \<Rightarrow>
           (let scope = [(''args'', case rhai_to_dynamic R args of None \<Rightarrow> RUnit | Some v \<Rightarrow> v)];
                (err, st, h) = run_eval R clk host (rhai_eval R 5000000 ast scope)
                  (run_state_new (clk 0) (eng_budget eng) 1) h;
                (finished_at, st) = clock_now clk (close_phase clk None (note_failure err st))
            in (Ok (settle clk m finished_at st), h))))"

text \<open>The host of \<open>validate\<close>: its state is the number of calls it answered.\<close>

definition canned_host :: "u32 script_host" where
  "canned_host =
     \<lparr>sh_agent = (\<lambda>calls _.
        (\<lparr>out_agent_id = ''validate-'' @ show_nat (unat (calls + 1)), out_success = True,
          out_output = ''ok'', out_tokens_used = 0, out_duration_ms = 0\<rparr>, calls + 1)),
      sh_log = (\<lambda>calls _. calls)\<rparr>"

definition script_validate ::
  "'ast rhai \<Rightarrow> clock \<Rightarrow> script_engine \<Rightarrow> string \<Rightarrow> json \<Rightarrow> (string, validation_report) result"
where
  "script_validate R clk eng source args =
     (case fst (script_engine_run R clk eng source args canned_host 0) of
        Err e \<Rightarrow> Err e
      | Ok run \<Rightarrow> Ok \<lparr>vr_meta = sr_meta run, vr_status = sr_status run,
          vr_phases = sr_phases run, vr_calls = length (sr_calls run)\<rparr>)"

section \<open>The invariant of a run\<close>

text \<open>
  Phases: the open phase is in range and is the one phase without a finish time, and no phase is
  skipped. Verdict: some phase failed exactly when a failure or a failed call was recorded.
  Budget: every agent call spent one unit of the budget and the budget is not exceeded.
\<close>

definition phases_ok :: "run_state \<Rightarrow> bool" where
  "phases_ok st \<longleftrightarrow>
     (\<forall>i. rs_open st = Some i \<longrightarrow> i < length (rs_phases st)) \<and>
     (\<forall>i < length (rs_phases st).
        ps_finished_at (rs_phases st ! i) = None \<longleftrightarrow> rs_open st = Some i) \<and>
     (\<forall>i < length (rs_phases st). ps_status (rs_phases st ! i) \<noteq> StepSkipped)"

definition phase_failed :: "run_state \<Rightarrow> bool" where
  "phase_failed st \<longleftrightarrow>
     (\<exists>i < length (rs_phases st). ps_status (rs_phases st ! i) \<noteq> StepSucceeded)"

definition run_failed :: "run_state \<Rightarrow> bool" where
  "run_failed st \<longleftrightarrow> rs_failure st \<noteq> None \<or> (\<exists>c \<in> set (rs_calls st). \<not> ac_success c)"

definition budget_ok :: "run_state \<Rightarrow> bool" where
  "budget_ok st \<longleftrightarrow> rs_spent st \<le> rs_budget st \<and> length (rs_calls st) = unat (rs_spent st)"

definition run_ok :: "run_state \<Rightarrow> bool" where
  "run_ok st \<longleftrightarrow> phases_ok st \<and> (phase_failed st \<longleftrightarrow> run_failed st) \<and> budget_ok st"

text \<open>What the phase operations leave alone.\<close>

definition same_accounts :: "run_state \<Rightarrow> run_state \<Rightarrow> bool" where
  "same_accounts st st' \<longleftrightarrow>
     rs_budget st' = rs_budget st \<and> rs_spent st' = rs_spent st \<and> rs_calls st' = rs_calls st \<and>
     rs_failure st' = rs_failure st \<and> rs_log st' = rs_log st \<and>
     rs_completed st' = rs_completed st \<and> rs_started_at st' = rs_started_at st"

lemma same_accounts_refl [simp]: "same_accounts st st"
  by (simp add: same_accounts_def)

lemma same_accounts_trans:
  "same_accounts a b \<Longrightarrow> same_accounts b c \<Longrightarrow> same_accounts a c"
  by (simp add: same_accounts_def)

lemma same_accountsD:
  assumes "same_accounts st st'"
  shows "run_failed st' = run_failed st" "budget_ok st' = budget_ok st"
    "rs_budget st' = rs_budget st" "rs_calls st' = rs_calls st" "rs_spent st' = rs_spent st"
    "rs_failure st' = rs_failure st"
  using assms by (simp_all add: same_accounts_def run_failed_def budget_ok_def)

lemma close_phase_accounts: "same_accounts st (close_phase clk status st)"
  by (simp add: close_phase_def clock_now_def same_accounts_def Let_def split: option.split)

lemma push_phase_accounts: "same_accounts st (snd (push_phase clk title st))"
  by (simp add: push_phase_def clock_now_def same_accounts_def Let_def)

lemma phase_status_accounts: "same_accounts st (snd (phase_status clk title st))"
  by (auto simp: phase_status_def push_phase_accounts split: option.split
      intro: same_accounts_trans [OF close_phase_accounts push_phase_accounts])

lemma fail_here_accounts: "same_accounts st (fail_here clk message st)"
  using phase_status_accounts [of st clk "''Run''"]
  by (auto simp: fail_here_def Let_def same_accounts_def split: option.split)

lemma close_phase_phases:
  assumes "phases_ok st"
  shows "phases_ok (close_phase clk None st) \<and> rs_open (close_phase clk None st) = None \<and>
    (phase_failed (close_phase clk None st) \<longleftrightarrow> phase_failed st) \<and>
    length (rs_phases (close_phase clk None st)) = length (rs_phases st)"
  using assms
  by (auto simp: close_phase_def clock_now_def phases_ok_def phase_failed_def Let_def
      nth_list_update split: option.split)

lemma push_phase_phases:
  assumes "phases_ok st" "rs_open st = None"
  shows "phases_ok (snd (push_phase clk title st)) \<and>
    rs_open (snd (push_phase clk title st)) = Some (length (rs_phases st)) \<and>
    (phase_failed (snd (push_phase clk title st)) \<longleftrightarrow> phase_failed st)"
  using assms
  by (auto simp: push_phase_def clock_now_def phases_ok_def phase_failed_def Let_def
      nth_append less_Suc_eq)

lemma phase_status_phases:
  assumes "phases_ok st"
  shows "phases_ok (snd (phase_status clk title st)) \<and>
    rs_open (snd (phase_status clk title st)) \<noteq> None \<and>
    (phase_failed (snd (phase_status clk title st)) \<longleftrightarrow> phase_failed st)"
  using assms close_phase_phases [OF assms, of clk]
    push_phase_phases [of "close_phase clk None st" clk title] push_phase_phases [of st clk title]
  by (auto simp: phase_status_def split: option.split)

lemma fail_here_phases:
  assumes "phases_ok st"
  shows "phases_ok (fail_here clk message st) \<and> phase_failed (fail_here clk message st)"
proof -
  define st1 where
    "st1 = (case rs_open st of Some _ \<Rightarrow> st | None \<Rightarrow> snd (phase_status clk ''Run'' st))"
  have ok: "phases_ok st1" and op: "rs_open st1 \<noteq> None"
    using assms phase_status_phases [OF assms] by (auto simp: st1_def split: option.split)
  then obtain i where i: "rs_open st1 = Some i" "i < length (rs_phases st1)"
    by (auto simp: phases_ok_def)
  show ?thesis
    using ok i unfolding fail_here_def st1_def [symmetric] Let_def
    by (auto simp: phases_ok_def phase_failed_def nth_list_update)
qed

lemma run_ok_phase_status: "run_ok st \<Longrightarrow> run_ok (snd (phase_status clk title st))"
  using phase_status_phases [of st clk title] same_accountsD [OF phase_status_accounts]
  by (simp add: run_ok_def)

lemma spent_Suc:
  fixes a b :: "'a::len word"
  assumes "a < b"
  shows "a + 1 \<le> b" and "unat (a + 1) = Suc (unat a)"
proof -
  from assms have "unat a < unat b" by (simp add: word_less_nat_alt)
  moreover have "unat b < 2 ^ LENGTH('a)" by (rule unsigned_less)
  ultimately have "Suc (unat a) < 2 ^ LENGTH('a)" by linarith
  then show "unat (a + 1) = Suc (unat a)" by (simp add: unat_word_ariths)
  with \<open>unat a < unat b\<close> show "a + 1 \<le> b" by (simp add: word_le_nat_alt)
qed

lemma record_call_calls:
  "\<exists>c. rs_calls (record_call clk prompt opts outcome st) = rs_calls st @ [c] \<and>
     ac_success c = out_success outcome"
  by (auto simp: record_call_def Let_def same_accountsD [OF fail_here_accounts])

lemma record_call_fields:
  "rs_budget (record_call clk prompt opts outcome st) = rs_budget st"
  "rs_spent (record_call clk prompt opts outcome st) = rs_spent st"
  "rs_failure (record_call clk prompt opts outcome st) = rs_failure st"
  by (auto simp: record_call_def Let_def same_accountsD [OF fail_here_accounts])

lemma record_call_phases:
  assumes "phases_ok st"
  shows "phases_ok (record_call clk prompt opts outcome st) \<and>
    (phase_failed (record_call clk prompt opts outcome st) \<longleftrightarrow>
       phase_failed st \<or> \<not> out_success outcome)"
proof -
  have *: "phases_ok (st\<lparr>rs_calls := cs\<rparr>)" for cs
    using assms by (simp add: phases_ok_def)
  show ?thesis
    using * fail_here_phases [OF *] by (auto simp: record_call_def Let_def phase_failed_def)
qed

lemma call_agent_ok:
  assumes ok: "run_ok st" and call: "call_agent clk host prompt opts st h = (r, st', h')"
  shows "run_ok st' \<and> rs_budget st' = rs_budget st"
proof (cases "rs_budget st \<le> rs_spent st")
  case True
  define st1 where "st1 = st\<lparr>rs_failure := Some (budget_message (rs_budget st))\<rparr>"
  have st1: "phases_ok st1" "budget_ok st1" "run_failed st1"
    using ok by (auto simp: st1_def run_ok_def phases_ok_def budget_ok_def run_failed_def)
  have "st' = fail_here clk (budget_message (rs_budget st)) st1"
    using call True by (simp add: call_agent_def Let_def st1_def)
  then show ?thesis
    using fail_here_phases [OF st1(1)] st1 same_accountsD [OF fail_here_accounts]
    by (simp add: run_ok_def st1_def)
next
  case False
  define st1 where "st1 = st\<lparr>rs_spent := rs_spent st + 1\<rparr>"
  define st2 where
    "st2 = (case ao_phase opts of None \<Rightarrow> st1 | Some ph \<Rightarrow> snd (phase_status clk ph st1))"
  define out where "out = fst (sh_agent host h (with_prompt prompt opts))"
  have st': "st' = record_call clk prompt (with_prompt prompt opts) out st2"
    using call False unfolding st2_def st1_def out_def
    by (auto simp: call_agent_def Let_def with_prompt_def split: prod.splits)
  have p1: "phases_ok st1" "phase_failed st1 \<longleftrightarrow> run_failed st"
    using ok by (auto simp: st1_def run_ok_def phases_ok_def phase_failed_def)
  have p2: "phases_ok st2" "phase_failed st2 \<longleftrightarrow> run_failed st" "same_accounts st1 st2"
    using p1 phase_status_phases [OF p1(1)]
    by (auto simp: st2_def phase_status_accounts split: option.split)
  obtain c where c: "rs_calls st' = rs_calls st @ [c]" "ac_success c = out_success out"
    using record_call_calls [of clk prompt "with_prompt prompt opts" out st2]
      same_accountsD(4) [OF p2(3)] by (auto simp: st' st1_def)
  have "run_failed st' \<longleftrightarrow> run_failed st \<or> \<not> out_success out"
    using c same_accountsD(6) [OF p2(3)] by (auto simp: st' record_call_fields run_failed_def st1_def)
  moreover have "budget_ok st'"
    using ok False c spent_Suc [of "rs_spent st" "rs_budget st"] same_accountsD(3,5) [OF p2(3)]
    by (simp add: budget_ok_def run_ok_def st' record_call_fields st1_def)
  ultimately show ?thesis
    using record_call_phases [OF p2(1)] p2(2) same_accountsD(3) [OF p2(3)]
    by (simp add: run_ok_def st' record_call_fields st1_def)
qed

lemma call_parallel_ok:
  "run_ok st \<Longrightarrow> call_parallel clk host calls st h = (vs, st', h') \<Longrightarrow>
   run_ok st' \<and> rs_budget st' = rs_budget st \<and> length vs = length calls"
proof (induction calls arbitrary: st h vs)
  case (Cons call calls)
  obtain r st1 h1 where 1: "call_agent clk host (ao_prompt (parallel_opts call))
      (parallel_opts call) st h = (r, st1, h1)" by (metis prod_cases3)
  obtain ws st2 h2 where 2: "call_parallel clk host calls st1 h1 = (ws, st2, h2)"
    by (metis prod_cases3)
  have "run_ok st1 \<and> rs_budget st1 = rs_budget st" using call_agent_ok [OF Cons(2) 1] .
  with Cons 1 2 show ?case by (auto simp: Let_def)
qed simp

lemma host_fn_ok:
  assumes "run_ok st" "host_fn R clk host c st h = (r, st', h')"
  shows "run_ok st' \<and> rs_budget st' = rs_budget st"
proof (cases c)
  case (CallAgent prompt opts)
  with assms show ?thesis by (cases opts) (auto intro!: call_agent_ok simp: call_agent_ok)
next
  case (CallParallel calls)
  with assms show ?thesis
    by (auto split: prod.splits dest: call_parallel_ok)
next
  case (CallPhase title)
  with assms show ?thesis
    using same_accountsD(3) [OF phase_status_accounts] by (auto intro: run_ok_phase_status)
qed (use assms in \<open>auto simp: run_ok_def phases_ok_def phase_failed_def run_failed_def budget_ok_def\<close>)

lemma run_eval_ok:
  "run_ok st \<Longrightarrow> run_eval R clk host ev st h = (err, st', h') \<Longrightarrow>
   run_ok st' \<and> rs_budget st' = rs_budget st"
proof (induction ev arbitrary: st h)
  case (HostCall c k)
  obtain r st1 h1 where 1: "host_fn R clk host c st h = (r, st1, h1)" by (metis prod_cases3)
  note ok1 = host_fn_ok [OF HostCall(2) 1]
  show ?case
  proof (cases r)
    case Terminated
    with HostCall(3) 1 ok1 show ?thesis by simp
  next
    case (Reply v)
    with HostCall(3) 1 have "run_eval R clk host (k r) st1 h1 = (err, st', h')" by simp
    with HostCall(1) [of "k r" st1 h1] ok1 show ?thesis by simp
  next
    case (RuntimeError e)
    with HostCall(3) 1 have "run_eval R clk host (k r) st1 h1 = (err, st', h')" by simp
    with HostCall(1) [of "k r" st1 h1] ok1 show ?thesis by simp
  qed
qed auto

lemma run_state_new_ok: "run_ok (run_state_new t b n)"
  by (simp add: run_state_new_def run_ok_def phases_ok_def phase_failed_def run_failed_def
      budget_ok_def)

section \<open>What a settled run says\<close>

text \<open>A host that remembers the agent calls it got and what it answered. What a run is to record of a call
  is read off the options the host was given and the outcome it returned.\<close>

definition logs_agents :: "'h script_host \<Rightarrow> ('h \<Rightarrow> (agent_opts \<times> agent_outcome) list) \<Rightarrow> bool" where
  "logs_agents host log \<longleftrightarrow>
     (\<forall>h opts. log (snd (sh_agent host h opts)) = log h @ [(opts, fst (sh_agent host h opts))]) \<and>
     (\<forall>h line. log (sh_log host h line) = log h)"

fun call_of :: "agent_opts \<times> agent_outcome \<Rightarrow> agent_call" where
  "call_of (opts, outcome) =
     \<lparr>ac_label = (case ao_label opts of Some l \<Rightarrow> l | None \<Rightarrow> first_line (ao_prompt opts)),
      ac_phase = ao_phase opts, ac_prompt = ao_prompt opts, ac_success = out_success outcome,
      ac_output = out_output outcome, ac_tokens_used = out_tokens_used outcome,
      ac_duration_ms = out_duration_ms outcome\<rparr>"

definition calls_logged ::
  "('h \<Rightarrow> (agent_opts \<times> agent_outcome) list) \<Rightarrow> run_state \<times> 'h \<Rightarrow> run_state \<times> 'h \<Rightarrow> bool" where
  "calls_logged log a b \<longleftrightarrow>
     (\<exists>cs. log (snd b) = log (snd a) @ cs \<and> rs_calls (fst b) = rs_calls (fst a) @ map call_of cs)"

lemma calls_logged_same: "log h' = log h \<Longrightarrow> rs_calls st' = rs_calls st \<Longrightarrow> calls_logged log (st, h) (st', h')"
  by (simp add: calls_logged_def)

lemma calls_logged_trans: "calls_logged log a b \<Longrightarrow> calls_logged log b c \<Longrightarrow> calls_logged log a c"
  unfolding calls_logged_def by (metis append.assoc map_append)

lemma record_call_logged:
  "rs_calls (record_call clk (ao_prompt opts) opts outcome st) = rs_calls st @ [call_of (opts, outcome)]"
  by (simp add: record_call_def Let_def same_accountsD [OF fail_here_accounts])

lemma call_agent_logged:
  assumes "logs_agents host log" "call_agent clk host prompt opts st h = (r, st', h')"
  shows "calls_logged log (st, h) (st', h')"
proof (cases "rs_budget st \<le> rs_spent st")
  case True
  with assms(2) show ?thesis
    by (auto simp: call_agent_def Let_def same_accountsD [OF fail_here_accounts] calls_logged_same)
next
  case False
  let ?opts = "with_prompt prompt opts"
  obtain outcome h1 where host: "sh_agent host h ?opts = (outcome, h1)" by (rule prod.exhaust)
  have prompt: "ao_prompt ?opts = prompt" by (simp add: with_prompt_def)
  define st1 where "st1 = (case ao_phase ?opts of None \<Rightarrow> st\<lparr>rs_spent := rs_spent st + 1\<rparr>
    | Some ph \<Rightarrow> snd (phase_status clk ph (st\<lparr>rs_spent := rs_spent st + 1\<rparr>)))"
  have st1: "rs_calls st1 = rs_calls st" "st' = record_call clk (ao_prompt ?opts) ?opts outcome st1" "h' = h1"
    using assms(2) False
    by (auto simp: call_agent_def Let_def host prompt st1_def same_accountsD [OF phase_status_accounts]
        split: option.split)
  have "log h1 = log h @ [(?opts, outcome)]"
    using assms(1) host unfolding logs_agents_def by (metis fst_conv snd_conv)
  then show ?thesis
    using st1 record_call_logged by (simp add: calls_logged_def)
qed

lemma call_parallel_logged:
  assumes "logs_agents host log"
  shows "call_parallel clk host calls st h = (vs, st', h') \<Longrightarrow> calls_logged log (st, h) (st', h')"
proof (induction calls arbitrary: st h vs)
  case (Cons call calls)
  obtain r st1 h1 where 1: "call_agent clk host (ao_prompt (parallel_opts call))
      (parallel_opts call) st h = (r, st1, h1)" by (metis prod_cases3)
  obtain ws where 2: "call_parallel clk host calls st1 h1 = (ws, st', h')"
    using Cons(2) 1 by (auto simp: Let_def split: prod.splits)
  show ?case using call_agent_logged [OF assms 1] Cons(1) [OF 2] by (rule calls_logged_trans)
qed (simp add: calls_logged_same)

lemma host_fn_logged:
  assumes "logs_agents host log" "host_fn R clk host c st h = (r, st', h')"
  shows "calls_logged log (st, h) (st', h')"
proof (cases c)
  case (CallAgent prompt opts)
  with assms show ?thesis by (cases opts) (auto dest: call_agent_logged)
next
  case (CallParallel calls)
  with assms show ?thesis by (auto split: prod.splits dest: call_parallel_logged)
next
  case (CallPhase title)
  with assms show ?thesis by (auto simp: same_accountsD [OF phase_status_accounts] calls_logged_same)
qed (use assms in \<open>auto simp: logs_agents_def calls_logged_same\<close>)

lemma run_eval_logged:
  assumes "logs_agents host log"
  shows "run_eval R clk host ev st h = (err, st', h') \<Longrightarrow> calls_logged log (st, h) (st', h')"
proof (induction ev arbitrary: st h)
  case (HostCall c k)
  obtain r st1 h1 where 1: "host_fn R clk host c st h = (r, st1, h1)" by (metis prod_cases3)
  show ?case
    using host_fn_logged [OF assms 1] HostCall(2) HostCall(1) [of "k r" st1 h1] 1
    by (cases r) (auto intro: calls_logged_trans)
qed (auto simp: calls_logged_same)

lemma note_failure_fields [simp]:
  "rs_calls (note_failure err st) = rs_calls st" "rs_phases (note_failure err st) = rs_phases st"
  "rs_open (note_failure err st) = rs_open st"
  by (auto simp: note_failure_def split: option.split)

lemma note_failure_phases [simp]:
  "phases_ok (note_failure err st) \<longleftrightarrow> phases_ok st"
  "phase_failed (note_failure err st) \<longleftrightarrow> phase_failed st"
  by (simp_all add: phases_ok_def phase_failed_def)

lemma note_failure_failed: "run_failed st \<Longrightarrow> run_failed (note_failure err st)"
  by (auto simp: note_failure_def run_failed_def split: option.split)

lemma settle_status_Succeeded: "settle_status st = RunSucceeded \<longleftrightarrow> \<not> run_failed st"
  by (auto simp: settle_status_def run_failed_def find_None_iff split: option.split
      dest: find_Some_iff_hd)

text \<open>How a run that starts ends: the evaluated state, closed and settled.\<close>

lemma script_engine_run_cases:
  assumes "script_engine_run R clk eng source args host h = (Ok run, h')"
  obtains m ev err st st' t where
    "meta_of R source = Ok m"
    "run_eval R clk host ev (run_state_new (clk 0) (eng_budget eng) 1) h = (err, st, h')"
    "run_ok st" "rs_budget st = eng_budget eng"
    "st' = snd (clock_now clk (close_phase clk None (note_failure err st)))"
    "run = settle clk m t st'" "phases_ok st'" "rs_open st' = None"
    "phase_failed st' \<longleftrightarrow> phase_failed st" "same_accounts (note_failure err st) st'"
proof -
  obtain m ast where m: "meta_of R source = Ok m" "rhai_compile R source = Ok ast"
    using assms by (auto simp: script_engine_run_def split: sum.splits)
  define ev where "ev = rhai_eval R 5000000 ast
    [(''args'', case rhai_to_dynamic R args of None \<Rightarrow> RUnit | Some v \<Rightarrow> v)]"
  obtain err st h2 where
    e: "run_eval R clk host ev (run_state_new (clk 0) (eng_budget eng) 1) h = (err, st, h2)"
    by (metis prod_cases3)
  define st1 where "st1 = close_phase clk None (note_failure err st)"
  have ok: "run_ok st" "rs_budget st = eng_budget eng"
    using run_eval_ok [OF run_state_new_ok e] by (simp_all add: run_state_new_def)
  then have "phases_ok (note_failure err st)" by (simp add: run_ok_def)
  note st1 = close_phase_phases [OF this, of clk, folded st1_def]
  show thesis
  proof (rule that [OF m(1) _ ok refl, of ev err "fst (clock_now clk st1)"])
    show "run_eval R clk host ev (run_state_new (clk 0) (eng_budget eng) 1) h = (err, st, h')"
      and "run = settle clk m (fst (clock_now clk st1))
        (snd (clock_now clk (close_phase clk None (note_failure err st))))"
      using assms m e
      by (auto simp: script_engine_run_def ev_def [symmetric] st1_def [symmetric] Let_def
          split: prod.splits)
  qed (use st1 close_phase_accounts [of "note_failure err st" clk None] in
      \<open>auto simp: clock_now_def st1_def [symmetric] phases_ok_def phase_failed_def same_accounts_def\<close>)
qed

lemma settle_closed:
  assumes "rs_open st = None"
  shows "settle clk m t st =
    \<lparr>sr_meta = m, sr_status = settle_status st,
     sr_phases = map (\<lambda>ph. \<lparr>ph_title = ps_title ph, ph_status = ps_status ph,
        ph_started_at = ps_started_at ph, ph_finished_at = ps_finished_at ph\<rparr>)
      (if rs_phases st = []
       then [\<lparr>ps_title = (if trim (meta_name m) = [] then ''Run'' else meta_name m),
              ps_started_at = rs_started_at st, ps_finished_at = Some t,
              ps_status = to_step_status (settle_status st)\<rparr>]
       else rs_phases st),
     sr_output = rs_completed st, sr_log = rs_log st, sr_calls = rs_calls st,
     sr_started_at = rs_started_at st, sr_finished_at = t\<rparr>"
  using assms by (simp add: settle_def close_phase_def Let_def)

lemma settled_run:
  assumes "script_engine_run R clk eng source args host h = (Ok run, h')"
  shows "length (sr_calls run) \<le> unat (eng_budget eng) \<and>
    sr_status run \<noteq> RunRunning \<and> sr_phases run \<noteq> [] \<and>
    list_all (\<lambda>ph. ph_finished_at ph \<noteq> None \<and> ph_status ph \<noteq> StepSkipped) (sr_phases run) \<and>
    (sr_status run = RunSucceeded \<longrightarrow>
       list_all (\<lambda>ph. ph_status ph = StepSucceeded) (sr_phases run) \<and>
       list_all ac_success (sr_calls run))"
proof -
  obtain m ev err st st' t where
    r: "run_eval R clk host ev (run_state_new (clk 0) (eng_budget eng) 1) h = (err, st, h')"
    and ok: "run_ok st" "rs_budget st = eng_budget eng"
    and run: "run = settle clk m t st'" and st': "phases_ok st'" "rs_open st' = None"
    and pf: "phase_failed st' \<longleftrightarrow> phase_failed st"
    and acc: "same_accounts (note_failure err st) st'"
    using script_engine_run_cases [OF assms] by metis
  have calls: "rs_calls st' = rs_calls st" using same_accountsD(4) [OF acc] by simp
  have b: "length (rs_calls st') \<le> unat (eng_budget eng)"
    using ok calls by (simp add: run_ok_def budget_ok_def word_le_nat_alt)
  have v: "run_failed st'" if "phase_failed st'"
    using that pf ok same_accountsD(1) [OF acc] note_failure_failed by (simp add: run_ok_def)
  have ph: "list_all (\<lambda>ph. ps_finished_at ph \<noteq> None \<and> ps_status ph \<noteq> StepSkipped) (rs_phases st')"
    using st' by (simp add: phases_ok_def list_all_length)
  have succ: "list_all (\<lambda>ph. ps_status ph = StepSucceeded) (rs_phases st') \<and>
      list_all ac_success (rs_calls st')" if "settle_status st' = RunSucceeded"
    using that v by (auto simp: settle_status_Succeeded phase_failed_def list_all_length
        run_failed_def)
  show ?thesis
    using b ph succ
    by (auto simp: run settle_closed [OF st'(2)] list.pred_map o_def settle_status_def
        split: option.split)
qed

section \<open>The scanner\<close>

text \<open>
  The lexical structure the scanner works by, stated without it: a source is a sequence of string
  literals (a backslash takes the next character with it), line comments, whole identifiers and other
  characters. \<open>lexed ps rest\<close> says that the pieces are well formed and none of them runs on into what follows.
\<close>

datatype lex_piece = LString string | LComment string | LIdent string | LOther char

fun piece_text :: "lex_piece \<Rightarrow> string" where
  "piece_text (LString body) = CHR 0x22 # body @ [CHR 0x22]"
| "piece_text (LComment t) = CHR ''/'' # CHR ''/'' # t @ [CHR 0x0A]"
| "piece_text (LIdent x) = x"
| "piece_text (LOther c) = [c]"

definition lex_text :: "lex_piece list \<Rightarrow> string" where
  "lex_text ps = concat (map piece_text ps)"

lemma lex_text_simps [simp]: "lex_text [] = []" "lex_text (p # ps) = piece_text p @ lex_text ps"
  by (simp_all add: lex_text_def)

fun string_body :: "string \<Rightarrow> bool" where
  "string_body [] \<longleftrightarrow> True"
| "string_body [c] \<longleftrightarrow> c \<noteq> CHR 0x5C \<and> c \<noteq> CHR 0x22"
| "string_body (c # d # s) \<longleftrightarrow> (if c = CHR 0x5C then string_body s else c \<noteq> CHR 0x22 \<and> string_body (d # s))"

fun lexed :: "lex_piece list \<Rightarrow> string \<Rightarrow> bool" where
  "lexed [] rest \<longleftrightarrow> True"
| "lexed (LString body # ps) rest \<longleftrightarrow> string_body body \<and> lexed ps rest"
| "lexed (LComment t # ps) rest \<longleftrightarrow> CHR 0x0A \<notin> set t \<and> lexed ps rest"
| "lexed (LIdent x # ps) rest \<longleftrightarrow>
     x \<noteq> [] \<and> ident_start (hd x) \<and> list_all ident_char x \<and>
     \<not> list_ex ident_char (take 1 (lex_text ps @ rest)) \<and> lexed ps rest"
| "lexed (LOther c # ps) rest \<longleftrightarrow>
     c \<noteq> CHR 0x22 \<and> \<not> ident_start c \<and>
     \<not> (c = CHR ''/'' \<and> take 1 (lex_text ps @ rest) = [CHR ''/'']) \<and> lexed ps rest"

text \<open>A forbidden call in code: the word as a whole identifier outside of strings and comments, white space,
  an opening parenthesis.\<close>

definition call_tail :: "string \<Rightarrow> string \<Rightarrow> bool" where
  "call_tail w s \<longleftrightarrow>
     w \<in> {''sleep'', ''timestamp''} \<and>
     (\<exists>ws post. list_all ascii_whitespace ws \<and> s = w @ ws @ CHR ''('' # post)"

definition lexical_call :: "string \<Rightarrow> string \<Rightarrow> bool" where
  "lexical_call w s \<longleftrightarrow> (\<exists>ps tail. call_tail w tail \<and> lexed ps tail \<and> s = lex_text ps @ tail)"

lemma lexical_call_tail: "call_tail w s \<Longrightarrow> lexical_call w s"
  unfolding lexical_call_def by (intro exI [of _ "[]"] exI [of _ s]) simp

lemma lexical_call_more:
  assumes "lexical_call w s" "\<And>ps tail. s = lex_text ps @ tail \<Longrightarrow> lexed ps tail \<Longrightarrow> lexed (p # ps) tail"
  shows "lexical_call w (piece_text p @ s)"
  using assms unfolding lexical_call_def by (metis append.assoc lex_text_simps(2))

subsection \<open>Inside a string\<close>

lemma scan_string:
  "string_body body \<Longrightarrow> forbidden_scan True (body @ CHR 0x22 # s) = forbidden_scan False s"
  by (induction body rule: string_body.induct) (simp_all add: forbidden_scan.simps split: if_splits)

lemma scan_string_found:
  "forbidden_scan True s = Some w \<Longrightarrow>
   \<exists>body s'. s = body @ CHR 0x22 # s' \<and> string_body body \<and> forbidden_scan False s' = Some w"
proof (induction "length s" arbitrary: s rule: less_induct)
  case less
  then obtain c t where s: "s = c # t" by (cases s) (auto simp: forbidden_scan.simps)
  consider "c = CHR 0x22" | "c = CHR 0x5C" | "c \<noteq> CHR 0x22" "c \<noteq> CHR 0x5C" by blast
  then show ?case
  proof cases
    case 1
    then show ?thesis
      using less(2) s by (intro exI [of _ "[]"] exI [of _ t]) (simp add: forbidden_scan.simps)
  next
    case 2
    then obtain d u where t: "t = d # u" "forbidden_scan True u = Some w"
      using less(2) s by (cases t) (auto simp: forbidden_scan.simps)
    then obtain body s' where "u = body @ CHR 0x22 # s'" "string_body body" "forbidden_scan False s' = Some w"
      using less(1) [of u] s by auto
    then show ?thesis
      using 2 s t(1) by (intro exI [of _ "c # d # body"] exI [of _ s']) simp
  next
    case 3
    then have "forbidden_scan True t = Some w" using less(2) s by (simp add: forbidden_scan.simps)
    then obtain body s' where b: "t = body @ CHR 0x22 # s'" "string_body body" "forbidden_scan False s' = Some w"
      using less(1) [of t] s by auto
    have "string_body (c # body)" using 3 b(2) by (cases body) simp_all
    then show ?thesis using b s by (intro exI [of _ "c # body"] exI [of _ s']) simp
  qed
qed

subsection \<open>In code\<close>

lemma ident_not_whitespace: "ascii_whitespace c \<Longrightarrow> \<not> ident_char c"
  by (auto simp: ascii_whitespace_def ident_char_def ascii_alphanumeric_def ascii_alphabetic_def
      ascii_upper_def ascii_lower_def ascii_digit_def)

lemma ident_start_special:
  "ident_start c \<Longrightarrow> c \<noteq> CHR ''/'' \<and> c \<noteq> CHR 0x22"
  by (auto simp: ident_start_def ascii_alphabetic_def ascii_upper_def ascii_lower_def)

text \<open>A maximal identifier is taken as a whole.\<close>

lemma ident_taken:
  assumes "list_all ident_char x" "\<not> list_ex ident_char (take 1 t)"
  shows "takeWhile ident_char (x @ t) = x" "dropWhile ident_char (x @ t) = t"
  using assms by (cases t; auto simp: list_all_iff takeWhile_append dropWhile_append)+

lemma scan_ident:
  assumes "x \<noteq> []" "ident_start (hd x)" "list_all ident_char x" "\<not> list_ex ident_char (take 1 t)"
  shows "forbidden_scan False (x @ t) = (if calls_forbidden x t then Some x else forbidden_scan False t)"
proof -
  obtain c y where x: "x = c # y" using assms(1) by (cases x) simp_all
  show ?thesis
    using ident_taken [OF assms(3,4)] assms(2) ident_start_special [of c]
    unfolding x append_Cons forbidden_scan.simps(2) by (simp add: Let_def)
qed

lemma scan_comment:
  "CHR 0x0A \<notin> set t \<Longrightarrow>
   forbidden_scan False (CHR ''/'' # CHR ''/'' # t @ CHR 0x0A # s) = forbidden_scan False s"
proof -
  assume t: "CHR 0x0A \<notin> set t"
  have "\<not> ident_start CHR ''/''" "\<not> ident_start CHR 0x0A"
    by (simp_all add: ident_start_def ascii_alphabetic_def ascii_upper_def ascii_lower_def)
  moreover have "dropWhile (\<lambda>b. b \<noteq> CHR 0x0A) (t @ CHR 0x0A # s) = CHR 0x0A # s"
    using t by (induction t) auto
  ultimately show ?thesis by (simp add: forbidden_scan.simps)
qed

lemma scan_other:
  assumes "c \<noteq> CHR 0x22" "\<not> ident_start c" "\<not> (c = CHR ''/'' \<and> take 1 t = [CHR ''/''])"
  shows "forbidden_scan False (c # t) = forbidden_scan False t"
proof -
  have "\<not> (c = CHR ''/'' \<and> t \<noteq> [] \<and> hd t = CHR ''/'')" using assms(3) by (cases t) auto
  then show ?thesis using assms(1,2) by (auto simp: forbidden_scan.simps(2))
qed

lemma call_tail_scan:
  assumes "call_tail w s"
  shows "forbidden_scan False s = Some w"
proof -
  obtain ws post where s: "s = w @ ws @ CHR ''('' # post" and ws: "list_all ascii_whitespace ws"
    and w: "w \<in> {''sleep'', ''timestamp''}" using assms by (auto simp: call_tail_def)
  let ?r = "ws @ CHR ''('' # post"
  have ident: "list_all ident_char w" "w \<noteq> []" "ident_start (hd w)"
    using w by (auto simp: ident_start_def ident_char_def ascii_alphanumeric_def ascii_alphabetic_def ascii_lower_def)
  have "\<not> ident_char CHR ''(''"
    by (simp add: ident_char_def ascii_alphanumeric_def ascii_alphabetic_def ascii_upper_def
        ascii_lower_def ascii_digit_def)
  then have r: "\<not> list_ex ident_char (take 1 ?r)"
    using ws by (cases ws) (simp_all add: ident_not_whitespace)
  have "dropWhile ascii_whitespace ?r = CHR ''('' # post"
    using ws by (auto simp: list_all_iff dropWhile_append ascii_whitespace_def)
  then have "calls_forbidden w ?r" using w by (auto simp: calls_forbidden_def)
  then show ?thesis using scan_ident [OF ident(2,3,1) r] by (simp add: s)
qed

lemma calls_forbidden_tail: "calls_forbidden w r \<Longrightarrow> call_tail w (w @ r)"
proof -
  assume c: "calls_forbidden w r"
  then obtain post where "dropWhile ascii_whitespace r = CHR ''('' # post"
    by (auto simp: calls_forbidden_def split: list.splits)
  then have "r = takeWhile ascii_whitespace r @ CHR ''('' # post" by (metis takeWhile_dropWhile_id)
  moreover have "list_all ascii_whitespace (takeWhile ascii_whitespace r)"
    by (auto simp: list_all_iff dest: set_takeWhileD)
  ultimately show ?thesis using c unfolding call_tail_def calls_forbidden_def by blast
qed

text \<open>No call is missed: well-formed pieces in front of a call do not hide it.\<close>

lemma scan_pieces:
  "lexed ps rest \<Longrightarrow> forbidden_scan False rest \<noteq> None \<Longrightarrow> forbidden_scan False (lex_text ps @ rest) \<noteq> None"
proof (induction ps rest rule: lexed.induct)
  case (2 body ps rest)
  then show ?case using scan_string [of body "lex_text ps @ rest"] by (simp add: forbidden_scan.simps(2))
next
  case (3 t ps rest)
  then show ?case using scan_comment [of t "lex_text ps @ rest"] by simp
next
  case (4 x ps rest)
  then show ?case using scan_ident [of x "lex_text ps @ rest"] by auto
next
  case (5 c ps rest)
  then have "forbidden_scan False (c # lex_text ps @ rest) = forbidden_scan False (lex_text ps @ rest)"
    by (intro scan_other) simp_all
  with 5 show ?case by simp
qed simp

text \<open>And a call that is reported is there: the scanner's own steps give the pieces.\<close>

lemma scan_found: "forbidden_scan False s = Some w \<Longrightarrow> lexical_call w s"
proof (induction "length s" arbitrary: s rule: less_induct)
  case less
  then obtain c t where s: "s = c # t" by (cases s) (auto simp: forbidden_scan.simps)
  note found = less(2) [unfolded s forbidden_scan.simps(2), simplified]
  consider (quote) "c = CHR 0x22" | (comment) "c = CHR ''/''" "t \<noteq> []" "hd t = CHR ''/''"
    | (ident) "ident_start c"
    | (other) "c \<noteq> CHR 0x22" "\<not> (c = CHR ''/'' \<and> t \<noteq> [] \<and> hd t = CHR ''/'')" "\<not> ident_start c" by blast
  then show ?case
  proof cases
    case quote
    then obtain body s' where b: "t = body @ CHR 0x22 # s'" "string_body body" "forbidden_scan False s' = Some w"
      using found scan_string_found [of t w] by auto
    then have "lexical_call w s'" using less(1) [of s'] s by simp
    then have "lexical_call w (piece_text (LString body) @ s')" by (rule lexical_call_more) (simp add: b(2))
    then show ?thesis by (simp add: s quote b(1))
  next
    case comment
    then obtain u where t: "t = CHR ''/'' # u" by (cases t) simp_all
    let ?line = "takeWhile (\<lambda>b. b \<noteq> CHR 0x0A) u" and ?rest = "dropWhile (\<lambda>b. b \<noteq> CHR 0x0A) u"
    have "forbidden_scan False ?rest = Some w" using found comment t by simp
    then obtain v where v: "?rest = CHR 0x0A # v" "forbidden_scan False v = Some w"
      using hd_dropWhile [of "\<lambda>b. b \<noteq> CHR 0x0A" u]
      by (cases ?rest) (auto simp: forbidden_scan.simps ident_start_def ascii_alphabetic_def ascii_upper_def ascii_lower_def)
    have u: "u = ?line @ CHR 0x0A # v" by (metis v(1) takeWhile_dropWhile_id)
    then have "length v < length s" using s t by (metis add_Suc_right length_Cons length_append less_Suc_eq not_add_less2 not_less_eq)
    then have "lexical_call w v" using less(1) v(2) by blast
    moreover have "CHR 0x0A \<notin> set ?line" by (auto dest: set_takeWhileD)
    ultimately have "lexical_call w (piece_text (LComment ?line) @ v)" by (intro lexical_call_more) simp_all
    then show ?thesis using u by (simp add: s comment(1) t)
  next
    case ident
    let ?x = "takeWhile ident_char s" and ?r = "dropWhile ident_char s"
    have x: "?x \<noteq> []" "hd ?x = c" using ident ident_start_char [OF ident] by (simp_all add: s)
    have all: "list_all ident_char ?x" by (auto simp: list_all_iff dest: set_takeWhileD)
    have r: "\<not> list_ex ident_char (take 1 ?r)"
    proof (cases ?r)
      case (Cons a l)
      then have "\<not> ident_char a" using hd_dropWhile [of ident_char s] by (metis list.distinct(1) list.sel(1))
      then show ?thesis unfolding Cons by simp
    next
      case Nil
      then show ?thesis unfolding Nil by simp
    qed
    have sx: "?x @ ?r = s" by simp
    show ?thesis
    proof (cases "calls_forbidden ?x ?r")
      case True
      then have "w = ?x" using less(2) scan_ident [OF x(1) _ all r] ident x(2) sx by simp
      then show ?thesis using calls_forbidden_tail [OF True] sx lexical_call_tail by metis
    next
      case False
      then have "forbidden_scan False ?r = Some w" using less(2) scan_ident [OF x(1) _ all r] ident x(2) sx by simp
      moreover have "length ?x + length ?r = length s" using sx length_append by metis
      then have "length ?r < length s" using x(1) length_greater_0_conv [of ?x] by linarith
      ultimately have "lexical_call w ?r" using less(1) by blast
      then have "lexical_call w (piece_text (LIdent ?x) @ ?r)"
        using x ident all r by (intro lexical_call_more) auto
      then show ?thesis using sx by simp
    qed
  next
    case other
    then have "forbidden_scan False t = Some w" using found by (simp split: if_splits)
    then have "lexical_call w t" using less(1) [of t] s by simp
    have slash: "\<not> (c = CHR ''/'' \<and> take 1 t = [CHR ''/''])" using other(2) by (cases t) auto
    have "lexical_call w (piece_text (LOther c) @ t)"
    proof (rule lexical_call_more [OF \<open>lexical_call w t\<close>])
      show "lexed (LOther c # ps) tail" if "t = lex_text ps @ tail" "lexed ps tail" for ps tail
        using other(1,3) slash that by (simp del: take_append)
    qed
    then show ?thesis by (simp add: s)
  qed
qed

section \<open>Properties of script runs\<close>

text \<open>A concrete interpreter for the witnesses: every source compiles, to the given evaluation.\<close>

definition demo_rhai :: "evaluation \<Rightarrow> unit rhai" where
  "demo_rhai ev =
     \<lparr>rhai_compile = (\<lambda>_. Ok ()), rhai_eval = (\<lambda>_ _ _. ev), rhai_from_dynamic = (\<lambda>_. Ok JNull),
      rhai_to_dynamic = (\<lambda>_. None), json_to_string = (\<lambda>_. ''null''),
      meta_from_json = (\<lambda>_. Ok \<lparr>meta_name = ''demo'', meta_description = [],
        meta_when_to_use = None, meta_phases = []\<rparr>)\<rparr>"

definition demo_host :: "bool \<Rightarrow> (agent_opts \<times> agent_outcome) list script_host" where
  "demo_host ok =
     (let outcome = \<lparr>out_agent_id = ''a'', out_success = ok, out_output = [],
        out_tokens_used = 0, out_duration_ms = 0\<rparr>
      in \<lparr>sh_agent = (\<lambda>log opts. (outcome, log @ [(opts, outcome)])), sh_log = (\<lambda>log _. log)\<rparr>)"

lemma demo_host_logs: "logs_agents (demo_host ok) id"
  by (simp add: logs_agents_def demo_host_def Let_def)

lemma demo_meta_of:
  "stub_eval ev \<noteq> None \<Longrightarrow> meta_of (demo_rhai ev) ''let meta'' =
     Ok \<lparr>meta_name = ''demo'', meta_description = [], meta_when_to_use = None, meta_phases = []\<rparr>"
proof -
  have "forbidden_call ''let meta'' = None"
    by (simp add: forbidden_call_def forbidden_scan.simps ident_start_def ident_char_def
        ascii_alphanumeric_def ascii_alphabetic_def ascii_upper_def ascii_lower_def
        ascii_digit_def calls_forbidden_def)
  moreover have "trim_start ''let meta'' = ''let meta''"
    by (simp add: trim_start.simps ws1_def ws2_def ws3_def)
  ultimately show "stub_eval ev \<noteq> None \<Longrightarrow> ?thesis"
    by (auto simp: meta_of_def demo_rhai_def starts_with_def)
qed

lemmas script_eval_defs = script_engine_run_def demo_rhai_def demo_host_def run_state_new_def
  call_agent_def with_prompt_def record_call_def fail_here_def phase_status_def push_phase_def
  close_phase_def clock_now_def agent_opts_default_def note_failure_def settle_def
  settle_status_def first_line_def with_budget_def script_engine_new_def trim_end_def

text \<open>C21. However a script is written, a run never makes more agent calls than its budget, which
is at least 1 and at most 1024; and the calls recorded on the run are, one for one and in order, the
calls the host received, each with the prompt, the label (or the first line of the prompt) and the
phase it was made with and the outcome the host returned. A refused call never reaches the host and
is not recorded. The host is any host; \<open>log\<close> only reads off its state what it was asked and
what it answered.\<close>

theorem script_budget_respected:
  assumes "script_engine_run R clk (with_budget b eng) source args host h = (Ok run, h')"
    and "logs_agents host log"
  shows "\<exists>cs. log h' = log h @ cs \<and> sr_calls run = map call_of cs \<and> length cs \<le> max 1 (min (unat b) 1024)"
proof -
  obtain ev err st st' t m where
    r: "run_eval R clk host ev (run_state_new (clk 0) (eng_budget (with_budget b eng)) 1) h
      = (err, st, h')"
    and run: "run = settle clk m t st'" "rs_open st' = None"
    and acc: "same_accounts (note_failure err st) st'"
    using script_engine_run_cases [OF assms(1)] by metis
  have calls: "sr_calls run = rs_calls st"
    using run same_accountsD(4) [OF acc] by (simp add: settle_closed)
  have "unat (eng_budget (with_budget b eng)) = max 1 (min (unat b) 1024)"
    by (simp add: with_budget_def max_def min_def word_le_nat_alt)
  moreover obtain cs where cs: "log h' = log h @ cs" "rs_calls st = map call_of cs"
    using run_eval_logged [OF assms(2) r] by (auto simp: calls_logged_def run_state_new_def)
  ultimately have "length cs \<le> max 1 (min (unat b) 1024)"
    using settled_run [OF assms(1)] by (simp add: calls)
  with cs show ?thesis by (auto simp: calls)
qed

theorem script_budget_respected_witness:
  "(let ev = HostCall (CallAgent ''a'' None) (\<lambda>_. HostCall (CallAgent ''b'' None)
        (\<lambda>_. Finished (Some RUnit)));
      (res, log) = script_engine_run (demo_rhai ev) int (with_budget 1 script_engine_new) ''let meta''
        JNull (demo_host True) []
    in map (ao_prompt \<circ> fst) log = [''a''] \<and> (\<exists>run. res = Ok run \<and> map ac_prompt (sr_calls run) = [''a'']))"
proof -
  let ?ev = "HostCall (CallAgent ''a'' None) (\<lambda>_. HostCall (CallAgent ''b'' None)
    (\<lambda>_. Finished (Some RUnit)))"
  obtain run log where run: "script_engine_run (demo_rhai ?ev) int (with_budget 1 script_engine_new)
      ''let meta'' JNull (demo_host True) [] = (Ok run, log)" "map (ao_prompt \<circ> fst) log = [''a'']"
    using demo_meta_of [of ?ev] by (auto simp: script_eval_defs Let_def)
  obtain cs where cs: "log = cs" "sr_calls run = map call_of cs"
    using script_budget_respected [OF run(1) demo_host_logs] by (auto simp: id_def)
  have "ac_prompt (call_of c) = (ao_prompt \<circ> fst) c" for c by (cases c) simp
  with cs run(2) have "map ac_prompt (sr_calls run) = [''a'']" by (simp add: comp_def)
  with run show ?thesis by simp
qed

text \<open>A script run that starts always settles: its status is final, it reports at least one
phase, every phase it reports is finished and none is skipped; and it reports success only when
every phase and every agent call succeeded.\<close>

theorem script_verdict:
  assumes "script_engine_run R clk eng source args host h = (Ok run, h')"
  shows "sr_status run \<noteq> RunRunning \<and> sr_phases run \<noteq> [] \<and>
    list_all (\<lambda>ph. ph_finished_at ph \<noteq> None \<and> ph_status ph \<noteq> StepSkipped) (sr_phases run) \<and>
    (sr_status run = RunSucceeded \<longrightarrow>
       list_all (\<lambda>ph. ph_status ph = StepSucceeded) (sr_phases run) \<and>
       list_all ac_success (sr_calls run))"
  using settled_run [OF assms] by blast

theorem script_verdict_witness:
  "\<exists>run. fst (script_engine_run (demo_rhai (HostCall (CallAgent ''a'' None) (\<lambda>_. Finished (Some RUnit))))
        int script_engine_new ''let meta'' JNull (demo_host False) []) = Ok run \<and>
      sr_status run = RunFailed ''a: agent call failed'' \<and>
      map ph_status (sr_phases run) = [StepFailed ''agent call failed: a''] \<and> sr_phases run \<noteq> []"
proof -
  let ?ev = "HostCall (CallAgent ''a'' None) (\<lambda>_. Finished (Some RUnit))"
  obtain run log where run: "script_engine_run (demo_rhai ?ev) int script_engine_new
      ''let meta'' JNull (demo_host False) [] = (Ok run, log)"
    and s: "sr_status run = RunFailed ''a: agent call failed''"
      "map ph_status (sr_phases run) = [StepFailed ''agent call failed: a'']"
    using demo_meta_of [of ?ev] by (auto simp: script_eval_defs DEFAULT_BUDGET_def Let_def)
  from script_verdict [OF run] have "sr_phases run \<noteq> []" by blast
  with run s show ?thesis by simp
qed

text \<open>C40. The scanner that rejects clock and blocking calls is exact for its lexical structure: it names
\<open>sleep\<close> or \<open>timestamp\<close> only when the source has that word as a whole identifier, outside of strings and
line comments, with an opening parenthesis after it, possibly after white space; and when it finds nothing
there is no such call. Strings are double-quoted with backslash escapes and comments run from two slashes
to the end of the line: a character literal with a double quote in it and a block comment are not part of
this structure.\<close>

theorem scanner_exact:
  "case forbidden_call source of
     Some w \<Rightarrow> lexical_call w source
   | None \<Rightarrow> \<not> lexical_call ''sleep'' source \<and> \<not> lexical_call ''timestamp'' source"
proof (cases "forbidden_call source")
  case None
  have "forbidden_call source \<noteq> None" if "lexical_call w source" for w
    using that scan_pieces call_tail_scan unfolding lexical_call_def forbidden_call_def by (metis option.distinct(1))
  with None show ?thesis by auto
next
  case (Some w)
  then show ?thesis using scan_found [of source w] by (simp add: forbidden_call_def)
qed

lemmas scan_eval_defs = forbidden_call_def forbidden_scan.simps ident_start_def ident_char_def
  ascii_alphanumeric_def ascii_alphabetic_def ascii_upper_def ascii_lower_def ascii_digit_def
  calls_forbidden_def ascii_whitespace_def

text \<open>A call after a comment and a string is found; a longer identifier, a string and a comment that only
  look like one are not.\<close>

lemma scanner_examples:
  "forbidden_call ''x; sleep (1)'' = Some ''sleep''"
  "forbidden_call ''asleep(1)'' = None"
  "forbidden_call (CHR 0x22 # ''sleep(1)'' @ [CHR 0x22]) = None"
  "forbidden_call ''// sleep(1)'' = None"
  by (simp_all add: scan_eval_defs)

text \<open>A character literal holding a double quote is taken for the start of a string, so a
blocking call after it is not seen and the script passes the determinism check.\<close>

theorem char_literal_hides_blocking_call:
  "forbidden_call (''let q = '' @ [CHR 0x27, CHR 0x22, CHR 0x27] @ ''; sleep(5)'') = None \<and>
   forbidden_call (''let q = 1; sleep(5)'') = Some ''sleep''"
  by (simp add: scan_eval_defs)

text \<open>A script error that is not an agent failure fails the run but not the phase it happened
in: the run is reported failed with every phase reported succeeded.\<close>

theorem script_error_leaves_phases_succeeded:
  "\<exists>run. fst (script_engine_run (demo_rhai (HostCall (CallPhase ''Build'')
        (\<lambda>_. Raised ''boom'' (Some RUnit)))) int script_engine_new ''let meta'' JNull
        (demo_host True) []) = Ok run \<and>
      sr_status run = RunFailed ''boom'' \<and>
      map (\<lambda>ph. (ph_title ph, ph_status ph)) (sr_phases run) = [(''Build'', StepSucceeded)]"
  using demo_meta_of [of "HostCall (CallPhase ''Build'') (\<lambda>_. Raised ''boom'' (Some RUnit))"]
  by (auto simp: script_eval_defs Let_def)

end
