(* ===== verification/Rust_Text.thy ===== *)
theory Rust_Text
  imports Goble_Prelude "HOL-Library.Sublist"
begin

text \<open>
  Lemmas on the string functions of the Rust standard library the components use: splitting at
  white space, \<open>str::lines\<close>, \<open>find\<close>, \<open>split\<close> and the parsing of an unsigned integer. A string is
  the list of its UTF-8 bytes.
\<close>

section \<open>Words without white space\<close>

text \<open>A word: not empty, and no white-space character starts at any of its bytes.\<close>

definition ws_free :: "string \<Rightarrow> bool" where
  "ws_free u \<longleftrightarrow> u \<noteq> [] \<and> (\<forall>v. suffix v u \<longrightarrow> ws_len v = 0)"

lemma ws_len_append: "v \<noteq> [] \<Longrightarrow> ws_len (v @ r) = 0 \<Longrightarrow> ws_len v = 0"
  by (cases v rule: ws_len.cases; cases r rule: ws_len.cases) (auto split: if_splits)

lemma ws_len_append_space: "v \<noteq> [] \<Longrightarrow> ws_len v = 0 \<Longrightarrow> ws_len (v @ CHR '' '' # r) = 0"
  by (cases v rule: ws_len.cases; cases r) (auto simp: ws2_def ws3_def split: if_splits)

lemma ws_len_Nil [simp]: "ws_len [] = 0"
  by simp

lemma split_ws_free:
  "\<forall>v. suffix v cur \<and> v \<noteq> [] \<longrightarrow> ws_len (v @ s) = 0 \<Longrightarrow> w \<in> set (split_ws cur s) \<Longrightarrow> ws_free w"
proof (induction cur s rule: split_ws.induct)
  case (1 cur s)
  have cur: "ws_free cur" if "cur \<noteq> []"
    unfolding ws_free_def using that 1(3) ws_len_append ws_len_Nil by metis
  consider (stop) "s = []" | (char) "s \<noteq> []" "ws_len s = 0" | (gap) "s \<noteq> []" "ws_len s \<noteq> 0"
    by blast
  then show ?case
  proof cases
    case stop
    with 1(4) cur show ?thesis by (auto simp: split_ws.simps [of cur "[]"] split: if_splits)
  next
    case char
    have "ws_len (v @ tl s) = 0" if v: "suffix v (cur @ [hd s])" "v \<noteq> []" for v
    proof -
      obtain v' where v': "v = v' @ [hd s]" "suffix v' cur"
        using v by auto
      then show ?thesis using 1(3) char by (cases "v' = []") auto
    qed
    then have "w \<in> set (split_ws (cur @ [hd s]) (tl s)) \<Longrightarrow> ws_free w"
      using 1(1) [OF char] by blast
    with char 1(4) show ?thesis by (simp add: split_ws.simps [of cur s])
  next
    case gap
    with 1(2) 1(4) cur show ?thesis
      by (auto simp: split_ws.simps [of cur s] split: if_splits)
  qed
qed

lemma split_ws_word:
  assumes "\<forall>v. suffix v u \<longrightarrow> ws_len v = 0" "r = [] \<or> hd r = CHR '' ''"
  shows "split_ws cur (u @ r) = split_ws (cur @ u) r"
  using assms(1)
proof (induction u arbitrary: cur)
  case (Cons c u)
  have "ws_len (c # u @ r) = 0"
    using Cons(2) assms(2) ws_len_append_space [of "c # u" "tl r"]
    by (cases r) auto
  moreover have "\<forall>v. suffix v u \<longrightarrow> ws_len v = 0"
    using Cons(2) by (simp add: suffix_ConsI)
  ultimately show ?case
    using Cons(1) by (simp add: split_ws.simps [of cur "c # u @ r"])
qed simp

lemma split_ws_space:
  "cur \<noteq> [] \<Longrightarrow> split_ws cur (CHR '' '' # r) = cur # split_ws [] r"
proof -
  have "ws_len (CHR '' '' # r) = 1"
    by (cases r rule: ws_len.cases) (auto simp: ws1_def)
  then show "cur \<noteq> [] \<Longrightarrow> ?thesis" by (simp add: split_ws.simps [of cur])
qed

lemma split_join: "list_all ws_free ws \<Longrightarrow> split_whitespace (join '' '' ws) = ws"
  unfolding split_whitespace_def
proof (induction "'' '' :: string" ws rule: join.induct)
  case 1
  then show ?case by (simp add: split_ws.simps)
next
  case (2 x)
  then show ?case
    using split_ws_word [of x "[]" "[]"] by (simp add: ws_free_def split_ws.simps)
next
  case (3 x y xs)
  then show ?case
    using split_ws_word [of x "CHR '' '' # join '' '' (y # xs)" "[]"] split_ws_space [of x]
    by (simp add: ws_free_def)
qed

lemma split_whitespace_free: "list_all ws_free (split_whitespace s)"
  using split_ws_free [of "[]" s] by (auto simp: split_whitespace_def list_all_iff)

section \<open>Lines\<close>

text \<open>\<open>str::lines\<close>: the pieces between line feeds, each less one carriage return before its line feed;
  a last piece without a line feed is kept as it is.\<close>

definition strip_cr :: "string \<Rightarrow> string" where
  "strip_cr l = (if l \<noteq> [] \<and> last l = CHR 0x0D then butlast l else l)"

lemma tl_dropWhile_less: "s \<noteq> [] \<Longrightarrow> length (tl (dropWhile P s)) < length s"
proof -
  assume "s \<noteq> []"
  have "length (tl (dropWhile P s)) \<le> length s - 1"
    using length_dropWhile_le [of P s] by (simp add: diff_le_mono)
  with \<open>s \<noteq> []\<close> show ?thesis by (cases s) auto
qed

function str_lines :: "string \<Rightarrow> string list" where
  "str_lines s =
     (if s = [] then []
      else
        (let l = takeWhile (\<lambda>c. c \<noteq> CHR 0x0A) s; r = dropWhile (\<lambda>c. c \<noteq> CHR 0x0A) s in
         if r = [] then [l] else strip_cr l # str_lines (tl r)))"
  by pat_completeness auto
termination
  by (relation "measure length") (auto simp: tl_dropWhile_less simp del: length_tl)

declare str_lines.simps [simp del]

definition clean_line :: "string \<Rightarrow> bool" where
  "clean_line l \<longleftrightarrow> CHR 0x0A \<notin> set l \<and> (l \<noteq> [] \<longrightarrow> last l \<noteq> CHR 0x0D)"

lemma str_lines_Nil [simp]: "str_lines [] = []"
  by (simp add: str_lines.simps)

lemma str_lines_line: "clean_line l \<Longrightarrow> str_lines (l @ CHR 0x0A # r) = l # str_lines r"
proof -
  assume l: "clean_line l"
  then have "takeWhile (\<lambda>c. c \<noteq> CHR 0x0A) (l @ CHR 0x0A # r) = l"
    "dropWhile (\<lambda>c. c \<noteq> CHR 0x0A) (l @ CHR 0x0A # r) = CHR 0x0A # r"
    by (auto simp: clean_line_def takeWhile_append dropWhile_append)
  with l show ?thesis
    by (subst str_lines.simps) (auto simp: strip_cr_def clean_line_def)
qed

text \<open>Lines written out, each with a line feed, read back.\<close>

lemma str_lines_concat:
  "list_all clean_line ls \<Longrightarrow> str_lines (concat (map (\<lambda>l. l @ [CHR 0x0A]) ls)) = ls"
  by (induction ls) (simp_all add: str_lines_line)

lemma str_lines_no_lf: "l \<in> set (str_lines s) \<Longrightarrow> CHR 0x0A \<notin> set l"
proof (induction s rule: str_lines.induct)
  case (1 s)
  have "CHR 0x0A \<notin> set (takeWhile (\<lambda>c. c \<noteq> CHR 0x0A) s)" by (auto dest: set_takeWhileD)
  moreover from this have "CHR 0x0A \<notin> set (strip_cr (takeWhile (\<lambda>c. c \<noteq> CHR 0x0A) s))"
    by (auto simp: strip_cr_def dest: in_set_butlastD)
  ultimately show ?case
    using 1 by (subst (asm) str_lines.simps) (auto simp: Let_def split: if_splits)
qed

section \<open>Searching, splitting, numbers\<close>

text \<open>\<open>str::find\<close> of a string.\<close>

fun find_sub :: "string \<Rightarrow> string \<Rightarrow> nat option" where
  "find_sub pat [] = (if pat = [] then Some 0 else None)"
| "find_sub pat (c # s) =
     (if prefix pat (c # s) then Some 0 else map_option Suc (find_sub pat s))"

text \<open>\<open>str::split\<close> at a character.\<close>

fun split_on :: "char \<Rightarrow> string \<Rightarrow> string list" where
  "split_on c [] = [[]]"
| "split_on c (x # s) =
     (if x = c then [] # split_on c s
      else (case split_on c s of [] \<Rightarrow> [[x]] | w # ws \<Rightarrow> (x # w) # ws))"

lemma split_on_nonempty [simp]: "split_on c s \<noteq> []"
  by (induction s) (auto split: list.splits)

lemma split_on_word: "c \<notin> set w \<Longrightarrow> split_on c (w @ c # s) = w # split_on c s"
  by (induction w) auto

lemma split_on_last: "c \<notin> set w \<Longrightarrow> split_on c w = [w]"
  by (induction w) auto

text \<open>\<open>str::parse::<u32>\<close>: an optional plus sign, then decimal digits, in range.\<close>

definition is_digit :: "char \<Rightarrow> bool" where
  "is_digit c \<longleftrightarrow> (of_char c :: nat) \<in> {48..57}"

definition parse_u32 :: "string \<Rightarrow> u32 option" where
  "parse_u32 s =
     (let ds = (if s \<noteq> [] \<and> hd s = CHR ''+'' then tl s else s) in
      if ds = [] \<or> \<not> list_all is_digit ds \<or> 2 ^ 32 \<le> int (read_nat ds) then None
      else Some (word_of_nat (read_nat ds)))"

lemma digit_is_digit: "d < 10 \<Longrightarrow> is_digit (digit d)"
  by (simp add: is_digit_def)

lemma show_nat_digits: "list_all is_digit (show_nat n)"
proof (induction n rule: show_nat.induct)
  case (1 n)
  then show ?case by (simp add: show_nat.simps [of n] digit_is_digit)
qed

lemma digits_no_char: "list_all is_digit w \<Longrightarrow> \<not> is_digit c \<Longrightarrow> c \<notin> set w"
  by (auto simp: list_all_iff)

lemma parse_show_u32: "parse_u32 (show_nat (unat w)) = Some w"
proof -
  have "show_nat (unat w) \<noteq> []" "list_all is_digit (show_nat (unat w))" by (simp_all add: show_nat_digits)
  moreover from this have "hd (show_nat (unat w)) \<noteq> CHR ''+''"
    by (cases "show_nat (unat w)") (auto simp: is_digit_def)
  moreover have "unat w < 2 ^ 32" using unsigned_less [of w] by simp
  ultimately show ?thesis by (simp add: parse_u32_def Let_def)
qed

text \<open>Visible ASCII characters make words.\<close>

definition visible :: "char \<Rightarrow> bool" where
  "visible c \<longleftrightarrow> 32 < (of_char c :: nat) \<and> (of_char c :: nat) < 127"

lemma ws_len_visible: "visible c \<Longrightarrow> ws_len (c # s) = 0"
  by (cases "c # s" rule: ws_len.cases) (auto simp: visible_def ws1_def ws2_def ws3_def)

lemma visible_ws_free: "list_all visible w \<Longrightarrow> w \<noteq> [] \<Longrightarrow> ws_free w"
  unfolding ws_free_def
proof (intro conjI allI impI)
  fix v assume "list_all visible w" "suffix v w"
  then have "list_all visible v" by (auto simp: suffix_def)
  then show "ws_len v = 0" by (cases v) (auto simp: ws_len_visible)
qed

lemma digit_visible: "is_digit c \<Longrightarrow> visible c"
  by (simp add: is_digit_def visible_def)

lemma ws_len_rev_visible: "visible c \<Longrightarrow> ws_len_rev (c # s) = 0"
  by (cases "c # s" rule: ws_len_rev.cases) (auto simp: visible_def ws1_def ws2_def ws3_def)

lemma trim_visible: "list_all visible w \<Longrightarrow> trim w = w"
proof (cases "w = []")
  case False
  assume v: "list_all visible w"
  have "ws_len w = 0" using v False by (cases w) (auto simp: ws_len_visible)
  moreover have "ws_len_rev (rev w) = 0"
    using v False by (cases w rule: rev_cases) (auto simp: ws_len_rev_visible)
  ultimately show ?thesis
    by (simp add: trim_def trim_end_def trim_start.simps [of w] trim_rev.simps [of "rev w"])
qed simp

section \<open>Characters\<close>

text \<open>A continuation byte of UTF-8, and the number of characters of a string.\<close>

definition cont :: "char \<Rightarrow> bool" where
  "cont c \<longleftrightarrow> (of_char c :: nat) \<in> {128..191}"

definition char_count :: "string \<Rightarrow> nat" where
  "char_count s = length (filter (\<lambda>c. \<not> cont c) s)"

text \<open>\<open>String::from_utf8\<close>: the well-formed byte sequences.\<close>

fun utf8_ok :: "string \<Rightarrow> bool" where
  "utf8_ok [] \<longleftrightarrow> True"
| "utf8_ok (a # s) \<longleftrightarrow>
     (let n = (of_char a :: nat) in
      if n < 128 then utf8_ok s
      else
        (case s of
           [] \<Rightarrow> False
         | b # s1 \<Rightarrow>
             let m = (of_char b :: nat) in
             if 194 \<le> n \<and> n \<le> 223 then cont b \<and> utf8_ok s1
             else
               (case s1 of
                  [] \<Rightarrow> False
                | c # s2 \<Rightarrow>
                    if 224 \<le> n \<and> n \<le> 239
                    then cont b \<and> (n = 224 \<longrightarrow> 160 \<le> m) \<and> (n = 237 \<longrightarrow> m \<le> 159) \<and> cont c \<and> utf8_ok s2
                    else
                      (case s2 of
                         [] \<Rightarrow> False
                       | d # s3 \<Rightarrow>
                           240 \<le> n \<and> n \<le> 244 \<and> cont b \<and> (n = 240 \<longrightarrow> 144 \<le> m) \<and>
                           (n = 244 \<longrightarrow> m \<le> 143) \<and> cont c \<and> cont d \<and> utf8_ok s3))))"

text \<open>\<open>String::from_utf8_lossy\<close>: each ill-formed part becomes one replacement character. \<open>bad_len\<close> is the
  length of the longest start of a character the bytes begin with, at least one.\<close>

definition second_ok :: "nat \<Rightarrow> char \<Rightarrow> bool" where
  "second_ok n b \<longleftrightarrow>
     (let m = (of_char b :: nat) in
      cont b \<and> 194 \<le> n \<and> n \<le> 244 \<and> (n = 224 \<longrightarrow> 160 \<le> m) \<and> (n = 237 \<longrightarrow> m \<le> 159) \<and>
      (n = 240 \<longrightarrow> 144 \<le> m) \<and> (n = 244 \<longrightarrow> m \<le> 143))"

definition good_len :: "string \<Rightarrow> nat" where
  "good_len s =
     (case s of
        [] \<Rightarrow> 0
      | a # t \<Rightarrow>
          let n = (of_char a :: nat) in
          if n < 128 then 1
          else
            (case t of
               [] \<Rightarrow> 0
             | b # u \<Rightarrow>
                 if \<not> second_ok n b then 0
                 else if n \<le> 223 then 2
                 else
                   (case u of
                      [] \<Rightarrow> 0
                    | c # v \<Rightarrow>
                        if \<not> cont c then 0
                        else if n \<le> 239 then 3
                        else (case v of [] \<Rightarrow> 0 | d # _ \<Rightarrow> if cont d then 4 else 0))))"

fun bad_len :: "string \<Rightarrow> nat" where
  "bad_len (a # b # c # s) =
     (if \<not> second_ok (of_char a) b then 1 else if cont c \<and> 240 \<le> (of_char a :: nat) then 3 else 2)"
| "bad_len [a, b] = (if second_ok (of_char a) b then 2 else 1)"
| "bad_len _ = 1"

lemma good_len_le: "good_len s \<le> length s"
  by (auto simp: good_len_def Let_def split: list.splits)

lemma bad_len_pos: "0 < bad_len s"
  by (cases s rule: bad_len.cases) auto

function from_utf8_lossy :: "string \<Rightarrow> string" where
  "from_utf8_lossy s =
     (if s = [] then []
      else if 0 < good_len s then take (good_len s) s @ from_utf8_lossy (drop (good_len s) s)
      else [CHR 0xEF, CHR 0xBF, CHR 0xBD] @ from_utf8_lossy (drop (bad_len s) s))"
  by pat_completeness auto
termination by (relation "measure length") (auto simp: bad_len_pos)

declare from_utf8_lossy.simps [simp del]

lemma utf8_ok_good_len: "utf8_ok s \<longleftrightarrow> s = [] \<or> 0 < good_len s \<and> utf8_ok (drop (good_len s) s)"
proof (cases s)
  case (Cons a t)
  show ?thesis
    unfolding Cons by (subst utf8_ok.simps) (auto simp: good_len_def second_ok_def Let_def simp del: utf8_ok.simps split: list.splits)
qed simp

lemma from_utf8_lossy_Nil [simp]: "from_utf8_lossy [] = []"
  by (simp add: from_utf8_lossy.simps [of "[]"])

lemma from_utf8_lossy_ok: "utf8_ok s \<Longrightarrow> from_utf8_lossy s = s"
proof (induction s rule: from_utf8_lossy.induct)
  case (1 s)
  then show ?case
    using utf8_ok_good_len [of s] by (cases "s = []") (simp_all add: from_utf8_lossy.simps [of s])
qed

end
