(* ===== verification/Workflow_Engine.thy ===== *)
theory Workflow_Engine
  imports Workflow_Script Rust_Text
begin

text \<open>
  The step-list engine, workflow validation and cron normalisation of
  \<open>crates/goble-workflow/src/lib.rs\<close> and \<open>schedule.rs\<close>. The step executor is an argument with its
  own state; the clock is the function from the number of a reading to its value.
\<close>

section \<open>Building and validating a workflow\<close>

definition with_script :: "'ast rhai \<Rightarrow> string \<Rightarrow> workflow \<Rightarrow> (workflow_error, workflow) result" where
  "with_script R source w =
     (case meta_of R source of
        Err e \<Rightarrow> Err (ScriptError e)
      | Ok m \<Rightarrow>
        (if trim (meta_name m) = [] then Err (ScriptError ''the script's meta.name is empty'')
         else Ok (w\<lparr>wf_steps := map (\<lambda>ph. step_new (slug (pm_title ph)) (pm_title ph)) (meta_phases m),
                   wf_name := meta_name m, wf_script := Some source\<rparr>)))"

text \<open>The loop of \<open>validate\<close> over the steps, with the identifiers seen so far.\<close>

fun first_duplicate :: "step_id list \<Rightarrow> step list \<Rightarrow> step_id option" where
  "first_duplicate seen [] = None"
| "first_duplicate seen (s # steps) =
     (if step_id s \<in> set seen then Some (step_id s)
      else first_duplicate (step_id s # seen) steps)"

definition validate :: "'ast rhai \<Rightarrow> workflow \<Rightarrow> (workflow_error, unit) result" where
  "validate R w =
     (let head = (case wf_script w of
          Some source \<Rightarrow> (case meta_of R source of Err e \<Rightarrow> Err (ScriptError e) | Ok _ \<Rightarrow> Ok ())
        | None \<Rightarrow> if wf_steps w = [] then Err (NoSteps (wf_id w)) else Ok ())
      in case head of
           Err e \<Rightarrow> Err e
         | Ok _ \<Rightarrow>
           (case first_duplicate [] (wf_steps w) of
              Some i \<Rightarrow> Err (DuplicateStepId i)
            | None \<Rightarrow> Ok ()))"

section \<open>Step executors\<close>

type_synonym 's step_executor = "'s \<Rightarrow> step \<Rightarrow> step_outcome \<times> 's"

type_synonym mock_step = "(string \<times> step_outcome) list"

definition mock_step_new :: mock_step where
  "mock_step_new = []"

definition with_outcome :: "string \<Rightarrow> step_outcome \<Rightarrow> mock_step \<Rightarrow> mock_step" where
  "with_outcome s outcome m = AList.update s outcome m"

definition fail_step :: "string \<Rightarrow> mock_step \<Rightarrow> mock_step" where
  "fail_step key m = AList.update key (OutFailed (''forced failure for '' @ key)) m"

definition outcome_for :: "mock_step \<Rightarrow> step \<Rightarrow> step_outcome" where
  "outcome_for m s =
     (case map_of m (stid (step_id s)) of
        Some oc \<Rightarrow> oc
      | None \<Rightarrow> (case map_of m (step_name s) of Some oc \<Rightarrow> oc | None \<Rightarrow> OutSucceeded))"

definition mock_run :: "mock_step step_executor" where
  "mock_run m s = (outcome_for m s, m)"

section \<open>The engine\<close>

definition skipped_steps :: "timestamp \<Rightarrow> nat \<Rightarrow> step list \<Rightarrow> step_execution list" where
  "skipped_steps finished from steps =
     map (\<lambda>(i, s). \<lparr>se_index = i, se_step_id = step_id s, se_name = step_name s,
       se_status = StepSkipped, se_started_at = finished, se_finished_at = Some finished\<rparr>)
     (enumerate from steps)"

text \<open>
  The loop of \<open>run\<close> from step \<open>index\<close> on: the log entries it pushes, the status and finish time
  it leaves, the number of clock readings so far and the executor's state.
\<close>

fun engine_loop ::
  "clock \<Rightarrow> 's step_executor \<Rightarrow> nat \<Rightarrow> nat \<Rightarrow> 's \<Rightarrow> step list
   \<Rightarrow> step_execution list \<times> run_status \<times> timestamp option \<times> nat \<times> 's"
where
  "engine_loop clk exec reads index s [] = ([], RunRunning, None, reads, s)"
| "engine_loop clk exec reads index s (st # steps) =
     (let step_started = clk reads;
          (outcome, s) = exec s st;
          (taken, failed) = (case outcome of
             OutSucceeded \<Rightarrow> (StepSucceeded, None)
           | OutFailed msg \<Rightarrow> (StepFailed msg, Some msg));
          finished = clk (Suc reads);
          entry = \<lparr>se_index = index, se_step_id = step_id st, se_name = step_name st,
            se_status = taken, se_started_at = step_started, se_finished_at = Some finished\<rparr>
      in case failed of
           Some msg \<Rightarrow> (entry # skipped_steps finished (Suc index) steps, RunFailed msg,
             Some finished, Suc (Suc reads), s)
         | None \<Rightarrow>
           (let (log, status, fin, reads, s) =
              engine_loop clk exec (Suc (Suc reads)) (Suc index) s steps
            in (entry # log, status, fin, reads, s)))"

definition engine_run ::
  "clock \<Rightarrow> 's step_executor \<Rightarrow> 's \<Rightarrow> workflow \<Rightarrow> workflow_run \<times> 's"
where
  "engine_run clk exec s w =
     (let started_at = clk 0;
          (log, status, fin, reads, s) = engine_loop clk exec 1 0 s (wf_steps w);
          (status, fin) = (if status = RunRunning then (RunSucceeded, Some (clk reads))
            else (status, fin))
      in (\<lparr>wr_workflow_id = wf_id w, wr_status = status, wr_steps = log,
           wr_started_at = started_at, wr_finished_at = fin, wr_output = None, wr_log = []\<rparr>, s))"

section \<open>Cron expressions\<close>

definition normalize_cron :: "string \<Rightarrow> (workflow_error, string) result" where
  "normalize_cron expr =
     (let trimmed = trim expr; fields = split_whitespace trimmed in
      if length fields = 5 then Ok (''0 '' @ join '' '' fields)
      else if length fields = 6 \<or> length fields = 7 then Ok (join '' '' fields)
      else Err (CronError (FieldCount trimmed (length fields))))"

text \<open>The \<open>cron\<close> crate is third-party: its parser and its occurrence iterator are arguments.\<close>

definition parse_cron ::
  "(string \<Rightarrow> (string, 'sched) result) \<Rightarrow> string \<Rightarrow> (workflow_error, 'sched) result"
where
  "parse_cron parse expr =
     (case normalize_cron expr of
        Err e \<Rightarrow> Err e
      | Ok s \<Rightarrow> (case parse s of Err e \<Rightarrow> Err (CronError (CronSyntax expr e)) | Ok x \<Rightarrow> Ok x))"

definition validate_cron ::
  "(string \<Rightarrow> (string, 'sched) result) \<Rightarrow> string \<Rightarrow> (workflow_error, unit) result"
where
  "validate_cron parse expr = (case parse_cron parse expr of Err e \<Rightarrow> Err e | Ok _ \<Rightarrow> Ok ())"

definition next_after ::
  "(string \<Rightarrow> (string, 'sched) result) \<Rightarrow> ('sched \<Rightarrow> timestamp \<Rightarrow> timestamp option)
   \<Rightarrow> string \<Rightarrow> timestamp \<Rightarrow> (workflow_error, timestamp option) result"
where
  "next_after parse occ expr after =
     (case parse_cron parse expr of Err e \<Rightarrow> Err e | Ok x \<Rightarrow> Ok (occ x after))"

section \<open>The engine's log\<close>

text \<open>
  The reference: the first step whose outcome is a failure, when the executor runs the steps in
  order, and the executor's state after a run of steps.
\<close>

fun run_steps :: "'s step_executor \<Rightarrow> 's \<Rightarrow> step list \<Rightarrow> 's" where
  "run_steps exec s [] = s"
| "run_steps exec s (st # steps) = run_steps exec (snd (exec s st)) steps"

fun outcomes :: "'s step_executor \<Rightarrow> 's \<Rightarrow> step list \<Rightarrow> step_outcome list" where
  "outcomes exec s [] = []"
| "outcomes exec s (st # steps) = fst (exec s st) # outcomes exec (snd (exec s st)) steps"

definition first_failure :: "step_outcome list \<Rightarrow> nat" where
  "first_failure outs = length (takeWhile (\<lambda>oc. oc = OutSucceeded) outs)"

fun failure_message :: "step_outcome \<Rightarrow> string" where
  "failure_message (OutFailed msg) = msg"
| "failure_message OutSucceeded = []"

definition expected_status :: "step_outcome list \<Rightarrow> nat \<Rightarrow> step_status" where
  "expected_status outs k =
     (if k < first_failure outs then StepSucceeded
      else if k = first_failure outs then StepFailed (failure_message (outs ! k))
      else StepSkipped)"

lemma length_outcomes [simp]: "length (outcomes exec s steps) = length steps"
  by (induction steps arbitrary: s) auto

lemma first_failure_le: "first_failure outs \<le> length outs"
  by (simp add: first_failure_def length_takeWhile_le)

lemma first_failure_Cons [simp]:
  "first_failure (oc # outs) = (if oc = OutSucceeded then Suc (first_failure outs) else 0)"
  by (simp add: first_failure_def)

lemma expected_status_Cons_Succeeded:
  "map (expected_status (OutSucceeded # outs)) [0..<Suc n] =
     StepSucceeded # map (expected_status outs) [0..<n]"
  by (rule nth_equalityI) (auto simp: expected_status_def nth_Cons' nth_append simp del: upt_Suc)

lemma skipped_steps_fields:
  "map se_index (skipped_steps t k steps) = [k..<k + length steps]"
  "map se_step_id (skipped_steps t k steps) = map step_id steps"
  "map se_name (skipped_steps t k steps) = map step_name steps"
  "map se_status (skipped_steps t k steps) = replicate (length steps) StepSkipped"
  by (auto simp: skipped_steps_def nth_enumerate_eq intro!: nth_equalityI)

lemma engine_loop_log:
  assumes "engine_loop clk exec reads index s steps = (log, status, fin, reads', s')"
  shows "map se_index log = [index..<index + length steps] \<and>
    map se_step_id log = map step_id steps \<and> map se_name log = map step_name steps \<and>
    map se_status log = map (expected_status (outcomes exec s steps)) [0..<length steps] \<and>
    status = (if first_failure (outcomes exec s steps) < length steps
      then RunFailed (failure_message (outcomes exec s steps ! first_failure (outcomes exec s steps)))
      else RunRunning) \<and>
    (status \<noteq> RunRunning \<longrightarrow> fin \<noteq> None) \<and>
    s' = run_steps exec s (take (Suc (first_failure (outcomes exec s steps))) steps)"
  using assms
proof (induction steps arbitrary: reads index s log)
  case Nil
  then show ?case by simp
next
  case (Cons st steps)
  obtain oc s1 where e: "exec s st = (oc, s1)" by fastforce
  show ?case
  proof (cases oc)
    case (OutFailed msg)
    have "map (expected_status (oc # outs)) [0..<Suc n] = StepFailed msg # replicate n StepSkipped"
      for outs n
      by (rule nth_equalityI)
        (auto simp: expected_status_def OutFailed nth_Cons' nth_append simp del: upt_Suc)
    with Cons(2) e OutFailed show ?thesis
      by (auto simp: skipped_steps_fields upt_conv_Cons Let_def simp del: upt_Suc)
  next
    case OutSucceeded
    obtain log1 where
      l: "engine_loop clk exec (Suc (Suc reads)) (Suc index) s1 steps = (log1, status, fin, reads', s')"
      and log: "log = \<lparr>se_index = index, se_step_id = step_id st, se_name = step_name st,
        se_status = StepSucceeded, se_started_at = clk reads,
        se_finished_at = Some (clk (Suc reads))\<rparr> # log1"
      using Cons(2) e OutSucceeded by (auto split: prod.splits)
    have "[index..<index + length (st # steps)] = index # [Suc index..<Suc index + length steps]"
      by (simp add: upt_conv_Cons del: upt_Suc)
    with Cons(1) [OF l] show ?thesis
      unfolding log by (simp add: e OutSucceeded expected_status_Cons_Succeeded del: upt_Suc)
  qed
qed

text \<open>Times of the log: with a clock that never goes back, entries follow each other.\<close>

fun chained :: "timestamp \<Rightarrow> step_execution list \<Rightarrow> timestamp option \<Rightarrow> bool" where
  "chained t [] fin \<longleftrightarrow> (case fin of None \<Rightarrow> True | Some f \<Rightarrow> t \<le> f)"
| "chained t (e # log) fin \<longleftrightarrow>
     t \<le> se_started_at e \<and>
     (case se_finished_at e of None \<Rightarrow> False
      | Some f \<Rightarrow> se_started_at e \<le> f \<and> chained f log fin)"

lemma chained_skipped: "chained t (skipped_steps t k steps) (Some t)"
  by (induction steps arbitrary: k) (auto simp: skipped_steps_def)

lemma engine_loop_chained:
  assumes "mono clk" "engine_loop clk exec reads index s steps = (log, status, fin, reads', s')"
    and "t \<le> clk reads"
  shows "reads \<le> reads' \<and> (status \<noteq> RunRunning \<longrightarrow> fin \<noteq> None) \<and>
    chained t log (if status = RunRunning then Some (clk reads') else fin)"
  using assms(2,3)
proof (induction steps arbitrary: reads index s log t)
  case (Cons st steps)
  obtain oc s1 where e: "exec s st = (oc, s1)" by fastforce
  have m: "clk reads \<le> clk (Suc reads)" "clk (Suc reads) \<le> clk (Suc (Suc reads))"
    using assms(1) by (auto simp: mono_def)
  show ?case
  proof (cases oc)
    case (OutFailed msg)
    then show ?thesis using Cons(2,3) e m by (auto simp: Let_def chained_skipped)
  next
    case OutSucceeded
    then obtain log1 where
      l: "engine_loop clk exec (Suc (Suc reads)) (Suc index) s1 steps = (log1, status, fin, reads', s')"
      and log: "log = \<lparr>se_index = index, se_step_id = step_id st, se_name = step_name st,
        se_status = StepSucceeded, se_started_at = clk reads,
        se_finished_at = Some (clk (Suc reads))\<rparr> # log1"
      using Cons(2) e by (auto simp: Let_def split: prod.splits)
    show ?thesis using Cons(1) [OF l m(2)] Cons(3) m(1) by (simp add: log)
  qed
qed auto

section \<open>Properties of the engine\<close>

text \<open>C35. A run's log has one entry per step, in the order of the workflow and under the steps' own
positions, names and identifiers: succeeded up to the first step whose executor fails, failed
with the executor's message there, skipped after it. The run fails with that message, or
succeeds when no step fails, and the executor has run exactly the steps up to and including the
first failure.\<close>

theorem engine_log_complete:
  "case engine_run clk exec s w of (r, s') \<Rightarrow>
     let n = length (wf_steps w); outs = outcomes exec s (wf_steps w); k = first_failure outs in
     map se_index (wr_steps r) = [0..<n] \<and>
     map se_step_id (wr_steps r) = map step_id (wf_steps w) \<and>
     map se_name (wr_steps r) = map step_name (wf_steps w) \<and>
     map se_status (wr_steps r) = map (expected_status outs) [0..<n] \<and>
     wr_status r = (if k < n then RunFailed (failure_message (outs ! k)) else RunSucceeded) \<and>
     wr_finished_at r \<noteq> None \<and> s' = run_steps exec s (take (Suc k) (wf_steps w))"
proof -
  obtain log status fin reads s1 where
    l: "engine_loop clk exec (Suc 0) 0 s (wf_steps w) = (log, status, fin, reads, s1)"
    by (metis prod_cases5)
  then show ?thesis
    using engine_loop_log [OF l] by (auto simp: engine_run_def Let_def)
qed

text \<open>With a clock that never runs backwards, a run starts before its first step, every step
starts no earlier than the step before it finished and finishes no earlier than it started, and
the run finishes no earlier than its last step.\<close>

theorem engine_times_ordered:
  assumes "mono clk"
  shows "case engine_run clk exec s w of (r, s') \<Rightarrow>
    wr_finished_at r \<noteq> None \<and> chained (wr_started_at r) (wr_steps r) (wr_finished_at r)"
proof -
  obtain log status fin reads s1 where
    l: "engine_loop clk exec (Suc 0) 0 s (wf_steps w) = (log, status, fin, reads, s1)"
    by (metis prod_cases5)
  have "clk 0 \<le> clk (Suc 0)" using assms by (simp add: mono_def)
  from engine_loop_chained [OF assms l this] show ?thesis
    by (auto simp: engine_run_def l Let_def)
qed

theorem engine_times_ordered_witness:
  "case engine_run int mock_run (fail_step ''b'' mock_step_new)
      (with_steps [step_new ''a'' ''A'', step_new ''b'' ''B'', step_new ''c'' ''C'']
        (workflow_new (WorkflowId ''w'') ''W'')) of (r, s') \<Rightarrow>
    chained (wr_started_at r) (wr_steps r) (wr_finished_at r) \<and>
    map se_status (wr_steps r) = [StepSucceeded, StepFailed ''forced failure for b'', StepSkipped]"
proof -
  let ?w = "with_steps [step_new ''a'' ''A'', step_new ''b'' ''B'', step_new ''c'' ''C'']
    (workflow_new (WorkflowId ''w'') ''W'')"
  have "mono int" by (simp add: mono_def)
  from engine_times_ordered [OF this, of mock_run "fail_step ''b'' mock_step_new" ?w] show ?thesis
    by (auto simp: engine_run_def with_steps_def workflow_new_def step_new_def mock_run_def
        outcome_for_def fail_step_def mock_step_new_def skipped_steps_def Let_def)
qed

lemma first_duplicate_None:
  "first_duplicate seen steps = None \<longleftrightarrow>
     distinct (map step_id steps) \<and> set (map step_id steps) \<inter> set seen = {}"
  by (induction seen steps rule: first_duplicate.induct) auto

lemma first_duplicate_Some:
  "first_duplicate seen steps = Some i \<Longrightarrow>
   i \<in> set seen \<and> i \<in> set (map step_id steps) \<or> 2 \<le> count_list (map step_id steps) i"
  by (induction seen steps rule: first_duplicate.induct)
    (auto split: if_splits simp: Suc_le_eq count_list_0_iff simp flip: neq0_conv)

text \<open>A step-list workflow is accepted exactly when it has a step and its step identifiers are
pairwise distinct, and the error names the fault: no steps, or an identifier that occurs twice.
A script workflow is accepted exactly when its header is readable and its steps have distinct
identifiers.\<close>

theorem validate_exact:
  "(wf_script w = None \<longrightarrow>
      (validate R w = Ok () \<longleftrightarrow> wf_steps w \<noteq> [] \<and> distinct (map step_id (wf_steps w)))) \<and>
   (wf_script w = Some source \<longrightarrow>
      (validate R w = Ok () \<longleftrightarrow>
         (\<exists>m. meta_of R source = Ok m) \<and> distinct (map step_id (wf_steps w)))) \<and>
   (validate R w = Err (NoSteps i) \<longrightarrow> i = wf_id w \<and> wf_steps w = [] \<and> wf_script w = None) \<and>
   (validate R w = Err (DuplicateStepId d) \<longrightarrow> 2 \<le> count_list (map step_id (wf_steps w)) d)"
proof -
  have "2 \<le> count_list (map step_id (wf_steps w)) d"
    if "first_duplicate [] (wf_steps w) = Some d" for d
    using first_duplicate_Some [OF that] by simp
  then show ?thesis
    using first_duplicate_None [of "[]" "wf_steps w"]
    by (auto simp: validate_def Let_def split: option.splits sum.splits if_splits)
qed

theorem validate_exact_witness:
  "let w = with_steps [step_new ''a'' ''A'', step_new ''a'' ''B''] (workflow_new (WorkflowId ''w'') ''W'')
   in validate (demo_rhai (Finished None)) w = Err (DuplicateStepId (StepId ''a'')) \<and>
      2 \<le> count_list (map step_id (wf_steps w)) (StepId ''a'')"
proof -
  let ?w = "with_steps [step_new ''a'' ''A'', step_new ''a'' ''B''] (workflow_new (WorkflowId ''w'') ''W'')"
  have "validate (demo_rhai (Finished None)) ?w = Err (DuplicateStepId (StepId ''a''))"
    by (simp add: validate_def with_steps_def workflow_new_def step_new_def)
  then show ?thesis
    using validate_exact [of ?w "demo_rhai (Finished None)" "[]" "WorkflowId ''w''" "StepId ''a''"]
    by simp
qed

section \<open>Cron normalisation\<close>

text \<open>A cron expression is accepted for normalisation exactly when it has five, six or seven
fields. The result has six or seven fields: the fields as written, after a seconds field \<open>0\<close> when
there were five. An expression with any other number of fields is an error that reports the
number.\<close>

theorem normalize_cron_correct:
  "let fields = split_whitespace (trim expr) in
   case normalize_cron expr of
     Ok s \<Rightarrow> length fields \<in> {5, 6, 7} \<and>
       split_whitespace s = (if length fields = 5 then ''0'' # fields else fields)
   | Err e \<Rightarrow> length fields \<notin> {5, 6, 7} \<and>
       e = CronError (FieldCount (trim expr) (length fields))"
proof -
  let ?f = "split_whitespace (trim expr)"
  have z: "ws_free ''0''" by (auto simp: ws_free_def suffix_Cons ws1_def)
  have "split_whitespace (''0 '' @ join '' '' ?f) = ''0'' # ?f" if "?f \<noteq> []"
    using split_join [of "''0'' # ?f"] split_whitespace_free [of "trim expr"] z that
    by (cases ?f) auto
  moreover have "split_whitespace (join '' '' ?f) = ?f"
    by (rule split_join) (rule split_whitespace_free)
  moreover have "?f \<noteq> []" if "length ?f = 5" using that by auto
  ultimately show ?thesis unfolding normalize_cron_def Let_def by auto
qed

end
