(* ===== verification/Workflow_Host.thy ===== *)
theory Workflow_Host
  imports Workflow_Engine
begin

text \<open>
  The daemon's workflow wiring, \<open>crates/goble-daemon/src/workflow.rs\<close>: the script host and the
  step executor that turn agent calls and steps into harness turns on the daemon's run seam, and
  the journaling host that registers workflows, journals requests, runs workflows and keeps
  their runs. The run seam is an argument with its own state.
\<close>

section \<open>Turns for agent calls and steps\<close>

record turn_source =
  ts_harness_id :: harness_id
  ts_project_id :: project_id
  ts_medium_id :: medium_id
  ts_session_prefix :: string

definition session_name :: "turn_source \<Rightarrow> u64 \<Rightarrow> session_id" where
  "session_name src index =
     SessionId (ts_session_prefix src @ ''-'' @ show_nat (unat index))"

definition source_turn :: "turn_source \<Rightarrow> u64 \<Rightarrow> string \<Rightarrow> harness_turn" where
  "source_turn src index goal =
     (harness_turn_new (ts_harness_id src) (session_name src index) goal)
       \<lparr>turn_project_id := ts_project_id src, turn_medium_id := ts_medium_id src\<rparr>"

text \<open>\<open>ScriptTurnHost\<close>: its state is the call counter, next to the state of the run seam.\<close>

definition script_turn_agent ::
  "turn_source \<Rightarrow> ('d \<Rightarrow> harness_turn \<Rightarrow> (step_outcome \<times> string) \<times> 'd) \<Rightarrow> u64 \<times> 'd
   \<Rightarrow> agent_opts \<Rightarrow> agent_outcome \<times> u64 \<times> 'd"
where
  "script_turn_agent src seam s opts =
     (case s of (counter, d) \<Rightarrow>
      let index = counter;
          counter = counter + 1;
          turn = source_turn src index (ao_prompt opts);
          ((outcome, output), d) = seam d turn;
          (success, err) = (case outcome of OutSucceeded \<Rightarrow> (True, None)
            | OutFailed message \<Rightarrow> (False, Some message))
      in (\<lparr>out_agent_id = ts_session_prefix src @ ''-agent-'' @ show_nat (unat index),
           out_success = success,
           out_output = (if trim output = [] then unwrap_or_default err else output),
           out_tokens_used = 0, out_duration_ms = 0\<rparr>, counter, d))"

definition script_turn_host ::
  "turn_source \<Rightarrow> ('d \<Rightarrow> harness_turn \<Rightarrow> (step_outcome \<times> string) \<times> 'd) \<Rightarrow> (u64 \<times> 'd) script_host"
where
  "script_turn_host src seam =
     \<lparr>sh_agent = script_turn_agent src seam, sh_log = (\<lambda>s _. s)\<rparr>"

text \<open>\<open>HarnessStepExecutor\<close>: the goal of a step's turn is the step's name.\<close>

definition harness_step_run ::
  "turn_source \<Rightarrow> ('d \<Rightarrow> harness_turn \<Rightarrow> step_outcome \<times> 'd) \<Rightarrow> (u64 \<times> 'd) step_executor"
where
  "harness_step_run src seam s st =
     (case s of (counter, d) \<Rightarrow>
      let i = counter;
          counter = counter + 1;
          turn = source_turn src i (step_name st);
          (outcome, d) = seam d turn
      in (outcome, counter, d))"

section \<open>The host\<close>

datatype host_error =
    InvalidWorkflow workflow_error
  | AlreadyRegistered workflow_id
  | NoWorkflow workflow_id
  | ScriptRunFailed string
  | NoScriptRunner workflow_id

text \<open>The last two fields are the states of the executor and of the script host.\<close>

record ('e, 'h) workflow_host =
  wh_executor :: "'e step_executor"
  wh_script_host :: "'h script_host option"
  wh_workflows :: "workflow list"
  wh_journal :: "workflow_host_request list"
  wh_runs :: "workflow_run list"
  wh_next_seq :: u64
  wh_exec_state :: 'e
  wh_script_state :: 'h

definition workflow_host_new :: "'e step_executor \<Rightarrow> 'e \<Rightarrow> 'h \<Rightarrow> ('e, 'h) workflow_host" where
  "workflow_host_new exec e h =
     \<lparr>wh_executor = exec, wh_script_host = None, wh_workflows = [], wh_journal = [], wh_runs = [],
      wh_next_seq = 0, wh_exec_state = e, wh_script_state = h\<rparr>"

definition with_script_host ::
  "'h script_host \<Rightarrow> ('e, 'h) workflow_host \<Rightarrow> ('e, 'h) workflow_host" where
  "with_script_host host wh = wh\<lparr>wh_script_host := Some host\<rparr>"

definition register_workflow ::
  "'ast rhai \<Rightarrow> workflow \<Rightarrow> ('e, 'h) workflow_host \<Rightarrow> (host_error, unit) result \<times> ('e, 'h) workflow_host"
where
  "register_workflow R w wh =
     (case validate R w of
        Err e \<Rightarrow> (Err (InvalidWorkflow e), wh)
      | Ok _ \<Rightarrow>
        (if list_ex (\<lambda>v. wf_id v = wf_id w) (wh_workflows wh)
         then (Err (AlreadyRegistered (wf_id w)), wh)
         else (Ok (), wh\<lparr>wh_workflows := wh_workflows wh @ [w]\<rparr>)))"

definition lookup_workflow :: "workflow_id \<Rightarrow> ('e, 'h) workflow_host \<Rightarrow> workflow option" where
  "lookup_workflow i wh = find (\<lambda>w. wf_id w = i) (wh_workflows wh)"

definition journal ::
  "workflow_host_request \<Rightarrow> ('e, 'h) workflow_host \<Rightarrow> workflow_host_request \<times> ('e, 'h) workflow_host"
where
  "journal request wh =
     (let seq = wh_next_seq wh;
          entry = request\<lparr>req_seq := seq\<rparr>
      in (entry, wh\<lparr>wh_next_seq := wh_next_seq wh + 1, wh_journal := wh_journal wh @ [entry]\<rparr>))"

definition execute ::
  "'ast rhai \<Rightarrow> clock \<Rightarrow> workflow \<Rightarrow> workflow_host_request \<Rightarrow> ('e, 'h) workflow_host
   \<Rightarrow> (host_error, workflow_run) result \<times> ('e, 'h) workflow_host"
where
  "execute R clk w entry wh =
     (case (wf_script w, wh_script_host wh) of
        (Some source, Some host) \<Rightarrow>
          (let (res, h) = script_engine_run R clk script_engine_new source (req_payload entry) host
                 (wh_script_state wh);
               wh = wh\<lparr>wh_script_state := h\<rparr>
           in case res of
                Err e \<Rightarrow> (Err (ScriptRunFailed e), wh)
              | Ok script \<Rightarrow>
                (let run = to_workflow_run (wf_id w) script in
                 (Ok run, wh\<lparr>wh_runs := wh_runs wh @ [run]\<rparr>)))
      | (Some _, None) \<Rightarrow> (Err (NoScriptRunner (wf_id w)), wh)
      | (None, _) \<Rightarrow>
          (let (run, e) = engine_run clk (wh_executor wh) (wh_exec_state wh) w in
           (Ok run, wh\<lparr>wh_exec_state := e, wh_runs := wh_runs wh @ [run]\<rparr>)))"

definition host_run ::
  "'ast rhai \<Rightarrow> clock \<Rightarrow> workflow_host_request \<Rightarrow> ('e, 'h) workflow_host
   \<Rightarrow> (host_error, workflow_run) result \<times> ('e, 'h) workflow_host"
where
  "host_run R clk request wh =
     (let (entry, wh) = journal request wh in
      case lookup_workflow (req_workflow_id entry) wh of
        None \<Rightarrow> (Err (NoWorkflow (req_workflow_id entry)), wh)
      | Some w \<Rightarrow> execute R clk w entry wh)"

definition host_run_workflow ::
  "'ast rhai \<Rightarrow> clock \<Rightarrow> workflow \<Rightarrow> workflow_host_request \<Rightarrow> ('e, 'h) workflow_host
   \<Rightarrow> (host_error, workflow_run) result \<times> ('e, 'h) workflow_host"
where
  "host_run_workflow R clk w request wh =
     (let (entry, wh) = journal request wh in execute R clk w entry wh)"

section \<open>The host as a state machine\<close>

inductive host_step :: "'ast rhai \<Rightarrow> ('e, 'h) workflow_host \<Rightarrow> ('e, 'h) workflow_host \<Rightarrow> bool"
  for R :: "'ast rhai"
where
  step_register: "host_step R wh (snd (register_workflow R w wh))"
| step_run: "host_step R wh (snd (host_run R clk request wh))"
| step_run_workflow: "host_step R wh (snd (host_run_workflow R clk w request wh))"
| step_script_host: "host_step R wh (with_script_host host wh)"

inductive_cases host_stepE: "host_step R wh wh'"

text \<open>
  The journal is numbered from zero without gaps, and the registered workflows are valid with
  pairwise distinct identifiers.
\<close>

definition host_wf :: "'ast rhai \<Rightarrow> ('e, 'h) workflow_host \<Rightarrow> bool" where
  "host_wf R wh \<longleftrightarrow>
     map req_seq (wh_journal wh) = map of_nat [0..<length (wh_journal wh)] \<and>
     wh_next_seq wh = of_nat (length (wh_journal wh)) \<and>
     distinct (map wf_id (wh_workflows wh)) \<and>
     list_all (\<lambda>w. validate R w = Ok ()) (wh_workflows wh)"

definition same_store :: "('e, 'h) workflow_host \<Rightarrow> ('e, 'h) workflow_host \<Rightarrow> bool" where
  "same_store wh wh' \<longleftrightarrow>
     wh_journal wh' = wh_journal wh \<and> wh_next_seq wh' = wh_next_seq wh \<and>
     wh_workflows wh' = wh_workflows wh \<and> wh_executor wh' = wh_executor wh \<and>
     wh_script_host wh' = wh_script_host wh"

lemma execute_result:
  assumes "execute R clk w entry wh = (res, wh')"
  shows "same_store wh wh' \<and>
    wh_runs wh' = wh_runs wh @ (case res of Ok run \<Rightarrow> [run] | Err e \<Rightarrow> []) \<and>
    (\<forall>run. res = Ok run \<longrightarrow> wr_workflow_id run = wf_id w)"
  using assms
  by (auto simp: execute_def same_store_def engine_run_def to_workflow_run_def Let_def
      split: option.splits prod.splits sum.splits)

lemma same_store_wf: "same_store wh wh' \<Longrightarrow> host_wf R wh' \<longleftrightarrow> host_wf R wh"
  by (simp add: same_store_def host_wf_def)

lemma journal_wf: "host_wf R wh \<Longrightarrow> host_wf R (snd (journal request wh))"
  by (auto simp: journal_def host_wf_def Let_def add.commute)

lemma execute_wf: "host_wf R wh \<Longrightarrow> host_wf R (snd (execute R clk w entry wh))"
  using execute_result [of R clk w entry wh] same_store_wf by (metis prod.collapse)

lemma host_run_wf: "host_wf R wh \<Longrightarrow> host_wf R (snd (host_run R clk request wh))"
  using journal_wf [of R wh request]
  by (auto simp: host_run_def Let_def execute_wf split: prod.split option.split)

lemma host_run_workflow_wf: "host_wf R wh \<Longrightarrow> host_wf R (snd (host_run_workflow R clk w request wh))"
  using journal_wf [of R wh request]
  by (auto simp: host_run_workflow_def Let_def execute_wf split: prod.split)

lemma register_workflow_wf: "host_wf R wh \<Longrightarrow> host_wf R (snd (register_workflow R w wh))"
  by (auto simp: register_workflow_def host_wf_def list_ex_iff split: sum.split)

lemma with_script_host_wf: "host_wf R (with_script_host host wh) \<longleftrightarrow> host_wf R wh"
  by (simp add: with_script_host_def host_wf_def)

lemma host_step_wf: "host_wf R wh \<Longrightarrow> host_step R wh wh' \<Longrightarrow> host_wf R wh'"
  by (erule host_stepE)
    (simp_all add: register_workflow_wf host_run_wf host_run_workflow_wf with_script_host_wf)

interpretation host_inv: inductive_invariant
  "\<lambda>wh. \<exists>exec e h. wh = workflow_host_new exec e h" "host_step R" "host_wf R" for R
proof
  show "\<exists>exec e h. s = workflow_host_new exec e h \<Longrightarrow> host_wf R s" for s
    by (auto simp: host_wf_def workflow_host_new_def)
  show "host_wf R s \<Longrightarrow> host_step R s t \<Longrightarrow> host_wf R t" for s t
    by (rule host_step_wf)
qed

section \<open>Turns of a workflow run\<close>

definition step_turns :: "turn_source \<Rightarrow> u64 \<Rightarrow> step list \<Rightarrow> harness_turn list" where
  "step_turns src c steps =
     map (\<lambda>(i, st). source_turn src (c + of_nat i) (step_name st)) (enumerate 0 steps)"

definition run_turns ::
  "('d \<Rightarrow> harness_turn \<Rightarrow> step_outcome \<times> 'd) \<Rightarrow> harness_turn list \<Rightarrow> 'd \<Rightarrow> 'd"
where
  "run_turns seam turns d = fold (\<lambda>t d. snd (seam d t)) turns d"

lemma enumerate_Suc_map: "enumerate (Suc n) xs = map (\<lambda>(i, x). (Suc i, x)) (enumerate n xs)"
  by (rule nth_equalityI) (auto simp: nth_enumerate_eq)

lemma step_turns_Cons:
  "step_turns src c (st # steps) = source_turn src c (step_name st) # step_turns src (c + 1) steps"
  by (auto simp: step_turns_def enumerate_Suc_map split_def o_def ac_simps)

lemma run_steps_harness:
  "run_steps (harness_step_run src seam) (c, d) steps =
     (c + of_nat (length steps), run_turns seam (step_turns src c steps) d)"
proof (induction steps arbitrary: c d)
  case Nil
  then show ?case by (simp add: run_turns_def step_turns_def)
next
  case (Cons st steps)
  then show ?case
    by (simp add: harness_step_run_def step_turns_Cons run_turns_def Let_def split_def ac_simps)
qed

lemma step_turns_take: "step_turns src c (take n steps) = take n (step_turns src c steps)"
  by (rule nth_equalityI) (auto simp: step_turns_def nth_enumerate_eq)

lemma of_nat_u64_inject:
  "i < 2 ^ 64 \<Longrightarrow> j < 2 ^ 64 \<Longrightarrow> (of_nat i :: u64) = of_nat j \<longleftrightarrow> i = j"
  by (simp add: of_nat_eq_iff take_bit_nat_eq_self word_of_nat_eq_iff)

lemma session_name_inject [simp]: "session_name src a = session_name src b \<longleftrightarrow> a = b"
  by (simp add: session_name_def word_unat_eq_iff)

lemma source_turn_session [simp]: "turn_session_id (source_turn src c g) = session_name src c"
  by (simp add: source_turn_def harness_turn_new_def)

lemma step_turns_distinct:
  assumes "length steps \<le> 2 ^ 64"
  shows "distinct (map turn_session_id (step_turns src c steps))"
  using assms
  by (auto simp: step_turns_def distinct_conv_nth nth_enumerate_eq of_nat_u64_inject)

lemma engine_run_state:
  "snd (engine_run clk exec s w) =
     run_steps exec s (take (Suc (first_failure (outcomes exec s (wf_steps w)))) (wf_steps w))"
proof -
  obtain log status fin reads s1 where
    l: "engine_loop clk exec (Suc 0) 0 s (wf_steps w) = (log, status, fin, reads, s1)"
    by (metis prod_cases5)
  then show ?thesis using engine_loop_log [OF l] by (auto simp: engine_run_def Let_def)
qed

section \<open>Properties of the host\<close>

text \<open>Whatever is registered, run or failed, the host's journal is numbered 0, 1, 2, ... in
the order the requests arrived, the next number is the length of the journal, and the registered
workflows all validate and have pairwise distinct identifiers.\<close>

theorem host_journal_sequenced:
  assumes "reachable (\<lambda>wh. \<exists>exec e h. wh = workflow_host_new exec e h) (host_step R) wh"
  shows "map req_seq (wh_journal wh) = map of_nat [0..<length (wh_journal wh)] \<and>
    wh_next_seq wh = of_nat (length (wh_journal wh)) \<and>
    distinct (map wf_id (wh_workflows wh)) \<and>
    list_all (\<lambda>w. validate R w = Ok ()) (wh_workflows wh)"
  using host_inv.inv_reachable [OF assms] by (simp add: host_wf_def)

theorem host_journal_sequenced_witness:
  "let R = demo_rhai (Finished None);
       req = workflow_host_request_new 0 7 ''r'' (WorkflowId ''w'') TrManual JNull;
       wh0 = workflow_host_new mock_run [] ();
       wh = snd (host_run R int req (snd (host_run R int req wh0)))
   in map req_seq (wh_journal wh) = [0, 1] \<and> wh_next_seq wh = 2"
proof -
  let ?R = "demo_rhai (Finished None)"
    and ?req = "workflow_host_request_new 0 7 ''r'' (WorkflowId ''w'') TrManual JNull"
  let ?init = "workflow_host_new mock_run [] ()"
  let ?one = "snd (host_run ?R int ?req ?init)"
  let ?last = "snd (host_run ?R int ?req ?one)"
  have r0: "reachable (\<lambda>wh. \<exists>exec e h. wh = workflow_host_new exec e h) (host_step ?R) ?init"
    by (rule reachable_init) blast
  have "reachable (\<lambda>wh. \<exists>exec e h. wh = workflow_host_new exec e h) (host_step ?R) ?last"
    by (rule reachable_step [OF reachable_step [OF r0 step_run] step_run])
  from host_journal_sequenced [OF this] have
    "map req_seq (wh_journal ?last) = map of_nat [0..<length (wh_journal ?last)]"
    "wh_next_seq ?last = of_nat (length (wh_journal ?last))" by blast+
  moreover have "length (wh_journal ?last) = 2"
    by (simp add: host_run_def journal_def lookup_workflow_def workflow_host_new_def Let_def)
  ultimately show ?thesis by (simp add: upt_rec)
qed

text \<open>A run request is journalled under the next sequence number before anything else happens,
also when the workflow is unknown; an unknown workflow is an error that runs and stores nothing;
a run that is returned is of the requested workflow and is the one stored last; and a known
workflow fails to run only when it carries a script.\<close>

theorem host_run_outcome:
  "case host_run R clk request wh of (res, wh') \<Rightarrow>
     wh_journal wh' = wh_journal wh @ [request\<lparr>req_seq := wh_next_seq wh\<rparr>] \<and>
     wh_workflows wh' = wh_workflows wh \<and>
     wh_runs wh' = wh_runs wh @ (case res of Ok run \<Rightarrow> [run] | Err e \<Rightarrow> []) \<and>
     (case lookup_workflow (req_workflow_id request) wh of
        None \<Rightarrow> res = Err (NoWorkflow (req_workflow_id request))
      | Some w \<Rightarrow> wf_id w = req_workflow_id request \<and>
          (case res of Ok run \<Rightarrow> wr_workflow_id run = req_workflow_id request
           | Err e \<Rightarrow> wf_script w \<noteq> None))"
proof -
  obtain entry wh1 where j: "journal request wh = (entry, wh1)" by fastforce
  then have e: "entry = request\<lparr>req_seq := wh_next_seq wh\<rparr>"
    and wh1: "wh_journal wh1 = wh_journal wh @ [entry]" "wh_workflows wh1 = wh_workflows wh"
      "wh_runs wh1 = wh_runs wh" "wh_script_host wh1 = wh_script_host wh"
    by (auto simp: journal_def Let_def)
  have look: "lookup_workflow i wh1 = lookup_workflow i wh" for i
    by (simp add: lookup_workflow_def wh1)
  show ?thesis
  proof (cases "lookup_workflow (req_workflow_id request) wh")
    case None
    then show ?thesis by (simp add: host_run_def j e look wh1)
  next
    case (Some w)
    then have w: "wf_id w = req_workflow_id request"
      by (auto simp: lookup_workflow_def dest: find_Some_iff_hd)
    obtain res wh2 where x: "execute R clk w entry wh1 = (res, wh2)" by fastforce
    have run: "host_run R clk request wh = (res, wh2)"
      using x Some by (simp add: host_run_def j e look)
    have "wf_script w \<noteq> None" if "res = Err err" for err
      using x that by (auto simp: execute_def Let_def split: option.splits prod.splits)
    then show ?thesis
      using execute_result [OF x] Some w unfolding run
      by (cases res) (auto simp: e wh1 same_store_def)
  qed
qed

text \<open>When a workflow runs through the daemon's run seam, the seam receives one turn per step
that ran, in order, up to and including the first failing step, and no two of these turns share
a session.\<close>

theorem workflow_steps_on_distinct_sessions:
  assumes "length (wf_steps w) \<le> 2 ^ 64"
  shows "let exec = harness_step_run src seam;
             k = first_failure (outcomes exec (c, d) (wf_steps w));
             turns = take (Suc k) (step_turns src c (wf_steps w))
    in snd (snd (engine_run clk exec (c, d) w)) = run_turns seam turns d \<and>
       distinct (map turn_session_id turns) \<and>
       map turn_goal turns = map step_name (take (Suc k) (wf_steps w))"
proof -
  have goal: "map turn_goal (step_turns src c steps) = map step_name steps" for steps
    by (rule nth_equalityI)
      (auto simp: step_turns_def source_turn_def harness_turn_new_def nth_enumerate_eq)
  show ?thesis
    unfolding engine_run_state run_steps_harness Let_def step_turns_take
    using step_turns_distinct [OF assms] goal by (simp add: take_map [symmetric])
qed

theorem workflow_steps_on_distinct_sessions_witness:
  "let w = with_steps [step_new ''a'' ''A'', step_new ''b'' ''B''] (workflow_new (WorkflowId ''w'') ''W'');
       src = \<lparr>ts_harness_id = HarnessId ''h'', ts_project_id = ProjectId ''p'',
              ts_medium_id = MediumId ''m'', ts_session_prefix = ''wf''\<rparr>;
       seam = (\<lambda>log t. (OutSucceeded, log @ [turn_session_id t]))
   in snd (snd (engine_run int (harness_step_run src seam) (0, []) w)) =
        [SessionId ''wf-0'', SessionId ''wf-1'']"
proof -
  let ?w = "with_steps [step_new ''a'' ''A'', step_new ''b'' ''B''] (workflow_new (WorkflowId ''w'') ''W'')"
  let ?src = "\<lparr>ts_harness_id = HarnessId ''h'', ts_project_id = ProjectId ''p'',
    ts_medium_id = MediumId ''m'', ts_session_prefix = ''wf''\<rparr>"
  let ?seam = "\<lambda>log t. (OutSucceeded, log @ [turn_session_id t])"
  have "length (wf_steps ?w) \<le> 2 ^ 64" by (simp add: with_steps_def)
  from workflow_steps_on_distinct_sessions [OF this, of ?src ?seam 0 "[]" int] show ?thesis
    by (simp add: with_steps_def workflow_new_def step_new_def harness_step_run_def Let_def
        step_turns_Cons step_turns_def [of _ _ "[]"] first_failure_def run_turns_def source_turn_def
        harness_turn_new_def session_name_def show_nat.simps digit_def char_of_def bit_0)
qed

end
