(* ===== verification/Daemon_State.thy ===== *)
theory Daemon_State
  imports Replay_Ledger Daemon_Protocol Workflow_Host "HOL-Library.Char_ord" "HOL-Library.List_Lexorder"
begin

text \<open>
  The daemon core, \<open>crates/goble-daemon/src/state/{mod,core,port,streams}.rs\<close>: the harness
  registry, live sessions, transcript ledgers, snapshot logs, the operations of \<open>DaemonPort\<close> and
  the tasks that drain harness event streams.

  Sessions and ledgers are shared by reference (\<open>Arc\<close>): a live run keeps the ledger it was
  started with even when the map of ledgers gets another one under the same session. So both live
  in explicit heaps, and the maps and the tasks hold references into them. A spawned task is a
  record of what it has left to do; one step of it handles one event of its stream, or one of the
  regions the code goes through after the last event. What an operation does to the outside is a
  trace of effects. A request, and the handling of one event, is one step: the code takes its locks one
  after the other there too, but nothing stated below looks between them.
\<close>

section \<open>Data\<close>

datatype effect =
    FxEmit daemon_event
  | FxCreateDir string
  | FxSetWorkspace harness_id string
  | FxRun harness_id harness_turn
  | FxResume harness_id session_id string
  | FxResumeCommand harness_id session_id command_decision
  | FxCancel harness_id
  | FxRestore harness_id session_id harness_snapshot
  | FxPersist checkpoint

record execution_record =
  er_session_id :: session_id
  er_trace_id :: string
  er_status :: string
  er_started_at :: string
  er_finished_at :: "string option"
  er_events :: "daemon_event list"
  er_project_id :: project_id
  er_medium_id :: medium_id

record session_state =
  ss_session_id :: session_id
  ss_project_id :: project_id
  ss_medium_id :: medium_id
  ss_harness :: harness_runtime
  ss_cancel :: bool
  ss_trace_id :: string
  ss_started_at :: string
  ss_status :: string
  ss_finished_at :: "string option"
  ss_events :: "daemon_event list"
  ss_ledger :: nat
  ss_turn_index :: nat

definition session_record :: "session_state \<Rightarrow> execution_record" where
  "session_record s =
     \<lparr>er_session_id = ss_session_id s, er_trace_id = ss_trace_id s, er_status = ss_status s,
      er_started_at = ss_started_at s, er_finished_at = ss_finished_at s,
      er_events = ss_events s, er_project_id = ss_project_id s, er_medium_id = ss_medium_id s\<rparr>"

text \<open>
  A drain task: the locals of the block \<open>spawn_stream\<close> spawns, and where the task is. After the stream
  the task goes through its regions one by one, and takes and releases another lock in each, so that
  other tasks and requests run in between.
\<close>

datatype drain_phase =
    Streaming | Settling | Snapshotting | Persisting | MarkingStatus | MarkingFinished | Announcing
  | Removing | Ended

record drain =
  dr_session_id :: session_id
  dr_trace_id :: string
  dr_stream :: "harness_server_event list"
  dr_state :: nat
  dr_final_status :: string
  dr_final_error :: "string option"
  dr_phase :: drain_phase

type_synonym daemon_host = "(u64 \<times> harness_registry, u64 \<times> harness_registry) workflow_host"

record daemon =
  ds_registry :: harness_registry
  ds_sessions :: "(session_id \<times> nat) list"
  ds_states :: "session_state list"
  ds_ledgers :: "(session_id \<times> nat) list"
  ds_heap :: "ledger_state list"
  ds_checkpoint_sink :: bool
  ds_snapshots :: "(session_id \<times> harness_snapshot option list) list"
  ds_workspace_root :: "string option"
  ds_workflow_host :: "daemon_host option"
  ds_drains :: "drain list"
  ds_effects :: "effect list"

datatype daemon_error =
    NoHarness harness_id
  | CreateDirFailed string
  | NoLiveSession session_id
  | ResumeUnsupported
  | ApprovalUnsupported
  | NoWorkflowHost
  | HostFailed host_error
  | SessionLive session_id
  | LedgerFailed replay_error

text \<open>What a call reads from its surroundings: the clock and the file system.\<close>

record call_env =
  env_now :: timestamp
  env_clock :: clock
  env_rfc3339 :: "timestamp \<Rightarrow> string"
  env_create_dir :: "string \<Rightarrow> (string, unit) result"

section \<open>Construction and wiring\<close>

definition daemon_new :: "harness_registry \<Rightarrow> daemon" where
  "daemon_new registry =
     \<lparr>ds_registry = registry, ds_sessions = [], ds_states = [], ds_ledgers = [], ds_heap = [],
      ds_checkpoint_sink = False, ds_snapshots = [], ds_workspace_root = None,
      ds_workflow_host = None, ds_drains = [], ds_effects = []\<rparr>"

definition with_workspace_root :: "string \<Rightarrow> daemon \<Rightarrow> daemon" where
  "with_workspace_root root d = d\<lparr>ds_workspace_root := Some root\<rparr>"

definition set_checkpoint_sink :: "bool \<Rightarrow> daemon \<Rightarrow> daemon" where
  "set_checkpoint_sink attached d = d\<lparr>ds_checkpoint_sink := attached\<rparr>"

definition put_ledger :: "session_id \<Rightarrow> ledger_state \<Rightarrow> daemon \<Rightarrow> daemon" where
  "put_ledger s l d =
     d\<lparr>ds_ledgers := AList.update s (length (ds_heap d)) (ds_ledgers d), ds_heap := ds_heap d @ [l]\<rparr>"

definition restore_checkpoint :: "checkpoint \<Rightarrow> daemon \<Rightarrow> daemon" where
  "restore_checkpoint cp d = put_ledger (cp_session_id cp) (from_checkpoint cp) d"

definition snapshot_log :: "session_id \<Rightarrow> daemon \<Rightarrow> harness_snapshot option list" where
  "snapshot_log s d = (case map_of (ds_snapshots d) s of None \<Rightarrow> [] | Some log \<Rightarrow> log)"

text \<open>\<open>ledger\<close>: the reference of a session's ledger, created when the session has none.\<close>

definition get_ledger :: "session_id \<Rightarrow> daemon \<Rightarrow> nat \<times> daemon" where
  "get_ledger s d =
     (case map_of (ds_ledgers d) s of
        Some r \<Rightarrow> (r, d)
      | None \<Rightarrow> (length (ds_heap d), put_ledger s (ledger_new s) d))"

definition register_harness :: "harness_runtime \<Rightarrow> daemon \<Rightarrow> daemon" where
  "register_harness h d = d\<lparr>ds_registry := registry_register h (ds_registry d)\<rparr>"

definition install_workflow_host :: "daemon_host \<Rightarrow> daemon \<Rightarrow> daemon" where
  "install_workflow_host host d = d\<lparr>ds_workflow_host := Some host\<rparr>"

text \<open>The loop of \<open>run_turn_blocking_with_output\<close>.\<close>

fun blocking_drain ::
  "harness_server_event list \<Rightarrow> step_outcome \<Rightarrow> string \<Rightarrow> step_outcome \<times> string"
where
  "blocking_drain [] oc txt = (oc, txt)"
| "blocking_drain (HAssistantDelta s delta # evs) oc txt = blocking_drain evs oc (txt @ delta)"
| "blocking_drain (HDone s # evs) oc txt = blocking_drain evs OutSucceeded txt"
| "blocking_drain (HError s message # evs) oc txt = blocking_drain evs (OutFailed message) txt"
| "blocking_drain (ev # evs) oc txt = blocking_drain evs oc txt"

definition run_turn_blocking_with_output ::
  "timestamp \<Rightarrow> harness_registry \<Rightarrow> harness_turn \<Rightarrow> step_outcome \<times> string"
where
  "run_turn_blocking_with_output now reg turn =
     (case registry_resolve reg (turn_harness_id turn) of
        None \<Rightarrow> (OutFailed (''no harness resolved for '' @ hid (turn_harness_id turn)), [])
      | Some harness \<Rightarrow> blocking_drain (hr_run harness now turn) OutSucceeded [])"

definition run_turn_blocking :: "timestamp \<Rightarrow> harness_registry \<Rightarrow> harness_turn \<Rightarrow> step_outcome" where
  "run_turn_blocking now reg turn = fst (run_turn_blocking_with_output now reg turn)"

text \<open>
  The run seam of the installed executor reads the daemon's registry when a step runs; the
  registry is the part of the executor's state the seam works on.
\<close>

definition install_workflow_executor ::
  "timestamp \<Rightarrow> turn_source \<Rightarrow> daemon \<Rightarrow> daemon"
where
  "install_workflow_executor now src d =
     install_workflow_host
       (workflow_host_new
          (harness_step_run src (\<lambda>reg turn. (run_turn_blocking now reg turn, reg)))
          (0, ds_registry d) (0, ds_registry d)) d"

definition daemon_register_workflow ::
  "'ast rhai \<Rightarrow> workflow \<Rightarrow> daemon \<Rightarrow> (daemon_error, unit) result \<times> daemon"
where
  "daemon_register_workflow R w d =
     (case ds_workflow_host d of
        None \<Rightarrow> (Err NoWorkflowHost, d)
      | Some host \<Rightarrow>
        (case register_workflow R w host of
           (Err e, host) \<Rightarrow> (Err (HostFailed e), d\<lparr>ds_workflow_host := Some host\<rparr>)
         | (Ok u, host) \<Rightarrow> (Ok u, d\<lparr>ds_workflow_host := Some host\<rparr>)))"

section \<open>Turns\<close>

definition spawn_stream ::
  "session_id \<Rightarrow> string \<Rightarrow> harness_server_event list \<Rightarrow> nat \<Rightarrow> daemon \<Rightarrow> daemon"
where
  "spawn_stream s trace stream ref d =
     d\<lparr>ds_drains := ds_drains d @
       [\<lparr>dr_session_id = s, dr_trace_id = trace, dr_stream = stream, dr_state = ref,
         dr_final_status = ''running'', dr_final_error = None, dr_phase = Streaming\<rparr>]\<rparr>"

definition fx :: "effect list \<Rightarrow> daemon \<Rightarrow> daemon" where
  "fx es d = d\<lparr>ds_effects := ds_effects d @ es\<rparr>"

definition prepare_workspace ::
  "call_env \<Rightarrow> harness_runtime \<Rightarrow> string \<Rightarrow> daemon \<Rightarrow> (daemon_error, unit) result \<times> daemon"
where
  "prepare_workspace env harness trace d =
     (case ds_workspace_root d of
        None \<Rightarrow> (Ok (), d)
      | Some root \<Rightarrow>
        (let dir = path_join (path_join root ''harness'') trace in
         case env_create_dir env dir of
           Err e \<Rightarrow> (Err (CreateDirFailed e), d)
         | Ok _ \<Rightarrow> (Ok (), fx [FxCreateDir dir, FxSetWorkspace (hr_id harness) dir] d)))"

definition trace_of :: "session_id \<Rightarrow> string" where
  "trace_of s = ''trace-'' @ sid s"

definition new_session :: "call_env \<Rightarrow> harness_runtime \<Rightarrow> harness_turn \<Rightarrow> nat \<Rightarrow> nat \<Rightarrow> session_state" where
  "new_session env harness turn ledger turn_index =
     \<lparr>ss_session_id = turn_session_id turn, ss_project_id = turn_project_id turn,
      ss_medium_id = turn_medium_id turn, ss_harness = harness, ss_cancel = False,
      ss_trace_id = trace_of (turn_session_id turn), ss_started_at = env_rfc3339 env (env_now env),
      ss_status = ''running'', ss_finished_at = None, ss_events = [], ss_ledger = ledger,
      ss_turn_index = turn_index\<rparr>"

definition daemon_run ::
  "call_env \<Rightarrow> harness_turn \<Rightarrow> daemon \<Rightarrow> (daemon_error, unit) result \<times> daemon"
where
  "daemon_run env turn d =
     (case registry_resolve (ds_registry d) (turn_harness_id turn) of
        None \<Rightarrow> (Err (NoHarness (turn_harness_id turn)), d)
      | Some harness \<Rightarrow>
        (let s = turn_session_id turn; trace = trace_of s in
         case prepare_workspace env harness trace d of
           (Err e, d) \<Rightarrow> (Err e, d)
         | (Ok _, d) \<Rightarrow>
           (let (r, d) = get_ledger s d;
                (turn_index, l) = record_turn (env_now env) turn (ds_heap d ! r);
                d = d\<lparr>ds_heap := (ds_heap d)[r := l]\<rparr>;
                ref = length (ds_states d);
                d = d\<lparr>ds_states := ds_states d @ [new_session env harness turn r turn_index],
                      ds_sessions := AList.update s ref (ds_sessions d)\<rparr>;
                d = fx [FxEmit (DTraceStarted s trace (turn_project_id turn) (turn_medium_id turn)),
                        FxRun (hr_id harness) turn] d
            in (Ok (), spawn_stream s trace (hr_run harness (env_now env) turn) ref d))))"

definition daemon_resume ::
  "call_env \<Rightarrow> session_id \<Rightarrow> string \<Rightarrow> (string \<times> string) option \<Rightarrow> daemon
   \<Rightarrow> (daemon_error, unit) result \<times> daemon"
where
  "daemon_resume env s response credential d =
     (case map_of (ds_sessions d) s of
        None \<Rightarrow> (Err (NoLiveSession s), d)
      | Some ref \<Rightarrow>
        (let st = ds_states d ! ref;
             d = fx [FxResume (hr_id (ss_harness st)) s response] d
         in case hr_resume (ss_harness st) (env_now env) s response credential of
              None \<Rightarrow> (Err ResumeUnsupported, d)
            | Some stream \<Rightarrow> (Ok (), spawn_stream s (ss_trace_id st) stream ref d)))"

definition daemon_resume_command ::
  "call_env \<Rightarrow> session_id \<Rightarrow> command_decision \<Rightarrow> daemon \<Rightarrow> (daemon_error, unit) result \<times> daemon"
where
  "daemon_resume_command env s decision d =
     (case map_of (ds_sessions d) s of
        None \<Rightarrow> (Err (NoLiveSession s), d)
      | Some ref \<Rightarrow>
        (let st = ds_states d ! ref;
             d = fx [FxResumeCommand (hr_id (ss_harness st)) s decision] d
         in case hr_resume_command (ss_harness st) (env_now env) s decision of
              None \<Rightarrow> (Err ApprovalUnsupported, d)
            | Some stream \<Rightarrow> (Ok (), spawn_stream s (ss_trace_id st) stream ref d)))"

definition daemon_cancel :: "session_id \<Rightarrow> daemon \<Rightarrow> (daemon_error, unit) result \<times> daemon" where
  "daemon_cancel s d =
     (case map_of (ds_sessions d) s of
        None \<Rightarrow> (Err (NoLiveSession s), d)
      | Some ref \<Rightarrow>
        (let st = ds_states d ! ref in
         (Ok (), fx [FxCancel (hr_id (ss_harness st))]
            (d\<lparr>ds_states := (ds_states d)[ref := st\<lparr>ss_cancel := True\<rparr>]\<rparr>))))"

definition list_harnesses :: "daemon \<Rightarrow> harness_id list" where
  "list_harnesses d = sort_key hid (registry_list (ds_registry d))"

definition daemon_snapshot :: "daemon \<Rightarrow> execution_record list" where
  "daemon_snapshot d = map (\<lambda>(s, ref). session_record (ds_states d ! ref)) (ds_sessions d)"

definition daemon_run_workflow ::
  "'ast rhai \<Rightarrow> call_env \<Rightarrow> workflow_host_request \<Rightarrow> daemon
   \<Rightarrow> (daemon_error, workflow_run) result \<times> daemon"
where
  "daemon_run_workflow R env request d =
     (case ds_workflow_host d of
        None \<Rightarrow> (Err NoWorkflowHost, d)
      | Some host \<Rightarrow>
        (let host = host\<lparr>wh_exec_state := (fst (wh_exec_state host), ds_registry d),
                         wh_script_state := (fst (wh_script_state host), ds_registry d)\<rparr>
         in case host_run R (env_clock env) request host of
              (Err e, host) \<Rightarrow> (Err (HostFailed e), d\<lparr>ds_workflow_host := Some host\<rparr>)
            | (Ok run, host) \<Rightarrow> (Ok run, d\<lparr>ds_workflow_host := Some host\<rparr>)))"

section \<open>Reversibility\<close>

definition on_ledger ::
  "(ledger_state \<Rightarrow> 'a \<times> ledger_state) \<Rightarrow> session_id \<Rightarrow> daemon \<Rightarrow> 'a \<times> daemon"
where
  "on_ledger f s d =
     (let (r, d) = get_ledger s d; (x, l) = f (ds_heap d ! r)
      in (x, d\<lparr>ds_heap := (ds_heap d)[r := l]\<rparr>))"

definition lift_ledger ::
  "(replay_error, 'a) result \<times> daemon \<Rightarrow> (daemon_error, 'a) result \<times> daemon"
where
  "lift_ledger rd = (case rd of (Err e, d) \<Rightarrow> (Err (LedgerFailed e), d) | (Ok x, d) \<Rightarrow> (Ok x, d))"

text \<open>The environment restore of \<open>rewind\<close>: the effects it has on the harness.\<close>

definition rewind_restore :: "call_env \<Rightarrow> session_id \<Rightarrow> nat \<Rightarrow> ledger_state \<Rightarrow> daemon \<Rightarrow> effect list" where
  "rewind_restore env s at l d =
     (if 0 < at \<and> at < ledger_len l then
        (let log = snapshot_log s d;
             snapshot = (if at - 1 < length log then log ! (at - 1) else None);
             harness_id = map_option (\<lambda>t. turn_harness_id (tr_turn t)) (ledger_turn (at - 1) l)
         in case (snapshot, harness_id) of
              (Some snapshot, Some h) \<Rightarrow>
                (case registry_resolve (ds_registry d) h of
                   Some harness \<Rightarrow>
                     (if cap_reversible (hr_capabilities harness)
                      then [FxRestore (hr_id harness) s snapshot] else [])
                 | None \<Rightarrow> [])
            | _ \<Rightarrow> [])
      else [])"

definition daemon_rewind ::
  "call_env \<Rightarrow> session_id \<Rightarrow> nat \<Rightarrow> daemon \<Rightarrow> (daemon_error, nat) result \<times> daemon"
where
  "daemon_rewind env s at0 d =
     (if map_of (ds_sessions d) s \<noteq> None then (Err (SessionLive s), d)
      else
        (let (r, d) = get_ledger s d;
             l = ds_heap d ! r;
             at = min at0 (ledger_len l);
             d = fx (rewind_restore env s at l d) d;
             (removed, l) = rewind_to at l
         in (Ok removed, d\<lparr>ds_heap := (ds_heap d)[r := l]\<rparr>)))"

definition daemon_fork ::
  "session_id \<Rightarrow> nat \<Rightarrow> session_id \<Rightarrow> daemon \<Rightarrow> (daemon_error, session_id) result \<times> daemon"
where
  "daemon_fork s at new_id d =
     (let (r, d) = get_ledger s d;
          branch = ledger_fork at new_id (ds_heap d ! r)
      in (Ok new_id, put_ledger new_id branch d))"

definition daemon_replay ::
  "session_id \<Rightarrow> nat \<Rightarrow> daemon \<Rightarrow> (daemon_error, daemon_event list) result \<times> daemon"
where
  "daemon_replay s at d =
     (let (r, d) = get_ledger s d in (Ok (mirror (ledger_replay at (ds_heap d ! r))), d))"

definition daemon_checkpoints ::
  "call_env \<Rightarrow> session_id \<Rightarrow> daemon \<Rightarrow> (daemon_error, checkpoint list) result \<times> daemon"
where
  "daemon_checkpoints env s d =
     (let (r, d) = get_ledger s d; l = ds_heap d ! r; n = ledger_len l
      in (Ok (map (\<lambda>i. checkpoint_at (env_now env) i l) [0..<Suc n]), d))"

definition daemon_select :: "session_id \<Rightarrow> nat \<Rightarrow> daemon \<Rightarrow> (daemon_error, unit) result \<times> daemon" where
  "daemon_select s at d = lift_ledger (on_ledger (ledger_select at) s d)"

definition daemon_apply :: "session_id \<Rightarrow> nat \<Rightarrow> daemon \<Rightarrow> (daemon_error, nat) result \<times> daemon" where
  "daemon_apply s at d = lift_ledger (on_ledger (ledger_apply at) s d)"

definition daemon_release :: "session_id \<Rightarrow> nat \<Rightarrow> daemon \<Rightarrow> (daemon_error, bool) result \<times> daemon" where
  "daemon_release s at d = lift_ledger (on_ledger (ledger_release at) s d)"

definition daemon_discard :: "session_id \<Rightarrow> nat \<Rightarrow> daemon \<Rightarrow> (daemon_error, nat) result \<times> daemon" where
  "daemon_discard s at d = lift_ledger (on_ledger (ledger_discard at) s d)"

section \<open>Draining a stream\<close>

text \<open>One event: record it in the ledger, then mirror it to the session and the client.\<close>

fun note_terminal :: "daemon_event \<Rightarrow> drain \<Rightarrow> drain" where
  "note_terminal (DDone s) t = t\<lparr>dr_final_status := ''success''\<rparr>"
| "note_terminal (DError s message) t =
     t\<lparr>dr_final_status := ''failed'', dr_final_error := Some message\<rparr>"
| "note_terminal _ t = t"

definition drain_event :: "nat \<Rightarrow> drain \<Rightarrow> harness_server_event \<Rightarrow> daemon \<Rightarrow> daemon" where
  "drain_event i t ev d =
     (let st = ds_states d ! dr_state t;
          l = snd (append_events_to (ss_turn_index st) [ev] (ds_heap d ! ss_ledger st));
          d = d\<lparr>ds_heap := (ds_heap d)[ss_ledger st := l]\<rparr>
      in case map_event ev of
           None \<Rightarrow> d\<lparr>ds_drains := (ds_drains d)[i := t]\<rparr>
         | Some de \<Rightarrow>
           fx [FxEmit de]
             (d\<lparr>ds_drains := (ds_drains d)[i := note_terminal de t],
                ds_states := (ds_states d)[dr_state t := st\<lparr>ss_events := ss_events st @ [de]\<rparr>]\<rparr>))"

text \<open>\<open>log.resize(n + 1, None)\<close> when the log is too short, then the entry at \<open>n\<close>.\<close>

definition put_snapshot ::
  "nat \<Rightarrow> harness_snapshot option \<Rightarrow> harness_snapshot option list \<Rightarrow> harness_snapshot option list"
where
  "put_snapshot n snap log =
     (let log = (if length log \<le> n then log @ replicate (n + 1 - length log) None else log)
      in log[n := snap])"

definition turn_status_of :: "drain \<Rightarrow> turn_status" where
  "turn_status_of t =
     (if dr_final_status t = ''success'' then TurnSuccess
      else TurnFailed (case dr_final_error t of Some e \<Rightarrow> e | None \<Rightarrow> ''failed''))"

text \<open>
  The end of the stream, region by region: the ledger is settled, the snapshot log written, the
  checkpoint handed to the sink, the status set, the time of the end set, the end of the trace
  emitted, the session removed. Each region reads the shared state as it finds it.
\<close>

fun next_phase :: "drain_phase \<Rightarrow> drain_phase" where
  "next_phase Settling = Snapshotting"
| "next_phase Snapshotting = Persisting"
| "next_phase Persisting = MarkingStatus"
| "next_phase MarkingStatus = MarkingFinished"
| "next_phase MarkingFinished = Announcing"
| "next_phase Announcing = Removing"
| "next_phase Removing = Ended"
| "next_phase ph = ph"

fun drain_end :: "call_env \<Rightarrow> drain_phase \<Rightarrow> drain \<Rightarrow> daemon \<Rightarrow> daemon" where
  "drain_end env Settling t d =
     (let st = ds_states d ! dr_state t;
          l = snd (settle_turn_at (ss_turn_index st) (env_now env) (turn_status_of t)
                (ds_heap d ! ss_ledger st))
      in d\<lparr>ds_heap := (ds_heap d)[ss_ledger st := l]\<rparr>)"
| "drain_end env Snapshotting t d =
     (let s = dr_session_id t;
          st = ds_states d ! dr_state t;
          snapshot = (if cap_reversible (hr_capabilities (ss_harness st))
            then hr_snapshot (ss_harness st) (env_now env) s else None)
      in d\<lparr>ds_snapshots := AList.update s
              (put_snapshot (ss_turn_index st) snapshot (snapshot_log s d)) (ds_snapshots d)\<rparr>)"
| "drain_end env Persisting t d =
     (if ds_checkpoint_sink d
      then fx [FxPersist (checkpoint_full (env_now env) (ds_heap d ! ss_ledger (ds_states d ! dr_state t)))] d
      else d)"
| "drain_end env MarkingStatus t d =
     d\<lparr>ds_states := (ds_states d)[dr_state t :=
        (ds_states d ! dr_state t)\<lparr>ss_status := dr_final_status t\<rparr>]\<rparr>"
| "drain_end env MarkingFinished t d =
     d\<lparr>ds_states := (ds_states d)[dr_state t :=
        (ds_states d ! dr_state t)\<lparr>ss_finished_at := Some (env_rfc3339 env (env_now env))\<rparr>]\<rparr>"
| "drain_end env Announcing t d =
     fx [FxEmit (DTraceFinished (dr_session_id t) (dr_trace_id t) (dr_final_status t)
           (ss_project_id (ds_states d ! dr_state t)) (ss_medium_id (ds_states d ! dr_state t)))] d"
| "drain_end env Removing t d = d\<lparr>ds_sessions := AList.delete (dr_session_id t) (ds_sessions d)\<rparr>"
| "drain_end env ph t d = d"

text \<open>One step of a task: an event, the look at the final status after the last event, or a region.\<close>

definition set_phase :: "nat \<Rightarrow> drain_phase \<Rightarrow> daemon \<Rightarrow> daemon" where
  "set_phase i ph d = d\<lparr>ds_drains := (ds_drains d)[i := (ds_drains d ! i)\<lparr>dr_phase := ph\<rparr>]\<rparr>"

definition drain_step :: "call_env \<Rightarrow> nat \<Rightarrow> daemon \<Rightarrow> daemon" where
  "drain_step env i d =
     (let t = ds_drains d ! i in
      if dr_phase t = Streaming
      then (case dr_stream t of
              [] \<Rightarrow> set_phase i (if dr_final_status t = ''running'' then Ended else Settling) d
            | ev # evs \<Rightarrow> drain_event i (t\<lparr>dr_stream := evs\<rparr>) ev d)
      else set_phase i (next_phase (dr_phase t)) (drain_end env (dr_phase t) t d))"

end
