(* ===== verification/Daemon_Invariants.thy ===== *)
theory Daemon_Invariants
  imports Daemon_State
begin

text \<open>
  What the daemon keeps true over every interleaving of requests and drain steps, and what each
  request does: the well-formedness invariant, the guard of rewinding, forking, replaying, and
  the run of a turn from start to settlement.
\<close>

section \<open>Well-formedness\<close>

text \<open>
  Maps have one entry per session; references are in range; a reference under a session leads to
  that session's state or ledger; every ledger is numbered contiguously; a live session's state
  is running, or a task that has set its final status has not removed the session yet; harnesses are
  filed under their own identifier.
\<close>

fun closing :: "drain_phase \<Rightarrow> bool" where
  "closing MarkingFinished = True"
| "closing Announcing = True"
| "closing Removing = True"
| "closing _ = False"

definition status_shown :: "daemon \<Rightarrow> nat \<Rightarrow> bool" where
  "status_shown d r \<longleftrightarrow>
     ss_status (ds_states d ! r) = ''running'' \<or>
     (\<exists>i < length (ds_drains d). dr_state (ds_drains d ! i) = r \<and> closing (dr_phase (ds_drains d ! i)) \<and>
        dr_final_status (ds_drains d ! i) = ss_status (ds_states d ! r))"

definition refs_ok :: "daemon \<Rightarrow> bool" where
  "refs_ok d \<longleftrightarrow>
     (\<forall>s r. map_of (ds_ledgers d) s = Some r \<longrightarrow>
        r < length (ds_heap d) \<and> ls_session_id (ds_heap d ! r) = s) \<and>
     (\<forall>s r. map_of (ds_sessions d) s = Some r \<longrightarrow>
        r < length (ds_states d) \<and> ss_session_id (ds_states d ! r) = s \<and>
        status_shown d r) \<and>
     (\<forall>i < length (ds_states d). ss_ledger (ds_states d ! i) < length (ds_heap d) \<and>
        ls_session_id (ds_heap d ! ss_ledger (ds_states d ! i)) = ss_session_id (ds_states d ! i)) \<and>
     (\<forall>i < length (ds_drains d). dr_state (ds_drains d ! i) < length (ds_states d) \<and>
        dr_session_id (ds_drains d ! i) = ss_session_id (ds_states d ! dr_state (ds_drains d ! i)))"

definition daemon_wf :: "daemon \<Rightarrow> bool" where
  "daemon_wf d \<longleftrightarrow>
     distinct_keys (ds_sessions d) \<and> distinct_keys (ds_ledgers d) \<and>
     distinct_keys (ds_snapshots d) \<and> registry_wf (ds_registry d) \<and>
     list_all wf_ledger (ds_heap d) \<and> refs_ok d"

lemmas daemon_wf_defs = daemon_wf_def refs_ok_def

lemma status_shown_update [simp]:
  "status_shown (d\<lparr>ds_heap := x1\<rparr>) r = status_shown d r"
  "status_shown (d\<lparr>ds_ledgers := x2\<rparr>) r = status_shown d r"
  "status_shown (d\<lparr>ds_sessions := x3\<rparr>) r = status_shown d r"
  "status_shown (d\<lparr>ds_snapshots := x4\<rparr>) r = status_shown d r"
  "status_shown (d\<lparr>ds_effects := x5\<rparr>) r = status_shown d r"
  "status_shown (d\<lparr>ds_registry := x6\<rparr>) r = status_shown d r"
  "status_shown (d\<lparr>ds_checkpoint_sink := x7\<rparr>) r = status_shown d r"
  "status_shown (d\<lparr>ds_workspace_root := x8\<rparr>) r = status_shown d r"
  "status_shown (d\<lparr>ds_workflow_host := x9\<rparr>) r = status_shown d r"
  by (simp_all add: status_shown_def)

lemma status_shown_spawn:
  "status_shown d r \<Longrightarrow> status_shown (d\<lparr>ds_drains := ds_drains d @ [t]\<rparr>) r"
  by (auto simp: status_shown_def nth_append)

lemma status_shown_new:
  "ss_status st = ''running'' \<Longrightarrow> r = length (ds_states d) \<or> r < length (ds_states d) \<and> status_shown d r \<Longrightarrow>
   status_shown (d\<lparr>ds_states := ds_states d @ [st]\<rparr>) r"
  by (auto simp: status_shown_def nth_append)

lemma status_shown_state:
  "status_shown d r \<Longrightarrow> r' < length (ds_states d) \<Longrightarrow> ss_status st = ss_status (ds_states d ! r') \<Longrightarrow>
   status_shown (d\<lparr>ds_states := (ds_states d)[r' := st]\<rparr>) r"
  by (auto simp: status_shown_def nth_list_update)

lemma status_shown_state_other:
  "status_shown d r \<Longrightarrow> r \<noteq> r' \<Longrightarrow> status_shown (d\<lparr>ds_states := (ds_states d)[r' := st]\<rparr>) r"
  by (simp add: status_shown_def)

lemma status_shown_phase_other:
  assumes "status_shown d r" "r \<noteq> dr_state (ds_drains d ! i)"
  shows "status_shown (set_phase i ph d) r"
proof (cases "ss_status (ds_states d ! r) = ''running''")
  case True
  then show ?thesis by (simp add: status_shown_def set_phase_def)
next
  case False
  with assms(1) obtain j where "j < length (ds_drains d)" "dr_state (ds_drains d ! j) = r"
    "closing (dr_phase (ds_drains d ! j))" "dr_final_status (ds_drains d ! j) = ss_status (ds_states d ! r)"
    unfolding status_shown_def by blast
  moreover from this assms(2) have "j \<noteq> i" by blast
  ultimately show ?thesis
    unfolding status_shown_def set_phase_def by (intro disjI2 exI [of _ j]) simp
qed

lemma status_shown_drain:
  assumes "status_shown d r" "i < length (ds_drains d)" "dr_state t = dr_state (ds_drains d ! i)"
    "closing (dr_phase (ds_drains d ! i)) \<Longrightarrow>
       closing (dr_phase t) \<and> dr_final_status t = dr_final_status (ds_drains d ! i)"
  shows "status_shown (d\<lparr>ds_drains := (ds_drains d)[i := t]\<rparr>) r"
  using assms unfolding status_shown_def by (auto simp: nth_list_update)

lemma daemon_wf_new: "registry_wf reg \<Longrightarrow> daemon_wf (daemon_new reg)"
  by (simp add: daemon_wf_defs daemon_new_def)

lemma wf_fx [simp]: "daemon_wf (fx es d) \<longleftrightarrow> daemon_wf d"
  by (simp add: daemon_wf_defs fx_def)

lemma fx_fields [simp]:
  "ds_registry (fx es d) = ds_registry d" "ds_sessions (fx es d) = ds_sessions d"
  "ds_states (fx es d) = ds_states d" "ds_ledgers (fx es d) = ds_ledgers d"
  "ds_heap (fx es d) = ds_heap d" "ds_checkpoint_sink (fx es d) = ds_checkpoint_sink d"
  "ds_snapshots (fx es d) = ds_snapshots d" "ds_workspace_root (fx es d) = ds_workspace_root d"
  "ds_workflow_host (fx es d) = ds_workflow_host d" "ds_drains (fx es d) = ds_drains d"
  "ds_effects (fx es d) = ds_effects d @ es"
  by (simp_all add: fx_def)

lemma wf_put_ledger:
  assumes "daemon_wf d" "wf_ledger l" "ls_session_id l = s"
  shows "daemon_wf (put_ledger s l d)"
  using assms
  by (auto simp: daemon_wf_defs put_ledger_def update_conv' distinct_update nth_append less_SucI
      split: if_splits)

lemma wf_set_ledger:
  assumes "daemon_wf d" "r < length (ds_heap d)" "wf_ledger l"
    "ls_session_id l = ls_session_id (ds_heap d ! r)"
  shows "daemon_wf (d\<lparr>ds_heap := (ds_heap d)[r := l]\<rparr>)"
  using assms
  by (auto simp: daemon_wf_defs nth_list_update list_all_length)

lemma wf_spawn:
  assumes "daemon_wf d" "r < length (ds_states d)" "ss_session_id (ds_states d ! r) = s"
  shows "daemon_wf (spawn_stream s trace stream r d)"
  using assms by (auto simp: daemon_wf_defs spawn_stream_def nth_append intro!: status_shown_spawn)

lemma wf_set_state:
  assumes "daemon_wf d" "r < length (ds_states d)"
    "ss_session_id st = ss_session_id (ds_states d ! r)" "ss_ledger st = ss_ledger (ds_states d ! r)"
    "ss_status st = ss_status (ds_states d ! r)"
  shows "daemon_wf (d\<lparr>ds_states := (ds_states d)[r := st]\<rparr>)"
  using assms by (auto simp: daemon_wf_defs nth_list_update intro!: status_shown_state)

lemma wf_set_drain:
  assumes "daemon_wf d" "i < length (ds_drains d)" "dr_state t = dr_state (ds_drains d ! i)"
    "dr_session_id t = dr_session_id (ds_drains d ! i)"
    "closing (dr_phase (ds_drains d ! i)) \<Longrightarrow>
       closing (dr_phase t) \<and> dr_final_status t = dr_final_status (ds_drains d ! i)"
  shows "daemon_wf (d\<lparr>ds_drains := (ds_drains d)[i := t]\<rparr>)"
  using assms by (auto simp: daemon_wf_defs nth_list_update intro!: status_shown_drain)

lemma get_ledger_spec:
  assumes "daemon_wf d" "get_ledger s d = (r, d')"
  shows "daemon_wf d' \<and> r < length (ds_heap d') \<and> ls_session_id (ds_heap d' ! r) = s \<and>
    map_of (ds_ledgers d') s = Some r \<and> wf_ledger (ds_heap d' ! r)"
proof (cases "map_of (ds_ledgers d) s")
  case None
  then have "d' = put_ledger s (ledger_new s) d" "r = length (ds_heap d)"
    using assms by (auto simp: get_ledger_def)
  then show ?thesis
    using wf_put_ledger [OF assms(1), of "ledger_new s" s]
    by (auto simp: put_ledger_def update_conv' ledger_new_def wf_ledger_def wf_turns_def)
next
  case (Some r')
  then have "d' = d" "r = r'" using assms by (auto simp: get_ledger_def)
  with Some assms(1) show ?thesis by (auto simp: daemon_wf_defs list_all_length)
qed

lemma get_ledger_fields:
  assumes "get_ledger s d = (r, d')"
  shows "ds_registry d' = ds_registry d" "ds_sessions d' = ds_sessions d"
    "ds_states d' = ds_states d" "ds_drains d' = ds_drains d" "ds_effects d' = ds_effects d"
    "ds_snapshots d' = ds_snapshots d" "ds_checkpoint_sink d' = ds_checkpoint_sink d"
    "ds_workspace_root d' = ds_workspace_root d"
  using assms by (auto simp: get_ledger_def put_ledger_def split: option.splits)

lemma ledger_ops_session [simp]:
  "ls_session_id (snd (record_turn now turn l)) = ls_session_id l"
  "ls_session_id (snd (append_events_to i evs l)) = ls_session_id l"
  "ls_session_id (snd (settle_turn_at i now st l)) = ls_session_id l"
  "ls_session_id (snd (ledger_select k l)) = ls_session_id l"
  "ls_session_id (snd (ledger_apply k l)) = ls_session_id l"
  "ls_session_id (snd (ledger_release k l)) = ls_session_id l"
  "ls_session_id (snd (ledger_discard k l)) = ls_session_id l"
  "ls_session_id (snd (rewind_to k l)) = ls_session_id l"
  by (simp_all add: ledger_defs Let_def)

lemma ledger_ops_wf:
  assumes "wf_ledger l"
  shows "wf_ledger (snd (record_turn now turn l))" "wf_ledger (snd (append_events_to i evs l))"
    "wf_ledger (snd (settle_turn_at i now st l))" "wf_ledger (snd (ledger_select k l))"
    "wf_ledger (snd (ledger_apply k l))" "wf_ledger (snd (ledger_release k l))"
    "wf_ledger (snd (ledger_discard k l))" "wf_ledger (snd (rewind_to k l))"
    "wf_ledger (ledger_fork k s l)"
  using assms
  by (auto simp: wf_ledger_def record_turn_def append_events_to_def settle_turn_at_def
      ledger_select_def ledger_apply_def ledger_release_def ledger_discard_def rewind_to_def
      ledger_fork_def Let_def intro: wf_turns_snoc)

lemma wf_on_ledger:
  assumes "daemon_wf d" "\<And>l. wf_ledger l \<Longrightarrow> wf_ledger (snd (f l))"
    "\<And>l. ls_session_id (snd (f l)) = ls_session_id l"
  shows "daemon_wf (snd (on_ledger f s d))"
proof -
  obtain r d1 where g: "get_ledger s d = (r, d1)" by fastforce
  note spec = get_ledger_spec [OF assms(1) g]
  show ?thesis
    using spec assms(2,3) wf_set_ledger [of d1 r "snd (f (ds_heap d1 ! r))"]
    by (auto simp: on_ledger_def g Let_def split: prod.splits)
qed

lemma snd_lift_ledger [simp]: "snd (lift_ledger rd) = snd rd"
  by (cases rd; cases "fst rd") (auto simp: lift_ledger_def)

section \<open>Requests keep the invariant\<close>

lemma wf_prepare: "daemon_wf (snd (prepare_workspace env h trace d)) \<longleftrightarrow> daemon_wf d"
  by (auto simp: prepare_workspace_def Let_def split: option.split sum.split)

lemma prepare_fields:
  assumes "prepare_workspace env h trace d = (res, d')"
  shows "ds_sessions d' = ds_sessions d" "ds_states d' = ds_states d" "ds_heap d' = ds_heap d"
    "ds_ledgers d' = ds_ledgers d" "ds_drains d' = ds_drains d" "ds_snapshots d' = ds_snapshots d"
    "ds_checkpoint_sink d' = ds_checkpoint_sink d" "ds_registry d' = ds_registry d"
  using assms by (auto simp: prepare_workspace_def Let_def split: option.splits sum.splits)

lemma wf_new_session:
  assumes "daemon_wf d" "r < length (ds_heap d)"
    "ls_session_id (ds_heap d ! r) = turn_session_id turn"
  shows "daemon_wf (d\<lparr>ds_states := ds_states d @ [new_session env h turn r k],
    ds_sessions := AList.update (turn_session_id turn) (length (ds_states d)) (ds_sessions d)\<rparr>)"
  using assms
  by (auto simp: daemon_wf_defs new_session_def update_conv' distinct_update nth_append less_SucI
      split: if_splits intro!: status_shown_new)

lemma wf_daemon_run: "daemon_wf d \<Longrightarrow> daemon_wf (snd (daemon_run env turn d))"
proof -
  assume wf: "daemon_wf d"
  show "daemon_wf (snd (daemon_run env turn d))"
  proof (cases "registry_resolve (ds_registry d) (turn_harness_id turn)")
    case None
    with wf show ?thesis by (simp add: daemon_run_def)
  next
    case (Some h)
    let ?s = "turn_session_id turn"
    obtain res d1 where p: "prepare_workspace env h (trace_of ?s) d = (res, d1)" by fastforce
    have wf1: "daemon_wf d1" using wf_prepare [of env h "trace_of ?s" d] wf p by simp
    show ?thesis
    proof (cases res)
      case (Inl e)
      with Some p wf1 show ?thesis by (simp add: daemon_run_def Let_def)
    next
      case (Inr u)
      obtain r d2 where g: "get_ledger ?s d1 = (r, d2)" by fastforce
      note spec = get_ledger_spec [OF wf1 g]
      let ?l = "record_turn (env_now env) turn (ds_heap d2 ! r)"
      let ?d3 = "d2\<lparr>ds_heap := (ds_heap d2)[r := snd ?l]\<rparr>"
      have wf3: "daemon_wf ?d3"
        using spec by (intro wf_set_ledger) (simp_all add: ledger_ops_wf)
      have "daemon_wf (?d3\<lparr>ds_states := ds_states ?d3 @ [new_session env h turn r (fst ?l)],
          ds_sessions := AList.update ?s (length (ds_states ?d3)) (ds_sessions ?d3)\<rparr>)"
        using spec by (intro wf_new_session [OF wf3]) simp_all
      then have "daemon_wf (spawn_stream ?s (trace_of ?s) (hr_run h (env_now env) turn)
          (length (ds_states d2)) (fx es (?d3\<lparr>ds_states := ds_states ?d3 @ [new_session env h turn r (fst ?l)],
          ds_sessions := AList.update ?s (length (ds_states ?d3)) (ds_sessions ?d3)\<rparr>)))" for es
        by (intro wf_spawn) (simp_all add: new_session_def)
      with Some p Inr g show ?thesis by (simp add: daemon_run_def Let_def split_def)
    qed
  qed
qed

lemma live_session_ref:
  "daemon_wf d \<Longrightarrow> map_of (ds_sessions d) s = Some r \<Longrightarrow>
   r < length (ds_states d) \<and> ss_session_id (ds_states d ! r) = s"
  by (auto simp: daemon_wf_defs)

lemma wf_daemon_resume: "daemon_wf d \<Longrightarrow> daemon_wf (snd (daemon_resume env s resp cred d))"
  using live_session_ref [of d s]
  by (auto simp: daemon_resume_def Let_def wf_spawn split: option.split)

lemma wf_daemon_resume_command:
  "daemon_wf d \<Longrightarrow> daemon_wf (snd (daemon_resume_command env s decision d))"
  using live_session_ref [of d s]
  by (auto simp: daemon_resume_command_def Let_def wf_spawn split: option.split)

lemma wf_daemon_cancel: "daemon_wf d \<Longrightarrow> daemon_wf (snd (daemon_cancel s d))"
  using live_session_ref [of d s]
  by (auto simp: daemon_cancel_def Let_def wf_set_state split: option.split)

lemma wf_daemon_rewind: "daemon_wf d \<Longrightarrow> daemon_wf (snd (daemon_rewind env s k d))"
proof -
  assume wf: "daemon_wf d"
  obtain r d1 where g: "get_ledger s d = (r, d1)" by fastforce
  note spec = get_ledger_spec [OF wf g]
  have "daemon_wf (fx es d1\<lparr>ds_heap := (ds_heap d1)[r := snd (rewind_to n (ds_heap d1 ! r))]\<rparr>)"
    for es n
    using wf_set_ledger [of "fx es d1" r "snd (rewind_to n (ds_heap d1 ! r))"] spec
    by (simp add: ledger_ops_wf)
  with wf g show "daemon_wf (snd (daemon_rewind env s k d))"
    by (auto simp: daemon_rewind_def Let_def split_def)
qed

lemma wf_daemon_fork: "daemon_wf d \<Longrightarrow> daemon_wf (snd (daemon_fork s k new_id d))"
  using get_ledger_spec [of d s]
  by (auto simp: daemon_fork_def Let_def ledger_ops_wf ledger_fork_def split: prod.split
      intro!: wf_put_ledger) (metis ledger_fork_def ledger_ops_wf(9))

lemma wf_daemon_settlement:
  assumes "daemon_wf d"
  shows "daemon_wf (snd (daemon_select s k d))" "daemon_wf (snd (daemon_apply s k d))"
    "daemon_wf (snd (daemon_release s k d))" "daemon_wf (snd (daemon_discard s k d))"
  using assms
  by (auto simp: daemon_select_def daemon_apply_def daemon_release_def daemon_discard_def
      ledger_ops_wf intro!: wf_on_ledger)

lemma wf_daemon_reads:
  assumes "daemon_wf d"
  shows "daemon_wf (snd (daemon_replay s k d))" "daemon_wf (snd (daemon_checkpoints env s d))"
  using get_ledger_spec [OF assms, of s]
  by (auto simp: daemon_replay_def daemon_checkpoints_def Let_def split: prod.split)

section \<open>Drain steps keep the invariant\<close>

lemma note_terminal_fields [simp]:
  "dr_state (note_terminal de t) = dr_state t"
  "dr_session_id (note_terminal de t) = dr_session_id t"
  "dr_stream (note_terminal de t) = dr_stream t" "dr_phase (note_terminal de t) = dr_phase t"
  "dr_trace_id (note_terminal de t) = dr_trace_id t"
  by (cases de; simp)+

lemma drain_refs:
  assumes "daemon_wf d" "i < length (ds_drains d)" "t = ds_drains d ! i"
  shows "dr_state t < length (ds_states d)"
    and "dr_session_id t = ss_session_id (ds_states d ! dr_state t)"
    and "ss_ledger (ds_states d ! dr_state t) < length (ds_heap d)"
    and "ls_session_id (ds_heap d ! ss_ledger (ds_states d ! dr_state t)) = dr_session_id t"
  using assms by (auto simp: daemon_wf_defs)

lemma wf_drain_event:
  assumes wf: "daemon_wf d" and i: "i < length (ds_drains d)"
    and t: "dr_state t = dr_state (ds_drains d ! i)" "dr_session_id t = dr_session_id (ds_drains d ! i)"
    and ph: "dr_phase (ds_drains d ! i) = Streaming"
  shows "daemon_wf (drain_event i t ev d)"
proof -
  define st where "st = ds_states d ! dr_state t"
  define l where "l = snd (append_events_to (ss_turn_index st) [ev] (ds_heap d ! ss_ledger st))"
  define d1 where "d1 = d\<lparr>ds_heap := (ds_heap d)[ss_ledger st := l]\<rparr>"
  note r = drain_refs [OF wf i refl, folded t, folded st_def]
  have "wf_ledger (ds_heap d ! ss_ledger st)" using wf r by (simp add: daemon_wf_def list_all_length)
  then have wf1: "daemon_wf d1"
    unfolding d1_def l_def using wf r by (intro wf_set_ledger) (simp_all add: ledger_ops_wf)
  have f: "ds_drains d1 = ds_drains d" "ds_states d1 = ds_states d" by (simp_all add: d1_def)
  have wf2: "daemon_wf (d1\<lparr>ds_drains := (ds_drains d)[i := u]\<rparr>)"
    if "dr_state u = dr_state t" "dr_session_id u = dr_session_id t" for u
    using wf_set_drain [OF wf1, of i u] that i t ph by (simp add: f)
  have wf3: "daemon_wf (d1\<lparr>ds_drains := (ds_drains d)[i := note_terminal de t],
      ds_states := (ds_states d)[dr_state t := st\<lparr>ss_events := evs\<rparr>]\<rparr>)" for de evs
    using wf_set_state [OF wf2 [of "note_terminal de t"], of "dr_state t" "st\<lparr>ss_events := evs\<rparr>"] r
    by (simp add: f st_def)
  show ?thesis
    using wf2 [of t] wf3
    by (auto simp: drain_event_def Let_def st_def [symmetric] l_def [symmetric] f
        simp flip: d1_def split: option.split)
qed

text \<open>
  The regions after the stream. Setting the status puts the task into a closing phase; the last region
  takes the session out of the map, so no live session keeps the status of a task that has ended.
\<close>

lemma wf_set_snapshots:
  "daemon_wf d \<Longrightarrow> daemon_wf (d\<lparr>ds_snapshots := AList.update s log (ds_snapshots d)\<rparr>)"
  by (simp add: daemon_wf_defs distinct_update)

lemma drain_end_drains [simp]:
  "ds_drains (drain_end env ph t d) = ds_drains d" "ds_ledgers (drain_end env ph t d) = ds_ledgers d"
  "length (ds_states (drain_end env ph t d)) = length (ds_states d)"
  by (cases ph; simp add: Let_def fx_def)+

lemma wf_drain_region:
  assumes wf: "daemon_wf d" and i: "i < length (ds_drains d)" and t: "t = ds_drains d ! i"
    and ph: "ph \<noteq> MarkingStatus" "ph \<noteq> Removing"
  shows "daemon_wf (drain_end env ph t d)"
proof -
  note r = drain_refs [OF wf i t]
  have "wf_ledger (ds_heap d ! ss_ledger (ds_states d ! dr_state t))"
    using wf r by (simp add: daemon_wf_def list_all_length)
  then show ?thesis
    using wf r ph
    by (cases ph) (auto simp: Let_def ledger_ops_wf intro!: wf_set_ledger wf_set_snapshots wf_set_state)
qed

lemma wf_mark_status:
  assumes wf: "daemon_wf d" and i: "i < length (ds_drains d)" and t: "t = ds_drains d ! i"
  shows "daemon_wf (set_phase i MarkingFinished (drain_end env MarkingStatus t d))" (is "daemon_wf ?d")
proof -
  note r = drain_refs [OF wf i t]
  have i': "i < length (ds_drains ?d)" and same: "dr_state (ds_drains ?d ! i) = dr_state t"
    "closing (dr_phase (ds_drains ?d ! i))" "dr_final_status (ds_drains ?d ! i) = dr_final_status t"
    using i t by (simp_all add: set_phase_def)
  have "status_shown ?d (dr_state t)"
    unfolding status_shown_def using i' same r by (intro disjI2 exI [of _ i]) (simp add: set_phase_def)
  moreover have "status_shown ?d r'" if "status_shown d r'" "r' \<noteq> dr_state t" for r'
    using that t by (auto intro!: status_shown_phase_other status_shown_state_other)
  ultimately show ?thesis
    using wf i t r by (auto simp: daemon_wf_defs set_phase_def nth_list_update)
qed

lemma wf_remove:
  assumes wf: "daemon_wf d" and i: "i < length (ds_drains d)" and t: "t = ds_drains d ! i"
  shows "daemon_wf (set_phase i Ended (drain_end env Removing t d))" (is "daemon_wf ?d")
proof -
  note r = drain_refs [OF wf i t]
  have shown: "status_shown ?d r'" if "status_shown d r'" "r' \<noteq> dr_state t" for r'
    using that t by (simp add: status_shown_phase_other)
  have live: "r' < length (ds_states ?d) \<and> ss_session_id (ds_states ?d ! r') = s' \<and> status_shown ?d r'"
    if "map_of (ds_sessions ?d) s' = Some r'" for s' r'
  proof -
    have "s' \<noteq> dr_session_id t" "map_of (ds_sessions d) s' = Some r'"
      using that by (auto simp: set_phase_def delete_conv' split: if_splits)
    then have "r' < length (ds_states d) \<and> ss_session_id (ds_states d ! r') = s' \<and> status_shown d r'"
      using wf unfolding daemon_wf_defs by blast
    then show ?thesis using shown [of r'] r \<open>s' \<noteq> dr_session_id t\<close> by (auto simp: set_phase_def)
  qed
  have drains: "dr_state (ds_drains ?d ! j) = dr_state (ds_drains d ! j) \<and>
      dr_session_id (ds_drains ?d ! j) = dr_session_id (ds_drains d ! j)" for j
    by (cases "i < length (ds_drains d)"; cases "j = i") (simp_all add: set_phase_def list_update_beyond)
  have same: "ds_ledgers ?d = ds_ledgers d" "ds_heap ?d = ds_heap d" "ds_states ?d = ds_states d"
    "length (ds_drains ?d) = length (ds_drains d)" by (simp_all add: set_phase_def)
  define d' where "d' = ?d"
  note live' = live [folded d'_def] and drains' = drains [folded d'_def] and same' = same [folded d'_def]
  have "refs_ok d" using wf by (simp add: daemon_wf_def)
  moreover have "\<forall>s r. map_of (ds_sessions d') s = Some r \<longrightarrow>
      r < length (ds_states d) \<and> ss_session_id (ds_states d ! r) = s \<and> status_shown d' r"
    using live' [unfolded same'] by blast
  ultimately have "refs_ok d'"
    unfolding refs_ok_def same' drains' [THEN conjunct1] drains' [THEN conjunct2]
    by (elim conjE) (intro conjI; assumption)
  then have "refs_ok ?d" by (simp only: d'_def)
  then show ?thesis
    using wf unfolding daemon_wf_def by (simp add: set_phase_def AList.distinct_delete)
qed

lemma wf_set_phase:
  "daemon_wf d \<Longrightarrow> i < length (ds_drains d) \<Longrightarrow> (closing (dr_phase (ds_drains d ! i)) \<Longrightarrow> closing ph) \<Longrightarrow>
   daemon_wf (set_phase i ph d)"
  unfolding set_phase_def by (rule wf_set_drain) simp_all

lemma wf_drain_end:
  assumes "daemon_wf d" "i < length (ds_drains d)" "t = ds_drains d ! i"
  shows "daemon_wf (set_phase i (next_phase (dr_phase t)) (drain_end env (dr_phase t) t d))"
proof -
  consider "dr_phase t = MarkingStatus" | "dr_phase t = Removing"
    | "dr_phase t \<noteq> MarkingStatus" "dr_phase t \<noteq> Removing" by blast
  then show ?thesis
  proof cases
    case 3
    then have "closing (next_phase (dr_phase t))" if "closing (dr_phase t)"
      using that by (cases "dr_phase t") simp_all
    with wf_drain_region [OF assms 3] assms show ?thesis by (intro wf_set_phase) simp_all
  qed (use wf_mark_status [OF assms] wf_remove [OF assms] in simp_all)
qed

lemma wf_drain_step:
  "daemon_wf d \<Longrightarrow> i < length (ds_drains d) \<Longrightarrow> daemon_wf (drain_step env i d)"
  by (auto simp: drain_step_def Let_def wf_drain_end split: list.split
      intro!: wf_drain_event wf_set_phase)

lemma length_drain_step [simp]: "length (ds_drains (drain_step env i d)) = length (ds_drains d)"
  by (simp add: drain_step_def drain_event_def set_phase_def fx_def Let_def
      split: list.split option.split)

lemma length_drain_steps: "length (ds_drains ((drain_step env i ^^ n) d)) = length (ds_drains d)"
  by (induction n) simp_all

section \<open>The daemon as a state machine\<close>

inductive daemon_step :: "'ast rhai \<Rightarrow> daemon \<Rightarrow> daemon \<Rightarrow> bool" for R :: "'ast rhai"
where
  sRun: "daemon_step R d (snd (daemon_run env turn d))"
| sResume: "daemon_step R d (snd (daemon_resume env s resp cred d))"
| sResumeCommand: "daemon_step R d (snd (daemon_resume_command env s decision d))"
| sCancel: "daemon_step R d (snd (daemon_cancel s d))"
| sRewind: "daemon_step R d (snd (daemon_rewind env s k d))"
| sFork: "daemon_step R d (snd (daemon_fork s k new_id d))"
| sReplay: "daemon_step R d (snd (daemon_replay s k d))"
| sCheckpoints: "daemon_step R d (snd (daemon_checkpoints env s d))"
| sSelect: "daemon_step R d (snd (daemon_select s k d))"
| sApply: "daemon_step R d (snd (daemon_apply s k d))"
| sRelease: "daemon_step R d (snd (daemon_release s k d))"
| sDiscard: "daemon_step R d (snd (daemon_discard s k d))"
| sRestore: "wf_checkpoint cp \<Longrightarrow> daemon_step R d (restore_checkpoint cp d)"
| sRegister: "daemon_step R d (register_harness h d)"
| sSink: "daemon_step R d (set_checkpoint_sink b d)"
| sWorkspace: "daemon_step R d (with_workspace_root root d)"
| sInstallHost: "daemon_step R d (install_workflow_host host d)"
| sInstallExecutor: "daemon_step R d (install_workflow_executor now src d)"
| sRegisterWorkflow: "daemon_step R d (snd (daemon_register_workflow R w d))"
| sRunWorkflow: "daemon_step R d (snd (daemon_run_workflow R env request d))"
| sDrain: "i < length (ds_drains d) \<Longrightarrow> daemon_step R d (drain_step env i d)"

inductive_cases daemon_stepE: "daemon_step R d d'"

lemma wf_daemon_wiring:
  assumes "daemon_wf d"
  shows "wf_checkpoint cp \<Longrightarrow> daemon_wf (restore_checkpoint cp d)"
    "daemon_wf (register_harness h d)" "daemon_wf (set_checkpoint_sink b d)"
    "daemon_wf (with_workspace_root root d)" "daemon_wf (install_workflow_host host d)"
    "daemon_wf (install_workflow_executor now src d)"
    "daemon_wf (snd (daemon_register_workflow R w d))"
    "daemon_wf (snd (daemon_run_workflow R env request d))"
proof -
  have host: "daemon_wf (d\<lparr>ds_workflow_host := wh\<rparr>)" for wh
    using assms by (simp add: daemon_wf_defs)
  show "wf_checkpoint cp \<Longrightarrow> daemon_wf (restore_checkpoint cp d)"
    using assms
    by (auto simp: restore_checkpoint_def from_checkpoint_def wf_checkpoint_def wf_ledger_def
        intro!: wf_put_ledger)
  show "daemon_wf (register_harness h d)"
    using assms by (simp add: daemon_wf_defs register_harness_def registry_wf_register)
  show "daemon_wf (set_checkpoint_sink b d)" "daemon_wf (with_workspace_root root d)"
    using assms by (simp_all add: daemon_wf_defs set_checkpoint_sink_def with_workspace_root_def)
  show "daemon_wf (install_workflow_host host d)" "daemon_wf (install_workflow_executor now src d)"
    by (simp_all add: install_workflow_host_def install_workflow_executor_def host)
  show "daemon_wf (snd (daemon_register_workflow R w d))"
    "daemon_wf (snd (daemon_run_workflow R env request d))"
    by (auto simp: daemon_register_workflow_def daemon_run_workflow_def Let_def host assms
        split: option.split prod.split sum.split)
qed

lemma daemon_step_wf: "daemon_wf d \<Longrightarrow> daemon_step R d d' \<Longrightarrow> daemon_wf d'"
  by (erule daemon_stepE)
    (simp_all add: wf_daemon_run wf_daemon_resume wf_daemon_resume_command wf_daemon_cancel
      wf_daemon_rewind wf_daemon_fork wf_daemon_reads wf_daemon_settlement wf_daemon_wiring
      wf_drain_step)

definition daemon_init :: "daemon \<Rightarrow> bool" where
  "daemon_init d \<longleftrightarrow> (\<exists>reg. registry_wf reg \<and> d = daemon_new reg)"

interpretation daemon_inv: inductive_invariant daemon_init "daemon_step R" daemon_wf for R
proof
  show "daemon_init s \<Longrightarrow> daemon_wf s" for s
    by (auto simp: daemon_init_def daemon_wf_new)
  show "daemon_wf s \<Longrightarrow> daemon_step R s t \<Longrightarrow> daemon_wf t" for s t
    by (rule daemon_step_wf)
qed

section \<open>Looking a session's history up\<close>

text \<open>The turns a session's ledger holds; a session without a ledger has none.\<close>

definition history :: "session_id \<Rightarrow> daemon \<Rightarrow> turn_record list" where
  "history s d = (case map_of (ds_ledgers d) s of None \<Rightarrow> [] | Some r \<Rightarrow> ls_turns (ds_heap d ! r))"

definition live :: "session_id \<Rightarrow> daemon \<Rightarrow> bool" where
  "live s d \<longleftrightarrow> map_of (ds_sessions d) s \<noteq> None"

lemma history_put_ledger:
  "daemon_wf d \<Longrightarrow>
   history s (put_ledger s' l d) = (if s = s' then ls_turns l else history s d)"
  by (auto simp: history_def put_ledger_def update_conv' nth_append daemon_wf_defs
      split: option.split)

lemma history_get_ledger:
  assumes "daemon_wf d" "get_ledger s d = (r, d')"
  shows "history s' d' = history s' d" and "ls_turns (ds_heap d' ! r) = history s d"
proof -
  show *: "history s' d' = history s' d" for s'
    using assms history_put_ledger [OF assms(1), of s' s "ledger_new s"]
    by (auto simp: get_ledger_def ledger_new_def split: option.splits)
      (auto simp: history_def)
  show "ls_turns (ds_heap d' ! r) = history s d"
    using get_ledger_spec [OF assms] * [of s] by (simp add: history_def)
qed

text \<open>Two sessions never share a ledger.\<close>

lemma ledger_ref:
  "daemon_wf d \<Longrightarrow> map_of (ds_ledgers d) s = Some r \<Longrightarrow>
   r < length (ds_heap d) \<and> ls_session_id (ds_heap d ! r) = s"
  unfolding daemon_wf_defs by blast

lemma ledger_refs_inject:
  "daemon_wf d \<Longrightarrow> map_of (ds_ledgers d) s = Some r \<Longrightarrow> map_of (ds_ledgers d) s' = Some r \<Longrightarrow> s = s'"
  using ledger_ref by metis

lemma history_set_ledger:
  assumes "daemon_wf d" "map_of (ds_ledgers d) s = Some r"
  shows "history s' (d\<lparr>ds_heap := (ds_heap d)[r := l]\<rparr>) =
    (if s' = s then ls_turns l else history s' d)"
proof -
  have "r < length (ds_heap d)" using assms by (auto simp: daemon_wf_defs)
  moreover have "r' \<noteq> r" if "map_of (ds_ledgers d) s' = Some r'" "s' \<noteq> s" for r'
    using that ledger_refs_inject [OF assms] by blast
  ultimately show ?thesis
    using assms(2) by (auto simp: history_def nth_list_update split: option.split)
qed

lemma history_fx [simp]: "history s (fx es d) = history s d"
  by (simp add: history_def split: option.split)

lemma live_fx [simp]: "live s (fx es d) = live s d"
  by (simp add: live_def)

lemma history_numbered: "daemon_wf d \<Longrightarrow> wf_turns (history s d)"
  using ledger_ref [of d s]
  by (auto simp: history_def wf_turns_def daemon_wf_def list_all_length wf_ledger_def
      split: option.split)

lemma on_ledger_history:
  assumes "daemon_wf d" "on_ledger f s d = (x, d')"
  shows "\<exists>l. ls_turns l = history s d \<and> x = fst (f l) \<and> ls_session_id l = s \<and>
    history s' d' = (if s' = s then ls_turns (snd (f l)) else history s' d) \<and>
    ds_sessions d' = ds_sessions d \<and> ds_effects d' = ds_effects d"
proof -
  obtain r d1 where g: "get_ledger s d = (r, d1)" by fastforce
  note spec = get_ledger_spec [OF assms(1) g] and h = history_get_ledger [OF assms(1) g]
  have d': "d' = d1\<lparr>ds_heap := (ds_heap d1)[r := snd (f (ds_heap d1 ! r))]\<rparr>"
    "x = fst (f (ds_heap d1 ! r))"
    using assms(2) by (auto simp: on_ledger_def g Let_def split: prod.splits)
  then show ?thesis
    using spec h history_set_ledger [of d1 s r] get_ledger_fields [OF g]
    by (intro exI [of _ "ds_heap d1 ! r"]) auto
qed

lemma daemon_rewind_history:
  assumes "daemon_wf d" "\<not> live s d"
  shows "case daemon_rewind env s k d of (res, d') \<Rightarrow>
    res = Ok (length (history s d) - k) \<and>
    history s' d' = (if s' = s then take k (history s d) else history s' d) \<and>
    ds_sessions d' = ds_sessions d"
proof -
  obtain r d1 where g: "get_ledger s d = (r, d1)" by fastforce
  note spec = get_ledger_spec [OF assms(1) g] and h = history_get_ledger [OF assms(1) g]
  let ?k = "min k (ledger_len (ds_heap d1 ! r))"
  let ?l = "rewind_to ?k (ds_heap d1 ! r)"
  let ?d = "fx (rewind_restore env s ?k (ds_heap d1 ! r) d1) d1"
  have "daemon_rewind env s k d = (Ok (fst ?l), ?d\<lparr>ds_heap := (ds_heap d1)[r := snd ?l]\<rparr>)"
    using assms(2) by (simp add: daemon_rewind_def live_def g Let_def split_def)
  moreover have "history s' (?d\<lparr>ds_heap := (ds_heap d1)[r := snd ?l]\<rparr>) =
      (if s' = s then ls_turns (snd ?l) else history s' d)"
    using history_set_ledger [of ?d s r s' "snd ?l"] spec h by simp
  moreover have "ls_turns (snd ?l) = take k (history s d)" "fst ?l = length (history s d) - k"
    using h by (auto simp: ls_turns_rewind_to rewind_to_def ledger_len_def Let_def min_def)
  ultimately show ?thesis using get_ledger_fields [OF g] by simp
qed

lemma daemon_fork_history:
  assumes "daemon_wf d"
  shows "case daemon_fork s k new_id d of (res, d') \<Rightarrow>
    res = Ok new_id \<and>
    history s' d' = (if s' = new_id then take k (history s d) else history s' d) \<and>
    ds_sessions d' = ds_sessions d"
proof -
  obtain r d1 where g: "get_ledger s d = (r, d1)" by fastforce
  note spec = get_ledger_spec [OF assms g] and h = history_get_ledger [OF assms g]
  have "ls_turns (ledger_fork k new_id (ds_heap d1 ! r)) = take k (history s d)"
    using h by (simp add: ledger_fork_def min_def)
  then show ?thesis
    using spec h history_put_ledger [of d1 s' new_id "ledger_fork k new_id (ds_heap d1 ! r)"]
      get_ledger_fields [OF g]
    by (simp add: daemon_fork_def g) (simp add: put_ledger_def)
qed

section \<open>A demonstration daemon\<close>

definition demo_env :: call_env where
  "demo_env = \<lparr>env_now = 1, env_clock = int, env_rfc3339 = (\<lambda>_. ''t''), env_create_dir = (\<lambda>_. Ok ())\<rparr>"

definition demo_registry :: harness_registry where
  "demo_registry = registry_register (mock_harness (HarnessId ''mock'') ''hi'') registry_new"

abbreviation demo_run :: "daemon \<Rightarrow> daemon" where
  "demo_run d \<equiv> snd (daemon_run demo_env demo_turn d)"

lemma demo_registry_wf: "registry_wf demo_registry"
  by (simp add: demo_registry_def registry_wf_register)

lemma demo_init: "reachable daemon_init (daemon_step R) (daemon_new demo_registry)"
  by (rule reachable_init) (use demo_registry_wf in \<open>auto simp: daemon_init_def\<close>)

lemma demo_wf: "daemon_wf (daemon_new demo_registry)"
  by (simp add: daemon_wf_new demo_registry_wf)

lemma demo_resolve:
  "registry_resolve demo_registry (HarnessId ''mock'') = Some (mock_harness (HarnessId ''mock'') ''hi'')"
  by (simp add: demo_registry_def registry_resolve_register mock_harness_def harness_default_def)

lemmas daemon_eval =
  daemon_new_def daemon_run_def demo_resolve demo_env_def prepare_workspace_def
  get_ledger_def put_ledger_def record_turn_def ledger_new_def new_session_def spawn_stream_def
  fx_def mock_harness_def harness_default_def harness_turn_new_def trace_of_def history_def
  live_def drain_step_def drain_event_def set_phase_def append_events_to_def settle_turn_at_def
  add_events_def settle_record_def turn_status_of_def put_snapshot_def snapshot_log_def
  capabilities_internal_def Let_def

section \<open>Properties of the daemon\<close>

text \<open>C4. In every state the daemon can reach, by any interleaving of requests, wiring and steps of the
drain tasks (an event, or one of the regions after the stream), each session has at most one live run;
a live run reports the status running, except while a drain task of its session is between setting
the final status and removing the session, and then it reports that task's final status; and every
session's history is numbered 0, 1, 2, ... without gaps.\<close>

theorem daemon_invariant_reachable:
  assumes "reachable daemon_init (daemon_step R) d"
  shows "distinct (map er_session_id (daemon_snapshot d)) \<and>
    (\<forall>e \<in> set (daemon_snapshot d). er_status e = ''running'' \<or>
       (\<exists>t \<in> set (ds_drains d). dr_session_id t = er_session_id e \<and> closing (dr_phase t) \<and>
          dr_final_status t = er_status e)) \<and>
    map tr_index (history s d) = [0..<length (history s d)]"
proof -
  have wf: "daemon_wf d" by (rule daemon_inv.inv_reachable [OF assms])
  then have keys: "distinct_keys (ds_sessions d)" by (simp add: daemon_wf_def)
  have entry: "ss_session_id (ds_states d ! r) = s \<and> status_shown d r"
    if "(s, r) \<in> set (ds_sessions d)" for s r
    using wf map_of_is_SomeI [OF keys that] unfolding daemon_wf_defs by blast
  have "map er_session_id (daemon_snapshot d) = map fst (ds_sessions d)"
    using entry by (auto simp: daemon_snapshot_def session_record_def)
  moreover have "er_status e = ''running'' \<or> (\<exists>t \<in> set (ds_drains d). dr_session_id t = er_session_id e \<and>
      closing (dr_phase t) \<and> dr_final_status t = er_status e)" if "e \<in> set (daemon_snapshot d)" for e
  proof -
    obtain s r where "(s, r) \<in> set (ds_sessions d)" and e: "e = session_record (ds_states d ! r)"
      using \<open>e \<in> set (daemon_snapshot d)\<close> by (auto simp: daemon_snapshot_def)
    then have "status_shown d r" using entry by blast
    then show ?thesis
      using drain_refs(2) [OF wf _ refl] unfolding status_shown_def e session_record_def
      by (auto simp: Bex_def in_set_conv_nth)
  qed
  ultimately show ?thesis
    using keys history_numbered [OF wf, of s] by (simp add: wf_turns_def)
qed

text \<open>One run whose task has told the client that the trace finished, but has not removed the session.\<close>

abbreviation closing_daemon :: daemon where
  "closing_daemon \<equiv> (drain_step demo_env 0 ^^ 9) (demo_run (daemon_new demo_registry))"

lemma drain_steps_reachable:
  assumes "reachable daemon_init (daemon_step R) d" "i < length (ds_drains d)"
  shows "reachable daemon_init (daemon_step R) ((drain_step env i ^^ n) d)"
proof (induction n)
  case (Suc n)
  have "daemon_step R ((drain_step env i ^^ n) d) (drain_step env i ((drain_step env i ^^ n) d))"
    by (rule sDrain) (simp add: assms(2) length_drain_steps)
  with Suc show ?case by (simp add: reachable_step)
qed (simp add: assms(1))

theorem daemon_invariant_reachable_witness:
  "map er_status (daemon_snapshot closing_daemon) = [''success''] \<and>
   map dr_phase (ds_drains closing_daemon) = [Removing] \<and>
   map tr_index (history (SessionId ''s'') closing_daemon) = [0]"
proof -
  let ?d = "demo_run (daemon_new demo_registry)"
  have "reachable daemon_init (daemon_step (demo_rhai (Finished None))) ?d"
    by (rule reachable_step, rule demo_init) (rule sRun)
  then have "reachable daemon_init (daemon_step (demo_rhai (Finished None))) closing_daemon"
    by (rule drain_steps_reachable) (simp add: daemon_eval)
  from daemon_invariant_reachable [OF this, of "SessionId ''s''"] show ?thesis
    by (simp add: daemon_eval daemon_snapshot_def session_record_def eval_nat_numeral)
qed

text \<open>C25. A live session cannot be rewound: the request fails and changes nothing. A settled
session rewound to \<open>k\<close> keeps exactly its first \<open>k\<close> turns and reports how many it dropped, and no
other session's history changes.\<close>

theorem daemon_rewind_guarded:
  assumes "daemon_wf d"
  shows "case daemon_rewind env s k d of (res, d') \<Rightarrow>
    if live s d then res = Err (SessionLive s) \<and> d' = d
    else res = Ok (length (history s d) - k) \<and> history s d' = take k (history s d) \<and>
      (\<forall>s'. s' = s \<or> history s' d' = history s' d)"
proof (cases "live s d")
  case True
  then show ?thesis by (simp add: daemon_rewind_def live_def)
next
  case False
  then show ?thesis
    using daemon_rewind_history [OF assms False, where env = env and k = k]
    by (auto split: prod.splits if_splits)
qed

theorem daemon_rewind_guarded_witness:
  "fst (daemon_rewind demo_env (SessionId ''s'') 0 (demo_run (daemon_new demo_registry)))
     = Err (SessionLive (SessionId ''s''))"
  using daemon_rewind_guarded [OF wf_daemon_run [OF demo_wf, of demo_env demo_turn],
      where env = demo_env and s = "SessionId ''s''" and k = 0]
  by (simp add: daemon_eval split: prod.splits)

text \<open>Forking gives the new session the first \<open>k\<close> turns of the source and changes the history
of no other session. The source is no exception: forking onto the source's own identifier, or
onto any existing session, replaces that session's history by the prefix.\<close>

theorem daemon_fork_prefix:
  assumes "daemon_wf d"
  shows "case daemon_fork s k new_id d of (res, d') \<Rightarrow>
    res = Ok new_id \<and> history new_id d' = take k (history s d) \<and>
    (\<forall>s'. s' = new_id \<or> history s' d' = history s' d)"
  using daemon_fork_history [OF assms, where s = s and k = k and new_id = new_id]
  by (auto split: prod.splits if_splits)

theorem daemon_fork_prefix_witness:
  "let s = SessionId ''s''; d = demo_run (demo_run (daemon_new demo_registry)) in
   length (history s d) = 2 \<and> history s (snd (daemon_fork s 1 s d)) = take 1 (history s d) \<and>
   length (history s (snd (daemon_fork s 1 s d))) = 1"
proof -
  let ?s = "SessionId ''s''" and ?d = "demo_run (demo_run (daemon_new demo_registry))"
  have "length (history ?s ?d) = 2" by (simp add: daemon_eval)
  moreover have "history ?s (snd (daemon_fork ?s 1 ?s ?d)) = take 1 (history ?s ?d)"
    using daemon_fork_prefix [of ?d, where s = ?s and k = 1 and new_id = ?s]
    by (simp add: split_def wf_daemon_run demo_wf)
  ultimately show ?thesis by simp
qed

end
