(* ===== verification/Daemon_Runs.thy ===== *)
theory Daemon_Runs
  imports Daemon_Invariants "HOL-Library.Multiset"
begin

text \<open>
  Runs of the daemon: what draining a stream to its end leaves in the ledger, in the session's
  mirror and on the client's side, from the start of a turn to its settlement; that the drain of
  one session never touches another; that the blocking run seam of workflows reports the same
  verdict; and what happens when a session is run again while it is live.
\<close>

section \<open>The verdict of a stream\<close>

fun terminal :: "harness_server_event \<Rightarrow> turn_status option" where
  "terminal (HDone s) = Some TurnSuccess"
| "terminal (HError s message) = Some (TurnFailed message)"
| "terminal _ = None"

text \<open>The last terminal event decides; a stream without one leaves the turn running.\<close>

definition verdict :: "harness_server_event list \<Rightarrow> turn_status option" where
  "verdict evs = fold (\<lambda>e v. case terminal e of None \<Rightarrow> v | Some s \<Rightarrow> Some s) evs None"

text \<open>The verdict a drain has reached so far.\<close>

definition drain_verdict :: "drain \<Rightarrow> turn_status option" where
  "drain_verdict t = (if dr_final_status t = ''running'' then None else Some (turn_status_of t))"

definition drain_ok :: "drain \<Rightarrow> bool" where
  "drain_ok t \<longleftrightarrow>
     dr_final_status t = ''running'' \<or> dr_final_status t = ''success'' \<or>
     dr_final_status t = ''failed'' \<and> dr_final_error t \<noteq> None"

definition note_event :: "harness_server_event \<Rightarrow> drain \<Rightarrow> drain" where
  "note_event ev t = (case map_event ev of None \<Rightarrow> t | Some de \<Rightarrow> note_terminal de t)"

lemma note_event_fields [simp]:
  "dr_state (note_event ev t) = dr_state t" "dr_session_id (note_event ev t) = dr_session_id t"
  "dr_stream (note_event ev t) = dr_stream t" "dr_phase (note_event ev t) = dr_phase t"
  "dr_trace_id (note_event ev t) = dr_trace_id t"
  by (simp_all add: note_event_def split: option.split)

lemma note_event_verdict:
  "drain_ok t \<Longrightarrow> drain_ok (note_event ev t) \<and>
   drain_verdict (note_event ev t) = (case terminal ev of None \<Rightarrow> drain_verdict t | Some s \<Rightarrow> Some s)"
  by (cases ev)
    (auto simp: note_event_def drain_verdict_def drain_ok_def turn_status_of_def)

definition note_events :: "harness_server_event list \<Rightarrow> drain \<Rightarrow> drain" where
  "note_events evs t = fold note_event evs t"

lemma note_events_fields [simp]:
  "dr_state (note_events evs t) = dr_state t" "dr_session_id (note_events evs t) = dr_session_id t"
  "dr_stream (note_events evs t) = dr_stream t" "dr_phase (note_events evs t) = dr_phase t"
  "dr_trace_id (note_events evs t) = dr_trace_id t"
  unfolding note_events_def by (induction evs arbitrary: t) simp_all

lemma note_events_verdict:
  "drain_ok t \<Longrightarrow> drain_ok (note_events evs t) \<and>
   drain_verdict (note_events evs t) =
     fold (\<lambda>e v. case terminal e of None \<Rightarrow> v | Some s \<Rightarrow> Some s) evs (drain_verdict t)"
  unfolding note_events_def
  by (induction evs arbitrary: t) (simp_all add: note_event_verdict)

section \<open>Draining a whole stream\<close>

lemma append_events_to_append:
  "snd (append_events_to k b (snd (append_events_to k a l))) = snd (append_events_to k (a @ b) l)"
  by (simp add: append_events_to_def Let_def add_events_def)

lemma append_events_to_Nil [simp]: "snd (append_events_to k [] l) = l"
  by (simp add: append_events_to_def Let_def add_events_def)

text \<open>What handling the events \<open>evs\<close> in one go does.\<close>

definition drained :: "nat \<Rightarrow> harness_server_event list \<Rightarrow> daemon \<Rightarrow> daemon" where
  "drained i evs d =
     (let t = ds_drains d ! i; st = ds_states d ! dr_state t in
      d\<lparr>ds_heap := (ds_heap d)[ss_ledger st :=
            snd (append_events_to (ss_turn_index st) evs (ds_heap d ! ss_ledger st))],
        ds_states := (ds_states d)[dr_state t := st\<lparr>ss_events := ss_events st @ mirror evs\<rparr>],
        ds_drains := (ds_drains d)[i := note_events evs (t\<lparr>dr_stream := drop (length evs) (dr_stream t)\<rparr>)],
        ds_effects := ds_effects d @ map FxEmit (mirror evs)\<rparr>)"

lemma drain_event_once:
  assumes "daemon_wf d" "i < length (ds_drains d)" "dr_phase (ds_drains d ! i) = Streaming"
    "dr_stream (ds_drains d ! i) = ev # rest"
  shows "drain_step env i d = drained i [ev] d"
proof -
  have "dr_state (ds_drains d ! i) < length (ds_states d)"
    using drain_refs [OF assms(1,2) refl] by simp
  then show ?thesis
    using assms(3,4)
    by (cases "map_event ev")
      (simp_all add: drain_step_def drain_event_def drained_def Let_def note_events_def
        note_event_def fx_def list_update_id)
qed

lemma note_events_stream:
  "(note_events evs t)\<lparr>dr_stream := x\<rparr> = note_events evs (t\<lparr>dr_stream := x\<rparr>)"
proof -
  have "(note_terminal de t)\<lparr>dr_stream := x\<rparr> = note_terminal de (t\<lparr>dr_stream := x\<rparr>)" for de t
    by (cases de) simp_all
  then have "(note_event ev t)\<lparr>dr_stream := x\<rparr> = note_event ev (t\<lparr>dr_stream := x\<rparr>)" for ev t
    by (simp add: note_event_def split: option.split)
  then show ?thesis
    unfolding note_events_def by (induction evs arbitrary: t) simp_all
qed

lemma drained_drained:
  assumes "daemon_wf d" "i < length (ds_drains d)"
  shows "drained i b (drained i a d) = drained i (a @ b) d"
proof -
  note r = drain_refs [OF assms refl]
  show ?thesis
    using assms(2) r
    by (simp add: drained_def Let_def append_events_to_append note_events_stream add.commute)
      (simp add: note_events_def)
qed

lemma drained_Nil: "drained i [] d = d"
  by (simp add: drained_def Let_def note_events_def)

lemma drained_drain:
  "i < length (ds_drains d) \<Longrightarrow> ds_drains (drained i evs d) ! i =
     note_events evs ((ds_drains d ! i)\<lparr>dr_stream := drop (length evs) (dr_stream (ds_drains d ! i))\<rparr>)"
  by (simp add: drained_def Let_def)

lemma length_drained [simp]:
  "length (ds_drains (drained i evs d)) = length (ds_drains d)"
  "length (ds_states (drained i evs d)) = length (ds_states d)"
  "length (ds_heap (drained i evs d)) = length (ds_heap d)"
  "ds_sessions (drained i evs d) = ds_sessions d" "ds_ledgers (drained i evs d) = ds_ledgers d"
  "ds_checkpoint_sink (drained i evs d) = ds_checkpoint_sink d"
  "ds_effects (drained i evs d) = ds_effects d @ map FxEmit (mirror evs)"
  by (simp_all add: drained_def Let_def)

lemma drain_events:
  assumes "daemon_wf d" "i < length (ds_drains d)" "dr_phase (ds_drains d ! i) = Streaming"
    "dr_stream (ds_drains d ! i) = evs @ rest"
  shows "(drain_step env i ^^ length evs) d = drained i evs d \<and> daemon_wf (drained i evs d)"
  using assms(4)
proof (induction evs arbitrary: rest rule: rev_induct)
  case Nil
  then show ?case using assms(1) by (simp add: drained_Nil)
next
  case (snoc ev evs)
  let ?d = "drained i evs d"
  from snoc(1) [of "ev # rest"] snoc(2)
  have IH: "(drain_step env i ^^ length evs) d = ?d" "daemon_wf ?d" by auto
  have t: "dr_phase (ds_drains ?d ! i) = Streaming" "dr_stream (ds_drains ?d ! i) = ev # rest"
    using assms(2,3) snoc(2) by (simp_all add: drained_drain)
  have step: "drain_step env i ?d = drained i [ev] ?d"
    using drain_event_once [OF IH(2) _ t] assms(2) by simp
  then have "drain_step env i ?d = drained i (evs @ [ev]) d"
    using drained_drained [OF assms(1,2)] by simp
  moreover have "daemon_wf (drain_step env i ?d)"
    using wf_drain_step [OF IH(2)] assms(2) by simp
  ultimately show ?case using IH(1) by simp
qed

text \<open>The end of a stream: settlement, or a suspended turn.\<close>

definition settled :: "call_env \<Rightarrow> nat \<Rightarrow> turn_status \<Rightarrow> daemon \<Rightarrow> daemon" where
  "settled env i status d =
     (let t = ds_drains d ! i; st = ds_states d ! dr_state t; s = dr_session_id t;
          l = snd (settle_turn_at (ss_turn_index st) (env_now env) status (ds_heap d ! ss_ledger st))
      in d\<lparr>ds_heap := (ds_heap d)[ss_ledger st := l],
           ds_sessions := AList.delete s (ds_sessions d)\<rparr>)"

definition settle_effects :: "call_env \<Rightarrow> nat \<Rightarrow> daemon \<Rightarrow> effect list" where
  "settle_effects env i d =
     (let t = ds_drains d ! i; st = ds_states d ! dr_state t;
          l = snd (settle_turn_at (ss_turn_index st) (env_now env) (turn_status_of t)
                (ds_heap d ! ss_ledger st))
      in (if ds_checkpoint_sink d then [FxPersist (checkpoint_full (env_now env) l)] else []) @
         [FxEmit (DTraceFinished (dr_session_id t) (dr_trace_id t) (dr_final_status t)
            (ss_project_id st) (ss_medium_id st))])"

text \<open>
  The steps of a task that is never interrupted: its events, the look at the final status and the seven
  regions. A task that has ended does not move any more, so this is enough for a suspended turn too.
\<close>

definition drain_len :: "harness_server_event list \<Rightarrow> nat" where
  "drain_len evs = 8 + length evs"

lemma set_phase_same: "dr_phase (ds_drains d ! i) = ph \<Longrightarrow> set_phase i ph d = d"
proof -
  assume "dr_phase (ds_drains d ! i) = ph"
  then have "(ds_drains d ! i)\<lparr>dr_phase := ph\<rparr> = ds_drains d ! i" by (cases "ds_drains d ! i") simp
  then show ?thesis by (simp add: set_phase_def)
qed

lemma drain_step_Ended: "dr_phase (ds_drains d ! i) = Ended \<Longrightarrow> drain_step env i d = d"
  by (simp add: drain_step_def Let_def set_phase_same)

lemma drain_steps_Ended: "dr_phase (ds_drains d ! i) = Ended \<Longrightarrow> (drain_step env i ^^ n) d = d"
  by (induction n) (simp_all add: drain_step_Ended)

text \<open>One region moves the task to its next phase.\<close>

lemma drain_step_region:
  assumes "i < length (ds_drains d)" "dr_phase (ds_drains d ! i) = ph" "ph \<noteq> Streaming"
  shows "drain_step env i d = set_phase i (next_phase ph) (drain_end env ph (ds_drains d ! i) d)"
    and "ds_drains (drain_step env i d) =
      (ds_drains d)[i := (ds_drains d ! i)\<lparr>dr_phase := next_phase ph\<rparr>]"
  using assms by (simp_all add: drain_step_def set_phase_def Let_def)

lemma drain_end_heap: "\<exists>l. ds_heap (drain_end env ph t d) = (ds_heap d)[ss_ledger (ds_states d ! dr_state t) := l]"
  by (cases ph) (auto simp: Let_def fx_def intro: list_update_id [symmetric])

lemma drain_end_other_state:
  "m \<noteq> dr_state t \<Longrightarrow> ds_states (drain_end env ph t d) ! m = ds_states d ! m"
  by (cases ph) (simp_all add: Let_def fx_def)

lemma drain_end_phase [simp]: "drain_end env ph (t\<lparr>dr_phase := x\<rparr>) d = drain_end env ph t d"
  by (cases ph) (simp_all add: turn_status_of_def Let_def)

lemma set_phase_drain [simp]:
  "i < length (ds_drains d) \<Longrightarrow> ds_drains (set_phase i ph d) ! i = (ds_drains d ! i)\<lparr>dr_phase := ph\<rparr>"
  "length (ds_drains (set_phase i ph d)) = length (ds_drains d)"
  "drain_end env q t (set_phase i ph d) = set_phase i ph (drain_end env q t d)"
  "i < length (ds_drains d) \<Longrightarrow> set_phase i ph' (set_phase i ph d) = set_phase i ph' d"
  by (simp_all add: set_phase_def) (cases q; simp add: Let_def fx_def snapshot_log_def)

lemma drain_regions:
  assumes "i < length (ds_drains d)" "t = ds_drains d ! i" "dr_phase t = Settling"
  shows "(drain_step env i ^^ 7) d = set_phase i Ended (drain_end env Removing t (drain_end env Announcing t
    (drain_end env MarkingFinished t (drain_end env MarkingStatus t (drain_end env Persisting t
      (drain_end env Snapshotting t (drain_end env Settling t d)))))))"
proof -
  have step: "drain_step env i (set_phase i ph d') = set_phase i (next_phase ph) (drain_end env ph t d')"
    if "ph \<noteq> Streaming" "ds_drains d' = ds_drains d" for ph d'
    using that assms drain_step_region(1) [of i "set_phase i ph d'" ph env] by simp
  have "d = set_phase i Settling d" using assms set_phase_same by metis
  then have "(drain_step env i ^^ 7) d = (drain_step env i ^^ 7) (set_phase i Settling d)" by simp
  moreover have "(7::nat) = Suc (Suc (Suc (Suc (Suc (Suc (Suc 0))))))" by simp
  ultimately show ?thesis by (simp only: funpow.simps comp_def id_apply step drain_end_drains
      next_phase.simps drain_phase.distinct not_False_eq_True)
qed

lemma drain_last:
  assumes "i < length (ds_drains d)" "dr_phase (ds_drains d ! i) = Streaming" "dr_stream (ds_drains d ! i) = []"
    and wf: "daemon_wf d" and d': "d' = (drain_step env i ^^ 8) d"
  shows "case drain_verdict (ds_drains d ! i) of
      None \<Rightarrow> ds_heap d' = ds_heap d \<and> ds_sessions d' = ds_sessions d \<and>
        ds_effects d' = ds_effects d \<and> ds_states d' = ds_states d
    | Some status \<Rightarrow> ds_heap d' = ds_heap (settled env i status d) \<and>
        ds_sessions d' = ds_sessions (settled env i status d) \<and>
        ds_effects d' = ds_effects d @ settle_effects env i d"
    and "ds_ledgers d' = ds_ledgers d"
proof -
  let ?t = "ds_drains d ! i"
  have first: "drain_step env i d = set_phase i (if dr_final_status ?t = ''running'' then Ended else Settling) d"
    using assms by (simp add: drain_step_def)
  have ended: "(drain_step env i ^^ 7) (set_phase i Ended d) = set_phase i Ended d"
    by (rule drain_steps_Ended) (use assms(1) in simp)
  define closed where "closed = drain_end env Removing ?t (drain_end env Announcing ?t
    (drain_end env MarkingFinished ?t (drain_end env MarkingStatus ?t (drain_end env Persisting ?t
      (drain_end env Snapshotting ?t (drain_end env Settling ?t d))))))"
  have regions: "(drain_step env i ^^ 7) (set_phase i Settling d) = set_phase i Ended closed"
    using drain_regions [of i "set_phase i Settling d" _ env] assms(1)
    by (simp add: closed_def del: drain_end.simps)
  have "(drain_step env i ^^ 8) d = (drain_step env i ^^ 7) (drain_step env i d)"
    using funpow_Suc_right [of 7 "drain_step env i"] by (simp add: comp_def)
  then have d'': "d' = (if dr_final_status ?t = ''running'' then set_phase i Ended d else set_phase i Ended closed)"
    unfolding d' first using ended regions by simp
  show "case drain_verdict ?t of
      None \<Rightarrow> ds_heap d' = ds_heap d \<and> ds_sessions d' = ds_sessions d \<and>
        ds_effects d' = ds_effects d \<and> ds_states d' = ds_states d
    | Some status \<Rightarrow> ds_heap d' = ds_heap (settled env i status d) \<and>
        ds_sessions d' = ds_sessions (settled env i status d) \<and>
        ds_effects d' = ds_effects d @ settle_effects env i d"
    using drain_refs [OF wf assms(1) refl]
    by (simp add: d'' closed_def drain_verdict_def settled_def settle_effects_def Let_def fx_def set_phase_def)
  show "ds_ledgers d' = ds_ledgers d" by (simp add: d'' closed_def set_phase_def del: drain_end.simps)
qed

section \<open>Starting a turn\<close>

definition fresh_record :: "timestamp \<Rightarrow> harness_turn \<Rightarrow> nat \<Rightarrow> turn_record" where
  "fresh_record now turn k =
     \<lparr>tr_index = k, tr_turn = turn, tr_started_at = now, tr_finished_at = None,
      tr_status = TurnRunning, tr_events = []\<rparr>"

lemma history_cong:
  "ds_ledgers d' = ds_ledgers d \<Longrightarrow> ds_heap d' = ds_heap d \<Longrightarrow> history s d' = history s d"
  by (simp add: history_def split: option.split)

lemma daemon_run_Ok:
  assumes wf: "daemon_wf d" and ok: "fst (daemon_run env turn d) = Ok ()"
  obtains h r d1 where
    "registry_resolve (ds_registry d) (turn_harness_id turn) = Some h"
    "d1 = snd (daemon_run env turn d)" "daemon_wf d1"
    "ds_drains d1 = ds_drains d @
       [\<lparr>dr_session_id = turn_session_id turn, dr_trace_id = trace_of (turn_session_id turn),
         dr_stream = hr_run h (env_now env) turn, dr_state = length (ds_states d),
         dr_final_status = ''running'', dr_final_error = None, dr_phase = Streaming\<rparr>]"
    "ds_states d1 = ds_states d @ [new_session env h turn r (length (history (turn_session_id turn) d))]"
    "map_of (ds_ledgers d1) (turn_session_id turn) = Some r"
    "ds_sessions d1 = AList.update (turn_session_id turn) (length (ds_states d)) (ds_sessions d)"
    "ds_checkpoint_sink d1 = ds_checkpoint_sink d"
    "\<And>s'. history s' d1 = (if s' = turn_session_id turn
       then history s' d @ [fresh_record (env_now env) turn (length (history s' d))] else history s' d)"
proof -
  let ?s = "turn_session_id turn"
  obtain h where h: "registry_resolve (ds_registry d) (turn_harness_id turn) = Some h"
    using ok by (auto simp: daemon_run_def split: option.splits)
  obtain u d0 where p: "prepare_workspace env h (trace_of ?s) d = (Ok u, d0)"
    using ok h by (cases "prepare_workspace env h (trace_of ?s) d")
      (auto simp: daemon_run_def Let_def split: sum.splits)
  have wf0: "daemon_wf d0" using wf_prepare [of env h "trace_of ?s" d] wf p by simp
  note f0 = prepare_fields [OF p]
  obtain r d2 where g: "get_ledger ?s d0 = (r, d2)" by fastforce
  note spec = get_ledger_spec [OF wf0 g] and hist = history_get_ledger [OF wf0 g]
    and f2 = get_ledger_fields [OF g]
  have hist0: "history s' d0 = history s' d" for s' using f0 by (intro history_cong) simp_all
  let ?l = "record_turn (env_now env) turn (ds_heap d2 ! r)"
  let ?d3 = "d2\<lparr>ds_heap := (ds_heap d2)[r := snd ?l]\<rparr>"
  define d1 where "d1 = snd (daemon_run env turn d)"
  have k: "fst ?l = length (history ?s d)"
    "ls_turns (snd ?l) = history ?s d @ [fresh_record (env_now env) turn (length (history ?s d))]"
    using hist hist0 by (simp_all add: record_turn_def Let_def fresh_record_def)
  have d1: "ds_drains d1 = ds_drains d2 @
       [\<lparr>dr_session_id = ?s, dr_trace_id = trace_of ?s,
         dr_stream = hr_run h (env_now env) turn, dr_state = length (ds_states d2),
         dr_final_status = ''running'', dr_final_error = None, dr_phase = Streaming\<rparr>]"
    "ds_states d1 = ds_states d2 @ [new_session env h turn r (fst ?l)]"
    "ds_ledgers d1 = ds_ledgers ?d3" "ds_heap d1 = ds_heap ?d3"
    "ds_sessions d1 = AList.update ?s (length (ds_states d2)) (ds_sessions d2)"
    "ds_checkpoint_sink d1 = ds_checkpoint_sink d2"
    using h p g by (simp_all add: d1_def daemon_run_def Let_def split_def spawn_stream_def)
  have "history s' d1 = (if s' = ?s
       then history s' d @ [fresh_record (env_now env) turn (length (history s' d))] else history s' d)"
    for s'
    using history_set_ledger [of d2 ?s r s' "snd ?l"] history_cong [OF d1(3,4), of s'] spec hist hist0 k
    by simp
  then show thesis
    using that [OF h d1_def] wf_daemon_run [OF wf, of env turn] d1 k f0 f2 spec
    by (simp add: d1_def [symmetric])
qed

section \<open>The whole life of a drain\<close>

text \<open>What draining a stream to its end makes of the record of its turn.\<close>

definition finish_record :: "timestamp \<Rightarrow> harness_server_event list \<Rightarrow> turn_record \<Rightarrow> turn_record" where
  "finish_record now evs t =
     (case verdict evs of None \<Rightarrow> add_events evs t | Some v \<Rightarrow> settle_record now v (add_events evs t))"

lemma finish_ledger:
  assumes "k < length (ls_turns l)"
  shows "ls_turns (case verdict evs of None \<Rightarrow> snd (append_events_to k evs l)
      | Some v \<Rightarrow> snd (settle_turn_at k now v (snd (append_events_to k evs l)))) =
    (ls_turns l)[k := finish_record now evs (ls_turns l ! k)]"
  using assms
  by (auto simp: finish_record_def settle_turn_at_def append_events_to_def Let_def split: option.split)

text \<open>After the last event: the task's verdict and the ledger it wrote.\<close>

lemma drained_task:
  assumes wf: "daemon_wf d" and i: "i < length (ds_drains d)" and t: "t = ds_drains d ! i"
    and fresh: "dr_final_status t = ''running''" and evs: "dr_stream t = evs"
  shows "drain_verdict (ds_drains (drained i evs d) ! i) = verdict evs"
    and "drain_ok (ds_drains (drained i evs d) ! i)"
    and "dr_stream (ds_drains (drained i evs d) ! i) = []"
    and "dr_state (ds_drains (drained i evs d) ! i) = dr_state t"
    and "dr_session_id (ds_drains (drained i evs d) ! i) = dr_session_id t"
    and "dr_trace_id (ds_drains (drained i evs d) ! i) = dr_trace_id t"
    and "dr_phase (ds_drains (drained i evs d) ! i) = dr_phase t"
proof -
  have u: "ds_drains (drained i evs d) ! i = note_events evs (t\<lparr>dr_stream := []\<rparr>)"
    using drained_drain [OF i, of evs] evs by (simp add: t)
  have "drain_ok (t\<lparr>dr_stream := []\<rparr>)" "drain_verdict (t\<lparr>dr_stream := []\<rparr>) = None"
    using fresh by (simp_all add: drain_ok_def drain_verdict_def)
  from note_events_verdict [OF this(1), of evs] this(2)
  show "drain_verdict (ds_drains (drained i evs d) ! i) = verdict evs"
    "drain_ok (ds_drains (drained i evs d) ! i)" by (simp_all add: u verdict_def)
qed (use drained_drain [OF i, of evs] evs t in simp_all)

lemma drained_state:
  assumes "daemon_wf d" "i < length (ds_drains d)" "t = ds_drains d ! i"
  shows "ds_states (drained i evs d) ! dr_state t =
      (ds_states d ! dr_state t)\<lparr>ss_events := ss_events (ds_states d ! dr_state t) @ mirror evs\<rparr>"
    and "ds_heap (drained i evs d) = (ds_heap d)[ss_ledger (ds_states d ! dr_state t) :=
      snd (append_events_to (ss_turn_index (ds_states d ! dr_state t)) evs
        (ds_heap d ! ss_ledger (ds_states d ! dr_state t)))]"
  using drain_refs [OF assms] by (simp_all add: drained_def Let_def assms(3) [symmetric])

lemma final_status_verdict:
  "drain_ok u \<Longrightarrow> drain_verdict u = Some v \<Longrightarrow>
   dr_final_status u = (if v = TurnSuccess then ''success'' else ''failed'') \<and> turn_status_of u = v"
  by (auto simp: drain_ok_def drain_verdict_def turn_status_of_def split: if_splits)

text \<open>The heap, the sessions and the effects once the task has ended.\<close>

lemma drain_finished:
  assumes wf: "daemon_wf d" and i: "i < length (ds_drains d)" and t: "t = ds_drains d ! i"
    and fresh: "dr_final_status t = ''running''" "dr_phase t = Streaming" and evs: "dr_stream t = evs"
    and st: "st = ds_states d ! dr_state t"
    and l: "l = (case verdict evs of
        None \<Rightarrow> snd (append_events_to (ss_turn_index st) evs (ds_heap d ! ss_ledger st))
      | Some v \<Rightarrow> snd (settle_turn_at (ss_turn_index st) (env_now env) v
          (snd (append_events_to (ss_turn_index st) evs (ds_heap d ! ss_ledger st)))))"
    and d2: "d2 = (drain_step env i ^^ drain_len evs) d"
  shows "ds_heap d2 = (ds_heap d)[ss_ledger st := l]" "ds_ledgers d2 = ds_ledgers d"
    "ds_sessions d2 =
       (if verdict evs = None then ds_sessions d else AList.delete (dr_session_id t) (ds_sessions d))"
    "ds_effects d2 = ds_effects d @ map FxEmit (mirror evs) @
      (case verdict evs of None \<Rightarrow> []
       | Some v \<Rightarrow> (if ds_checkpoint_sink d then [FxPersist (checkpoint_full (env_now env) l)] else []) @
         [FxEmit (DTraceFinished (dr_session_id t) (dr_trace_id t)
            (if v = TurnSuccess then ''success'' else ''failed'') (ss_project_id st) (ss_medium_id st))])"
proof -
  define d3 where "d3 = drained i evs d"
  note task = drained_task [OF wf i t fresh(1) evs, folded d3_def]
  note states = drained_state [OF wf i t, of evs, folded d3_def st]
  note refs = drain_refs [OF wf i t, folded st]
  have d2': "d2 = (drain_step env i ^^ 8) d3" and i3: "i < length (ds_drains d3)" and wf3: "daemon_wf d3"
    using drain_events [OF wf i, of evs "[]" env] fresh evs t i
    by (simp_all add: d2 d3_def drain_len_def funpow_add)
  note f3 = length_drained [of i evs d, folded d3_def]
  note last = drain_last [OF i3 _ _ wf3 d2', unfolded task]
  have eff: "settle_effects env i d3 =
      (if ds_checkpoint_sink d then [FxPersist (checkpoint_full (env_now env) l)] else []) @
       [FxEmit (DTraceFinished (dr_session_id t) (dr_trace_id t)
          (if v = TurnSuccess then ''success'' else ''failed'') (ss_project_id st) (ss_medium_id st))]"
    if "verdict evs = Some v" for v
    using final_status_verdict [OF task(2)] task that
    by (simp add: settle_effects_def Let_def states f3 l refs)
  show "ds_heap d2 = (ds_heap d)[ss_ledger st := l]" "ds_ledgers d2 = ds_ledgers d"
    "ds_sessions d2 =
       (if verdict evs = None then ds_sessions d else AList.delete (dr_session_id t) (ds_sessions d))"
    using last fresh
    by (auto simp: settled_def Let_def task states f3 l refs split: option.splits)
  show "ds_effects d2 = ds_effects d @ map FxEmit (mirror evs) @
      (case verdict evs of None \<Rightarrow> []
       | Some v \<Rightarrow> (if ds_checkpoint_sink d then [FxPersist (checkpoint_full (env_now env) l)] else []) @
         [FxEmit (DTraceFinished (dr_session_id t) (dr_trace_id t)
            (if v = TurnSuccess then ''success'' else ''failed'') (ss_project_id st) (ss_medium_id st))])"
    using last fresh eff by (auto simp: f3 split: option.splits)
qed

text \<open>The same on histories, for a task that writes its session's current ledger.\<close>

lemma drain_life:
  assumes wf: "daemon_wf d" and i: "i < length (ds_drains d)" and t: "t = ds_drains d ! i"
    and fresh: "dr_final_status t = ''running''" "dr_phase t = Streaming" and evs: "dr_stream t = evs"
    and s: "s = dr_session_id t" and st: "st = ds_states d ! dr_state t"
    and led: "map_of (ds_ledgers d) s = Some (ss_ledger st)"
    and k: "k = ss_turn_index st" "k < length (history s d)"
    and d2: "d2 = (drain_step env i ^^ drain_len evs) d"
  shows "history s' d2 = (if s' = s
      then (history s d)[k := finish_record (env_now env) evs (history s d ! k)] else history s' d)"
    and "live s d2 \<longleftrightarrow> live s d \<and> verdict evs = None"
    and "ds_effects d2 = ds_effects d @ map FxEmit (mirror evs) @
      (case verdict evs of None \<Rightarrow> []
       | Some v \<Rightarrow>
         (if ds_checkpoint_sink d then [FxPersist \<lparr>cp_session_id = s, cp_at = length (history s d2),
            cp_turns = history s d2, cp_created_at = env_now env\<rparr>] else []) @
         [FxEmit (DTraceFinished s (dr_trace_id t) (if v = TurnSuccess then ''success'' else ''failed'')
            (ss_project_id st) (ss_medium_id st))])"
proof -
  define l where "l = (case verdict evs of
        None \<Rightarrow> snd (append_events_to (ss_turn_index st) evs (ds_heap d ! ss_ledger st))
      | Some v \<Rightarrow> snd (settle_turn_at (ss_turn_index st) (env_now env) v
          (snd (append_events_to (ss_turn_index st) evs (ds_heap d ! ss_ledger st)))))"
  note fin = drain_finished [OF wf i t fresh evs st l_def d2]
  have old: "ls_turns (ds_heap d ! ss_ledger st) = history s d"
    using led by (simp add: history_def)
  have turns: "ls_turns l = (history s d)[k := finish_record (env_now env) evs (history s d ! k)]"
    unfolding l_def k(1) [symmetric]
    using finish_ledger [of k "ds_heap d ! ss_ledger st" evs "env_now env"] k(2) old by simp
  have sid: "ls_session_id l = s"
    using ledger_ref [OF wf led] by (auto simp: l_def split: option.split)
  have hist: "history s' d2 = (if s' = s then ls_turns l else history s' d)" for s'
    using history_set_ledger [OF wf led, of s' l]
      history_cong [of d2 "d\<lparr>ds_heap := (ds_heap d)[ss_ledger st := l]\<rparr>" s'] fin(1,2) by simp
  then show "history s' d2 = (if s' = s
      then (history s d)[k := finish_record (env_now env) evs (history s d ! k)] else history s' d)"
    by (simp add: turns)
  show "live s d2 \<longleftrightarrow> live s d \<and> verdict evs = None"
    by (simp add: live_def fin(3) s delete_conv')
  show "ds_effects d2 = ds_effects d @ map FxEmit (mirror evs) @
      (case verdict evs of None \<Rightarrow> []
       | Some v \<Rightarrow>
         (if ds_checkpoint_sink d then [FxPersist \<lparr>cp_session_id = s, cp_at = length (history s d2),
            cp_turns = history s d2, cp_created_at = env_now env\<rparr>] else []) @
         [FxEmit (DTraceFinished s (dr_trace_id t) (if v = TurnSuccess then ''success'' else ''failed'')
            (ss_project_id st) (ss_medium_id st))])"
    by (simp add: fin(4) s [symmetric] checkpoint_full_def sid hist split: option.split)
qed

text \<open>A turn from its start to the end of its stream.\<close>

lemma turn_life:
  assumes wf: "daemon_wf d" and ok: "fst (daemon_run env turn d) = Ok ()"
    and h: "registry_resolve (ds_registry d) (turn_harness_id turn) = Some h"
    and s: "s = turn_session_id turn" and evs: "evs = hr_run h (env_now env) turn"
    and d1: "d1 = snd (daemon_run env turn d)"
    and d2: "d2 = (drain_step env' (length (ds_drains d)) ^^ drain_len evs) d1"
  shows "history s' d2 = (if s' = s
      then history s d @ [finish_record (env_now env') evs
        (fresh_record (env_now env) turn (length (history s d)))] else history s' d)"
    and "live s d2 \<longleftrightarrow> verdict evs = None"
    and "ds_effects d2 = ds_effects d1 @ map FxEmit (mirror evs) @
      (case verdict evs of None \<Rightarrow> []
       | Some v \<Rightarrow>
         (if ds_checkpoint_sink d then [FxPersist \<lparr>cp_session_id = s, cp_at = length (history s d2),
            cp_turns = history s d2, cp_created_at = env_now env'\<rparr>] else []) @
         [FxEmit (DTraceFinished s (trace_of s)
            (if v = TurnSuccess then ''success'' else ''failed'')
            (turn_project_id turn) (turn_medium_id turn))])"
proof -
  let ?i = "length (ds_drains d)" and ?k = "length (history s d)"
  obtain r where wf1: "daemon_wf d1"
    and dr: "ds_drains d1 = ds_drains d @ [\<lparr>dr_session_id = s, dr_trace_id = trace_of s,
         dr_stream = evs, dr_state = length (ds_states d), dr_final_status = ''running'',
         dr_final_error = None, dr_phase = Streaming\<rparr>]"
    and sts: "ds_states d1 = ds_states d @ [new_session env h turn r ?k]"
    and led: "map_of (ds_ledgers d1) s = Some r"
    and ses: "ds_sessions d1 = AList.update s (length (ds_states d)) (ds_sessions d)"
    and snk: "ds_checkpoint_sink d1 = ds_checkpoint_sink d"
    and hist: "\<And>s'. history s' d1 = (if s' = s
       then history s' d @ [fresh_record (env_now env) turn (length (history s' d))] else history s' d)"
    using daemon_run_Ok [OF wf ok] h d1 s evs by (metis option.inject)
  have i: "?i < length (ds_drains d1)" by (simp add: dr)
  define t where "t = ds_drains d1 ! ?i"
  define st where "st = ds_states d1 ! dr_state t"
  have t: "dr_final_status t = ''running''" "dr_phase t = Streaming" "dr_stream t = evs" "s = dr_session_id t"
    "dr_trace_id t = trace_of s" "dr_state t = length (ds_states d)" by (simp_all add: t_def dr)
  then have st: "ss_ledger st = r" "?k = ss_turn_index st" "ss_project_id st = turn_project_id turn"
    "ss_medium_id st = turn_medium_id turn" by (simp_all add: st_def sts new_session_def)
  have k: "?k < length (history s d1)" by (simp add: hist)
  note life = drain_life [OF wf1 i t_def t(1-4) st_def led [folded st(1)] st(2) k d2]
  show "history s' d2 = (if s' = s
      then history s d @ [finish_record (env_now env') evs
        (fresh_record (env_now env) turn (length (history s d)))] else history s' d)"
    using life(1) [of s'] by (simp add: hist nth_append)
  show "live s d2 \<longleftrightarrow> verdict evs = None"
    using life(2) by (simp add: live_def ses update_conv')
  show "ds_effects d2 = ds_effects d1 @ map FxEmit (mirror evs) @
      (case verdict evs of None \<Rightarrow> []
       | Some v \<Rightarrow>
         (if ds_checkpoint_sink d then [FxPersist \<lparr>cp_session_id = s, cp_at = length (history s d2),
            cp_turns = history s d2, cp_created_at = env_now env'\<rparr>] else []) @
         [FxEmit (DTraceFinished s (trace_of s)
            (if v = TurnSuccess then ''success'' else ''failed'')
            (turn_project_id turn) (turn_medium_id turn))])"
    using life(3) by (simp add: t(5) st(3,4) snk split: option.split)
qed

lemma finish_fresh_record:
  "finish_record now' evs (fresh_record now turn k) =
     \<lparr>tr_index = k, tr_turn = turn, tr_started_at = now,
      tr_finished_at = map_option (\<lambda>_. now') (verdict evs),
      tr_status = (case verdict evs of None \<Rightarrow> TurnRunning | Some v \<Rightarrow> v), tr_events = evs\<rparr>"
  by (simp add: finish_record_def fresh_record_def add_events_def settle_record_def split: option.split)

section \<open>One drain, one session\<close>

lemma drain_step_other_history:
  assumes wf: "daemon_wf d" and i: "i < length (ds_drains d)"
    and s: "s \<noteq> dr_session_id (ds_drains d ! i)"
  shows "history s (drain_step env i d) = history s d"
proof -
  define t where "t = ds_drains d ! i"
  let ?r = "ss_ledger (ds_states d ! dr_state t)"
  note refs = drain_refs [OF wf i t_def]
  have "\<exists>l. ds_heap (drain_step env i d) = (ds_heap d)[?r := l]"
    using drain_end_heap [of env "dr_phase t" t d]
    by (auto simp: drain_step_def drain_event_def set_phase_def Let_def t_def fx_def
        split: list.split option.split intro: list_update_id [symmetric])
  then obtain l where l: "ds_heap (drain_step env i d) = (ds_heap d)[?r := l]" by blast
  have led: "ds_ledgers (drain_step env i d) = ds_ledgers d"
    by (simp add: drain_step_def drain_event_def set_phase_def Let_def fx_def
        split: list.split option.split)
  have "r' \<noteq> ?r" if "map_of (ds_ledgers d) s = Some r'" for r'
    using ledger_ref [OF wf that] refs s by (auto simp: t_def)
  then show ?thesis by (auto simp: history_def led l split: option.split)
qed

section \<open>The blocking run seam\<close>

definition outcome_of :: "turn_status option \<Rightarrow> step_outcome" where
  "outcome_of v = (case v of Some (TurnFailed m) \<Rightarrow> OutFailed m | _ \<Rightarrow> OutSucceeded)"

fun delta_text :: "harness_server_event \<Rightarrow> string" where
  "delta_text (HAssistantDelta s delta) = delta"
| "delta_text _ = []"

lemma blocking_drain_fold:
  "blocking_drain evs (outcome_of v) acc =
     (outcome_of (fold (\<lambda>e v. case terminal e of None \<Rightarrow> v | Some s \<Rightarrow> Some s) evs v),
      acc @ concat (map delta_text evs))"
proof (induction evs arbitrary: v acc)
  case (Cons e evs)
  have *: "OutSucceeded = outcome_of (Some TurnSuccess)" "OutFailed m = outcome_of (Some (TurnFailed m))"
    for m by (simp_all add: outcome_of_def)
  show ?case by (cases e) (simp_all add: Cons *)
qed simp

section \<open>Properties of runs\<close>

text \<open>C2. A turn that is started and whose stream is drained to its end leaves exactly one new
record at the end of its session's history: the turn, all events of the stream in order, and the
status the last terminal event decides. Without a terminal event the turn stays running and the
session stays live; with one the session is settled. No other session's history changes.\<close>

theorem turn_recorded_end_to_end:
  assumes "daemon_wf d" "fst (daemon_run env turn d) = Ok ()"
    "registry_resolve (ds_registry d) (turn_harness_id turn) = Some h"
  shows "let s = turn_session_id turn; evs = hr_run h (env_now env) turn;
             d' = (drain_step env' (length (ds_drains d)) ^^ drain_len evs) (snd (daemon_run env turn d))
    in history s d' = history s d @
         [\<lparr>tr_index = length (history s d), tr_turn = turn, tr_started_at = env_now env,
           tr_finished_at = map_option (\<lambda>_. env_now env') (verdict evs),
           tr_status = (case verdict evs of None \<Rightarrow> TurnRunning | Some v \<Rightarrow> v), tr_events = evs\<rparr>] \<and>
       (live s d' \<longleftrightarrow> verdict evs = None) \<and>
       (\<forall>s'. s' = s \<or> history s' d' = history s' d)"
  unfolding Let_def
  using turn_life(1) [OF assms refl refl refl refl] turn_life(2) [OF assms refl refl refl refl]
  by (simp add: finish_fresh_record)

lemma history_new [simp]:
  "history s (daemon_new reg) = []" "history s (set_checkpoint_sink b d) = history s d"
  "ds_drains (daemon_new reg) = []" "ds_drains (set_checkpoint_sink b d) = ds_drains d"
  "ds_checkpoint_sink (set_checkpoint_sink b d) = b"
  by (simp_all add: history_def daemon_new_def set_checkpoint_sink_def split: option.split)

lemma mock_run_events:
  "hr_run (mock_harness i reply) now turn =
     [HAssistantDelta (turn_session_id turn) reply, HDone (turn_session_id turn)]"
  by (simp add: mock_harness_def harness_default_def)

lemma demo_turn_session:
  "turn_session_id demo_turn = SessionId ''s''" "turn_project_id demo_turn = ProjectId ''default''"
  "turn_medium_id demo_turn = MediumId ''local''"
  by (simp_all add: harness_turn_new_def)

lemmas demo_simps = mock_run_events demo_turn_session verdict_def drain_len_def Let_def

lemma demo_run_ok: "fst (daemon_run demo_env demo_turn (daemon_new demo_registry)) = Ok ()"
  by (simp add: daemon_eval)

lemma demo_turn_resolve:
  "registry_resolve (ds_registry (daemon_new demo_registry)) (turn_harness_id demo_turn) =
     Some (mock_harness (HarnessId ''mock'') ''hi'')"
  by (simp add: daemon_new_def demo_resolve harness_turn_new_def)

theorem turn_recorded_end_to_end_witness:
  "let d = daemon_new demo_registry; s = SessionId ''s'';
       d' = (drain_step demo_env 0 ^^ 10) (demo_run d)
   in map tr_events (history s d') = [[HAssistantDelta s ''hi'', HDone s]] \<and>
      map tr_status (history s d') = [TurnSuccess] \<and> \<not> live s d'"
  using turn_recorded_end_to_end [OF demo_wf demo_run_ok demo_turn_resolve, of demo_env]
  by (simp add: demo_simps)

text \<open>C3. The client sees exactly what is recorded: after the trace is started, the wire images of
the recorded events in order, then, when the turn settles, one end of trace with the verdict. With
a checkpoint sink attached, the session's whole history, the settled turn included, is handed to
the sink before the client is told that the trace finished.\<close>

theorem client_stream_matches_history:
  assumes "daemon_wf d" "fst (daemon_run env turn d) = Ok ()"
    "registry_resolve (ds_registry d) (turn_harness_id turn) = Some h"
  shows "let s = turn_session_id turn; evs = hr_run h (env_now env) turn;
             d1 = snd (daemon_run env turn d);
             d' = (drain_step env' (length (ds_drains d)) ^^ drain_len evs) d1
    in ds_effects d' = ds_effects d1 @ map FxEmit (mirror (tr_events (last (history s d')))) @
         (case verdict evs of None \<Rightarrow> []
          | Some v \<Rightarrow>
            (if ds_checkpoint_sink d
             then [FxPersist \<lparr>cp_session_id = s, cp_at = length (history s d'),
                     cp_turns = history s d', cp_created_at = env_now env'\<rparr>] else []) @
            [FxEmit (DTraceFinished s (trace_of s) (if v = TurnSuccess then ''success'' else ''failed'')
               (turn_project_id turn) (turn_medium_id turn))])"
proof -
  let ?s = "turn_session_id turn" and ?evs = "hr_run h (env_now env) turn"
  let ?d = "(drain_step env' (length (ds_drains d)) ^^ drain_len ?evs) (snd (daemon_run env turn d))"
  have "tr_events (last (history ?s ?d)) = ?evs"
    using turn_life(1) [OF assms refl refl refl refl, where s' = ?s and env' = env']
    by (simp add: finish_fresh_record)
  then show ?thesis
    using turn_life(3) [OF assms refl refl refl refl, where env' = env'] unfolding Let_def by simp
qed

theorem client_stream_witness:
  "let s = SessionId ''s''; d = set_checkpoint_sink True (daemon_new demo_registry);
       d' = (drain_step demo_env 0 ^^ 10) (demo_run d)
   in drop 2 (ds_effects d') =
        [FxEmit (DAssistantDelta s ''hi''), FxEmit (DDone s),
         FxPersist \<lparr>cp_session_id = s, cp_at = 1, cp_turns = history s d', cp_created_at = 1\<rparr>,
         FxEmit (DTraceFinished s ''trace-s'' ''success'' (ProjectId ''default'') (MediumId ''local''))]"
proof -
  let ?s = "SessionId ''s''" and ?d = "set_checkpoint_sink True (daemon_new demo_registry)"
  let ?x = "(drain_step demo_env 0 ^^ 10) (demo_run ?d)"
  have wf: "daemon_wf ?d" using wf_daemon_wiring(3) [OF demo_wf] .
  have ok: "fst (daemon_run demo_env demo_turn ?d) = Ok ()"
    and reg: "registry_resolve (ds_registry ?d) (turn_harness_id demo_turn) =
      Some (mock_harness (HarnessId ''mock'') ''hi'')"
    by (simp_all add: daemon_eval set_checkpoint_sink_def)
  have h: "length (history ?s ?x) = 1"
    "tr_events (last (history ?s ?x)) = [HAssistantDelta ?s ''hi'', HDone ?s]"
    using turn_life(1) [OF wf ok reg refl refl refl refl, where env' = demo_env and s' = ?s]
    by (simp_all add: demo_simps finish_fresh_record)
  have "length (ds_effects (demo_run ?d)) = 2"
    by (simp add: daemon_eval set_checkpoint_sink_def)
  with client_stream_matches_history [OF wf ok reg, of demo_env] h show ?thesis
    by (simp add: demo_simps trace_of_def) (simp add: demo_env_def)
qed

text \<open>C26. Resuming a suspended turn continues its own record: once the resumed stream is drained,
its events are appended to the record of the turn that was suspended, which is settled by the last
terminal event of that stream; every other turn of the session, and every other session, is as it
was. The live session has to write the ledger the daemon still holds under it, and the record of its
turn must still be there: a restored checkpoint or a discarded turn ends this.\<close>

theorem resume_continues_turn:
  assumes wf: "daemon_wf d" and live: "map_of (ds_sessions d) s = Some ref"
    and st: "st = ds_states d ! ref" and led: "map_of (ds_ledgers d) s = Some (ss_ledger st)"
    and k: "ss_turn_index st < length (history s d)"
    and stream: "hr_resume (ss_harness st) (env_now env) s response cred = Some evs"
  shows "case daemon_resume env s response cred d of (res, d1) \<Rightarrow>
    let d' = (drain_step env' (length (ds_drains d)) ^^ drain_len evs) d1; k = ss_turn_index st in
    res = Ok () \<and>
    history s d' = (history s d)[k := finish_record (env_now env') evs (history s d ! k)] \<and>
    (live s d' \<longleftrightarrow> verdict evs = None) \<and> (\<forall>s'. s' = s \<or> history s' d' = history s' d)"
proof -
  define d1 where "d1 = snd (daemon_resume env s response cred d)"
  let ?t = "\<lparr>dr_session_id = s, dr_trace_id = ss_trace_id st, dr_stream = evs, dr_state = ref,
    dr_final_status = ''running'', dr_final_error = None, dr_phase = Streaming\<rparr>"
  have res: "daemon_resume env s response cred d = (Ok (), d1)"
    using live st stream by (simp add: d1_def daemon_resume_def Let_def)
  have f: "ds_drains d1 = ds_drains d @ [?t]" "ds_states d1 = ds_states d"
    "ds_ledgers d1 = ds_ledgers d" "ds_heap d1 = ds_heap d" "ds_sessions d1 = ds_sessions d"
    using live st stream by (simp_all add: d1_def daemon_resume_def Let_def spawn_stream_def)
  have h: "history s' d1 = history s' d" for s' using f(3,4) by (rule history_cong)
  have wf1: "daemon_wf d1" using wf_daemon_resume [OF wf] by (simp add: d1_def)
  have "live s d1" using live f(5) by (simp add: live_def)
  with drain_life [OF wf1, of "length (ds_drains d)" ?t evs s st "ss_turn_index st" _ env']
    led k st show ?thesis
    by (simp add: res f h Let_def)
qed

definition ask_harness :: harness_runtime where
  "ask_harness =
     (harness_default (HarnessId ''mock'') capabilities_internal
        (\<lambda>_ turn. [HAskUser (turn_session_id turn) ''sure?'' []]))
     \<lparr>hr_resume := (\<lambda>_ s answer _. Some [HAssistantDelta s answer, HDone s])\<rparr>"

definition ask_daemon :: daemon where
  "ask_daemon = daemon_new (registry_register ask_harness registry_new)"

definition suspended_daemon :: daemon where
  "suspended_daemon = (drain_step demo_env 0 ^^ 2) (demo_run ask_daemon)"

lemma ask_daemon_wf: "daemon_wf ask_daemon"
  by (simp add: ask_daemon_def daemon_wf_new registry_wf_register)

lemma suspended_daemon_wf: "daemon_wf suspended_daemon"
proof -
  have "daemon_wf (demo_run ask_daemon)" by (rule wf_daemon_run [OF ask_daemon_wf])
  moreover have "length (ds_drains (demo_run ask_daemon)) = 1"
    by (simp add: ask_daemon_def daemon_eval registry_resolve_register ask_harness_def)
  ultimately show ?thesis
    by (simp add: suspended_daemon_def eval_nat_numeral wf_drain_step)
qed

lemma suspended_daemon_facts:
  "map_of (ds_sessions suspended_daemon) (SessionId ''s'') = Some 0"
  "ss_ledger (ds_states suspended_daemon ! 0) = 0" "ss_turn_index (ds_states suspended_daemon ! 0) = 0"
  "ss_harness (ds_states suspended_daemon ! 0) = ask_harness"
  "map_of (ds_ledgers suspended_daemon) (SessionId ''s'') = Some 0"
  "history (SessionId ''s'') suspended_daemon =
     [(fresh_record 1 demo_turn 0)\<lparr>tr_events := [HAskUser (SessionId ''s'') ''sure?'' []]\<rparr>]"
  "length (ds_drains suspended_daemon) = 1"
  by (simp_all add: suspended_daemon_def ask_daemon_def daemon_eval registry_resolve_register
      ask_harness_def eval_nat_numeral fresh_record_def)

theorem resume_continues_turn_witness:
  "let s = SessionId ''s'';
       d1 = snd (daemon_resume demo_env s ''yes'' None suspended_daemon);
       d' = (drain_step demo_env 1 ^^ 10) d1
   in live s suspended_daemon \<and> \<not> live s d' \<and>
      map tr_events (history s d') = [[HAskUser s ''sure?'' [], HAssistantDelta s ''yes'', HDone s]] \<and>
      map tr_status (history s d') = [TurnSuccess]"
proof -
  let ?s = "SessionId ''s''"
  have st: "hr_resume (ss_harness (ds_states suspended_daemon ! 0)) (env_now demo_env) ?s ''yes'' None
      = Some [HAssistantDelta ?s ''yes'', HDone ?s]"
    by (simp add: suspended_daemon_facts) (simp add: ask_harness_def)
  have "live ?s suspended_daemon" by (simp add: live_def suspended_daemon_facts)
  with resume_continues_turn [OF suspended_daemon_wf suspended_daemon_facts(1) refl _ _ st, of demo_env]
  show ?thesis
    by (simp add: suspended_daemon_facts split_def drain_len_def Let_def finish_record_def
        verdict_def settle_record_def add_events_def)
qed

text \<open>Draining one session's stream never touches another session's history, at any point of
any interleaving.\<close>

theorem drains_are_isolated:
  assumes "reachable daemon_init (daemon_step R) d" "i < length (ds_drains d)"
    "s \<noteq> dr_session_id (ds_drains d ! i)"
  shows "history s (drain_step env i d) = history s d"
  using daemon_inv.inv_reachable [OF assms(1)] assms(2,3) by (rule drain_step_other_history)

theorem drains_are_isolated_witness:
  "let d = demo_run (daemon_new demo_registry) in
   history (SessionId ''other'') (drain_step demo_env 0 d) = history (SessionId ''other'') d \<and>
   history (SessionId ''s'') (drain_step demo_env 0 d) \<noteq> history (SessionId ''s'') d"
proof -
  let ?d = "demo_run (daemon_new demo_registry)"
  have r: "reachable daemon_init (daemon_step (demo_rhai (Finished None))) ?d"
    by (rule reachable_step, rule demo_init) (rule sRun)
  have "0 < length (ds_drains ?d)" "SessionId ''other'' \<noteq> dr_session_id (ds_drains ?d ! 0)"
    and "history (SessionId ''s'') (drain_step demo_env 0 ?d) \<noteq> history (SessionId ''s'') ?d"
    by (simp_all add: daemon_eval)
  with drains_are_isolated [OF r, of 0 "SessionId ''other''" demo_env] show ?thesis by simp
qed

text \<open>The blocking run seam that workflow steps use reports the verdict a drained turn gets in
the daemon and the assistant text streamed: a stream whose last terminal event is an error fails
with that error's message, an unknown harness fails with a message naming it. A stream that ends
without a terminal event, such as a turn suspended on a question, is reported as succeeded.\<close>

theorem blocking_seam_verdict:
  "run_turn_blocking_with_output now reg turn =
     (case registry_resolve reg (turn_harness_id turn) of
        None \<Rightarrow> (OutFailed (''no harness resolved for '' @ hid (turn_harness_id turn)), [])
      | Some h \<Rightarrow>
        (case verdict (hr_run h now turn) of
           Some (TurnFailed m) \<Rightarrow> OutFailed m
         | _ \<Rightarrow> OutSucceeded,
         concat (map delta_text (hr_run h now turn))))"
proof -
  have "OutSucceeded = outcome_of None" by (simp add: outcome_of_def)
  then show ?thesis
    using blocking_drain_fold [where v = None and acc = "[]"]
    by (simp add: run_turn_blocking_with_output_def verdict_def outcome_of_def split: option.split)
qed

text \<open>A workflow step whose turn stops to ask the user something is counted as succeeded,
although the daemon itself would keep the same turn running and its session live.\<close>

theorem suspended_step_reported_succeeded:
  "run_turn_blocking 1 (ds_registry ask_daemon) demo_turn = OutSucceeded \<and>
   map tr_status (history (SessionId ''s'') suspended_daemon) = [TurnRunning] \<and>
   live (SessionId ''s'') suspended_daemon"
  by (simp add: suspended_daemon_facts live_def fresh_record_def run_turn_blocking_def
      run_turn_blocking_with_output_def ask_daemon_def daemon_new_def registry_resolve_register
      ask_harness_def harness_default_def harness_turn_new_def)

lemma drain_step_others:
  assumes "j \<noteq> i"
  shows "ds_drains (drain_step env i d) ! j = ds_drains d ! j"
    and "m \<noteq> dr_state (ds_drains d ! i) \<Longrightarrow> ds_states (drain_step env i d) ! m = ds_states d ! m"
    and "dr_state (ds_drains (drain_step env i d) ! i) = dr_state (ds_drains d ! i)"
proof -
  show "ds_drains (drain_step env i d) ! j = ds_drains d ! j"
    "m \<noteq> dr_state (ds_drains d ! i) \<Longrightarrow> ds_states (drain_step env i d) ! m = ds_states d ! m"
    using assms
    by (auto simp: drain_step_def drain_event_def set_phase_def fx_def Let_def drain_end_other_state
        split: list.split option.split)
  show "dr_state (ds_drains (drain_step env i d) ! i) = dr_state (ds_drains d ! i)"
    by (cases "i < length (ds_drains d)")
      (auto simp: drain_step_def drain_event_def set_phase_def fx_def Let_def list_update_beyond
        split: list.split option.split)
qed

lemma drain_steps_others:
  assumes "j \<noteq> i" "m \<noteq> dr_state (ds_drains d ! i)"
  shows "ds_drains ((drain_step env i ^^ n) d) ! j = ds_drains d ! j \<and>
    ds_states ((drain_step env i ^^ n) d) ! m = ds_states d ! m \<and>
    dr_state (ds_drains ((drain_step env i ^^ n) d) ! i) = dr_state (ds_drains d ! i) \<and>
    length (ds_drains ((drain_step env i ^^ n) d)) = length (ds_drains d)"
  using assms by (induction n) (simp_all add: drain_step_others)

text \<open>A task whose turn has been dropped from the ledger records nothing.\<close>

lemma drained_dropped_turn:
  assumes "ss_turn_index st \<ge> length (ls_turns (ds_heap d ! ss_ledger st))"
    "st = ds_states d ! dr_state (ds_drains d ! i)"
  shows "history s (drained i evs d) = history s d"
proof -
  have "ds_heap (drained i evs d) = ds_heap d"
    using assms by (simp add: drained_def Let_def append_events_to_def)
  then show ?thesis by (intro history_cong) simp_all
qed

text \<open>The same session started twice, then the first run drained to its settlement.\<close>

definition twice_daemon :: daemon where
  "twice_daemon = demo_run (demo_run (daemon_new demo_registry))"

definition rerun_daemon :: daemon where
  "rerun_daemon = (drain_step demo_env 0 ^^ 10) twice_daemon"

lemma twice_daemon_wf: "daemon_wf twice_daemon"
  unfolding twice_daemon_def by (intro wf_daemon_run demo_wf)

lemma twice_daemon_facts:
  "length (ds_drains twice_daemon) = 2" "dr_state (ds_drains twice_daemon ! 0) = 0"
  "dr_final_status (ds_drains twice_daemon ! 0) = ''running''"
  "dr_phase (ds_drains twice_daemon ! 0) = Streaming"
  "dr_stream (ds_drains twice_daemon ! 0) =
     [HAssistantDelta (SessionId ''s'') ''hi'', HDone (SessionId ''s'')]"
  "SessionId ''s'' = dr_session_id (ds_drains twice_daemon ! 0)"
  "dr_session_id (ds_drains twice_daemon ! 1) = SessionId ''s''"
  "dr_state (ds_drains twice_daemon ! 1) = 1" "dr_phase (ds_drains twice_daemon ! 1) = Streaming"
  "dr_stream (ds_drains twice_daemon ! 1) =
     [HAssistantDelta (SessionId ''s'') ''hi'', HDone (SessionId ''s'')]"
  "ss_turn_index (ds_states twice_daemon ! 0) = 0" "ss_turn_index (ds_states twice_daemon ! 1) = 1"
  "ss_ledger (ds_states twice_daemon ! 0) = 0" "ss_ledger (ds_states twice_daemon ! 1) = 0"
  "map_of (ds_ledgers twice_daemon) (SessionId ''s'') = Some 0"
  "history (SessionId ''s'') twice_daemon = [fresh_record 1 demo_turn 0, fresh_record 1 demo_turn 1]"
  by (simp_all add: twice_daemon_def daemon_eval fresh_record_def)

lemma rerun_daemon_facts:
  "daemon_wf rerun_daemon" "length (ds_drains rerun_daemon) = 2"
  "ds_drains rerun_daemon ! 1 = ds_drains twice_daemon ! 1"
  "ds_states rerun_daemon ! 1 = ds_states twice_daemon ! 1"
  "map tr_status (history (SessionId ''s'') rerun_daemon) = [TurnSuccess, TurnRunning]"
  "\<not> live (SessionId ''s'') rerun_daemon"
  "map_of (ds_ledgers rerun_daemon) (SessionId ''s'') = Some 0"
proof -
  note f = twice_daemon_facts
  have wf: "daemon_wf ((drain_step demo_env 0 ^^ n) twice_daemon) \<and>
      length (ds_drains ((drain_step demo_env 0 ^^ n) twice_daemon)) = 2" for n
    by (induction n) (simp_all add: twice_daemon_wf f wf_drain_step)
  then show "daemon_wf rerun_daemon" "length (ds_drains rerun_daemon) = 2"
    by (simp_all add: rerun_daemon_def)
  show "ds_drains rerun_daemon ! 1 = ds_drains twice_daemon ! 1"
    "ds_states rerun_daemon ! 1 = ds_states twice_daemon ! 1"
    using drain_steps_others [of 1 0 1 twice_daemon 10 demo_env] f(2) by (simp_all add: rerun_daemon_def)
  have "ds_ledgers (drain_step env i d) = ds_ledgers d" for env i d
    by (simp add: drain_step_def drain_event_def set_phase_def fx_def Let_def
        split: list.split option.split)
  then have "ds_ledgers ((drain_step demo_env 0 ^^ n) twice_daemon) = ds_ledgers twice_daemon" for n
    by (induction n) simp_all
  then show "map_of (ds_ledgers rerun_daemon) (SessionId ''s'') = Some 0"
    using f(15) by (simp add: rerun_daemon_def)
  have "0 < length (ds_drains twice_daemon)" by (simp add: f)
  note life = drain_life [OF twice_daemon_wf this refl f(3-6) refl, of 0 rerun_daemon demo_env]
  show "map tr_status (history (SessionId ''s'') rerun_daemon) = [TurnSuccess, TurnRunning]"
    "\<not> live (SessionId ''s'') rerun_daemon"
    using life(1) [of "SessionId ''s''"] life(2) f
    by (simp_all add: rerun_daemon_def drain_len_def finish_record_def verdict_def fresh_record_def)
qed

lemma daemon_rewind_fields:
  assumes "\<not> live s d" "map_of (ds_ledgers d) s = Some r"
  shows "ds_drains (snd (daemon_rewind env s k d)) = ds_drains d"
    "ds_states (snd (daemon_rewind env s k d)) = ds_states d"
    "ds_ledgers (snd (daemon_rewind env s k d)) = ds_ledgers d"
  using assms by (simp_all add: daemon_rewind_def live_def get_ledger_def Let_def split_def)

text \<open>When a session is run again before its first run has settled, the settlement of the
first run removes the session although the second run is still draining: the session is no longer
live, its running turn can be rewound away, and the events that turn still receives are lost.\<close>

theorem rerun_loses_live_session:
  "let s = SessionId ''s''; d = rerun_daemon;
       d1 = snd (daemon_rewind demo_env s 1 d); d2 = (drain_step demo_env 1 ^^ 2) d1 in
   dr_phase (ds_drains d ! 1) = Streaming \<and> dr_session_id (ds_drains d ! 1) = s \<and>
   length (dr_stream (ds_drains d ! 1)) = 2 \<and>
   map tr_status (history s d) = [TurnSuccess, TurnRunning] \<and> \<not> live s d \<and>
   fst (daemon_rewind demo_env s 1 d) = Ok 1 \<and> history s d2 = history s d1"
proof -
  let ?s = "SessionId ''s''"
  note f = rerun_daemon_facts twice_daemon_facts
  define d1 where "d1 = snd (daemon_rewind demo_env ?s 1 rerun_daemon)"
  have "length (history ?s rerun_daemon) = 2" using arg_cong [OF f(5), of length] by simp
  then have d1: "daemon_rewind demo_env ?s 1 rerun_daemon = (Ok 1, d1)" "length (history ?s d1) = 1"
    using daemon_rewind_history [OF f(1,6), where env = demo_env and k = 1 and s' = ?s]
    by (auto simp: d1_def split: prod.splits)
  note g = daemon_rewind_fields [OF f(6,7), of demo_env 1, folded d1_def]
  have wf1: "daemon_wf d1" using wf_daemon_rewind [OF f(1)] by (simp add: d1_def)
  have t: "ds_drains d1 ! 1 = ds_drains twice_daemon ! 1" using g f by simp
  have "history ?s (drained 1 (dr_stream (ds_drains d1 ! 1)) d1) = history ?s d1"
    using d1(2) g f by (intro drained_dropped_turn [OF _ refl]) (simp add: t history_def)
  moreover have "(drain_step demo_env 1 ^^ 2) d1 = drained 1 (dr_stream (ds_drains d1 ! 1)) d1"
    using drain_events [OF wf1, of 1 "dr_stream (ds_drains d1 ! 1)" "[]" demo_env] g f
    by (simp add: t eval_nat_numeral)
  ultimately show ?thesis
    using d1 f t by (simp add: d1_def [symmetric])
qed

text \<open>Rewinding a live session is refused, but discarding a turn of it is not: the record of
the running turn is dropped while the session stays live.\<close>

theorem discard_drops_running_turn:
  assumes "daemon_wf d" "live s d" "k < length (history s d)"
  shows "case daemon_discard s k d of (res, d') \<Rightarrow>
    res = Ok (length (history s d) - k) \<and> history s d' = take k (history s d) \<and> live s d'"
proof -
  obtain x d' where o: "on_ledger (ledger_discard k) s d = (x, d')" by fastforce
  obtain l where "ls_turns l = history s d" "x = fst (ledger_discard k l)"
    "history s d' = ls_turns (snd (ledger_discard k l))" "ds_sessions d' = ds_sessions d"
    using on_ledger_history [OF assms(1) o, of s] by auto
  with assms show ?thesis
    by (auto simp: daemon_discard_def o lift_ledger_def ledger_discard_def live_def Let_def)
qed

theorem discard_drops_running_turn_witness:
  "let s = SessionId ''s''; d = demo_run (daemon_new demo_registry) in
   map tr_status (history s d) = [TurnRunning] \<and>
   fst (daemon_discard s 0 d) = Ok 1 \<and> history s (snd (daemon_discard s 0 d)) = [] \<and>
   live s (snd (daemon_discard s 0 d))"
proof -
  let ?s = "SessionId ''s''" and ?d = "demo_run (daemon_new demo_registry)"
  have h: "map tr_status (history ?s ?d) = [TurnRunning]" "live ?s ?d" by (simp_all add: daemon_eval)
  then have "length (history ?s ?d) = 1" by (metis length_map length_Cons list.size(3) One_nat_def)
  with h discard_drops_running_turn [OF wf_daemon_run [OF demo_wf], where s = ?s and k = 0
      and env1 = demo_env and turn1 = demo_turn]
  show ?thesis by (simp add: split_def)
qed

text \<open>The daemon lists its harnesses in the order of their names, each registered harness
exactly once.\<close>

theorem list_harnesses_sorted:
  "sorted (map hid (list_harnesses d)) \<and> mset (list_harnesses d) = mset (registry_list (ds_registry d))"
  by (simp add: list_harnesses_def)

end
