(* ===== verification/Desktop_Restart.thy ===== *)
theory Desktop_Restart
  imports Checkpoint_Store Daemon_Runs
begin

text \<open>
  The composition of the daemon with the durable store, as \<open>DesktopState::open_default\<close> wires it
  (\<open>crates/goble-desktop-service/src/state/bootstrap.rs\<close>): the store is the daemon's checkpoint sink
  while it runs, and on the next start the ledgers and the entity maps are seeded from it. JSON
  encoding and decoding are parameters, as in the store.
\<close>

section \<open>Running: the sink writes through\<close>

text \<open>The checkpoints among the daemon's effects reach the store in order, each stamped by a clock.\<close>

fun sink_effects ::
  "(checkpoint \<Rightarrow> (string, string) result) \<Rightarrow> (nat \<Rightarrow> string) \<Rightarrow> nat \<Rightarrow> effect list \<Rightarrow> checkpoint_store
   \<Rightarrow> checkpoint_store"
where
  "sink_effects to_json clock n [] st = st"
| "sink_effects to_json clock n (FxPersist cp # es) st =
     sink_effects to_json clock (Suc n) es (persist to_json (clock n) cp st)"
| "sink_effects to_json clock n (_ # es) st = sink_effects to_json clock (Suc n) es st"

section \<open>Starting: the state is seeded from the store\<close>

definition seed_session ::
  "(string \<Rightarrow> (string, checkpoint) result) \<Rightarrow> checkpoint_store \<Rightarrow> session_id \<Rightarrow> daemon \<Rightarrow> daemon" where
  "seed_session from_json st s d =
     (case load_checkpoint from_json s st of
        Inr (Some cp) \<Rightarrow> restore_checkpoint cp d
      | _ \<Rightarrow> d)"

record desktop_entities =
  de_projects :: "(project_id \<times> project) list"
  de_sessions :: "(session_id \<times> session_entity) list"
  de_tasks :: "(string \<times> task_entity) list"

definition seed_entities :: "checkpoint_store \<Rightarrow> desktop_entities \<Rightarrow> desktop_entities" where
  "seed_entities st e =
     \<lparr>de_projects = fold (\<lambda>p. AList.update (prj_project_id p) p) (list_projects st) (de_projects e),
      de_sessions = fold (\<lambda>s. AList.update (ses_session_id s) s) (list_sessions st) (de_sessions e),
      de_tasks = fold (\<lambda>t. AList.update (tsk_task_id t) t) (list_tasks st) (de_tasks e)\<rparr>"

text \<open>
  The branch of \<open>open_default\<close> that owns the checkpoint store: \<open>CheckpointStore::open\<close> runs the
  schema set-up on the database file; when it fails the app runs on without a durable ledger.
\<close>

definition open_checkpoints ::
  "(string \<Rightarrow> (string, checkpoint) result) \<Rightarrow> database \<Rightarrow> daemon \<times> desktop_entities
   \<Rightarrow> database \<times> daemon \<times> desktop_entities" where
  "open_checkpoints from_json db s =
     (case store_init db of
        (Inl e, db') \<Rightarrow> (db', s)
      | (Inr _, db') \<Rightarrow>
          (let st = store_of db';
               d = fold (seed_session from_json st) (list_checkpoint_sessions st) (fst s)
           in (db', set_checkpoint_sink True d, seed_entities st (snd s))))"

section \<open>Seeded maps\<close>

context entity_table
begin

lemma seed_entries:
  assumes "wf s"
  shows "map_of (fold (\<lambda>e. AList.update (key_of e) e) (entries s) m) i =
    (case load i s of Some e \<Rightarrow> Some e | None \<Rightarrow> map_of m i)"
proof -
  have "map_of (fold (\<lambda>e. AList.update (key_of e) e) es m) i =
      (if \<exists>e\<in>set es. key_of e = i then load i s else map_of m i)"
    if "\<And>e. e \<in> set es \<Longrightarrow> load (key_of e) s = Some e" for es
    using that by (induction es rule: rev_induct) (auto simp: update_conv')
  then have *: "map_of (fold (\<lambda>e. AList.update (key_of e) e) (entries s) m) i =
      (if \<exists>e\<in>set (entries s). key_of e = i then load i s else map_of m i)"
    using in_entries [OF assms] by blast
  have "(\<exists>e\<in>set (entries s). key_of e = i) \<longleftrightarrow> load i s \<noteq> None"
    using in_entries [OF assms] load_key by (metis not_None_eq)
  with * show ?thesis by (auto split: option.split)
qed

end

section \<open>Seeded ledgers\<close>

definition refs_in_heap :: "daemon \<Rightarrow> bool" where
  "refs_in_heap d \<longleftrightarrow> (\<forall>r \<in> snd ` set (ds_ledgers d). r < length (ds_heap d))"

text \<open>Each row decodes, when it does, to a checkpoint of the session that keys it.\<close>

definition rows_keyed :: "(string \<Rightarrow> (string, checkpoint) result) \<Rightarrow> checkpoint_store \<Rightarrow> bool" where
  "rows_keyed from_json st \<longleftrightarrow>
     (\<forall>s cp. load_checkpoint from_json s st = Ok (Some cp) \<longrightarrow> cp_session_id cp = s)"

lemma refs_restore: "refs_in_heap d \<Longrightarrow> refs_in_heap (restore_checkpoint cp d)"
  by (auto simp: refs_in_heap_def restore_checkpoint_def put_ledger_def less_SucI
      dest!: set_alist_update)

lemma history_restore:
  "refs_in_heap d \<Longrightarrow>
   history s (restore_checkpoint cp d) = (if s = cp_session_id cp then cp_turns cp else history s d)"
  by (auto simp: history_def restore_checkpoint_def put_ledger_def update_conv' nth_append
      from_checkpoint_def refs_in_heap_def split: option.split dest!: map_of_SomeD)

lemma seed_history:
  assumes "rows_keyed from_json st"
  shows "refs_in_heap d \<Longrightarrow>
    refs_in_heap (fold (seed_session from_json st) ss d) \<and>
    history s (fold (seed_session from_json st) ss d) =
      (case load_checkpoint from_json s st of
         Inr (Some cp) \<Rightarrow> if s \<in> set ss then cp_turns cp else history s d
       | _ \<Rightarrow> history s d)"
proof (induction ss arbitrary: d)
  case Nil
  then show ?case by (simp split: sum.split option.split)
next
  case (Cons t ss)
  show ?case
  proof (cases "\<exists>cp. load_checkpoint from_json t st = Ok (Some cp)")
    case True
    then obtain cp where cp: "load_checkpoint from_json t st = Ok (Some cp)" by blast
    then have "cp_session_id cp = t" using assms by (simp add: rows_keyed_def)
    then show ?thesis
      using Cons(1) [OF refs_restore [OF Cons(2)], of cp] history_restore [OF Cons(2), of s cp] cp
      by (auto simp: seed_session_def split: sum.split option.split)
  next
    case False
    then have "seed_session from_json st t d = d"
      by (auto simp: seed_session_def split: sum.split option.split)
    with Cons False show ?thesis by (auto split: sum.split option.split)
  qed
qed

lemma load_listed:
  "load_checkpoint from_json s st = Ok (Some cp) \<Longrightarrow> s \<in> set (list_checkpoint_sessions st)"
  by (cases s) (force simp: load_checkpoint_def list_checkpoint_sessions_def image_iff
      split: option.splits sum.splits dest!: map_of_SomeD)

lemma sink_append:
  "sink_effects to_json clock n (es @ es') st =
   sink_effects to_json clock (n + length es) es' (sink_effects to_json clock n es st)"
proof (induction es arbitrary: n st)
  case (Cons e es)
  then show ?case by (cases e) auto
qed simp

lemma sink_no_persist:
  "(\<And>cp. FxPersist cp \<notin> set es) \<Longrightarrow> sink_effects to_json clock n es st = st"
proof (induction es arbitrary: n)
  case (Cons e es)
  then show ?case by (cases e) auto
qed simp

lemma sink_keyed:
  assumes "rows_keyed from_json st"
    and "\<And>cp. FxPersist cp \<in> set es \<Longrightarrow> \<exists>js. to_json cp = Ok js \<and> from_json js = Ok cp"
  shows "rows_keyed from_json (sink_effects to_json clock n es st)"
  using assms
proof (induction es arbitrary: n st)
  case (Cons e es)
  have save: "rows_keyed from_json (persist to_json (clock n) cp st)" if e: "e = FxPersist cp" for cp
  proof -
    obtain js where "to_json cp = Ok js" "from_json js = Ok cp" using Cons(3) [of cp] e by auto
    from load_after_save [of to_json cp js from_json, OF this] Cons(2) show ?thesis
      by (simp add: rows_keyed_def persist_def)
  qed
  then show ?case using Cons by (cases e) auto
qed simp

lemma init_database_of [simp]: "store_init (database_of st) = (Ok (), database_of st)"
  by (simp add: store_init_def migrate_legacy_checkpoint_table_def create_schema_def database_of_def)

lemma store_of_database_of [simp]: "store_of (database_of st) = st"
  by (simp add: store_of_def database_of_def)

text \<open>What a start finds: every session's history is the one its row holds.\<close>

lemma open_history:
  assumes "rows_keyed from_json st"
  shows "history s (fst (snd (open_checkpoints from_json (database_of st) (daemon_new reg, e)))) =
    (case load_checkpoint from_json s st of Inr (Some cp) \<Rightarrow> cp_turns cp | _ \<Rightarrow> [])"
proof -
  have "refs_in_heap (daemon_new reg)" by (simp add: refs_in_heap_def daemon_new_def)
  from seed_history [OF assms this, of "list_checkpoint_sessions st" s] show ?thesis
    using load_listed [of from_json s st]
    by (auto simp: open_checkpoints_def Let_def split: sum.split option.split)
qed

text \<open>C1. A settled turn survives a restart. A turn runs to its end on a daemon whose checkpoint sink is the
  store, with a terminal event in its stream; the daemon's effects are written through; the process
  stops. The next start opens that database and seeds a new daemon from it: the session's history is
  then, turn for turn and event for event, the one the daemon had when the turn settled, and the new
  daemon has its sink attached. Encoding and decoding are only assumed to round-trip on the
  checkpoints that were persisted.
\<close>

theorem settled_turn_survives_restart:
  assumes "daemon_wf d" "fst (daemon_run env turn d) = Ok ()"
    "registry_resolve (ds_registry d) (turn_harness_id turn) = Some h"
    and d': "d' = (drain_step env' (length (ds_drains d)) ^^ drain_len (hr_run h (env_now env) turn))
      (snd (daemon_run env turn d))"
    and "ds_checkpoint_sink d" "verdict (hr_run h (env_now env) turn) \<noteq> None"
    and "rows_keyed from_json st"
    and json: "\<And>cp. FxPersist cp \<in> set (ds_effects d') \<Longrightarrow>
      \<exists>js. to_json cp = Ok js \<and> from_json js = Ok cp"
  shows "let s = turn_session_id turn;
             db = database_of (sink_effects to_json clock 0 (ds_effects d') st);
             d2 = fst (snd (open_checkpoints from_json db (daemon_new reg, e)))
    in history s d2 = history s d' \<and> history s d' \<noteq> [] \<and> ds_checkpoint_sink d2"
proof -
  let ?s = "turn_session_id turn" and ?evs = "hr_run h (env_now env) turn"
  let ?st = "sink_effects to_json clock 0 (ds_effects d') st"
  define cp where "cp = \<lparr>cp_session_id = ?s, cp_at = length (history ?s d'),
    cp_turns = history ?s d', cp_created_at = env_now env'\<rparr>"
  obtain v where v: "verdict ?evs = Some v" using assms(6) by blast
  obtain es ev where fx: "ds_effects d' = es @ [FxPersist cp, FxEmit ev]"
    using turn_life(3) [OF assms(1-3) refl refl refl d'] assms(5) v by (simp add: cp_def)
  have "history ?s d' \<noteq> []"
    using turn_life(1) [OF assms(1-3) refl refl refl d', of ?s] by simp
  moreover obtain js where "to_json cp = Ok js" "from_json js = Ok cp"
    using json [of cp] by (auto simp: fx)
  then have "load_checkpoint from_json ?s ?st = Ok (Some cp)"
    using load_after_save [of to_json] by (simp add: fx sink_append persist_def cp_def)
  then have "history ?s (fst (snd (open_checkpoints from_json (database_of ?st) (daemon_new reg, e)))) =
      history ?s d'"
    using open_history [OF sink_keyed [OF assms(7) json]] by (simp add: cp_def)
  ultimately show ?thesis by (simp add: open_checkpoints_def set_checkpoint_sink_def Let_def)
qed

text \<open>The demonstration: one turn on the mock harness, an empty store.\<close>

abbreviation demo_settled :: daemon where
  "demo_settled \<equiv>
     (drain_step demo_env 0 ^^ 10) (demo_run (set_checkpoint_sink True (daemon_new demo_registry)))"

abbreviation demo_cp :: checkpoint where
  "demo_cp \<equiv> \<lparr>cp_session_id = SessionId ''s'', cp_at = 1, cp_turns = history (SessionId ''s'') demo_settled,
     cp_created_at = 1\<rparr>"

theorem settled_turn_survives_restart_witness:
  "let st = store_of (create_schema empty_database); from_json = (\<lambda>_. Ok demo_cp);
       db = database_of (sink_effects (\<lambda>_. Ok ''{}'') (\<lambda>n. ''now'') 0 (ds_effects demo_settled) st);
       d2 = fst (snd (open_checkpoints from_json db
         (daemon_new [], \<lparr>de_projects = [], de_sessions = [], de_tasks = []\<rparr>)))
   in history (SessionId ''s'') d2 = history (SessionId ''s'') demo_settled \<and>
      history (SessionId ''s'') d2 \<noteq> []"
proof -
  let ?d = "set_checkpoint_sink True (daemon_new demo_registry)"
  have wf: "daemon_wf ?d" using wf_daemon_wiring(3) [OF demo_wf] .
  have ok: "fst (daemon_run demo_env demo_turn ?d) = Ok ()"
    and reg: "registry_resolve (ds_registry ?d) (turn_harness_id demo_turn) =
      Some (mock_harness (HarnessId ''mock'') ''hi'')"
    by (simp_all add: daemon_eval set_checkpoint_sink_def)
  let ?evs = "hr_run (mock_harness (HarnessId ''mock'') ''hi'') (env_now demo_env) demo_turn"
  have d': "demo_settled = (drain_step demo_env (length (ds_drains ?d)) ^^ drain_len ?evs) (demo_run ?d)"
    by (simp add: demo_simps)
  have h: "length (history (SessionId ''s'') demo_settled) = 1"
    using turn_life(1) [OF wf ok reg refl refl refl d', of "SessionId ''s''"] by (simp add: demo_simps)
  have start: "FxPersist cp \<notin> set (ds_effects (demo_run ?d))" for cp
    by (simp add: daemon_eval set_checkpoint_sink_def)
  have fx: "cp = demo_cp" if "FxPersist cp \<in> set (ds_effects demo_settled)" for cp
    using that start turn_life(3) [OF wf ok reg refl refl refl d'] h
    by (auto simp: demo_simps) (auto simp: demo_env_def)
  have keyed: "rows_keyed from_json (store_of (create_schema empty_database))" for from_json
    by (simp add: rows_keyed_def load_checkpoint_def store_of_def create_schema_def empty_database_def)
  show ?thesis
    using settled_turn_survives_restart [OF wf ok reg d' _ _ keyed,
        where from_json = "\<lambda>_. Ok demo_cp" and to_json = "\<lambda>_. Ok ''{}''" and clock = "\<lambda>n. ''now''" and
          reg = "[]" and e = "\<lparr>de_projects = [], de_sessions = [], de_tasks = []\<rparr>"] fx
    by (simp add: demo_simps)
qed

text \<open>The entity maps of a start agree with the store: after the projects, sessions and tasks are read
  in, a look-up by identifier returns what the store loads under that identifier, and otherwise what
  the state held before.
\<close>

theorem seeded_entities_match_store:
  assumes "wf_store st"
  shows "map_of (de_projects (seed_entities st e)) p =
      (case load_project p st of Some x \<Rightarrow> Some x | None \<Rightarrow> map_of (de_projects e) p) \<and>
    map_of (de_sessions (seed_entities st e)) s =
      (case load_session s st of Some x \<Rightarrow> Some x | None \<Rightarrow> map_of (de_sessions e) s) \<and>
    map_of (de_tasks (seed_entities st e)) t =
      (case load_task t st of Some x \<Rightarrow> Some x | None \<Rightarrow> map_of (de_tasks e) t)"
  using projects.seed_entries [OF assms, of "de_projects e" p]
    entity_sessions.seed_entries [OF assms, of "de_sessions e" s]
    tasks.seed_entries [OF assms, of "de_tasks e" t]
  by (simp add: seed_entities_def)

theorem seeded_entities_match_store_witness:
  "let p = \<lparr>prj_project_id = ProjectId ''p'', prj_directory = ''/w'', prj_created_at = ''t''\<rparr>;
       st = upsert_project p (store_of (create_schema empty_database))
   in map_of (de_projects (seed_entities st \<lparr>de_projects = [], de_sessions = [], de_tasks = []\<rparr>))
        (ProjectId ''p'') = Some p"
proof -
  let ?p = "\<lparr>prj_project_id = ProjectId ''p'', prj_directory = ''/w'', prj_created_at = ''t''\<rparr>"
  have "wf_store (store_of (create_schema empty_database))"
    by (simp add: wf_store_def store_of_def create_schema_def empty_database_def)
  from seeded_entities_match_store [OF projects.wf_upsert [OF this, of ?p]] show ?thesis
    by (simp add: Let_def projects.load_upsert)
qed

end
