(* ===== verification/Subagent.thy ===== *)
theory Subagent
  imports Goble_Prelude "HOL-Library.Sublist"
begin

text \<open>
  The sub-agent model of \<open>crates/goble-core/src/subagent.rs\<close>: the spawn depth bound, a child's
  budget with its typed exhaustion, its status machine and its record. Turn and tool-call counters
  are 32-bit words, token counters 64-bit words; \<open>+\<close> on them wraps, as in a release build.
\<close>

section \<open>Depth, identity, budget\<close>

definition MAX_SUBAGENT_DEPTH :: u32 where
  "MAX_SUBAGENT_DEPTH = 3"

definition can_spawn_subagent :: "u32 \<Rightarrow> bool" where
  "can_spawn_subagent depth \<longleftrightarrow> depth < MAX_SUBAGENT_DEPTH"

definition SUBAGENTS_DIR :: string where
  "SUBAGENTS_DIR = ''subagents''"

datatype subagent_id = SubAgentId (subid: string)

definition child_cwd :: "subagent_id \<Rightarrow> string \<Rightarrow> string" where
  "child_cwd i root = path_join (path_join root SUBAGENTS_DIR) (subid i)"

record subagent_budget =
  max_turns :: u32
  max_tool_calls :: u32
  max_tokens :: u64

definition budget_new :: "u32 \<Rightarrow> u32 \<Rightarrow> u64 \<Rightarrow> subagent_budget" where
  "budget_new turns calls tokens =
     \<lparr>max_turns = turns, max_tool_calls = calls, max_tokens = tokens\<rparr>"

record subagent_spec =
  sp_id :: subagent_id
  sp_parent_chat_id :: string
  sp_parent_call_id :: string
  sp_description :: string
  sp_subagent_type :: string
  sp_prompt :: string
  sp_cwd :: string
  sp_run_in_background :: bool
  sp_depth :: u32
  sp_budget :: subagent_budget

datatype budget_exhaustion = ExTurns u32 | ExToolCalls u32 | ExTokens u64

definition exhaustion :: "subagent_budget \<Rightarrow> u32 \<Rightarrow> u32 \<Rightarrow> u64 \<Rightarrow> budget_exhaustion option" where
  "exhaustion b turns calls tokens =
     (if max_turns b \<le> turns then Some (ExTurns (max_turns b))
      else if max_tool_calls b \<le> calls then Some (ExToolCalls (max_tool_calls b))
      else if max_tokens b \<le> tokens then Some (ExTokens (max_tokens b))
      else None)"

fun resource :: "budget_exhaustion \<Rightarrow> string" where
  "resource (ExTurns l) = ''turns''"
| "resource (ExToolCalls l) = ''tool_calls''"
| "resource (ExTokens l) = ''tokens''"

fun exhaustion_text :: "budget_exhaustion \<Rightarrow> string" where
  "exhaustion_text (ExTurns l) =
     ''sub-agent budget exhausted: '' @ show_nat (unat l) @ '' turns (max_turns)''"
| "exhaustion_text (ExToolCalls l) =
     ''sub-agent budget exhausted: '' @ show_nat (unat l) @ '' tool calls (max_tool_calls)''"
| "exhaustion_text (ExTokens l) =
     ''sub-agent budget exhausted: '' @ show_nat (unat l) @ '' tokens (max_tokens)''"

section \<open>Status\<close>

datatype subagent_status =
    Initializing
  | Running u32 u32 u64 string
  | Completed string u64 u32 u32 u64
  | Failed string
  | Cancelled string

fun is_running :: "subagent_status \<Rightarrow> bool" where
  "is_running Initializing = True"
| "is_running (Running turns calls tokens activity) = True"
| "is_running _ = False"

definition is_terminal :: "subagent_status \<Rightarrow> bool" where
  "is_terminal s \<longleftrightarrow> \<not> is_running s"

fun counts :: "subagent_status \<Rightarrow> u32 \<times> u32 \<times> u64" where
  "counts (Running turns calls tokens activity) = (turns, calls, tokens)"
| "counts (Completed output ms turns calls tokens) = (turns, calls, tokens)"
| "counts _ = (0, 0, 0)"

definition one_line :: "string \<Rightarrow> string" where
  "one_line t = map (\<lambda>c. if c = CHR 0x0A \<or> c = CHR 0x0D then CHR '' '' else c) t"

text \<open>The separator: a middle dot between blanks, in UTF-8.\<close>

definition dot_sep :: string where
  "dot_sep = [CHR '' '', CHR 0xC2, CHR 0xB7, CHR '' '']"

definition counts_text :: "u32 \<Rightarrow> u32 \<Rightarrow> u64 \<Rightarrow> string" where
  "counts_text turns calls tokens =
     show_nat (unat turns) @ '' turns'' @ dot_sep @ show_nat (unat calls) @ '' tool calls'' @
     dot_sep @ show_nat (unat tokens) @ '' tokens''"

fun status_text :: "subagent_status \<Rightarrow> string" where
  "status_text Initializing = ''initializing''"
| "status_text (Running turns calls tokens activity) =
     (let base = counts_text turns calls tokens in
      if activity = [] then base else base @ dot_sep @ activity)"
| "status_text (Completed output ms turns calls tokens) =
     ''completed in '' @ show_nat (unat ms) @ '' ms'' @ dot_sep @ counts_text turns calls tokens"
| "status_text (Failed e) = ''failed: '' @ e"
| "status_text (Cancelled r) = ''cancelled: '' @ r"

definition activity_label :: "subagent_status \<Rightarrow> string" where
  "activity_label s = one_line (status_text s)"

section \<open>Records\<close>

record subagent_record =
  rec_spec :: subagent_spec
  rec_status :: subagent_status
  rec_started_at :: timestamp
  rec_finished_at :: "timestamp option"

definition record_new :: "timestamp \<Rightarrow> subagent_spec \<Rightarrow> subagent_record" where
  "record_new now spec =
     \<lparr>rec_spec = spec, rec_status = Initializing, rec_started_at = now, rec_finished_at = None\<rparr>"

definition ms_between :: "timestamp \<Rightarrow> timestamp \<Rightarrow> u64" where
  "ms_between s e = word_of_int (max 0 ((e - s) div 1000000))"

definition begin_running :: "subagent_record \<Rightarrow> subagent_record" where
  "begin_running r =
     (if rec_status r = Initializing then r\<lparr>rec_status := Running 0 0 0 []\<rparr> else r)"

fun with_activity :: "string \<Rightarrow> subagent_status \<Rightarrow> subagent_status" where
  "with_activity a (Running turns calls tokens old) = Running turns calls tokens a"
| "with_activity a s = s"

definition set_activity :: "string \<Rightarrow> subagent_record \<Rightarrow> subagent_record" where
  "set_activity a r = r\<lparr>rec_status := with_activity a (rec_status r)\<rparr>"

definition finish_terminal ::
  "timestamp \<Rightarrow> (string \<Rightarrow> subagent_status) \<Rightarrow> string \<Rightarrow> subagent_record \<Rightarrow> subagent_record"
where
  "finish_terminal now mk t r =
     (if is_terminal (rec_status r) then r
      else r\<lparr>rec_status := mk t, rec_finished_at := Some now\<rparr>)"

definition record_fail :: "timestamp \<Rightarrow> string \<Rightarrow> subagent_record \<Rightarrow> subagent_record" where
  "record_fail now e r = finish_terminal now Failed e r"

definition record_cancel :: "timestamp \<Rightarrow> string \<Rightarrow> subagent_record \<Rightarrow> subagent_record" where
  "record_cancel now reason r = finish_terminal now Cancelled reason r"

definition record_complete :: "timestamp \<Rightarrow> string \<Rightarrow> subagent_record \<Rightarrow> subagent_record" where
  "record_complete now output r =
     (if is_terminal (rec_status r) then r
      else
        (let (turns, calls, tokens) = counts (rec_status r);
             ms = ms_between (rec_started_at r) now
         in r\<lparr>rec_status := Completed output ms turns calls tokens, rec_finished_at := Some now\<rparr>))"

fun add_counts :: "u32 \<Rightarrow> u32 \<Rightarrow> u64 \<Rightarrow> subagent_status \<Rightarrow> subagent_status" where
  "add_counts t c k (Running turns calls tokens a) = Running (turns + t) (calls + c) (tokens + k) a"
| "add_counts t c k s = s"

definition charge ::
  "timestamp \<Rightarrow> u32 \<Rightarrow> u32 \<Rightarrow> u64 \<Rightarrow> subagent_record
   \<Rightarrow> (budget_exhaustion, unit) result \<times> subagent_record"
where
  "charge now t c k r =
     (if is_terminal (rec_status r) then (Ok (), r)
      else
        (let r = begin_running r;
             r = r\<lparr>rec_status := add_counts t c k (rec_status r)\<rparr>;
             (ct, cc, ck) = counts (rec_status r)
         in case exhaustion (sp_budget (rec_spec r)) ct cc ck of
              Some ex \<Rightarrow> (Err ex, record_fail now (exhaustion_text ex) r)
            | None \<Rightarrow> (Ok (), r)))"

definition charge_turn ::
  "timestamp \<Rightarrow> subagent_record \<Rightarrow> (budget_exhaustion, unit) result \<times> subagent_record" where
  "charge_turn now r = charge now 1 0 0 r"

definition charge_tool_call ::
  "timestamp \<Rightarrow> subagent_record \<Rightarrow> (budget_exhaustion, unit) result \<times> subagent_record" where
  "charge_tool_call now r = charge now 0 1 0 r"

definition charge_tokens ::
  "timestamp \<Rightarrow> u64 \<Rightarrow> subagent_record \<Rightarrow> (budget_exhaustion, unit) result \<times> subagent_record" where
  "charge_tokens now added r = charge now 0 0 added r"

definition elapsed_ms_at :: "timestamp \<Rightarrow> subagent_record \<Rightarrow> u64" where
  "elapsed_ms_at now r =
     ms_between (rec_started_at r) (case rec_finished_at r of Some t \<Rightarrow> t | None \<Rightarrow> now)"

definition duration_ms :: "subagent_record \<Rightarrow> u64 option" where
  "duration_ms r = map_option (ms_between (rec_started_at r)) (rec_finished_at r)"

definition chat_id :: "subagent_record \<Rightarrow> string" where
  "chat_id r = subid (sp_id (rec_spec r))"

section \<open>Sequences of operations\<close>

datatype record_op =
    OpBegin
  | OpActivity string
  | OpTurn
  | OpToolCall
  | OpTokens u64
  | OpComplete string
  | OpFail string
  | OpCancel string

text \<open>One operation at a time, and whether it went through.\<close>

fun record_exec :: "timestamp \<Rightarrow> record_op \<Rightarrow> subagent_record \<Rightarrow> (budget_exhaustion, unit) result \<times> subagent_record" where
  "record_exec now OpBegin r = (Ok (), begin_running r)"
| "record_exec now (OpActivity a) r = (Ok (), set_activity a r)"
| "record_exec now OpTurn r = charge_turn now r"
| "record_exec now OpToolCall r = charge_tool_call now r"
| "record_exec now (OpTokens k) r = charge_tokens now k r"
| "record_exec now (OpComplete out) r = (Ok (), record_complete now out r)"
| "record_exec now (OpFail e) r = (Ok (), record_fail now e r)"
| "record_exec now (OpCancel reason) r = (Ok (), record_cancel now reason r)"

text \<open>The turns and the tool calls granted to a live child along a sequence of operations.\<close>

fun record_run :: "(timestamp \<times> record_op) list \<Rightarrow> nat \<times> nat \<times> subagent_record \<Rightarrow> nat \<times> nat \<times> subagent_record" where
  "record_run [] s = s"
| "record_run ((now, opn) # ops) (n, m, r) =
     (let (res, r') = record_exec now opn r;
          granted = (\<not> is_terminal (rec_status r) \<and> res = Ok ())
      in record_run ops
           (if opn = OpTurn \<and> granted then Suc n else n,
            if opn = OpToolCall \<and> granted then Suc m else m, r'))"

lemma terminal_simps [simp]:
  "\<not> is_terminal Initializing" "\<not> is_terminal (Running t c k a)"
  "is_terminal (Completed out ms t c k)" "is_terminal (Failed e)" "is_terminal (Cancelled e)"
  by (simp_all add: is_terminal_def)

lemma exhaustion_None:
  "exhaustion b t c k = None \<longleftrightarrow> t < max_turns b \<and> c < max_tool_calls b \<and> k < max_tokens b"
  by (auto simp: exhaustion_def)

lemmas record_op_defs = begin_running_def set_activity_def charge_turn_def charge_tool_call_def
  charge_tokens_def record_complete_def record_fail_def record_cancel_def finish_terminal_def
  charge_def Let_def

lemma record_exec_terminal:
  "is_terminal (rec_status r) \<Longrightarrow> record_exec now opn r = (Ok (), r)"
  by (cases opn; cases "rec_status r") (auto simp: record_op_defs)

lemma record_exec_spec [simp]:
  "rec_spec (snd (record_exec now opn r)) = rec_spec r"
  "rec_started_at (snd (record_exec now opn r)) = rec_started_at r"
  by (cases opn; auto simp: record_op_defs split: prod.split option.split)+

text \<open>What a sequence keeps true: a finish time exactly once terminal; the counters are the granted
  actions; strictly fewer actions than the limit.\<close>

definition granted_ok :: "nat \<Rightarrow> nat \<Rightarrow> subagent_record \<Rightarrow> bool" where
  "granted_ok n m r \<longleftrightarrow>
     n \<le> unat (max_turns (sp_budget (rec_spec r))) - 1 \<and>
     m \<le> unat (max_tool_calls (sp_budget (rec_spec r))) - 1 \<and>
     (rec_finished_at r \<noteq> None \<longleftrightarrow> is_terminal (rec_status r)) \<and>
     (case rec_status r of
        Initializing \<Rightarrow> n = 0 \<and> m = 0
      | Running t c k a \<Rightarrow> unat t = n \<and> unat c = m
      | _ \<Rightarrow> True)"

lemma unat_bounded_Suc:
  fixes t b :: "'a::len word"
  assumes t: "unat t \<le> unat b - 1" and l: "1 < LENGTH('a)"
  shows "unat (t + 1) = Suc (unat t)"
proof -
  have b: "unat b < 2 ^ LENGTH('a)" by (rule unsigned_less)
  have two: "(2::nat) < 2 ^ LENGTH('a)" using power_strict_increasing [OF l, of "2::nat"] by simp
  have "Suc (unat t) < 2 ^ LENGTH('a)"
  proof (cases "unat b")
    case 0
    then show ?thesis using t two by simp
  next
    case (Suc k)
    then show ?thesis using t b by simp
  qed
  then show ?thesis by (simp add: unat_word_ariths)
qed

lemma granted_exec:
  assumes ok: "granted_ok n m r" and ex: "record_exec now opn r = (res, r')"
  shows "granted_ok (if opn = OpTurn \<and> \<not> is_terminal (rec_status r) \<and> res = Ok () then Suc n else n)
    (if opn = OpToolCall \<and> \<not> is_terminal (rec_status r) \<and> res = Ok () then Suc m else m) r'"
proof (cases "is_terminal (rec_status r)")
  case True
  with ok ex show ?thesis by (simp add: record_exec_terminal)
next
  case False
  let ?b = "sp_budget (rec_spec r)"
  have turn: "unat (t + 1) = Suc (unat t)" if "unat t \<le> unat (max_turns ?b) - 1" for t :: u32
    using unat_bounded_Suc [OF that] by simp
  have call: "unat (c + 1) = Suc (unat c)" if "unat c \<le> unat (max_tool_calls ?b) - 1" for c :: u32
    using unat_bounded_Suc [OF that] by simp
  have lim: "Suc (unat t) \<le> unat b - 1" if "t + 1 < b" "unat (t + 1) = Suc (unat t)" for t b :: u32
    using that by (simp add: word_less_nat_alt)
  have first: "Suc 0 \<le> unat b - Suc 0" if "1 < b" for b :: u32
    using that by (simp add: word_less_nat_alt)
  show ?thesis
    using False ok ex turn call lim first
    by (cases opn; cases "rec_status r")
      (auto simp: record_op_defs granted_ok_def exhaustion_None split: option.splits if_splits)
qed

lemma granted_run:
  "granted_ok n m r \<Longrightarrow> record_run ops (n, m, r) = (n', m', r') \<Longrightarrow>
   granted_ok n' m' r' \<and> rec_spec r' = rec_spec r"
proof (induction ops arbitrary: n m r)
  case (Cons p ops)
  obtain now opn where p: "p = (now, opn)" by fastforce
  obtain res r1 where e: "record_exec now opn r = (res, r1)" by fastforce
  have "rec_spec r1 = rec_spec r" using record_exec_spec(1) [of now opn r] e by simp
  with Cons(1) [OF granted_exec [OF Cons(2) e]] Cons(3) show ?case
    by (simp add: p e Let_def)
qed simp

lemma record_run_terminal:
  "is_terminal (rec_status r) \<Longrightarrow> snd (snd (record_run ops (n, m, r))) = r"
  by (induction ops arbitrary: n m) (auto simp: record_exec_terminal Let_def)

text \<open>An \<open>Err\<close> comes from a charge, at a limit, and leaves the record failed with the limit as text.\<close>

lemma record_exec_err:
  assumes "record_exec now opn r = (Err ex, r')"
  shows "\<exists>t c k. exhaustion (sp_budget (rec_spec r)) t c k = Some ex"
    and "rec_status r' = Failed (exhaustion_text ex)" and "rec_finished_at r' = Some now"
  using assms
  by (cases opn; cases "rec_status r"; auto simp: record_op_defs split: option.splits if_splits)+

lemma activity_label_one_line:
  "CHR 0x0A \<notin> set (activity_label s)" "CHR 0x0D \<notin> set (activity_label s)"
  by (auto simp: activity_label_def one_line_def)

lemma child_cwd_inject:
  assumes "hd (subid i) \<noteq> CHR ''/''" "hd (subid j) \<noteq> CHR ''/''"
  shows "child_cwd i root = child_cwd j root \<longleftrightarrow> i = j"
proof -
  have "path_join root SUBAGENTS_DIR \<noteq> []" by (auto simp: path_join_def SUBAGENTS_DIR_def)
  with assms show ?thesis
    by (simp add: child_cwd_def path_join_inject) (metis subagent_id.collapse)
qed

text \<open>C38. The budget and the status machine of a child, over every sequence of operations on a fresh record
  (\<open>SubAgentRecord::begin_running\<close>, \<open>set_activity\<close>, \<open>charge_*\<close>, \<open>complete\<close>, \<open>fail\<close>, \<open>cancel\<close>, at any
  clock readings). A child is granted strictly fewer turns and tool calls than its limits (none at a
  limit of zero), while it runs its counters are exactly what it was granted, the finish time is
  stamped exactly when the status is terminal, the first terminal outcome is final under every
  further operation, and a refused charge has already ended the record as failed with the text of
  the exhausted limit.
\<close>

theorem subagent_record_lifecycle:
  "case record_run ops (0, 0, record_new now spec) of (turns, calls, r) \<Rightarrow>
     turns \<le> unat (max_turns (sp_budget spec)) - 1 \<and>
     calls \<le> unat (max_tool_calls (sp_budget spec)) - 1 \<and>
     (\<forall>t c k a. rec_status r = Running t c k a \<longrightarrow> turns = unat t \<and> calls = unat c) \<and>
     (rec_finished_at r \<noteq> None \<longleftrightarrow> is_terminal (rec_status r)) \<and>
     (is_terminal (rec_status r) \<longrightarrow> (\<forall>more. snd (snd (record_run more (turns, calls, r))) = r)) \<and>
     (\<forall>at opn ex r'. record_exec at opn r = (Err ex, r') \<longrightarrow>
        rec_status r' = Failed (exhaustion_text ex) \<and> rec_finished_at r' = Some at)"
proof -
  obtain n m r where run: "record_run ops (0, 0, record_new now spec) = (n, m, r)"
    by (metis prod_cases3)
  have "granted_ok 0 0 (record_new now spec)" by (simp add: granted_ok_def record_new_def)
  from granted_run [OF this run] have ok: "granted_ok n m r" and sp: "rec_spec r = spec"
    by (simp_all add: record_new_def)
  show ?thesis
    using ok sp record_exec_err(2,3)
    by (auto simp: run granted_ok_def record_run_terminal)
qed

definition demo_spec :: subagent_spec where
  "demo_spec =
     \<lparr>sp_id = SubAgentId ''child-1'', sp_parent_chat_id = ''parent-chat'',
      sp_parent_call_id = ''call-9'', sp_description = ''review the diff'',
      sp_subagent_type = ''reviewer'', sp_prompt = ''review it'',
      sp_cwd = ''/work/subagents/child-1'', sp_run_in_background = False, sp_depth = 1,
      sp_budget = budget_new 3 5 100\<rparr>"

definition demo_ops :: "(timestamp \<times> record_op) list" where
  "demo_ops = [(1, OpTurn), (2, OpTokens 60), (3, OpToolCall), (4, OpTurn), (5, OpTurn)]"

lemma demo_record_run:
  "record_run demo_ops (0, 0, record_new 0 demo_spec) =
     (2, 1, \<lparr>rec_spec = demo_spec,
        rec_status = Failed ''sub-agent budget exhausted: 3 turns (max_turns)'',
        rec_started_at = 0, rec_finished_at = Some 5\<rparr>)"
  by code_simp

theorem subagent_record_lifecycle_witness:
  "(case record_run demo_ops (0, 0, record_new 0 demo_spec) of (turns, calls, r) \<Rightarrow>
     turns \<le> unat (max_turns (sp_budget demo_spec)) - 1 \<and> turns = 2 \<and> calls = 1 \<and>
     rec_status r = Failed ''sub-agent budget exhausted: 3 turns (max_turns)'' \<and>
     snd (snd (record_run [(6, OpCancel ''late'')] (turns, calls, r))) = r)"
  using subagent_record_lifecycle [where ops = demo_ops and now = 0 and spec = demo_spec]
  unfolding demo_record_run by (simp add: record_op_defs)

end
