(* ===== verification/Subagent_Registry.thy ===== *)
theory Subagent_Registry
  imports Subagent
begin

text \<open>
  The registry of the children a harness has spawned, their stop signals and their lifecycle events
  (\<open>crates/goble-core/src/subagent_run/{registry,cancel,events,budget}.rs\<close>). The parent's cancel bit
  is an argument of \<open>signal\<close>. A tokio channel is an entry of a table: whether its receiver is still
  held, and the events it accepted. \<open>Utc::now()\<close> is a clock read by position, because one walk
  stamps several records.
\<close>

section \<open>The stop signal of one child\<close>

definition PARENT_CANCEL_REASON :: string where
  "PARENT_CANCEL_REASON = ''cancelled by the parent agent''"

record child_cancel =
  cc_own :: bool
  cc_reason :: "string option"

definition cancel_new :: child_cancel where
  "cancel_new = \<lparr>cc_own = False, cc_reason = None\<rparr>"

definition fire :: "string \<Rightarrow> child_cancel \<Rightarrow> child_cancel" where
  "fire reason c = (if cc_own c then c else c\<lparr>cc_own := True, cc_reason := Some reason\<rparr>)"

definition signal :: "bool \<Rightarrow> child_cancel \<Rightarrow> string option" where
  "signal parent c =
     (if cc_own c
      then Some (case cc_reason c of Some r \<Rightarrow> r | None \<Rightarrow> PARENT_CANCEL_REASON)
      else if parent then Some PARENT_CANCEL_REASON else None)"

section \<open>The default budget\<close>

definition default_child_budget :: subagent_budget where
  "default_child_budget = budget_new 8 16 100000"

section \<open>Spend\<close>

record usage_buckets =
  ub_input :: u64
  ub_cached :: "u64 option"
  ub_output :: u64

definition buckets_zero :: usage_buckets where
  "buckets_zero = \<lparr>ub_input = 0, ub_cached = None, ub_output = 0\<rparr>"

definition or_zero :: "u64 option \<Rightarrow> u64" where
  "or_zero v = (case v of Some n \<Rightarrow> n | None \<Rightarrow> 0)"

definition buckets_fold :: "usage_buckets \<Rightarrow> usage_buckets \<Rightarrow> usage_buckets" where
  "buckets_fold a b =
     \<lparr>ub_input = saturating_add (ub_input a) (ub_input b),
      ub_cached = (case ub_cached b of
          Some c \<Rightarrow> Some (saturating_add (or_zero (ub_cached a)) c)
        | None \<Rightarrow> ub_cached a),
      ub_output = saturating_add (ub_output a) (ub_output b)\<rparr>"

definition buckets_since :: "usage_buckets \<Rightarrow> usage_buckets \<Rightarrow> usage_buckets" where
  "buckets_since a b =
     \<lparr>ub_input = saturating_sub (ub_input a) (ub_input b),
      ub_cached = (case (ub_cached a, ub_cached b) of
          (Some mine, Some theirs) \<Rightarrow> Some (saturating_sub mine theirs)
        | (mine, _) \<Rightarrow> mine),
      ub_output = saturating_sub (ub_output a) (ub_output b)\<rparr>"

definition buckets_is_zero :: "usage_buckets \<Rightarrow> bool" where
  "buckets_is_zero a \<longleftrightarrow> ub_input a = 0 \<and> ub_output a = 0 \<and> or_zero (ub_cached a) = 0"

record child_usage =
  cu_total :: usage_buckets
  cu_reported :: usage_buckets

record child_entry =
  ce_record :: subagent_record
  ce_cancel :: child_cancel
  ce_usage :: child_usage

section \<open>Lifecycle events\<close>

text \<open>The constructors of \<open>HarnessEvent\<close> the registry builds.\<close>

datatype lifecycle_event =
    SubAgentSpawned string string string string string bool
  | SubAgentProgress string string string string u32 u32 u64 u64
  | SubAgentFinished string string string "string option" "string option" u64 u32 u32 u64
  | TokenUsage string u64 "u64 option" u64

fun status_kind :: "subagent_status \<Rightarrow> string" where
  "status_kind Initializing = ''initializing''"
| "status_kind (Running turns calls tokens a) = ''running''"
| "status_kind (Completed out ms turns calls tokens) = ''completed''"
| "status_kind (Failed e) = ''failed''"
| "status_kind (Cancelled r) = ''cancelled''"

definition subagent_spawned :: "subagent_record \<Rightarrow> lifecycle_event" where
  "subagent_spawned r =
     SubAgentSpawned (sp_parent_chat_id (rec_spec r)) (subid (sp_id (rec_spec r)))
       (sp_subagent_type (rec_spec r)) (sp_description (rec_spec r))
       (sp_parent_call_id (rec_spec r)) (sp_run_in_background (rec_spec r))"

definition subagent_token_usage :: "string \<Rightarrow> usage_buckets \<Rightarrow> lifecycle_event" where
  "subagent_token_usage chat u = TokenUsage chat (ub_input u) (ub_cached u) (ub_output u)"

fun activity_of :: "subagent_status \<Rightarrow> string" where
  "activity_of (Running turns calls tokens a) = a"
| "activity_of _ = []"

definition subagent_progress :: "timestamp \<Rightarrow> subagent_record \<Rightarrow> lifecycle_event" where
  "subagent_progress now r =
     (case counts (rec_status r) of (turns, calls, tokens) \<Rightarrow>
        SubAgentProgress (sp_parent_chat_id (rec_spec r)) (subid (sp_id (rec_spec r)))
          (status_kind (rec_status r)) (activity_of (rec_status r)) turns calls tokens
          (elapsed_ms_at now r))"

text \<open>The payload of a terminal status; \<open>None\<close> where the code is \<open>unreachable!\<close>.\<close>

fun finished_texts :: "subagent_status \<Rightarrow> (string option \<times> string option) option" where
  "finished_texts (Completed out ms turns calls tokens) = Some (Some out, None)"
| "finished_texts (Failed e) = Some (None, Some e)"
| "finished_texts (Cancelled r) = Some (None, Some r)"
| "finished_texts _ = None"

definition subagent_finished :: "subagent_record \<Rightarrow> lifecycle_event option" where
  "subagent_finished r =
     (case counts (rec_status r) of (turns, calls, tokens) \<Rightarrow>
        map_option (\<lambda>(out, e).
          SubAgentFinished (sp_parent_chat_id (rec_spec r)) (subid (sp_id (rec_spec r)))
            (status_kind (rec_status r)) out e
            (case duration_ms r of Some d \<Rightarrow> d | None \<Rightarrow> 0) turns calls tokens)
          (finished_texts (rec_status r)))"

section \<open>The registry\<close>

record channel =
  ch_open :: bool
  ch_events :: "lifecycle_event list"

record sub_registry =
  children :: "child_entry list"
  events :: "nat option"
  channels :: "channel list"

definition registry_empty :: sub_registry where
  "registry_empty = \<lparr>children = [], events = None, channels = []\<rparr>"

definition entry_id :: "child_entry \<Rightarrow> subagent_id" where
  "entry_id e = sp_id (rec_spec (ce_record e))"

definition entry_parent :: "child_entry \<Rightarrow> string" where
  "entry_parent e = sp_parent_chat_id (rec_spec (ce_record e))"

abbreviation entry_live :: "child_entry \<Rightarrow> bool" where
  "entry_live e \<equiv> \<not> is_terminal (rec_status (ce_record e))"

text \<open>\<open>iter_mut().find(..)\<close> and a write through the reference.\<close>

fun upd_first :: "('a \<Rightarrow> bool) \<Rightarrow> ('a \<Rightarrow> 'a) \<Rightarrow> 'a list \<Rightarrow> 'a list" where
  "upd_first P f [] = []"
| "upd_first P f (x # xs) = (if P x then f x # xs else x # upd_first P f xs)"

text \<open>\<open>UnboundedSender::send\<close>: accepted while the receiver is held, an ignored error after.\<close>

definition send :: "nat \<Rightarrow> lifecycle_event \<Rightarrow> channel list \<Rightarrow> channel list" where
  "send i ev chans =
     (if i < length chans \<and> ch_open (chans ! i)
      then chans[i := (chans ! i)\<lparr>ch_events := ch_events (chans ! i) @ [ev]\<rparr>] else chans)"

definition emit :: "lifecycle_event \<Rightarrow> sub_registry \<Rightarrow> sub_registry" where
  "emit ev reg =
     (case events reg of Some i \<Rightarrow> reg\<lparr>channels := send i ev (channels reg)\<rparr> | None \<Rightarrow> reg)"

definition emit_all :: "lifecycle_event list \<Rightarrow> sub_registry \<Rightarrow> sub_registry" where
  "emit_all evs reg = fold emit evs reg"

text \<open>The pass over the entries when a turn attaches: each entry's unreported spend, in order.\<close>

fun settle_owed :: "child_entry list \<Rightarrow> child_entry list \<times> lifecycle_event list" where
  "settle_owed [] = ([], [])"
| "settle_owed (e # es) =
     (let (es', evs) = settle_owed es;
          owed = buckets_since (cu_total (ce_usage e)) (cu_reported (ce_usage e))
      in if buckets_is_zero owed then (e # es', evs)
         else (e\<lparr>ce_usage := (ce_usage e)\<lparr>cu_reported := cu_total (ce_usage e)\<rparr>\<rparr> # es',
               subagent_token_usage (entry_parent e) owed # evs))"

definition attach_event_sink :: "sub_registry \<Rightarrow> nat \<times> sub_registry" where
  "attach_event_sink reg =
     (let (es, evs) = settle_owed (children reg);
          i = length (channels reg)
      in (i, reg\<lparr>children := es, events := Some i,
                 channels := channels reg @ [\<lparr>ch_open = True, ch_events = evs\<rparr>]\<rparr>))"

text \<open>The turn's stream ends and drops its receiver; the registry is not told.\<close>

definition drop_receiver :: "nat \<Rightarrow> sub_registry \<Rightarrow> sub_registry" where
  "drop_receiver i reg =
     (if i < length (channels reg)
      then reg\<lparr>channels := (channels reg)[i := (channels reg ! i)\<lparr>ch_open := False\<rparr>]\<rparr> else reg)"

text \<open>One step: the code reads the sink first and then holds the lock of the children from the update of the
  entry to the event, so a sink attached between the two is a case this leaves out.\<close>

definition note_child_usage :: "string \<Rightarrow> string \<Rightarrow> usage_buckets \<Rightarrow> sub_registry \<Rightarrow> sub_registry" where
  "note_child_usage child chat u reg =
     (let sender = events reg;
          note = (\<lambda>e. e\<lparr>ce_usage :=
            \<lparr>cu_total = buckets_fold (cu_total (ce_usage e)) u,
             cu_reported = (if sender \<noteq> None then buckets_fold (cu_reported (ce_usage e)) u
                            else cu_reported (ce_usage e))\<rparr>\<rparr>);
          reg = reg\<lparr>children := upd_first (\<lambda>e. subid (entry_id e) = child) note (children reg)\<rparr>
      in case sender of
           Some i \<Rightarrow> reg\<lparr>channels := send i (subagent_token_usage chat u) (channels reg)\<rparr>
         | None \<Rightarrow> reg)"

definition register :: "subagent_record \<Rightarrow> child_cancel \<Rightarrow> sub_registry \<Rightarrow> sub_registry" where
  "register r c reg =
     (if \<exists>e\<in>set (children reg). entry_id e = sp_id (rec_spec r) then reg
      else emit (subagent_spawned r)
        (reg\<lparr>children := children reg @
          [\<lparr>ce_record = r, ce_cancel = c,
            ce_usage = \<lparr>cu_total = buckets_zero, cu_reported = buckets_zero\<rparr>\<rparr>]\<rparr>))"

definition records :: "sub_registry \<Rightarrow> subagent_record list" where
  "records reg = map ce_record (children reg)"

definition snapshot :: "subagent_id \<Rightarrow> sub_registry \<Rightarrow> subagent_record option" where
  "snapshot i reg = map_option ce_record (find (\<lambda>e. entry_id e = i) (children reg))"

text \<open>The event of an applied write. \<open>subagent_finished\<close> is only asked of a terminal record.\<close>

definition publish_events :: "timestamp \<Rightarrow> subagent_record \<Rightarrow> lifecycle_event list" where
  "publish_events now r =
     (if is_terminal (rec_status r)
      then (case subagent_finished r of Some ev \<Rightarrow> [ev] | None \<Rightarrow> [])
      else [subagent_progress now r])"

definition publish :: "timestamp \<Rightarrow> subagent_record \<Rightarrow> sub_registry \<Rightarrow> sub_registry" where
  "publish now r reg =
     (case find (\<lambda>e. entry_id e = sp_id (rec_spec r)) (children reg) of
        None \<Rightarrow> reg
      | Some e \<Rightarrow>
          if is_terminal (rec_status (ce_record e)) then reg
          else emit_all (publish_events now r)
            (reg\<lparr>children := upd_first (\<lambda>e. entry_id e = sp_id (rec_spec r))
                (\<lambda>e. e\<lparr>ce_record := r\<rparr>) (children reg)\<rparr>))"

section \<open>Cancelling a child and what it spawned\<close>

definition stop_entry :: "timestamp \<Rightarrow> string \<Rightarrow> child_entry \<Rightarrow> child_entry" where
  "stop_entry now reason e =
     e\<lparr>ce_record := record_cancel now reason (ce_record e), ce_cancel := fire reason (ce_cancel e)\<rparr>"

type_synonym walk = "child_entry list \<times> subagent_record list"

text \<open>
  The recursion descends only from a record this call just ended, so its depth is bounded by the
  number of live records; the first argument is that bound. The second walk component is the
  code's \<open>cancelled\<close> vector, whose length numbers the clock readings.
\<close>

primrec cancel_entry ::
  "nat \<Rightarrow> (nat \<Rightarrow> timestamp) \<Rightarrow> string \<Rightarrow> subagent_id \<Rightarrow> walk \<Rightarrow> bool \<times> walk"
where
  "cancel_entry 0 clock reason i w = (False, w)"
| "cancel_entry (Suc n) clock reason i w =
     (case find (\<lambda>e. entry_id e = i) (fst w) of
        None \<Rightarrow> (False, w)
      | Some e \<Rightarrow>
          if \<not> entry_live e then (False, w)
          else
            (let e' = stop_entry (clock (length (snd w))) reason e;
                 es = upd_first (\<lambda>e. entry_id e = i) (\<lambda>_. e') (fst w);
                 nested = map entry_id (filter (\<lambda>e. entry_parent e = subid i) es)
             in foldl (\<lambda>(ended, w) j.
                    let (hit, w') = cancel_entry n clock reason j w in (ended \<or> hit, w'))
                  (True, (es, snd w @ [ce_record e'])) nested))"

definition finished_events :: "subagent_record list \<Rightarrow> lifecycle_event list" where
  "finished_events rs = List.map_filter subagent_finished rs"

definition reg_cancel ::
  "(nat \<Rightarrow> timestamp) \<Rightarrow> subagent_id \<Rightarrow> string \<Rightarrow> sub_registry \<Rightarrow> bool \<times> sub_registry" where
  "reg_cancel clock i reason reg =
     (let (hit, es, cancelled) =
            cancel_entry (length (children reg)) clock reason i (children reg, [])
      in (hit, emit_all (finished_events cancelled) (reg\<lparr>children := es\<rparr>)))"

definition reg_cancel_all :: "(nat \<Rightarrow> timestamp) \<Rightarrow> string \<Rightarrow> sub_registry \<Rightarrow> sub_registry" where
  "reg_cancel_all clock reason reg =
     (let (es, cancelled) =
            foldl (\<lambda>w i. snd (cancel_entry (length (children reg)) clock reason i w))
              (children reg, []) (map entry_id (children reg))
      in emit_all (finished_events cancelled) (reg\<lparr>children := es\<rparr>))"

section \<open>The stop check of the child's loop\<close>

definition stop_if_cancelled ::
  "timestamp \<Rightarrow> bool \<Rightarrow> child_cancel \<Rightarrow> subagent_record \<Rightarrow> sub_registry
   \<Rightarrow> bool \<times> subagent_record \<times> sub_registry" where
  "stop_if_cancelled now parent c r reg =
     (case signal parent c of
        None \<Rightarrow> (False, r, reg)
      | Some reason \<Rightarrow>
          (let r' = record_cancel now reason r in (True, r', publish now r' reg)))"

section \<open>Spawn trees\<close>

definition ids_unique :: "child_entry list \<Rightarrow> bool" where
  "ids_unique es \<longleftrightarrow> distinct (map entry_id es)"

definition live_ids :: "child_entry list \<Rightarrow> subagent_id set" where
  "live_ids es = entry_id ` {e \<in> set es. entry_live e}"

text \<open>The children a record spawned: a child's conversation is keyed by its own id.\<close>

definition spawned_by :: "child_entry list \<Rightarrow> subagent_id \<Rightarrow> subagent_id set" where
  "spawned_by es i = entry_id ` {e \<in> set es. entry_parent e = subid i}"

text \<open>What is reached from a live record going only through live records.\<close>

inductive_set live_tree :: "child_entry list \<Rightarrow> subagent_id \<Rightarrow> subagent_id set"
  for es :: "child_entry list" and i :: subagent_id
where
  tree_root: "i \<in> live_ids es \<Longrightarrow> i \<in> live_tree es i"
| tree_child: "j \<in> live_tree es i \<Longrightarrow> k \<in> spawned_by es j \<Longrightarrow> k \<in> live_ids es \<Longrightarrow> k \<in> live_tree es i"

text \<open>Every entry is kept, or was live and is stopped with this reason.\<close>

definition stopped_or_kept :: "string \<Rightarrow> child_entry \<Rightarrow> child_entry \<Rightarrow> bool" where
  "stopped_or_kept reason e e' \<longleftrightarrow> e' = e \<or> (entry_live e \<and> (\<exists>t. e' = stop_entry t reason e))"

lemma stop_entry_simps [simp]:
  "entry_id (stop_entry t reason e) = entry_id e"
  "entry_parent (stop_entry t reason e) = entry_parent e"
  "ce_usage (stop_entry t reason e) = ce_usage e"
  "is_terminal (rec_status (ce_record (stop_entry t reason e)))"
  by (auto simp: stop_entry_def entry_id_def entry_parent_def record_cancel_def finish_terminal_def)

lemma stopped_or_kept_id:
  "stopped_or_kept reason e e' \<Longrightarrow> entry_id e' = entry_id e \<and> entry_parent e' = entry_parent e"
  by (auto simp: stopped_or_kept_def)

lemma stopped_or_kept_trans:
  "stopped_or_kept reason a b \<Longrightarrow> stopped_or_kept reason b c \<Longrightarrow> stopped_or_kept reason a c"
  by (auto simp: stopped_or_kept_def)

lemma upd_first_unique:
  "distinct (map f xs) \<Longrightarrow> upd_first (\<lambda>x. f x = i) g xs = map (\<lambda>x. if f x = i then g x else x) xs"
proof (induction xs)
  case (Cons x xs)
  have "map (\<lambda>y. if f y = i then g y else y) xs = xs" if "f x = i"
    by (rule map_idI) (use Cons(2) that in \<open>auto simp: image_iff\<close>)
  with Cons show ?case by auto
qed simp

lemma find_unique:
  "distinct (map f xs) \<Longrightarrow> x \<in> set xs \<Longrightarrow> find (\<lambda>x. f x = f x') xs = Some x" if "f x = f x'"
  using that by (induction xs) (auto simp: rev_image_eqI)

abbreviation walked :: "string \<Rightarrow> child_entry list \<Rightarrow> child_entry list \<Rightarrow> bool" where
  "walked reason \<equiv> list_all2 (stopped_or_kept reason)"

lemma walked_refl [simp]: "walked reason es es"
  by (simp add: list.rel_refl stopped_or_kept_def)

lemma walked_trans: "walked reason a b \<Longrightarrow> walked reason b c \<Longrightarrow> walked reason a c"
  by (rule list_all2_trans [OF stopped_or_kept_trans])

lemma walked_ids: "walked reason es es' \<Longrightarrow> map entry_id es' = map entry_id es"
  by (induction rule: list_all2_induct) (auto dest: stopped_or_kept_id)

lemma walked_set:
  "walked reason es es' \<Longrightarrow> e' \<in> set es' \<Longrightarrow> \<exists>e\<in>set es. stopped_or_kept reason e e'"
  by (induction rule: list_all2_induct) auto

lemma walked_set_back:
  "walked reason es es' \<Longrightarrow> e \<in> set es \<Longrightarrow> \<exists>e'\<in>set es'. stopped_or_kept reason e e'"
  by (induction rule: list_all2_induct) auto

lemma walked_spawned: "walked reason es es' \<Longrightarrow> spawned_by es' i = spawned_by es i"
  unfolding spawned_by_def
  by (intro set_eqI) (fastforce simp: image_iff dest: walked_set walked_set_back stopped_or_kept_id)

lemma walked_live: "walked reason es es' \<Longrightarrow> live_ids es' \<subseteq> live_ids es"
  by (induction rule: list_all2_induct) (auto simp: live_ids_def stopped_or_kept_def)

lemma walked_unique: "walked reason es es' \<Longrightarrow> ids_unique es' = ids_unique es"
  by (simp add: ids_unique_def walked_ids)

lemma live_tree_mono:
  "j \<in> live_tree es' i \<Longrightarrow> walked reason es es' \<Longrightarrow> j \<in> live_tree es i"
  by (induction rule: live_tree.induct)
    (auto intro: live_tree.intros dest: walked_live [THEN subsetD] simp: walked_spawned)

lemma live_tree_trans:
  "k \<in> live_tree es j \<Longrightarrow> j \<in> live_tree es i \<Longrightarrow> k \<in> live_tree es i"
  by (induction rule: live_tree.induct) (auto intro: live_tree.intros)

lemma live_tree_live: "j \<in> live_tree es i \<Longrightarrow> j \<in> live_ids es \<and> i \<in> live_ids es"
  by (induction rule: live_tree.induct) auto

lemma live_tree_below:
  assumes wd: "walked reason es es'" and i: "i \<in> live_ids es" and j: "j \<in> spawned_by es i"
  shows "live_tree es' j \<subseteq> live_tree es i"
proof
  fix k assume "k \<in> live_tree es' j"
  then have k: "k \<in> live_tree es j" by (rule live_tree_mono [OF _ wd])
  have "j \<in> live_tree es i"
    using tree_child [OF tree_root [OF i] j] live_tree_live [OF k] by simp
  with k show "k \<in> live_tree es i" by (rule live_tree_trans)
qed

lemma finite_live [simp]: "finite (live_ids es)"
  by (simp add: live_ids_def)

text \<open>
  What a piece of the walk has to guarantee: entries are kept or stopped, the records it appends are
  the ones it ended, each once, everything it ended lies in the given set and has no live child left.
\<close>

definition walk_ok :: "string \<Rightarrow> subagent_id set \<Rightarrow> walk \<Rightarrow> walk \<Rightarrow> bool" where
  "walk_ok reason within w w' \<longleftrightarrow>
     walked reason (fst w) (fst w') \<and>
     (\<exists>new. snd w' = snd w @ new \<and> distinct (map (\<lambda>r. sp_id (rec_spec r)) new) \<and>
        (\<forall>r\<in>set new. r \<in> ce_record ` set (fst w') \<and> is_terminal (rec_status r)) \<and>
        (\<lambda>r. sp_id (rec_spec r)) ` set new = live_ids (fst w) - live_ids (fst w')) \<and>
     live_ids (fst w) - live_ids (fst w') \<subseteq> within"

definition ended_closed :: "walk \<Rightarrow> walk \<Rightarrow> bool" where
  "ended_closed w w' \<longleftrightarrow>
     (\<forall>j \<in> live_ids (fst w) - live_ids (fst w'). spawned_by (fst w) j \<inter> live_ids (fst w') = {})"

lemma kept_terminal:
  assumes "walked reason es es'" "r \<in> ce_record ` set es" "is_terminal (rec_status r)"
  shows "r \<in> ce_record ` set es'"
  using assms walked_set_back [OF assms(1)] by (auto simp: stopped_or_kept_def)

lemma walk_ok_refl [simp]: "walk_ok reason A w w"
  by (simp add: walk_ok_def)

lemma walk_ok_mono: "walk_ok reason A w w' \<Longrightarrow> A \<subseteq> B \<Longrightarrow> walk_ok reason B w w'"
  by (auto simp: walk_ok_def)

lemma walk_ok_trans:
  assumes 1: "walk_ok reason A w w1" and 2: "walk_ok reason B w1 w2"
  shows "walk_ok reason (A \<union> B) w w2"
proof -
  let ?id = "\<lambda>r. sp_id (rec_spec r)"
  obtain n1 where n1: "snd w1 = snd w @ n1" "distinct (map ?id n1)"
    "\<And>r. r \<in> set n1 \<Longrightarrow> r \<in> ce_record ` set (fst w1) \<and> is_terminal (rec_status r)"
    "?id ` set n1 = live_ids (fst w) - live_ids (fst w1)"
    using 1 by (auto simp: walk_ok_def)
  obtain n2 where n2: "snd w2 = snd w1 @ n2" "distinct (map ?id n2)"
    "\<And>r. r \<in> set n2 \<Longrightarrow> r \<in> ce_record ` set (fst w2) \<and> is_terminal (rec_status r)"
    "?id ` set n2 = live_ids (fst w1) - live_ids (fst w2)"
    using 2 by (auto simp: walk_ok_def)
  have w: "walked reason (fst w) (fst w1)" "walked reason (fst w1) (fst w2)"
    using 1 2 by (simp_all add: walk_ok_def)
  note l = walked_live [OF w(1)] walked_live [OF w(2)]
  have kept: "r \<in> ce_record ` set (fst w2) \<and> is_terminal (rec_status r)" if "r \<in> set n1" for r
    using n1(3) [OF that] kept_terminal [OF w(2)] by blast
  have "snd w2 = snd w @ (n1 @ n2)" using n1(1) n2(1) by simp
  moreover have "distinct (map ?id (n1 @ n2))" using n1(2,4) n2(2,4) by auto
  moreover have "\<forall>r\<in>set (n1 @ n2). r \<in> ce_record ` set (fst w2) \<and> is_terminal (rec_status r)"
    using kept n2(3) by auto
  moreover have "?id ` set (n1 @ n2) = live_ids (fst w) - live_ids (fst w2)"
    using n1(4) n2(4) l by (auto simp: image_Un)
  moreover have "live_ids (fst w) - live_ids (fst w2) \<subseteq> A \<union> B"
    using 1 2 by (auto simp: walk_ok_def)
  ultimately show ?thesis using walked_trans [OF w] unfolding walk_ok_def by blast
qed

lemma ended_closed_trans:
  assumes "walk_ok reason A w w1" "walk_ok reason B w1 w2" "ended_closed w w1" "ended_closed w1 w2"
  shows "ended_closed w w2"
proof -
  have w: "walked reason (fst w) (fst w1)" "walked reason (fst w1) (fst w2)"
    using assms by (simp_all add: walk_ok_def)
  show ?thesis
    using assms(3,4) walked_live [OF w(1)] walked_live [OF w(2)]
    unfolding ended_closed_def walked_spawned [OF w(1)] by blast
qed

definition cancel_spec :: "string \<Rightarrow> subagent_id \<Rightarrow> walk \<Rightarrow> bool \<Rightarrow> walk \<Rightarrow> bool" where
  "cancel_spec reason i w hit w' \<longleftrightarrow>
     walk_ok reason (live_tree (fst w) i) w w' \<and> ended_closed w w' \<and>
     i \<notin> live_ids (fst w') \<and> (hit \<longleftrightarrow> i \<in> live_ids (fst w))"

definition cancel_nested ::
  "nat \<Rightarrow> (nat \<Rightarrow> timestamp) \<Rightarrow> string \<Rightarrow> subagent_id list \<Rightarrow> bool \<times> walk \<Rightarrow> bool \<times> walk" where
  "cancel_nested n clock reason js s =
     foldl (\<lambda>(ended, w) j. let (hit, w') = cancel_entry n clock reason j w in (ended \<or> hit, w')) s js"

text \<open>The loop over a list of ids, given what each call does.\<close>

lemma cancel_nested_spec:
  assumes call: "\<And>w i hit w'. card (live_ids (fst w)) \<le> n \<Longrightarrow> ids_unique (fst w) \<Longrightarrow>
    cancel_entry n clock reason i w = (hit, w') \<Longrightarrow> cancel_spec reason i w hit w'"
  shows "card (live_ids (fst w)) \<le> n \<Longrightarrow> ids_unique (fst w) \<Longrightarrow>
    cancel_nested n clock reason js (b, w) = (hit, w') \<Longrightarrow>
    walk_ok reason (\<Union>j\<in>set js. live_tree (fst w) j) w w' \<and> ended_closed w w' \<and>
    set js \<inter> live_ids (fst w') = {} \<and> (b \<longrightarrow> hit)"
proof (induction js arbitrary: w b)
  case Nil
  then show ?case by (simp add: cancel_nested_def ended_closed_def)
next
  case (Cons j js)
  obtain h1 w1 where c: "cancel_entry n clock reason j w = (h1, w1)" by (rule prod.exhaust)
  have s1: "cancel_spec reason j w h1 w1" using call [OF Cons(2,3) c] .
  then have ok1: "walk_ok reason (live_tree (fst w) j) w w1"
    and wd: "walked reason (fst w) (fst w1)" by (simp_all add: cancel_spec_def walk_ok_def)
  have le: "card (live_ids (fst w1)) \<le> n"
    using card_mono [OF finite_live walked_live [OF wd]] Cons(2) by linarith
  have rest: "cancel_nested n clock reason js (b \<or> h1, w1) = (hit, w')"
    using Cons(4) by (simp add: cancel_nested_def c)
  have "ids_unique (fst w1)" using walked_unique [OF wd] Cons(3) by simp
  from Cons(1) [OF le this rest]
  have ok2: "walk_ok reason (\<Union>j\<in>set js. live_tree (fst w1) j) w1 w'"
    and cl: "ended_closed w1 w'" and gone: "set js \<inter> live_ids (fst w') = {}"
    and h: "b \<longrightarrow> hit" by auto
  have sub: "(\<Union>j\<in>set js. live_tree (fst w1) j) \<subseteq> (\<Union>j\<in>set js. live_tree (fst w) j)"
    using live_tree_mono [OF _ wd] by blast
  have "j \<notin> live_ids (fst w')"
    using s1 ok2 walked_live by (auto simp: cancel_spec_def walk_ok_def)
  moreover have "walk_ok reason (\<Union>j\<in>set (j # js). live_tree (fst w) j) w w'"
    using walk_ok_trans [OF ok1 walk_ok_mono [OF ok2 sub]] by simp
  moreover have "ended_closed w w'"
    using ended_closed_trans [OF ok1 ok2 _ cl] s1 by (simp add: cancel_spec_def)
  ultimately show ?case using gone h by auto
qed

text \<open>The first step of a call on a live record: that record alone is ended.\<close>

lemma stop_first:
  fixes w :: walk and t :: timestamp and reason :: string
  assumes u: "ids_unique (fst w)" and e: "e \<in> set (fst w)" "entry_id e = i" "entry_live e"
  defines "e' \<equiv> stop_entry t reason e"
  defines "es \<equiv> upd_first (\<lambda>e. entry_id e = i) (\<lambda>_. e') (fst w)"
  shows "find (\<lambda>e. entry_id e = i) (fst w) = Some e" and "walked reason (fst w) es"
    and "live_ids es = live_ids (fst w) - {i}"
    and "walk_ok reason {i} w (es, snd w @ [ce_record e'])"
proof -
  have uniq: "x = e" if "x \<in> set (fst w)" "entry_id x = i" for x
    using u e that by (auto simp: ids_unique_def distinct_map inj_on_def)
  show "find (\<lambda>e. entry_id e = i) (fst w) = Some e"
    using e uniq by (metis (mono_tags) find_None_iff find_Some_iff_hd not_None_eq)
  have es: "es = map (\<lambda>x. if entry_id x = i then e' else x) (fst w)"
    unfolding es_def using u by (intro upd_first_unique) (simp add: ids_unique_def)
  show wd: "walked reason (fst w) es"
    unfolding es list_all2_map2 list_all2_same using uniq e(3)
    by (auto simp: stopped_or_kept_def e'_def)
  show lv: "live_ids es = live_ids (fst w) - {i}"
    by (auto simp: es live_ids_def e'_def e(2) image_iff)
  have "e' \<in> set es" "i \<in> live_ids (fst w)" using e by (auto simp: es live_ids_def)
  then show "walk_ok reason {i} w (es, snd w @ [ce_record e'])"
    using wd by (auto simp: walk_ok_def lv e'_def e(2) entry_id_def [symmetric])
qed

lemma cancel_entry_spec:
  "card (live_ids (fst w)) \<le> n \<Longrightarrow> ids_unique (fst w) \<Longrightarrow>
   cancel_entry n clock reason i w = (hit, w') \<Longrightarrow> cancel_spec reason i w hit w'"
proof (induction n arbitrary: w i hit w')
  case 0
  then have "live_ids (fst w) = {}" by simp
  with 0 show ?case by (simp add: cancel_spec_def ended_closed_def)
next
  case (Suc n)
  let ?es = "fst w"
  show ?case
  proof (cases "i \<in> live_ids ?es")
    case False
    then have "hit = False \<and> w' = w"
      using Suc(4) by (auto simp: live_ids_def find_None_iff split: option.splits if_splits
        dest: find_Some_iff_hd)
    with False show ?thesis by (simp add: cancel_spec_def ended_closed_def)
  next
    case True
    then obtain e where e: "e \<in> set ?es" "entry_id e = i" "entry_live e"
      by (auto simp: live_ids_def)
    define e' where "e' = stop_entry (clock (length (snd w))) reason e"
    define es where "es = upd_first (\<lambda>e. entry_id e = i) (\<lambda>_. e') ?es"
    let ?w1 = "(es, snd w @ [ce_record e'])"
    define js where "js = map entry_id (filter (\<lambda>e. entry_parent e = subid i) es)"
    note found = stop_first(1) [OF Suc(3) e]
    note first = stop_first(2-4) [OF Suc(3) e, where reason = reason and
        t = "clock (length (snd w))", folded e'_def, folded es_def]
    note wd = first(1) and lv = first(2) and ok1 = first(3)
    have rest: "cancel_nested n clock reason js (True, ?w1) = (hit, w')"
      using Suc(4) e(3) unfolding cancel_nested_def js_def es_def e'_def by (simp add: found Let_def)
    have small: "card (live_ids (fst ?w1)) \<le> n" "ids_unique (fst ?w1)"
      using Suc(2,3) True walked_unique [OF wd] by (simp_all add: lv)
    have "walk_ok reason (\<Union>j\<in>set js. live_tree (fst ?w1) j) ?w1 w' \<and> ended_closed ?w1 w' \<and>
        set js \<inter> live_ids (fst w') = {} \<and> (True \<longrightarrow> hit)"
      by (rule cancel_nested_spec [OF _ small rest]) (rule Suc(1))
    then have ok2: "walk_ok reason (\<Union>j\<in>set js. live_tree es j) ?w1 w'"
      and cl: "ended_closed ?w1 w'" and gone: "set js \<inter> live_ids (fst w') = {}" and hit
      by simp_all
    have js: "set js = spawned_by ?es i"
      using walked_spawned [OF wd] by (auto simp: js_def spawned_by_def)
    have root: "i \<in> live_tree ?es i" using True by (rule tree_root)
    have sub: "live_tree es j \<subseteq> live_tree ?es i" if "j \<in> set js" for j
      using that js live_tree_below [OF wd True] by blast
    have ok: "walk_ok reason (live_tree ?es i) w w'"
      using walk_ok_mono [OF walk_ok_trans [OF ok1 ok2], of "live_tree ?es i"] sub root by blast
    have lv': "live_ids (fst w') \<subseteq> live_ids es"
      using ok2 walked_live by (auto simp: walk_ok_def)
    have "ended_closed w w'"
      using cl gone lv' walked_spawned [OF wd] js by (auto simp: ended_closed_def lv)
    with ok lv' True \<open>hit\<close> show ?thesis by (auto simp: cancel_spec_def lv)
  qed
qed

text \<open>The walk ends exactly the live tree under the record it is given.\<close>

lemma cancel_spec_exact:
  assumes "cancel_spec reason i w hit w'"
  shows "live_ids (fst w) - live_ids (fst w') = live_tree (fst w) i"
proof
  show "live_ids (fst w) - live_ids (fst w') \<subseteq> live_tree (fst w) i"
    using assms by (simp add: cancel_spec_def walk_ok_def)
  show "live_tree (fst w) i \<subseteq> live_ids (fst w) - live_ids (fst w')"
  proof
    fix j assume "j \<in> live_tree (fst w) i"
    then show "j \<in> live_ids (fst w) - live_ids (fst w')"
      using assms
      by (induction rule: live_tree.induct) (auto simp: cancel_spec_def ended_closed_def)
  qed
qed

lemma card_live_le: "card (live_ids es) \<le> length es"
proof -
  have "card (live_ids es) \<le> card (entry_id ` set es)"
    by (rule card_mono) (auto simp: live_ids_def)
  also have "\<dots> \<le> length es" by (metis card_length length_map set_map)
  finally show ?thesis .
qed

lemma live_mem: "ids_unique es \<Longrightarrow> e \<in> set es \<Longrightarrow> entry_id e \<in> live_ids es \<longleftrightarrow> entry_live e"
  by (auto simp: live_ids_def ids_unique_def distinct_map inj_on_def)

lemma walked_pointwise:
  assumes wd: "walked reason es es'" and u: "ids_unique es"
  shows "list_all2 (\<lambda>e e'. if entry_id e \<in> live_ids es - live_ids es'
    then \<exists>t. e' = stop_entry t reason e else e' = e) es es'"
proof (rule list_all2_all_nthI)
  show len: "length es = length es'" using wd by (rule list_all2_lengthD)
  fix k assume k: "k < length es"
  have sk: "stopped_or_kept reason (es ! k) (es' ! k)" using wd k by (rule list_all2_nthD)
  have u': "ids_unique es'" using walked_unique [OF wd] u by simp
  have mem: "es ! k \<in> set es" "es' ! k \<in> set es'" using k len by auto
  note live = live_mem [OF u mem(1)] live_mem [OF u' mem(2)]
  show "if entry_id (es ! k) \<in> live_ids es - live_ids es'
    then \<exists>t. es' ! k = stop_entry t reason (es ! k) else es' ! k = es ! k"
    using sk live by (auto simp: stopped_or_kept_def)
qed

lemma emit_all_children [simp]:
  "children (emit_all evs reg) = children reg" "events (emit_all evs reg) = events reg"
  by (induction evs arbitrary: reg) (auto simp: emit_all_def emit_def split: option.splits)

lemma emit_children [simp]: "children (emit ev reg) = children reg" "events (emit ev reg) = events reg"
  by (auto simp: emit_def split: option.splits)

lemma finished_terminal: "is_terminal (rec_status r) \<Longrightarrow> \<exists>ev. subagent_finished r = Some ev"
  by (cases "rec_status r") (auto simp: subagent_finished_def split: prod.split)

lemma finished_events_all:
  "(\<forall>r\<in>set rs. is_terminal (rec_status r)) \<Longrightarrow> map Some (finished_events rs) = map subagent_finished rs"
  by (induction rs) (auto simp: finished_events_def List.map_filter_simps dest!: finished_terminal)

text \<open>What one cancel does, for any set of records it is to end.\<close>

definition ends_exactly :: "string \<Rightarrow> subagent_id set \<Rightarrow> sub_registry \<Rightarrow> sub_registry \<Rightarrow> bool" where
  "ends_exactly reason ended reg reg' \<longleftrightarrow>
     list_all2 (\<lambda>e e'. if entry_id e \<in> ended then \<exists>t. e' = stop_entry t reason e else e' = e)
       (children reg) (children reg') \<and>
     (\<exists>rs evs. distinct (map (\<lambda>r. sp_id (rec_spec r)) rs) \<and>
        (\<lambda>r. sp_id (rec_spec r)) ` set rs = ended \<and> set rs \<subseteq> ce_record ` set (children reg') \<and>
        map Some evs = map subagent_finished rs \<and>
        reg' = emit_all evs (reg\<lparr>children := children reg'\<rparr>))"

lemma ends_exactly_walk:
  assumes ok: "walk_ok reason A (children reg, []) (es, rs)" and u: "ids_unique (children reg)"
    and E: "ended = live_ids (children reg) - live_ids es"
  shows "ends_exactly reason ended reg (emit_all (finished_events rs) (reg\<lparr>children := es\<rparr>))"
proof -
  have wd: "walked reason (children reg) es" and d: "distinct (map (\<lambda>r. sp_id (rec_spec r)) rs)"
    and r: "\<forall>r\<in>set rs. r \<in> ce_record ` set es \<and> is_terminal (rec_status r)"
    and i: "(\<lambda>r. sp_id (rec_spec r)) ` set rs = ended"
    using ok by (auto simp: walk_ok_def E)
  have "map Some (finished_events rs) = map subagent_finished rs" using r finished_events_all by blast
  then show ?thesis
    unfolding ends_exactly_def using walked_pointwise [OF wd u] d r i
    by (auto simp: E intro!: exI [of _ rs] exI [of _ "finished_events rs"])
qed

lemma reg_cancel_exact:
  assumes u: "ids_unique (children reg)" and c: "reg_cancel clock i reason reg = (hit, reg')"
  shows "(hit \<longleftrightarrow> i \<in> live_ids (children reg)) \<and>
    ends_exactly reason (live_tree (children reg) i) reg reg'"
proof -
  obtain h es rs where w:
    "cancel_entry (length (children reg)) clock reason i (children reg, []) = (h, es, rs)"
    by (metis prod_cases3)
  have s: "cancel_spec reason i (children reg, []) h (es, rs)"
    by (rule cancel_entry_spec [OF _ _ w]) (simp_all add: u card_live_le)
  have "reg' = emit_all (finished_events rs) (reg\<lparr>children := es\<rparr>)" "hit = h"
    using c by (simp_all add: reg_cancel_def w)
  moreover have "walk_ok reason (live_tree (children reg) i) (children reg, []) (es, rs)"
    using s by (simp add: cancel_spec_def)
  ultimately show ?thesis
    using ends_exactly_walk [OF _ u cancel_spec_exact [OF s, symmetric, simplified]] s
    by (simp add: cancel_spec_def)
qed

lemma cancel_nested_snd:
  "snd (cancel_nested n clock reason js (b, w)) =
     foldl (\<lambda>w i. snd (cancel_entry n clock reason i w)) w js"
  by (induction js arbitrary: b w) (auto simp: cancel_nested_def split: prod.split)

lemma reg_cancel_all_exact:
  assumes u: "ids_unique (children reg)"
  shows "ends_exactly reason (live_ids (children reg)) reg (reg_cancel_all clock reason reg)"
proof -
  let ?n = "length (children reg)" and ?js = "map entry_id (children reg)"
    and ?w = "(children reg, []) :: walk"
  obtain h es rs where w: "cancel_nested ?n clock reason ?js (False, children reg, []) = (h, es, rs)"
    by (metis prod_cases3)
  have s: "walk_ok reason (\<Union>j\<in>set ?js. live_tree (fst ?w) j) ?w (es, rs) \<and> ended_closed ?w (es, rs) \<and>
      set ?js \<inter> live_ids (fst (es, rs)) = {} \<and> (False \<longrightarrow> h)"
    by (rule cancel_nested_spec [OF cancel_entry_spec _ _ w]) (simp_all add: u card_live_le)
  then have "map entry_id es = ?js" using walked_ids by (auto simp: walk_ok_def)
  then have "set ?js = entry_id ` set es" by (metis set_map)
  then have "live_ids es \<subseteq> set ?js" by (auto simp: live_ids_def)
  with s have "live_ids es = {}" by auto
  moreover have "reg_cancel_all clock reason reg = emit_all (finished_events rs) (reg\<lparr>children := es\<rparr>)"
    unfolding reg_cancel_all_def cancel_nested_snd [of ?n clock reason ?js False ?w, symmetric]
    by (simp add: w)
  ultimately show ?thesis using ends_exactly_walk [OF _ u] s by fastforce
qed

section \<open>Sequences of registry operations\<close>

datatype registry_op =
    RAttach
  | RDrop nat
  | RNote string string usage_buckets
  | RRegister subagent_record child_cancel
  | RPublish timestamp subagent_record
  | RCancel "nat \<Rightarrow> timestamp" subagent_id string
  | RCancelAll "nat \<Rightarrow> timestamp" string

fun registry_exec :: "registry_op \<Rightarrow> sub_registry \<Rightarrow> sub_registry" where
  "registry_exec RAttach reg = snd (attach_event_sink reg)"
| "registry_exec (RDrop i) reg = drop_receiver i reg"
| "registry_exec (RNote child chat u) reg = note_child_usage child chat u reg"
| "registry_exec (RRegister r c) reg = register r c reg"
| "registry_exec (RPublish now r) reg = publish now r reg"
| "registry_exec (RCancel clock i reason) reg = snd (reg_cancel clock i reason reg)"
| "registry_exec (RCancelAll clock reason) reg = reg_cancel_all clock reason reg"

text \<open>Entries keep their place and their id, and a terminal record is never replaced.\<close>

definition final_kept :: "child_entry list \<Rightarrow> child_entry list \<Rightarrow> bool" where
  "final_kept es es' \<longleftrightarrow> length es \<le> length es' \<and>
     (\<forall>k < length es. entry_id (es' ! k) = entry_id (es ! k) \<and>
        (\<not> entry_live (es ! k) \<longrightarrow> ce_record (es' ! k) = ce_record (es ! k)))"

lemma final_kept_refl [simp]: "final_kept es es"
  by (simp add: final_kept_def)

lemma final_kept_trans: "final_kept a b \<Longrightarrow> final_kept b c \<Longrightarrow> final_kept a c"
  by (auto simp: final_kept_def)

lemma final_kept_all2:
  "list_all2 (\<lambda>e e'. entry_id e' = entry_id e \<and> (\<not> entry_live e \<longrightarrow> ce_record e' = ce_record e)) es es'
   \<Longrightarrow> final_kept es es'"
  by (auto simp: final_kept_def list_all2_conv_all_nth)

lemma final_kept_ends:
  assumes "ends_exactly reason A reg reg'" "A \<subseteq> live_ids (children reg)" and u: "ids_unique (children reg)"
  shows "final_kept (children reg) (children reg')"
proof (rule final_kept_all2, rule list.rel_mono_strong)
  show "list_all2 (\<lambda>e e'. if entry_id e \<in> A then \<exists>t. e' = stop_entry t reason e else e' = e)
      (children reg) (children reg')"
    using assms(1) by (simp add: ends_exactly_def)
qed (use assms(2) live_mem [OF u] in \<open>auto split: if_splits\<close>)

lemma upd_first_all2:
  "(\<And>x. x \<in> set xs \<Longrightarrow> P x \<Longrightarrow> R x (f x)) \<Longrightarrow> (\<And>x. R x x) \<Longrightarrow>
   list_all2 R xs (upd_first P f xs)"
  by (induction xs) (auto intro: list.rel_refl)

lemma settle_owed_all2:
  "list_all2 (\<lambda>e e'. ce_record e' = ce_record e \<and> entry_id e' = entry_id e) es (fst (settle_owed es))"
  by (induction es) (auto simp: Let_def entry_id_def split: prod.split)

lemma final_kept_ids: "final_kept es es' \<Longrightarrow> take (length es) (map entry_id es') = map entry_id es"
  by (auto simp: final_kept_def intro!: nth_equalityI)

lemma unique_same_ids: "map entry_id es' = map entry_id es \<Longrightarrow> ids_unique es' = ids_unique es"
  by (simp add: ids_unique_def)

lemma all2_ids:
  "list_all2 R es es' \<Longrightarrow> (\<And>e e'. R e e' \<Longrightarrow> entry_id e' = entry_id e) \<Longrightarrow>
   map entry_id es' = map entry_id es"
  by (induction rule: list_all2_induct) auto

abbreviation keeps_final :: "child_entry \<Rightarrow> child_entry \<Rightarrow> bool" where
  "keeps_final e e' \<equiv>
     entry_id e' = entry_id e \<and> (\<not> entry_live e \<longrightarrow> ce_record e' = ce_record e)"

text \<open>Every operation but a registration maps the entries one to one.\<close>

lemma ends_keeps_final:
  assumes "ends_exactly reason A reg reg'" "A \<subseteq> live_ids (children reg)" and u: "ids_unique (children reg)"
  shows "list_all2 keeps_final (children reg) (children reg')"
proof (rule list.rel_mono_strong)
  show "list_all2 (\<lambda>e e'. if entry_id e \<in> A then \<exists>t. e' = stop_entry t reason e else e' = e)
      (children reg) (children reg')"
    using assms(1) by (simp add: ends_exactly_def)
qed (use assms(2) live_mem [OF u] in \<open>auto split: if_splits\<close>)

lemma publish_keeps_final:
  assumes u: "ids_unique (children reg)"
  shows "list_all2 keeps_final (children reg) (children (publish now r reg))"
proof (cases "find (\<lambda>e. entry_id e = sp_id (rec_spec r)) (children reg)")
  case None
  then show ?thesis by (simp add: publish_def list.rel_refl)
next
  case (Some e)
  have "x = e" if "x \<in> set (children reg)" "entry_id x = sp_id (rec_spec r)" for x
    using find_Some_iff_hd [OF Some] that u by (auto simp: ids_unique_def distinct_map inj_on_def)
  then have "list_all2 keeps_final (children reg)
      (upd_first (\<lambda>e. entry_id e = sp_id (rec_spec r)) (\<lambda>e. e\<lparr>ce_record := r\<rparr>) (children reg))"
    if "entry_live e"
    using that by (intro upd_first_all2) (auto simp: entry_id_def)
  with Some show ?thesis by (simp add: publish_def list.rel_refl)
qed

lemma exec_all2:
  assumes u: "ids_unique (children reg)" and r: "\<And>r c. opn \<noteq> RRegister r c"
  shows "list_all2 keeps_final (children reg) (children (registry_exec opn reg))"
proof (cases opn)
  case RAttach
  have "list_all2 keeps_final (children reg) (fst (settle_owed (children reg)))"
    by (rule list.rel_mono_strong [OF settle_owed_all2]) auto
  then show ?thesis
    by (simp add: RAttach attach_event_sink_def Let_def case_prod_unfold)
next
  case (RDrop i)
  then show ?thesis by (simp add: drop_receiver_def list.rel_refl)
next
  case (RNote child chat us)
  show ?thesis
    unfolding RNote registry_exec.simps note_child_usage_def Let_def
    by (auto split: option.split intro!: upd_first_all2 simp: entry_id_def)
next
  case (RPublish now q)
  then show ?thesis using publish_keeps_final [OF u] by simp
next
  case (RCancel clock i reason)
  have "ends_exactly reason (live_tree (children reg) i) reg (snd (reg_cancel clock i reason reg))"
    using reg_cancel_exact [OF u] by (metis prod.collapse)
  from ends_keeps_final [OF this _ u] show ?thesis
    using live_tree_live RCancel by auto
next
  case (RCancelAll clock reason)
  then show ?thesis using ends_keeps_final [OF reg_cancel_all_exact [OF u] _ u] by simp
qed (use r in simp)

lemma entry_id_new [simp]:
  "entry_id \<lparr>ce_record = r, ce_cancel = c, ce_usage = us\<rparr> = sp_id (rec_spec r)"
  "entry_parent \<lparr>ce_record = r, ce_cancel = c, ce_usage = us\<rparr> = sp_parent_chat_id (rec_spec r)"
  by (simp_all add: entry_id_def entry_parent_def)

lemma exec_inv:
  assumes u: "ids_unique (children reg)"
  shows "ids_unique (children (registry_exec opn reg))"
    and "final_kept (children reg) (children (registry_exec opn reg))"
proof -
  have "ids_unique (children (registry_exec opn reg)) \<and>
    final_kept (children reg) (children (registry_exec opn reg))"
  proof (cases "\<exists>r c. opn = RRegister r c")
    case True
    then show ?thesis
      using u by (fastforce simp: register_def final_kept_def ids_unique_def nth_append)
  next
    case False
    then have "list_all2 keeps_final (children reg) (children (registry_exec opn reg))"
      using exec_all2 [OF u] by blast
    then show ?thesis using final_kept_all2 unique_same_ids [OF all2_ids] u by blast
  qed
  then show "ids_unique (children (registry_exec opn reg))"
    "final_kept (children reg) (children (registry_exec opn reg))" by blast+
qed

text \<open>A run of operations, and the reachable registries.\<close>

definition registry_run :: "registry_op list \<Rightarrow> sub_registry \<Rightarrow> sub_registry" where
  "registry_run ops reg = fold registry_exec ops reg"

interpretation reg_inv: inductive_invariant "\<lambda>reg. reg = registry_empty"
  "\<lambda>reg reg'. \<exists>opn. reg' = registry_exec opn reg" "\<lambda>reg. ids_unique (children reg)"
  by unfold_locales (auto simp: exec_inv(1), simp add: registry_empty_def ids_unique_def)

abbreviation registry_reachable :: "sub_registry \<Rightarrow> bool" where
  "registry_reachable \<equiv>
     reachable (\<lambda>reg. reg = registry_empty) (\<lambda>reg reg'. \<exists>opn. reg' = registry_exec opn reg)"

lemma run_final_kept:
  "ids_unique (children reg) \<Longrightarrow> final_kept (children reg) (children (registry_run ops reg))"
proof (induction ops arbitrary: reg)
  case (Cons opn ops)
  show ?case
    using final_kept_trans [OF exec_inv(2) [OF Cons(2)] Cons(1) [OF exec_inv(1) [OF Cons(2)]]]
    by (simp add: registry_run_def)
qed (simp add: registry_run_def)

text \<open>C37. The registry of children (\<open>SubAgentRegistry\<close>), over every sequence of attaches, hang-ups, usage
  notes, registrations, publishes and cancels. In every reachable registry each child id occurs
  once; whatever runs next, the children keep their spawn order and a record that has reached a
  terminal status keeps that outcome: no publish and no later kill replaces it.
\<close>

theorem registry_outcomes_final:
  assumes "registry_reachable reg"
  shows "distinct (map entry_id (children reg)) \<and>
    take (length (children reg)) (map entry_id (children (registry_run ops reg))) =
      map entry_id (children reg) \<and>
    (\<forall>k < length (children reg). is_terminal (rec_status (ce_record (children reg ! k))) \<longrightarrow>
       records (registry_run ops reg) ! k = records reg ! k)"
proof -
  have u: "ids_unique (children reg)" using assms by (rule reg_inv.inv_reachable)
  then have k: "final_kept (children reg) (children (registry_run ops reg))"
    by (rule run_final_kept)
  then show ?thesis
    using u final_kept_ids [OF k] by (auto simp: ids_unique_def final_kept_def records_def)
qed

text \<open>C8. Cancelling one child (\<open>SubAgentRegistry::cancel\<close>, the walk of \<open>cancel_entry\<close>). In a reachable
  registry the call reports a hit exactly when the child is known and live. It ends exactly the
  records reached from it along the spawn links through live records, each cancelled with the reason
  and with its stop bit fired; every other entry is untouched; and for each ended record exactly one
  \<open>SubAgentFinished\<close> is emitted.
\<close>

theorem registry_cancel_ends_live_tree:
  assumes "registry_reachable reg" and "reg_cancel clock i reason reg = (hit, reg')"
  shows "(hit \<longleftrightarrow> i \<in> live_ids (children reg)) \<and>
    ends_exactly reason (live_tree (children reg) i) reg reg'"
  using reg_cancel_exact [OF reg_inv.inv_reachable [OF assms(1)] assms(2)] .

section \<open>Accounting of the children's spend\<close>

datatype bucket = InputTokens | OutputTokens

fun tokens :: "bucket \<Rightarrow> usage_buckets \<Rightarrow> nat" where
  "tokens InputTokens u = unat (ub_input u)"
| "tokens OutputTokens u = unat (ub_output u)"

fun event_tokens :: "bucket \<Rightarrow> string \<Rightarrow> lifecycle_event \<Rightarrow> nat" where
  "event_tokens b chat (TokenUsage c i cached out) =
     (if c = chat then tokens b \<lparr>ub_input = i, ub_cached = cached, ub_output = out\<rparr> else 0)"
| "event_tokens b chat _ = 0"

text \<open>What the turns' streams were told about a conversation, over all channels.\<close>

definition told :: "bucket \<Rightarrow> string \<Rightarrow> channel list \<Rightarrow> nat" where
  "told b chat chans = (\<Sum>ch\<leftarrow>chans. \<Sum>ev\<leftarrow>ch_events ch. event_tokens b chat ev)"

definition chat_sum :: "(child_usage \<Rightarrow> nat) \<Rightarrow> string \<Rightarrow> child_entry list \<Rightarrow> nat" where
  "chat_sum f chat es = (\<Sum>e\<leftarrow>es. if entry_parent e = chat then f (ce_usage e) else 0)"

text \<open>What the children of a conversation spent along a run.\<close>

fun op_tokens :: "bucket \<Rightarrow> string \<Rightarrow> registry_op \<Rightarrow> nat" where
  "op_tokens b chat (RNote child c u) = (if c = chat then tokens b u else 0)"
| "op_tokens b chat _ = 0"

definition noted :: "bucket \<Rightarrow> string \<Rightarrow> registry_op list \<Rightarrow> nat" where
  "noted b chat ops = (\<Sum>opn\<leftarrow>ops. op_tokens b chat opn)"

text \<open>
  How the child's loop calls the registry: usage is noted for a registered child under the
  conversation that spawned it, a published record carries the spec it was registered with, and no
  usage is noted while the attached turn has already hung up.
\<close>

fun op_fair :: "sub_registry \<Rightarrow> registry_op \<Rightarrow> bool" where
  "op_fair reg (RNote child chat u) \<longleftrightarrow>
     (\<exists>e\<in>set (children reg). subid (entry_id e) = child \<and> entry_parent e = chat) \<and>
     (case events reg of Some i \<Rightarrow> ch_open (channels reg ! i) | None \<Rightarrow> True)"
| "op_fair reg (RPublish now r) \<longleftrightarrow>
     (\<forall>e\<in>set (children reg). entry_id e = sp_id (rec_spec r) \<longrightarrow>
        entry_parent e = sp_parent_chat_id (rec_spec r))"
| "op_fair reg _ \<longleftrightarrow> True"

fun fair_run :: "sub_registry \<Rightarrow> registry_op list \<Rightarrow> bool" where
  "fair_run reg [] \<longleftrightarrow> True"
| "fair_run reg (opn # ops) \<longleftrightarrow> op_fair reg opn \<and> fair_run (registry_exec opn reg) ops"

definition spend_ok :: "bucket \<Rightarrow> (string \<Rightarrow> nat) \<Rightarrow> sub_registry \<Rightarrow> bool" where
  "spend_ok b spent reg \<longleftrightarrow>
     ids_unique (children reg) \<and>
     (\<forall>i. events reg = Some i \<longrightarrow> i < length (channels reg)) \<and>
     (\<forall>e\<in>set (children reg).
        tokens b (cu_reported (ce_usage e)) \<le> tokens b (cu_total (ce_usage e))) \<and>
     (\<forall>chat. told b chat (channels reg) =
        chat_sum (\<lambda>u. tokens b (cu_reported u)) chat (children reg)) \<and>
     (\<forall>chat. spent chat = chat_sum (\<lambda>u. tokens b (cu_total u)) chat (children reg))"

lemma tokens_since: "tokens b (buckets_since x y) = tokens b x - tokens b y"
  by (cases b) (simp_all add: buckets_since_def unat_saturating_sub)

lemma tokens_zero: "buckets_is_zero x \<Longrightarrow> tokens b x = 0" "tokens b buckets_zero = 0"
  by (cases b; simp add: buckets_is_zero_def buckets_zero_def)+

lemma tokens_fold:
  "tokens b x + tokens b y < 2 ^ 64 \<Longrightarrow> tokens b (buckets_fold x y) = tokens b x + tokens b y"
  by (cases b) (simp_all add: buckets_fold_def unat_saturating_add)

lemma told_send:
  "told b chat (send i ev chans) =
     told b chat chans + (if i < length chans \<and> ch_open (chans ! i) then event_tokens b chat ev else 0)"
proof (cases "i < length chans \<and> ch_open (chans ! i)")
  case True
  let ?f = "\<lambda>ch. \<Sum>ev\<leftarrow>ch_events ch. event_tokens b chat ev"
  have "?f (chans ! i) \<le> sum_list (map ?f chans)"
    using True by (intro elem_le_sum_list [of i "map ?f chans", simplified]) simp
  then show ?thesis
    using True by (simp add: told_def send_def map_update sum_list_update)
qed (auto simp: send_def)

lemma told_emit:
  assumes "\<And>chat. event_tokens b chat ev = 0"
  shows "told b chat (channels (emit ev reg)) = told b chat (channels reg)"
  using assms by (auto simp: emit_def told_send split: option.split)

lemma length_send [simp]: "length (send i ev chans) = length chans"
  by (simp add: send_def)

lemma length_emit [simp]: "length (channels (emit ev reg)) = length (channels reg)"
  by (simp add: emit_def split: option.split)

lemma length_emit_all [simp]: "length (channels (emit_all evs reg)) = length (channels reg)"
  by (induction evs arbitrary: reg) (auto simp: emit_all_def)

lemma usage_event_tokens:
  "event_tokens b c (subagent_token_usage chat u) = (if chat = c then tokens b u else 0)"
  by (cases b) (simp_all add: subagent_token_usage_def)

lemma told_emit_all:
  "(\<And>ev chat. ev \<in> set evs \<Longrightarrow> event_tokens b chat ev = 0) \<Longrightarrow>
   told b chat (channels (emit_all evs reg)) = told b chat (channels reg)"
  by (induction evs arbitrary: reg) (auto simp: emit_all_def told_emit)

lemma finished_tokens: "subagent_finished r = Some ev \<Longrightarrow> event_tokens b chat ev = 0"
  by (auto simp: subagent_finished_def split: prod.splits)

lemma progress_tokens: "event_tokens b chat (subagent_progress now r) = 0"
  by (simp add: subagent_progress_def split: prod.split)

lemma publish_events_tokens: "ev \<in> set (publish_events now r) \<Longrightarrow> event_tokens b chat ev = 0"
  by (auto simp: publish_events_def progress_tokens finished_tokens split: if_splits option.splits)

abbreviation same_usage :: "child_entry \<Rightarrow> child_entry \<Rightarrow> bool" where
  "same_usage e e' \<equiv> entry_id e' = entry_id e \<and> entry_parent e' = entry_parent e \<and> ce_usage e' = ce_usage e"

definition reported_below :: "bucket \<Rightarrow> child_entry list \<Rightarrow> bool" where
  "reported_below b es \<longleftrightarrow>
     list_all (\<lambda>e. tokens b (cu_reported (ce_usage e)) \<le> tokens b (cu_total (ce_usage e))) es"

lemma spend_okI:
  assumes "ids_unique (children reg)" "reported_below b (children reg)"
    "\<forall>i. events reg = Some i \<longrightarrow> i < length (channels reg)"
    "\<And>chat. told b chat (channels reg) = chat_sum (\<lambda>u. tokens b (cu_reported u)) chat (children reg)"
    "\<And>chat. spent chat = chat_sum (\<lambda>u. tokens b (cu_total u)) chat (children reg)"
  shows "spend_ok b spent reg"
  using assms by (simp add: spend_ok_def reported_below_def list_all_iff)

lemma spend_okD:
  assumes "spend_ok b spent reg"
  shows "ids_unique (children reg)" "reported_below b (children reg)"
    "\<forall>i. events reg = Some i \<longrightarrow> i < length (channels reg)"
    "told b chat (channels reg) = chat_sum (\<lambda>u. tokens b (cu_reported u)) chat (children reg)"
    "spent chat = chat_sum (\<lambda>u. tokens b (cu_total u)) chat (children reg)"
  using assms by (simp_all add: spend_ok_def reported_below_def list_all_iff)

lemma chat_sum_simps [simp]:
  "chat_sum f chat [] = 0"
  "chat_sum f chat (e # es) = (if entry_parent e = chat then f (ce_usage e) else 0) + chat_sum f chat es"
  "chat_sum f chat (es @ es') = chat_sum f chat es + chat_sum f chat es'"
  by (simp_all add: chat_sum_def)

lemma chat_sum_same: "list_all2 same_usage es es' \<Longrightarrow> chat_sum f chat es' = chat_sum f chat es"
  by (induction rule: list_all2_induct) auto

lemma reported_below_same: "list_all2 same_usage es es' \<Longrightarrow> reported_below b es' = reported_below b es"
  by (induction rule: list_all2_induct) (auto simp: reported_below_def)

lemma spend_quiet:
  assumes ok: "spend_ok b spent reg" and es: "list_all2 same_usage (children reg) (children reg')"
    and "events reg' = events reg" "length (channels reg') = length (channels reg)"
    and "\<And>chat. told b chat (channels reg') = told b chat (channels reg)"
  shows "spend_ok b spent reg'"
proof (rule spend_okI)
  show "ids_unique (children reg')"
    using unique_same_ids [OF all2_ids [OF es]] spend_okD(1) [OF ok] by simp
  show "reported_below b (children reg')"
    using reported_below_same [OF es] spend_okD(2) [OF ok] by simp
qed (use assms(3-5) spend_okD(3-5) [OF ok] chat_sum_same [OF es] in simp_all)

lemma chat_sum_upd_first:
  assumes "\<exists>e\<in>set es. P e"
    and "\<And>e. e \<in> set es \<Longrightarrow> P e \<Longrightarrow> entry_parent e = c \<and> entry_parent (g e) = c \<and>
      f (ce_usage (g e)) = f (ce_usage e) + d"
  shows "chat_sum f chat (upd_first P g es) = chat_sum f chat es + (if chat = c then d else 0)"
  using assms
proof (induction es)
  case (Cons e es)
  show ?case
  proof (cases "P e")
    case True
    with Cons(3) [of e] show ?thesis by simp
  next
    case False
    with Cons have "chat_sum f chat (upd_first P g es) = chat_sum f chat es + (if chat = c then d else 0)"
      by (intro Cons(1)) auto
    with False show ?thesis by simp
  qed
qed simp

lemma entry_le_chat_sum: "e \<in> set es \<Longrightarrow> f (ce_usage e) \<le> chat_sum f (entry_parent e) es"
  by (induction es) auto

text \<open>The pass that settles what is owed: reported catches up with the total, by the events sent.\<close>

lemma settle_owed_spend:
  "reported_below b es \<Longrightarrow>
   list_all2 (\<lambda>e e'. entry_id e' = entry_id e \<and> entry_parent e' = entry_parent e \<and>
      cu_total (ce_usage e') = cu_total (ce_usage e) \<and>
      tokens b (cu_reported (ce_usage e')) = tokens b (cu_total (ce_usage e))) es (fst (settle_owed es)) \<and>
   chat_sum (\<lambda>u. tokens b (cu_reported u)) c es +
     (\<Sum>ev\<leftarrow>snd (settle_owed es). event_tokens b c ev) = chat_sum (\<lambda>u. tokens b (cu_total u)) c es"
proof (induction es)
  case (Cons e es)
  let ?owed = "buckets_since (cu_total (ce_usage e)) (cu_reported (ce_usage e))"
  have le: "tokens b (cu_reported (ce_usage e)) \<le> tokens b (cu_total (ce_usage e))"
    and IH: "reported_below b es" using Cons(2) by (simp_all add: reported_below_def)
  have z: "tokens b (cu_total (ce_usage e)) = tokens b (cu_reported (ce_usage e))"
    if "buckets_is_zero ?owed"
    using tokens_zero(1) [OF that, of b] le by (simp add: tokens_since)
  have ev: "event_tokens b c (subagent_token_usage (entry_parent e) ?owed) =
      (if entry_parent e = c
       then tokens b (cu_total (ce_usage e)) - tokens b (cu_reported (ce_usage e)) else 0)"
    by (simp add: usage_event_tokens tokens_since)
  show ?case
    using Cons(1) [OF IH] z ev le
    by (auto simp: Let_def case_prod_unfold entry_id_def entry_parent_def)
qed simp

lemma chat_sum_all2:
  "list_all2 (\<lambda>e e'. entry_parent e' = entry_parent e \<and> f (ce_usage e') = g (ce_usage e)) es es' \<Longrightarrow>
   chat_sum f chat es' = chat_sum g chat es"
  by (induction rule: list_all2_induct) auto

lemma spend_attach:
  assumes ok: "spend_ok b spent reg"
  shows "spend_ok b spent (snd (attach_event_sink reg))"
    and "told b chat (channels (snd (attach_event_sink reg))) = spent chat"
proof -
  let ?es = "children reg" and ?es' = "fst (settle_owed (children reg))"
  let ?reg = "snd (attach_event_sink reg)"
  have ch: "children ?reg = ?es'" "events ?reg = Some (length (channels reg))"
    "channels ?reg = channels reg @ [\<lparr>ch_open = True, ch_events = snd (settle_owed ?es)\<rparr>]"
    by (simp_all add: attach_event_sink_def Let_def case_prod_unfold)
  note s = settle_owed_spend [OF spend_okD(2) [OF ok]]
  have t: "chat_sum (\<lambda>u. tokens b (cu_total u)) c ?es' = chat_sum (\<lambda>u. tokens b (cu_total u)) c ?es"
    "chat_sum (\<lambda>u. tokens b (cu_reported u)) c ?es' = chat_sum (\<lambda>u. tokens b (cu_total u)) c ?es" for c
    by (rule chat_sum_all2, rule list.rel_mono_strong [OF s [THEN conjunct1]], simp)+
  have told: "told b c (channels ?reg) = chat_sum (\<lambda>u. tokens b (cu_total u)) c ?es" for c
    using spend_okD(4) [OF ok, of c] s [THEN conjunct2, of c] by (simp add: told_def ch)
  then show "told b chat (channels ?reg) = spent chat" using spend_okD(5) [OF ok] by simp
  have below: "reported_below b ?es'"
    using s [THEN conjunct1] unfolding reported_below_def
    by (auto simp: list_all_length list_all2_conv_all_nth)
  have "map entry_id ?es' = map entry_id ?es" by (rule all2_ids [OF s [THEN conjunct1]]) simp
  then have "ids_unique ?es'" using unique_same_ids spend_okD(1) [OF ok] by blast
  with below told t spend_okD(5) [OF ok] show "spend_ok b spent ?reg"
    by (intro spend_okI) (simp_all add: ch)
qed

lemma spend_register:
  assumes ok: "spend_ok b spent reg"
  shows "spend_ok b spent (register r c reg)"
proof (cases "\<exists>e\<in>set (children reg). entry_id e = sp_id (rec_spec r)")
  case True
  with ok show ?thesis by (simp add: register_def)
next
  case False
  have "event_tokens b chat (subagent_spawned r) = 0" for chat by (simp add: subagent_spawned_def)
  note t = told_emit [OF this]
  show ?thesis
    using False spend_okD [OF ok]
    by (intro spend_okI) (auto simp: register_def t ids_unique_def reported_below_def tokens_zero image_iff)
qed

lemma ends_same_usage:
  "ends_exactly reason A reg reg' \<Longrightarrow> list_all2 same_usage (children reg) (children reg')"
  unfolding ends_exactly_def
  by (elim conjE, erule list.rel_mono_strong) (auto split: if_splits)

lemma spend_ends:
  assumes ok: "spend_ok b spent reg" and e: "ends_exactly reason A reg reg'"
  shows "spend_ok b spent reg'"
proof -
  obtain rs evs where evs: "map Some evs = map subagent_finished rs"
    and reg': "reg' = emit_all evs (reg\<lparr>children := children reg'\<rparr>)"
    using e by (auto simp: ends_exactly_def)
  have z: "event_tokens b chat ev = 0" if "ev \<in> set evs" for ev chat
  proof -
    have "Some ev \<in> set (map Some evs)" using that by simp
    then show ?thesis unfolding evs using finished_tokens by fastforce
  qed
  let ?reg = "emit_all evs (reg\<lparr>children := children reg'\<rparr>)"
  have "spend_ok b spent ?reg"
    using ends_same_usage [OF e] by (intro spend_quiet [OF ok]) (simp_all add: told_emit_all z)
  with reg' show ?thesis by simp
qed

lemma spend_note:
  assumes ok: "spend_ok b spent reg" and fair: "op_fair reg (RNote child chat u)"
    and small: "spent chat + tokens b u < 2 ^ 64"
  shows "spend_ok b (\<lambda>c. spent c + op_tokens b c (RNote child chat u)) (note_child_usage child chat u reg)"
proof -
  let ?P = "\<lambda>e. subid (entry_id e) = child"
  define g where "g = (\<lambda>e :: child_entry. e\<lparr>ce_usage :=
    \<lparr>cu_total = buckets_fold (cu_total (ce_usage e)) u,
     cu_reported = (if events reg \<noteq> None then buckets_fold (cu_reported (ce_usage e)) u
                    else cu_reported (ce_usage e))\<rparr>\<rparr>)"
  let ?reg = "note_child_usage child chat u reg" and ?es' = "upd_first ?P g (children reg)"
  have ch: "children ?reg = ?es'" "events ?reg = events reg" "length (channels ?reg) = length (channels reg)"
    by (auto simp: note_child_usage_def Let_def g_def split: option.split)
  obtain e0 where e0: "e0 \<in> set (children reg)" "?P e0" "entry_parent e0 = chat" using fair by auto
  have only: "e = e0" if "e \<in> set (children reg)" "?P e" for e
    using that e0 spend_okD(1) [OF ok] subagent_id.expand
    by (metis (mono_tags, lifting) distinct_map ids_unique_def inj_on_eq_iff)
  have below: "tokens b (cu_reported (ce_usage e0)) \<le> tokens b (cu_total (ce_usage e0))"
    using spend_okD(2) [OF ok] e0 by (simp add: reported_below_def list_all_iff)
  have "tokens b (cu_total (ce_usage e0)) \<le> spent chat"
    using entry_le_chat_sum [OF e0(1), of "\<lambda>u. tokens b (cu_total u)"] e0(3) spend_okD(5) [OF ok]
    by simp
  then have fold: "tokens b (buckets_fold (cu_total (ce_usage e0)) u) = tokens b (cu_total (ce_usage e0)) + tokens b u"
    "tokens b (buckets_fold (cu_reported (ce_usage e0)) u) = tokens b (cu_reported (ce_usage e0)) + tokens b u"
    using small below by (auto intro!: tokens_fold)
  let ?d = "if events reg \<noteq> None then tokens b u else 0"
  have sums: "chat_sum (\<lambda>u. tokens b (cu_total u)) c ?es' =
      chat_sum (\<lambda>u. tokens b (cu_total u)) c (children reg) + (if c = chat then tokens b u else 0)"
    "chat_sum (\<lambda>u. tokens b (cu_reported u)) c ?es' =
      chat_sum (\<lambda>u. tokens b (cu_reported u)) c (children reg) + (if c = chat then ?d else 0)" for c
    using e0 only fold by (intro chat_sum_upd_first; force simp: g_def entry_parent_def)+
  have told: "told b c (channels ?reg) = told b c (channels reg) + (if c = chat then ?d else 0)" for c
    using fair spend_okD(3) [OF ok]
    by (auto simp: note_child_usage_def Let_def told_send usage_event_tokens split: option.splits)
  have "list_all2 (\<lambda>e e'. entry_id e' = entry_id e \<and>
      (tokens b (cu_reported (ce_usage e)) \<le> tokens b (cu_total (ce_usage e)) \<longrightarrow>
       tokens b (cu_reported (ce_usage e')) \<le> tokens b (cu_total (ce_usage e')))) (children reg) ?es'"
    using only fold by (intro upd_first_all2) (force simp: g_def entry_id_def)+
  then have "ids_unique ?es'" "reported_below b ?es'"
    using spend_okD(1,2) [OF ok] unique_same_ids [OF all2_ids]
    by (blast, auto simp: reported_below_def list_all_length list_all2_conv_all_nth)
  then show ?thesis
    using spend_okD(3-5) [OF ok] by (intro spend_okI) (simp_all add: ch sums told)
qed

lemma spend_publish:
  assumes ok: "spend_ok b spent reg" and fair: "op_fair reg (RPublish now r)"
  shows "spend_ok b spent (publish now r reg)"
proof (cases "find (\<lambda>e. entry_id e = sp_id (rec_spec r)) (children reg)")
  case None
  with ok show ?thesis by (simp add: publish_def)
next
  case (Some e)
  let ?es = "upd_first (\<lambda>e. entry_id e = sp_id (rec_spec r)) (\<lambda>e. e\<lparr>ce_record := r\<rparr>) (children reg)"
  have "list_all2 same_usage (children reg) ?es"
    using fair by (intro upd_first_all2) (auto simp: entry_id_def entry_parent_def)
  then have "spend_ok b spent (emit_all (publish_events now r) (reg\<lparr>children := ?es\<rparr>))"
    by (intro spend_quiet [OF ok]) (simp_all add: told_emit_all publish_events_tokens)
  with Some ok show ?thesis by (simp add: publish_def)
qed

lemma spend_exec:
  assumes ok: "spend_ok b spent reg" and fair: "op_fair reg opn"
    and small: "\<And>c. spent c + op_tokens b c opn < 2 ^ 64"
  shows "spend_ok b (\<lambda>c. spent c + op_tokens b c opn) (registry_exec opn reg)"
proof (cases opn)
  case RAttach
  then show ?thesis using spend_attach(1) [OF ok] by simp
next
  case (RDrop i)
  have "told b c (channels (drop_receiver i reg)) = told b c (channels reg)" for c
    by (simp add: drop_receiver_def told_def list_update_map_same)
  then show ?thesis
    using RDrop by (auto intro!: spend_quiet [OF ok] simp: drop_receiver_def list.rel_refl)
next
  case (RNote child chat u)
  then show ?thesis using spend_note [OF ok, of child chat u] fair small [of chat] by simp
next
  case (RRegister r c)
  then show ?thesis using spend_register [OF ok] by simp
next
  case (RPublish now r)
  then show ?thesis using spend_publish [OF ok] fair by simp
next
  case (RCancel clock i reason)
  have "ends_exactly reason (live_tree (children reg) i) reg (snd (reg_cancel clock i reason reg))"
    using reg_cancel_exact [OF spend_okD(1) [OF ok]] by (metis prod.collapse)
  then show ?thesis using spend_ends [OF ok] RCancel by simp
next
  case (RCancelAll clock reason)
  then show ?thesis using spend_ends [OF ok reg_cancel_all_exact [OF spend_okD(1) [OF ok]]] by simp
qed

lemma spend_run:
  "spend_ok b spent reg \<Longrightarrow> fair_run reg ops \<Longrightarrow> (\<And>c. spent c + noted b c ops < 2 ^ 64) \<Longrightarrow>
   spend_ok b (\<lambda>c. spent c + noted b c ops) (registry_run ops reg)"
proof (induction ops arbitrary: spent reg)
  case (Cons opn ops)
  have "spent c + op_tokens b c opn < 2 ^ 64" for c
    using Cons(4) [of c] by (simp add: noted_def)
  then have "spend_ok b (\<lambda>c. spent c + op_tokens b c opn) (registry_exec opn reg)"
    using Cons(2,3) by (intro spend_exec) simp_all
  from Cons(1) [OF this] Cons(3,4) show ?case
    by (simp add: registry_run_def noted_def add.assoc)
qed (simp add: noted_def registry_run_def)

section \<open>Properties of the accounting, and concrete registries\<close>

text \<open>C34. No spend of a child is lost and none is told twice (\<open>SubAgentRegistry::note_child_usage\<close> and
  \<open>attach_event_sink\<close>). For a run of registry operations in which usage is noted for registered
  children under their conversation and never while the attached turn has hung up, once the next
  turn attaches the \<open>TokenUsage\<close> events of all turns together carry, for each conversation, exactly
  the tokens its children spent; before that they never carry more. The sums are exact as long as
  they fit in 64 bits.
\<close>

theorem registry_spend_told_once:
  assumes "fair_run registry_empty ops" and "\<And>c. noted b c ops < 2 ^ 64"
  shows "told b chat (channels (snd (attach_event_sink (registry_run ops registry_empty)))) =
      noted b chat ops \<and>
    told b chat (channels (registry_run ops registry_empty)) \<le> noted b chat ops"
proof -
  have "spend_ok b (\<lambda>c. 0) registry_empty"
    by (simp add: spend_ok_def registry_empty_def ids_unique_def told_def chat_sum_def)
  from spend_run [OF this assms(1)] assms(2)
  have ok: "spend_ok b (\<lambda>c. noted b c ops) (registry_run ops registry_empty)" by simp
  have "chat_sum (\<lambda>u. tokens b (cu_reported u)) chat es \<le> chat_sum (\<lambda>u. tokens b (cu_total u)) chat es"
    if "reported_below b es" for es
    using that by (induction es) (auto simp: reported_below_def intro: add_mono trans_le_add2)
  with spend_okD(2,4,5) [OF ok] spend_attach(2) [OF ok] show ?thesis by metis
qed

definition demo_child :: "string \<Rightarrow> string \<Rightarrow> subagent_record" where
  "demo_child i parent =
     begin_running (record_new 0
       (demo_spec\<lparr>sp_id := SubAgentId i, sp_parent_chat_id := parent, sp_run_in_background := True\<rparr>))"

definition demo_usage :: usage_buckets where
  "demo_usage = \<lparr>ub_input = 7, ub_cached = Some 2, ub_output = 3\<rparr>"

text \<open>A turn spawns \<open>a\<close>, which spawns \<open>b\<close>, which spawns \<open>c\<close>; \<open>d\<close> is a sibling of \<open>a\<close>.\<close>

definition demo_tree :: "registry_op list" where
  "demo_tree =
     [RAttach, RRegister (demo_child ''a'' ''main'') cancel_new,
      RRegister (demo_child ''b'' ''a'') cancel_new, RRegister (demo_child ''c'' ''b'') cancel_new,
      RRegister (demo_child ''d'' ''main'') cancel_new]"

lemma run_reachable: "registry_reachable (registry_run ops registry_empty)"
proof (induction ops rule: rev_induct)
  case Nil
  show ?case by (auto simp: registry_run_def intro: reachable_init)
next
  case (snoc opn ops)
  show ?case by (rule reachable_step [OF snoc]) (auto simp: registry_run_def)
qed

theorem registry_outcomes_final_witness:
  "let reg = registry_run (demo_tree @ [RCancel (\<lambda>k. 5) (SubAgentId ''c'') ''stop'']) registry_empty;
       reg' = registry_run [RPublish 6 (record_complete 6 ''done'' (demo_child ''c'' ''b''))] reg
   in records reg' ! 2 = records reg ! 2 \<and>
      rec_status (records reg' ! 2) = Cancelled ''stop''"
proof -
  let ?reg = "registry_run (demo_tree @ [RCancel (\<lambda>k. 5) (SubAgentId ''c'') ''stop'']) registry_empty"
  have "length (children ?reg) = 4" "rec_status (ce_record (children ?reg ! 2)) = Cancelled ''stop''"
    by code_simp+
  then show ?thesis
    using registry_outcomes_final [OF run_reachable, of "demo_tree @ [RCancel (\<lambda>k. 5) (SubAgentId ''c'') ''stop'']"
        "[RPublish 6 (record_complete 6 ''done'' (demo_child ''c'' ''b''))]"]
    by (simp add: Let_def records_def)
qed

theorem registry_cancel_ends_live_tree_witness:
  "let reg = registry_run demo_tree registry_empty;
       (hit, reg') = reg_cancel (\<lambda>k. 5 + int k) (SubAgentId ''a'') ''stop'' reg
   in hit \<and> ends_exactly ''stop'' (live_tree (children reg) (SubAgentId ''a'')) reg reg' \<and>
      map (status_kind \<circ> rec_status) (records reg') =
        [''cancelled'', ''cancelled'', ''cancelled'', ''running'']"
proof -
  let ?reg = "registry_run demo_tree registry_empty"
  let ?c = "reg_cancel (\<lambda>k. 5 + int k) (SubAgentId ''a'') ''stop'' ?reg"
  have "fst ?c" "map (status_kind \<circ> rec_status) (records (snd ?c)) =
      [''cancelled'', ''cancelled'', ''cancelled'', ''running'']"
    by code_simp+
  then show ?thesis
    using registry_cancel_ends_live_tree [OF run_reachable prod.collapse [symmetric],
        of "\<lambda>k. 5 + int k" "SubAgentId ''a''" "''stop''" demo_tree]
    by (simp add: Let_def case_prod_unfold)
qed

theorem registry_spend_told_once_witness:
  "let ops = demo_tree @ [RNote ''a'' ''main'' demo_usage, RNote ''d'' ''main'' demo_usage] in
   told InputTokens ''main'' (channels (snd (attach_event_sink (registry_run ops registry_empty)))) = 14"
proof -
  let ?ops = "demo_tree @ [RNote ''a'' ''main'' demo_usage, RNote ''d'' ''main'' demo_usage]"
  have "fair_run registry_empty ?ops" by code_simp
  moreover have "noted InputTokens c ?ops < 2 ^ 64" "noted InputTokens ''main'' ?ops = 14" for c
    by (auto simp: noted_def demo_tree_def demo_usage_def)
  ultimately show ?thesis
    using registry_spend_told_once [of ?ops InputTokens "''main''"] by (simp add: Let_def)
qed

text \<open>A model call a child makes after its turn has ended, before another turn attaches, is never told
  to anyone: nothing clears the registry's sender when the turn's receiver is dropped, so the call is
  marked as reported and its event is lost. The comment of \<open>note_child_usage\<close> says that such a call
  waits on the entry for the next attach.
\<close>

theorem spend_after_turn_end_is_lost:
  "let ops = demo_tree @ [RDrop 0, RNote ''a'' ''main'' demo_usage];
       reg = registry_run ops registry_empty
   in noted InputTokens ''main'' ops = 7 \<and>
      told InputTokens ''main'' (channels (snd (attach_event_sink reg))) = 0 \<and>
      cu_reported (ce_usage (hd (children reg))) = cu_total (ce_usage (hd (children reg)))"
  by code_simp

text \<open>Cancelling a child does not stop what a descendant that has already ended left running: with \<open>a\<close>
  the parent of \<open>b\<close> and \<open>b\<close> the parent of a background child \<open>c\<close>, once \<open>b\<close> has completed a cancel of
  \<open>a\<close> leaves \<open>c\<close> running, although the comment of \<open>SubAgentRegistry::cancel\<close> promises to stop the
  child and everything it spawned.
\<close>

theorem cancel_skips_orphaned_grandchild:
  "let reg = registry_run (demo_tree @ [RPublish 4 (record_complete 4 ''ok'' (demo_child ''b'' ''a''))])
         registry_empty;
       (hit, reg') = reg_cancel (\<lambda>k. 5) (SubAgentId ''a'') ''stop'' reg
   in hit \<and> map (status_kind \<circ> rec_status) (records reg') =
      [''cancelled'', ''completed'', ''running'', ''running'']"
  by code_simp

end
