(* ===== verification/Chat_Store.thy ===== *)
theory Chat_Store
  imports Subagent_Registry Rust_Text
begin

text \<open>
  The conversations of the core store (\<open>crates/goble-core/src/store/chats.rs\<close>, \<open>missions.rs\<close>) and the
  messages made of them (\<open>crates/goble-core/src/llm/types.rs\<close>, \<open>harness/types.rs\<close>): message rows with the
  calls an agent planned, missions and their reasoning steps, the questions and the commands that wait
  for the user. A statement of the store may fail: \<open>fault\<close> says when, and with which message.
\<close>

section \<open>Messages and rows\<close>

datatype tool_call_status = CallPending | CallRunning | CallFinished | CallError

text \<open>The arguments of a call are kept as their JSON text.\<close>

record llm_tool_call =
  lc_id :: string
  lc_name :: string
  lc_arguments :: string

record chat_tool_call =
  ct_id :: string
  ct_name :: string
  ct_arguments :: string
  ct_status :: tool_call_status
  ct_result :: "string option"
  ct_diff :: "string option"

definition planned :: "llm_tool_call \<Rightarrow> chat_tool_call" where
  "planned call = \<lparr>ct_id = lc_id call, ct_name = lc_name call, ct_arguments = lc_arguments call,
     ct_status = CallPending, ct_result = None, ct_diff = None\<rparr>"

datatype role = RoleSystem | RoleUser | RoleAssistant | RoleTool

record message =
  msg_role :: role
  msg_content :: string
  msg_tool_calls :: "llm_tool_call list option"
  msg_tool_call_id :: "string option"
  msg_tool_status :: "tool_call_status option"
  msg_reasoning_content :: "string option"

definition plain_message :: "role \<Rightarrow> string \<Rightarrow> message" where
  "plain_message role content = \<lparr>msg_role = role, msg_content = content, msg_tool_calls = None,
     msg_tool_call_id = None, msg_tool_status = None, msg_reasoning_content = None\<rparr>"

record completion_response =
  cr_content :: string
  cr_tool_calls :: "llm_tool_call list"
  cr_usage :: "usage_buckets option"

text \<open>A row of a conversation. The column of calls is kept as the value its JSON text encodes.\<close>

record chat_row =
  cw_id :: string
  cw_chat :: string
  cw_role :: string
  cw_content :: string
  cw_calls :: "chat_tool_call list option"
  cw_reasoning :: "string option"
  cw_created_at :: timestamp

section \<open>The prompt and the tools of the harness\<close>

definition HARNESS_SYSTEM_PROMPT :: string where
  "HARNESS_SYSTEM_PROMPT =
      ''You are an assistant that controls a local Goble agent environment.'' @
      [CHR 0x0A] @
      ''You can create/update agents, workflows and teams, run shell commands, read/write files, search '' @
      ''the store, deploy agents/workflows to workers, schedule workflows, and check execution status.'' @
      [CHR 0x0A] @
      ''Use memory_write to record goals, decisions, constraints and progress into an agent's '' @
      ''persistent memory; use memory_read to review what an agent already knows. Memory survives '' @
      ''conversation summarization.'' @
      [CHR 0x0A] @
      ''Only call a tool when the user explicitly asks for an action you can perform with a tool.'' @
      [CHR 0x0A] @
      ''If no tool is needed, reply conversationally.'' @
      [CHR 0x0A] @
      ''There is a user guide for this product at ~/.goble/docs/user-guide. For questions about how to '' @
      ''set up or use Goble (credentials, workspaces, principals, remote/self-as-worker access, '' @
      ''reaching this machine from the mobile app via Tailscale), call the user_guide tool to look up '' @
      ''the relevant topic before answering.'' @
      [CHR 0x0A] @
      ''When reading or writing files, paths must be inside the workspace directory unless the user '' @
      ''explicitly provides an absolute path.''"

text \<open>The names of the harness's tools, in the order of their definitions; the descriptions and schemas travel with them and nothing here reads them.\<close>

definition SPAWN_SUBAGENT_TOOL :: string where
  "SPAWN_SUBAGENT_TOOL = ''spawn_subagent''"

definition harness_tool_definitions :: "string list" where
  "harness_tool_definitions =
     [''create_agent'', ''update_agent'', ''create_workflow'', ''update_workflow'', ''create_team'',
      ''update_team'', ''run_command'', ''credentials'', ''principals'', ''user_guide'',
      ''search_store'', ''deploy_agent'', ''deploy_workflow'', ''schedule_workflow'',
      ''get_execution_status'', ''read_file'', ''write_file'', ''delete_agent'', ''delete_workflow'',
      ''delete_team'', ''rename_file'', ''delete_file'', ''git_status'', ''git_diff'', ''git_commit'',
      ''codebase_search'', ''install_mcp_server'', ''delete_mcp_server'', ''update_mcp_server'',
      ''search_mcp_servers'', ''discover_mcp_tools'', ''web_search'', ''read_url'', ''run_agent'',
      SPAWN_SUBAGENT_TOOL, ''edit_file'', ''memory_write'', ''memory_read'']"

section \<open>The tables\<close>

datatype thinking_mode = Direct | Contemplating | Ruminating | Baking | Reflecting | Verifying
  | Debugging | Synthesizing | Planning

datatype reasoning_decision = DecideContinue | DecideExecute | DecideAskUser | DecideDone

record mission_row =
  mr_id :: string
  mr_chat :: string
  mr_goal :: string
  mr_status :: string
  mr_plan :: "string option"
  mr_workflow :: "string option"
  mr_created_at :: timestamp
  mr_updated_at :: timestamp

text \<open>A row of a reasoning step; the mode is its name, the decision and the calls are what their JSON text encodes.\<close>

record step_row =
  sr_id :: string
  sr_mission :: string
  sr_index :: nat
  sr_mode :: string
  sr_content :: string
  sr_decision :: reasoning_decision
  sr_calls :: "llm_tool_call list"
  sr_created_at :: timestamp

record ask_row =
  ar_id :: string
  ar_chat :: string
  ar_mission :: "string option"
  ar_question :: string
  ar_replies :: string
  ar_status :: string
  ar_created_at :: timestamp
  ar_updated_at :: timestamp

record command_row =
  cd_call :: string
  cd_chat :: string
  cd_message :: string
  cd_candidates :: "string list"
  cd_cwd :: string
  cd_status :: string
  cd_created_at :: timestamp
  cd_updated_at :: timestamp

record chat_store =
  st_chats :: "(string \<times> timestamp) list"
  st_rows :: "chat_row list"
  st_missions :: "mission_row list"
  st_steps :: "step_row list"
  st_asks :: "ask_row list"
  st_commands :: "command_row list"
  st_credentials :: "(string \<times> string) list"

type_synonym fault = "chat_store \<Rightarrow> string option"
type_synonym statement = "chat_store \<Rightarrow> (string \<times> chat_store, chat_store) result"

definition execute :: "(chat_store \<Rightarrow> chat_store) \<Rightarrow> fault \<Rightarrow> statement" where
  "execute f fault s = (case fault s of Some e \<Rightarrow> Err (e, s) | None \<Rightarrow> Ok (f s))"

definition query :: "(chat_store \<Rightarrow> 'a) \<Rightarrow> fault \<Rightarrow> chat_store \<Rightarrow> (string, 'a) result" where
  "query f fault s = (case fault s of Some e \<Rightarrow> Err e | None \<Rightarrow> Ok (f s))"

text \<open>\<open>INSERT ... ON CONFLICT DO UPDATE\<close>: the row with the key of the new one becomes \<open>merge old new\<close>.\<close>

definition upsert :: "('a \<Rightarrow> 'k) \<Rightarrow> ('a \<Rightarrow> 'a \<Rightarrow> 'a) \<Rightarrow> 'a \<Rightarrow> 'a list \<Rightarrow> 'a list" where
  "upsert key merge x xs =
     (if key x \<in> key ` set xs then map (\<lambda>y. if key y = key x then merge y x else y) xs else xs @ [x])"

section \<open>Message rows\<close>

text \<open>The two statements of an insertion: the row, whose id is a primary key, then the time of its conversation.\<close>

definition insert_chat_message :: "chat_row \<Rightarrow> fault \<Rightarrow> statement" where
  "insert_chat_message row fault s =
     (case fault s of
        Some e \<Rightarrow> Err (e, s)
      | None \<Rightarrow>
          if cw_id row \<in> cw_id ` set (st_rows s)
          then Err (''UNIQUE constraint failed: chat_messages.id'', s)
          else
            execute (\<lambda>s. s\<lparr>st_chats :=
                map (\<lambda>(i, t). if i = cw_chat row then (i, cw_created_at row) else (i, t)) (st_chats s)\<rparr>)
              fault (s\<lparr>st_rows := st_rows s @ [row]\<rparr>))"

definition chat_rows :: "string \<Rightarrow> chat_store \<Rightarrow> chat_row list" where
  "chat_rows chat s = filter (\<lambda>r. cw_chat r = chat) (st_rows s)"

text \<open>The rows in the order of their time; rows of one instant stay in the order of their insertion,
  which is what SQLite does here though the statement's \<open>ORDER BY created_at\<close> does not ask for it.\<close>

definition list_chat_messages :: "string \<Rightarrow> fault \<Rightarrow> chat_store \<Rightarrow> (string, chat_row list) result" where
  "list_chat_messages chat = query (\<lambda>s. sort_key cw_created_at (chat_rows chat s))"

definition update_row :: "string \<Rightarrow> (chat_row \<Rightarrow> chat_row) \<Rightarrow> fault \<Rightarrow> statement" where
  "update_row i f = execute (\<lambda>s. s\<lparr>st_rows := map (\<lambda>r. if cw_id r = i then f r else r) (st_rows s)\<rparr>)"

definition append_chat_message_content :: "string \<Rightarrow> string \<Rightarrow> fault \<Rightarrow> statement" where
  "append_chat_message_content i delta = update_row i (\<lambda>r. r\<lparr>cw_content := cw_content r @ delta\<rparr>)"

definition set_chat_message_tool_calls :: "string \<Rightarrow> chat_tool_call list \<Rightarrow> fault \<Rightarrow> statement" where
  "set_chat_message_tool_calls i calls = update_row i (\<lambda>r. r\<lparr>cw_calls := Some calls\<rparr>)"

definition set_chat_message_reasoning :: "string \<Rightarrow> string \<Rightarrow> fault \<Rightarrow> statement" where
  "set_chat_message_reasoning i reasoning = update_row i (\<lambda>r. r\<lparr>cw_reasoning := Some reasoning\<rparr>)"

definition list_chat_message_reasoning ::
  "string \<Rightarrow> fault \<Rightarrow> chat_store \<Rightarrow> (string, (string \<times> string) list) result" where
  "list_chat_message_reasoning chat =
     query (\<lambda>s. List.map_filter (\<lambda>r.
       case cw_reasoning r of
         None \<Rightarrow> None
       | Some t \<Rightarrow> if t = [] then None else Some (cw_id r, t)) (chat_rows chat s))"

section \<open>Missions, questions and proposals\<close>

definition insert_mission :: "mission_row \<Rightarrow> fault \<Rightarrow> statement" where
  "insert_mission row =
     execute (\<lambda>s. s\<lparr>st_missions :=
       upsert mr_id (\<lambda>old new. new\<lparr>mr_created_at := mr_created_at old\<rparr>) row (st_missions s)\<rparr>)"

definition list_missions :: "fault \<Rightarrow> chat_store \<Rightarrow> (string, mission_row list) result" where
  "list_missions = query (\<lambda>s. sort_key (\<lambda>m. - mr_updated_at m) (st_missions s))"

definition insert_reasoning_step :: "step_row \<Rightarrow> fault \<Rightarrow> statement" where
  "insert_reasoning_step row =
     execute (\<lambda>s. s\<lparr>st_steps := upsert sr_id (\<lambda>_ new. new) row (st_steps s)\<rparr>)"

definition list_reasoning_steps :: "string \<Rightarrow> fault \<Rightarrow> chat_store \<Rightarrow> (string, step_row list) result" where
  "list_reasoning_steps mission =
     query (\<lambda>s. sort_key sr_index (filter (\<lambda>r. sr_mission r = mission) (st_steps s)))"

definition insert_pending_ask :: "ask_row \<Rightarrow> fault \<Rightarrow> statement" where
  "insert_pending_ask row =
     execute (\<lambda>s. s\<lparr>st_asks :=
       upsert ar_id (\<lambda>old new. new\<lparr>ar_created_at := ar_created_at old\<rparr>) row (st_asks s)\<rparr>)"

text \<open>The newest question that waits, and the oldest command that does.\<close>

definition first_of :: "'a list \<Rightarrow> 'a option" where
  "first_of xs = (case xs of [] \<Rightarrow> None | x # _ \<Rightarrow> Some x)"

definition get_pending_ask :: "string \<Rightarrow> fault \<Rightarrow> chat_store \<Rightarrow> (string, ask_row option) result" where
  "get_pending_ask chat =
     query (\<lambda>s. first_of (sort_key (\<lambda>a. - ar_created_at a)
       (filter (\<lambda>a. ar_chat a = chat \<and> ar_status a = ''pending'') (st_asks s))))"

definition resolve_pending_ask :: "string \<Rightarrow> string \<Rightarrow> timestamp \<Rightarrow> fault \<Rightarrow> statement" where
  "resolve_pending_ask i status now =
     execute (\<lambda>s. s\<lparr>st_asks :=
       map (\<lambda>a. if ar_id a = i then a\<lparr>ar_status := status, ar_updated_at := now\<rparr> else a) (st_asks s)\<rparr>)"

definition insert_pending_command :: "command_row \<Rightarrow> fault \<Rightarrow> statement" where
  "insert_pending_command row =
     execute (\<lambda>s. s\<lparr>st_commands :=
       upsert cd_call (\<lambda>old new. new\<lparr>cd_created_at := cd_created_at old\<rparr>) row (st_commands s)\<rparr>)"

definition get_pending_command :: "string \<Rightarrow> fault \<Rightarrow> chat_store \<Rightarrow> (string, command_row option) result" where
  "get_pending_command chat =
     query (\<lambda>s. first_of (sort_key cd_created_at
       (filter (\<lambda>c. cd_chat c = chat \<and> cd_status c = ''pending'') (st_commands s))))"

definition resolve_pending_command :: "string \<Rightarrow> string \<Rightarrow> timestamp \<Rightarrow> fault \<Rightarrow> statement" where
  "resolve_pending_command call status now =
     execute (\<lambda>s. s\<lparr>st_commands :=
       map (\<lambda>c. if cd_call c = call then c\<lparr>cd_status := status, cd_updated_at := now\<rparr> else c) (st_commands s)\<rparr>)"

definition set_credential :: "string \<Rightarrow> string \<Rightarrow> fault \<Rightarrow> statement" where
  "set_credential name val = execute (\<lambda>s. s\<lparr>st_credentials := AList.update name val (st_credentials s)\<rparr>)"

section \<open>Answered histories\<close>

text \<open>The ids of the calls a history still owes an answer to: each call of an assistant message is answered by one
  tool message, in order, before anything else is said.\<close>

fun owed :: "string list \<Rightarrow> message list \<Rightarrow> string list option" where
  "owed ids [] = Some ids"
| "owed (i # ids) (x # xs) =
     (if msg_role x = RoleTool \<and> msg_tool_call_id x = Some i then owed ids xs else None)"
| "owed [] (x # xs) =
     (if msg_role x = RoleTool then None
      else owed (case msg_tool_calls x of None \<Rightarrow> [] | Some calls \<Rightarrow> map lc_id calls) xs)"

lemma owed_append: "owed ids (a @ b) = Option.bind (owed ids a) (\<lambda>ids. owed ids b)"
  by (induction ids a rule: owed.induct) auto

end
