(* ===== verification/Subagent_Run.thy ===== *)
theory Subagent_Run
  imports Subagent_Registry Chat_Store
begin

text \<open>
  A child's own loop (\<open>crates/goble-core/src/subagent_run/run.rs\<close>, \<open>host.rs\<close>): its conversation with the
  model, the tools it calls, the budget it charges before each action, the stop checks, and the task
  around it that always publishes an outcome. The model, the tools and the store's failures are
  parameters; each call of one may change the shared world in any way, which is what other tasks do
  while the child waits.
\<close>

section \<open>The world around a child\<close>

record child_world =
  w_registry :: sub_registry
  w_parent_cancel :: bool
  w_store :: chat_store
  w_now :: timestamp

datatype 'a ext = Fine 'a | Fails string | Panics string

record child_env =
  env_complete :: "child_world \<Rightarrow> message list \<Rightarrow> child_world \<times> completion_response ext"
  env_tool :: "child_world \<Rightarrow> llm_tool_call \<Rightarrow> child_world \<times> (string \<times> string option) ext"
  env_store_error :: "child_world \<Rightarrow> string option"
  env_mcp_tools :: "child_world \<Rightarrow> string list option"
  env_uuid :: "child_world \<Rightarrow> string"

text \<open>What the child asked of the outside, in order; a request carries the names of the tools it offers.\<close>

datatype child_effect = Requested "string list" "message list" | RanTool llm_tool_call

text \<open>A write to the conversation store from inside the world.\<close>

definition store_do ::
  "child_env \<Rightarrow> ((chat_store \<Rightarrow> string option) \<Rightarrow> chat_store \<Rightarrow> (string \<times> chat_store, chat_store) result) \<Rightarrow>
   child_world \<Rightarrow> (string \<times> child_world, child_world) result" where
  "store_do env op w =
     (case op (\<lambda>s. env_store_error env (w\<lparr>w_store := s\<rparr>)) (w_store w) of
        Err (e, s) \<Rightarrow> Err (e, w\<lparr>w_store := s\<rparr>)
      | Ok s \<Rightarrow> Ok (w\<lparr>w_store := s\<rparr>))"

text \<open>The stop bit of the child is the one its entry of the registry holds.\<close>

definition own_cancel :: "subagent_record \<Rightarrow> child_world \<Rightarrow> child_cancel" where
  "own_cancel r w =
     (case find (\<lambda>e. entry_id e = sp_id (rec_spec r)) (children (w_registry w)) of
        Some e \<Rightarrow> ce_cancel e
      | None \<Rightarrow> cancel_new)"

definition stop_check :: "subagent_record \<Rightarrow> child_world \<Rightarrow> bool \<times> subagent_record \<times> child_world" where
  "stop_check r w =
     (let (stop, r, reg) =
            stop_if_cancelled (w_now w) (w_parent_cancel w) (own_cancel r w) r (w_registry w)
      in (stop, r, w\<lparr>w_registry := reg\<rparr>))"

definition publish_in :: "subagent_record \<Rightarrow> child_world \<Rightarrow> child_world" where
  "publish_in r w = w\<lparr>w_registry := publish (w_now w) r (w_registry w)\<rparr>"

section \<open>The tools a child is offered\<close>

text \<open>The tools of the configured servers join when they can be read.\<close>

definition child_tool_definitions :: "u32 \<Rightarrow> string list option \<Rightarrow> string list" where
  "child_tool_definitions depth mcp_tools =
     (let tools = harness_tool_definitions;
          tools = (if \<not> can_spawn_subagent depth then filter (\<lambda>t. t \<noteq> SPAWN_SUBAGENT_TOOL) tools
                   else tools);
          tools = (case mcp_tools of None \<Rightarrow> tools | Some mcp \<Rightarrow> tools @ mcp)
      in tools @ [''mcp_call''])"

section \<open>The loop\<close>

definition estimate_tokens :: "completion_response \<Rightarrow> u64" where
  "estimate_tokens response =
     (let chars = char_count (cr_content response) +
        sum_list (map (\<lambda>c. char_count (lc_name c) + char_count (lc_arguments c)) (cr_tool_calls response))
      in word_of_nat ((chars + 3) div 4))"

definition child_system_prompt :: "subagent_spec \<Rightarrow> string" where
  "child_system_prompt spec =
     ''You are a sub-agent (type '' @ sp_subagent_type spec @ '') spawned for one routine: '' @
     sp_description spec @ ''.'' @ [CHR 0x0A] @ ''You work in your own directory ('' @ sp_cwd spec @
     '') and your own conversation; the agent that spawned you only sees your final reply.'' @
     [CHR 0x0A] @
     ''Use tools until the routine is done, then answer with the result as plain text.'' @
     [CHR 0x0A, CHR 0x0A] @ HARNESS_SYSTEM_PROMPT"

datatype step =
    Ended child_world subagent_record "string option"
  | Again child_world subagent_record "message list"

text \<open>The outcome of one tool call, its row and the update of the assistant's row; then the calls of a reply, one by one.\<close>

definition call_done ::
  "nat \<Rightarrow> tool_call_status \<Rightarrow> string \<Rightarrow> string option \<Rightarrow> chat_tool_call list \<Rightarrow> chat_tool_call list" where
  "call_done index status body diff calls =
     calls[index := (calls ! index)\<lparr>ct_status := status, ct_result := Some body, ct_diff := diff\<rparr>]"

fun call_outcome :: "(string \<times> string option) ext \<Rightarrow> tool_call_status \<times> string \<times> string option" where
  "call_outcome (Fine (output, diff)) = (CallFinished, output, diff)"
| "call_outcome (Fails e) = (CallError, e, None)"
| "call_outcome (Panics e) = (CallError, e, None)"

definition record_call ::
  "child_env \<Rightarrow> string \<Rightarrow> nat \<Rightarrow> llm_tool_call \<Rightarrow> (string \<times> string option) ext \<Rightarrow> subagent_record \<Rightarrow>
   chat_tool_call list \<Rightarrow> child_world \<Rightarrow>
   (string \<times> child_world, chat_tool_call list \<times> message \<times> child_world) result" where
  "record_call env i index call res r call_records w =
     (let (status, body, diff) = call_outcome res in
      case store_do env (insert_chat_message
        \<lparr>cw_id = env_uuid env w, cw_chat = chat_id r, cw_role = ''tool'',
         cw_content = lc_id call @ [CHR 0x0A] @ body, cw_calls = None, cw_reasoning = None, cw_created_at = w_now w\<rparr>) w of
        Err (e, w) \<Rightarrow> Err (''failed to record the child tool result: '' @ e, w)
      | Ok w \<Rightarrow>
          (let call_records = call_done index status body diff call_records in
           case store_do env (set_chat_message_tool_calls i call_records) w of
             Err (e, w) \<Rightarrow> Err (''failed to record the child tool status: '' @ e, w)
           | Ok w \<Rightarrow>
               Ok (call_records,
                 \<lparr>msg_role = RoleTool, msg_content = body, msg_tool_calls = None,
                  msg_tool_call_id = Some (lc_id call), msg_tool_status = Some status,
                  msg_reasoning_content = None\<rparr>, w)))"

fun tool_loop ::
  "child_env \<Rightarrow> string \<Rightarrow> nat \<Rightarrow> llm_tool_call list \<Rightarrow> chat_tool_call list \<Rightarrow> child_world \<Rightarrow>
   subagent_record \<Rightarrow> message list \<Rightarrow> child_effect list \<times> step" where
  "tool_loop env i index [] call_records w r history = ([], Again w r history)"
| "tool_loop env i index (call # calls) call_records w r history =
     (case stop_check r w of
        (True, r, w) \<Rightarrow> ([], Ended w r None)
      | (False, r, w) \<Rightarrow>
          (case charge_tool_call (w_now w) r of
             (Err _, r) \<Rightarrow> ([], Ended (publish_in r w) r None)
           | (Ok _, r) \<Rightarrow>
               (let r = set_activity (''running '' @ lc_name call) r;
                    w = publish_in r w in
                case env_tool env w call of
                  (w, Panics e) \<Rightarrow> ([RanTool call], Ended w r (Some e))
                | (w, res) \<Rightarrow>
                    (case record_call env i index call res r call_records w of
                       Err (e, w) \<Rightarrow> ([RanTool call], Ended w (record_fail (w_now w) e r) None)
                     | Ok (call_records, answer, w) \<Rightarrow>
                         (let (effs, s) =
                            tool_loop env i (index + 1) calls call_records w r (history @ [answer])
                          in (RanTool call # effs, s))))))"

text \<open>What follows a reply: the row, then the tools or the end.\<close>

definition act_on_reply ::
  "child_env \<Rightarrow> completion_response \<Rightarrow> child_world \<Rightarrow> subagent_record \<Rightarrow> message list \<Rightarrow>
   child_effect list \<times> step" where
  "act_on_reply env response w r history =
     (let i = env_uuid env w;
          call_records = map planned (cr_tool_calls response);
          calls = (if cr_tool_calls response = [] then None else Some (cr_tool_calls response)) in
      case store_do env (insert_chat_message
        \<lparr>cw_id = i, cw_chat = chat_id r, cw_role = ''assistant'', cw_content = cr_content response,
         cw_calls = (if call_records = [] then None else Some call_records),
         cw_reasoning = None, cw_created_at = w_now w\<rparr>) w of
        Err (e, w) \<Rightarrow>
          ([], Ended w (record_fail (w_now w) (''failed to record the child reply: '' @ e) r) None)
      | Ok w \<Rightarrow>
          (let history = history @
               [(plain_message RoleAssistant (cr_content response))\<lparr>msg_tool_calls := calls\<rparr>] in
           if cr_tool_calls response = []
           then ([], Ended w (record_complete (w_now w) (cr_content response) r) None)
           else tool_loop env i 0 (cr_tool_calls response) call_records w r history))"

definition note_usage :: "subagent_record \<Rightarrow> completion_response \<Rightarrow> child_world \<Rightarrow> child_world" where
  "note_usage r response w =
     (case cr_usage response of
        None \<Rightarrow> w
      | Some u \<Rightarrow>
          w\<lparr>w_registry := note_child_usage (subid (sp_id (rec_spec r))) (sp_parent_chat_id (rec_spec r)) u
              (w_registry w)\<rparr>)"

definition token_charge :: "completion_response \<Rightarrow> u64" where
  "token_charge response =
     (case cr_usage response of None \<Rightarrow> estimate_tokens response | Some u \<Rightarrow> ub_output u)"

definition child_iteration ::
  "child_env \<Rightarrow> string list \<Rightarrow> child_world \<Rightarrow> subagent_record \<Rightarrow> message list \<Rightarrow>
   child_effect list \<times> step" where
  "child_iteration env tools w r history =
     (case stop_check r w of
        (True, r, w) \<Rightarrow> ([], Ended w r None)
      | (False, r, w) \<Rightarrow>
          (case charge_turn (w_now w) r of
             (Err _, r) \<Rightarrow> ([], Ended (publish_in r w) r None)
           | (Ok _, r) \<Rightarrow>
               (let w = publish_in r w in
                case env_complete env w history of
                  (w, Panics e) \<Rightarrow> ([Requested tools history], Ended w r (Some e))
                | (w, Fails e) \<Rightarrow>
                    ([Requested tools history],
                     Ended w (record_fail (w_now w) (''sub-agent model call failed: '' @ e) r) None)
                | (w, Fine response) \<Rightarrow>
                    (let w = note_usage r response w in
                     case stop_check r w of
                       (True, r, w) \<Rightarrow> ([Requested tools history], Ended w r None)
                     | (False, r, w) \<Rightarrow>
                         (case charge_tokens (w_now w) (token_charge response) r of
                            (Err _, r) \<Rightarrow> ([Requested tools history], Ended (publish_in r w) r None)
                          | (Ok _, r) \<Rightarrow>
                              (let (effs, s) = act_on_reply env response w r history
                               in (Requested tools history # effs, s)))))))"

partial_function (option) child_loop ::
  "child_env \<Rightarrow> string list \<Rightarrow> child_world \<Rightarrow> subagent_record \<Rightarrow> message list \<Rightarrow>
   (child_effect list \<times> child_world \<times> subagent_record \<times> string option) option" where
  "child_loop env tools w r history =
     (case child_iteration env tools w r history of
        (effs, Ended w r p) \<Rightarrow> Some (effs, w, r, p)
      | (effs, Again w r history) \<Rightarrow>
          Option.bind (child_loop env tools w r history)
            (\<lambda>(effs', w, r, p). Some (effs @ effs', w, r, p)))"

definition run_child_turn ::
  "child_env \<Rightarrow> child_world \<Rightarrow> subagent_record \<Rightarrow>
   (child_effect list \<times> child_world \<times> subagent_record \<times> string option) option" where
  "run_child_turn env w r =
     (let spec = rec_spec r;
          tools = child_tool_definitions (sp_depth spec) (env_mcp_tools env w) in
      case store_do env (insert_chat_message
        \<lparr>cw_id = env_uuid env w, cw_chat = subid (sp_id spec), cw_role = ''user'',
         cw_content = sp_prompt spec, cw_calls = None, cw_reasoning = None, cw_created_at = w_now w\<rparr>) w of
        Err (e, w) \<Rightarrow>
          Some ([], w, record_fail (w_now w) (''failed to record the child prompt: '' @ e) r, None)
      | Ok w \<Rightarrow>
          child_loop env tools w r
            [plain_message RoleSystem (child_system_prompt spec),
             plain_message RoleUser (sp_prompt spec)])"

text \<open>The task around the loop; its result is the record it sends.\<close>

definition run_child_task ::
  "child_env \<Rightarrow> child_world \<Rightarrow> subagent_record \<Rightarrow>
   (child_effect list \<times> child_world \<times> subagent_record) option" where
  "run_child_task env w r =
     Option.bind (run_child_turn env w r) (\<lambda>(effs, w, r', panic).
       let r' = (case panic of
              None \<Rightarrow> r'
            | Some e \<Rightarrow>
                if \<not> is_terminal (rec_status r')
                then record_fail (w_now w) (''sub-agent '' @ subid (sp_id (rec_spec r)) @ '' panicked: '' @ e) r'
                else r')
       in Some (effs, publish_in r' w, r'))"

text \<open>Registration and the start of the task; the task runs on from the world it is handed.\<close>

definition spawn_child :: "subagent_record \<Rightarrow> child_world \<Rightarrow> subagent_record \<times> child_world" where
  "spawn_child r w =
     (let r = begin_running r
      in (r, w\<lparr>w_registry := register r cancel_new (w_registry w)\<rparr>))"

section \<open>One action at a time\<close>

definition live :: "nat \<Rightarrow> nat \<Rightarrow> subagent_spec \<Rightarrow> subagent_record \<Rightarrow> bool" where
  "live n m spec r \<longleftrightarrow> granted_ok n m r \<and> \<not> is_terminal (rec_status r) \<and> rec_spec r = spec"

definition over :: "nat \<Rightarrow> nat \<Rightarrow> subagent_spec \<Rightarrow> subagent_record \<Rightarrow> bool" where
  "over n m spec r \<longleftrightarrow> granted_ok n m r \<and> is_terminal (rec_status r) \<and> rec_spec r = spec"

lemma live_exec:
  assumes "live n m spec r" "record_exec now opn r = (res, r')"
  shows "granted_ok (if opn = OpTurn \<and> res = Ok () then Suc n else n)
      (if opn = OpToolCall \<and> res = Ok () then Suc m else m) r' \<and> rec_spec r' = spec"
  using granted_exec [of n m r now opn res r'] record_exec_spec(1) [of now opn r] assms
  by (auto simp: live_def)

lemma charge_status:
  "\<not> is_terminal (rec_status r) \<Longrightarrow> charge now t c k r = (res, r') \<Longrightarrow>
   is_terminal (rec_status r') \<longleftrightarrow> res \<noteq> Ok ()"
  by (cases "rec_status r") (auto simp: record_op_defs split: option.splits if_splits)

lemma live_turn:
  assumes "live n m spec r" "charge_turn now r = (res, r')"
  shows "res = Ok () \<and> live (Suc n) m spec r' \<or> res \<noteq> Ok () \<and> over n m spec r'"
  using live_exec [OF assms(1), of now OpTurn res r'] charge_status [of r now 1 0 0 res r'] assms
  by (auto simp: live_def over_def charge_turn_def)

lemma live_call:
  assumes "live n m spec r" "charge_tool_call now r = (res, r')"
  shows "res = Ok () \<and> live n (Suc m) spec r' \<or> res \<noteq> Ok () \<and> over n m spec r'"
  using live_exec [OF assms(1), of now OpToolCall res r'] charge_status [of r now 0 1 0 res r'] assms
  by (auto simp: live_def over_def charge_tool_call_def)

lemma live_tokens:
  assumes "live n m spec r" "charge_tokens now k r = (res, r')"
  shows "res = Ok () \<and> live n m spec r' \<or> res \<noteq> Ok () \<and> over n m spec r'"
  using live_exec [OF assms(1), of now "OpTokens k" res r'] charge_status [of r now 0 0 k res r'] assms
  by (auto simp: live_def over_def charge_tokens_def)

lemma live_activity: "live n m spec r \<Longrightarrow> live n m spec (set_activity a r)"
  by (cases "rec_status r") (auto simp: live_def set_activity_def granted_ok_def)

lemma finish_is_terminal [simp]:
  "is_terminal (rec_status (record_fail now e r))" "is_terminal (rec_status (record_cancel now e r))"
  "is_terminal (rec_status (record_complete now e r))"
  by (auto simp: record_op_defs split: prod.splits)

lemma live_over:
  "live n m spec r \<Longrightarrow> over n m spec (record_fail now e r)"
  "live n m spec r \<Longrightarrow> over n m spec (record_cancel now e r)"
  "live n m spec r \<Longrightarrow> over n m spec (record_complete now e r)"
proof -
  assume l: "live n m spec r"
  from live_exec [OF l record_exec.simps(7) [of now e]] show "over n m spec (record_fail now e r)"
    by (simp add: over_def)
next
  assume l: "live n m spec r"
  from live_exec [OF l record_exec.simps(8) [of now e]] show "over n m spec (record_cancel now e r)"
    by (simp add: over_def)
next
  assume l: "live n m spec r"
  from live_exec [OF l record_exec.simps(6) [of now e]] show "over n m spec (record_complete now e r)"
    by (simp add: over_def)
qed

lemma live_stop:
  assumes "live n m spec r" "stop_check r w = (stop, r', w')"
  shows "stop \<and> over n m spec r' \<or> \<not> stop \<and> live n m spec r'"
  using assms live_over(2)
  by (auto simp: stop_check_def stop_if_cancelled_def Let_def split: option.splits)

section \<open>Histories\<close>

definition requests :: "child_effect list \<Rightarrow> (string list \<times> message list) list" where
  "requests effs = List.map_filter (\<lambda>e. case e of Requested tools h \<Rightarrow> Some (tools, h) | _ \<Rightarrow> None) effs"

definition tools_run :: "child_effect list \<Rightarrow> llm_tool_call list" where
  "tools_run effs = List.map_filter (\<lambda>e. case e of RanTool c \<Rightarrow> Some c | _ \<Rightarrow> None) effs"

lemma effect_simps [simp]:
  "requests [] = []" "requests (Requested tools h # effs) = (tools, h) # requests effs"
  "requests (RanTool c # effs) = requests effs" "requests (a @ b) = requests a @ requests b"
  "tools_run [] = []" "tools_run (Requested tools h # effs) = tools_run effs"
  "tools_run (RanTool c # effs) = c # tools_run effs" "tools_run (a @ b) = tools_run a @ tools_run b"
  by (simp_all add: requests_def tools_run_def map_filter_def)

fun step_ok :: "nat \<Rightarrow> nat \<Rightarrow> subagent_spec \<Rightarrow> step \<Rightarrow> bool" where
  "step_ok n m spec (Ended w r p) \<longleftrightarrow> over n m spec r \<or> (p \<noteq> None \<and> live n m spec r)"
| "step_ok n m spec (Again w r h) \<longleftrightarrow> live n m spec r \<and> owed [] h = Some []"

lemma tool_loop_ok:
  assumes "live n m spec r" "owed [] history = Some (map lc_id calls)"
    "tool_loop env i index calls call_records w r history = (effs, s)"
  shows "step_ok n (m + length (tools_run effs)) spec s \<and> requests effs = []"
  using assms
proof (induction calls arbitrary: index call_records w r history m effs s)
  case (Cons call calls)
  obtain stop r1 w1 where st: "stop_check r w = (stop, r1, w1)" by (metis prod_cases3)
  show ?case
  proof (cases stop)
    case True
    with Cons(4) st live_stop [OF Cons(2) st] show ?thesis by auto
  next
    case False
    with live_stop [OF Cons(2) st] have l1: "live n m spec r1" by simp
    obtain res r2 where ch: "charge_tool_call (w_now w1) r1 = (res, r2)" by fastforce
    show ?thesis
    proof (cases "res = Ok ()")
      case err: False
      then obtain e where "res = Err e" by (cases res) auto
      with Cons(4) st False ch live_call [OF l1 ch] show ?thesis by auto
    next
      case True
      let ?r = "set_activity (''running '' @ lc_name call) r2"
      have l2: "live n (Suc m) spec ?r" using live_call [OF l1 ch] True live_activity by blast
      obtain w2 out where tool: "env_tool env (publish_in ?r w1) call = (w2, out)" by fastforce
      show ?thesis
      proof (cases "\<exists>e. out = Panics e")
        case panic: True
        with Cons(4) st False ch True tool l2 show ?thesis by auto
      next
        case fine: False
        show ?thesis
        proof (cases "record_call env i index call out ?r call_records w2")
          case (Inl x)
          obtain e w3 where x: "x = (e, w3)" by fastforce
          have "effs = [RanTool call] \<and> s = Ended w3 (record_fail (w_now w3) e ?r) None"
            using Cons(4) st False ch True tool fine Inl x by (cases out) auto
          then show ?thesis using live_over(1) [OF l2] by simp
        next
          case (Inr x)
          obtain recs answer w3 where x: "x = (recs, answer, w3)" by (metis prod_cases3)
          have ans: "msg_role answer = RoleTool" "msg_tool_call_id answer = Some (lc_id call)"
            using Inr x by (auto simp: record_call_def Let_def split: prod.splits sum.splits)
          obtain effs1 s1 where rest: "tool_loop env i (index + 1) calls recs w3 ?r (history @ [answer]) = (effs1, s1)"
            by fastforce
          have out: "effs = RanTool call # effs1 \<and> s = s1"
            using Cons(4) st False ch True tool fine Inr x rest by (cases out) auto
          have "owed [] (history @ [answer]) = Some (map lc_id calls)"
            using Cons(3) ans by (simp add: owed_append)
          from Cons(1) [OF l2 this rest] out show ?thesis by simp
        qed
      qed
    qed
  qed
qed auto

lemma act_on_reply_ok:
  assumes l: "live n m spec r" and h: "owed [] history = Some []"
    and a: "act_on_reply env response w r history = (effs, s)"
  shows "step_ok n (m + length (tools_run effs)) spec s \<and> requests effs = []"
proof -
  let ?calls = "cr_tool_calls response"
  let ?row = "\<lparr>cw_id = env_uuid env w, cw_chat = chat_id r, cw_role = ''assistant'',
    cw_content = cr_content response,
    cw_calls = (if map planned ?calls = [] then None else Some (map planned ?calls)),
    cw_reasoning = None, cw_created_at = w_now w\<rparr>"
  show ?thesis
  proof (cases "store_do env (insert_chat_message ?row) w")
    case (Inl x)
    with a live_over(1) [OF l] show ?thesis
      by (auto simp: act_on_reply_def Let_def split: if_splits prod.splits)
  next
    case (Inr w1)
    show ?thesis
    proof (cases "?calls = []")
      case True
      with a Inr live_over(3) [OF l] show ?thesis by (auto simp: act_on_reply_def)
    next
      case False
      let ?msg = "(plain_message RoleAssistant (cr_content response))\<lparr>msg_tool_calls := Some ?calls\<rparr>"
      have "tool_loop env (env_uuid env w) 0 ?calls (map planned ?calls) w1 r (history @ [?msg]) = (effs, s)"
        using a Inr False by (simp add: act_on_reply_def Let_def)
      moreover have "owed [] (history @ [?msg]) = Some (map lc_id ?calls)"
        using h by (simp add: owed_append plain_message_def)
      ultimately show ?thesis using tool_loop_ok [OF l] by blast
    qed
  qed
qed

lemma child_iteration_ok:
  assumes l: "live n m spec r" and h: "owed [] history = Some []"
    and a: "child_iteration env tools w r history = (effs, s)"
  shows "step_ok (n + length (requests effs)) (m + length (tools_run effs)) spec s \<and>
    set (requests effs) \<subseteq> {(tools, history)} \<and> (\<forall>w' r' h'. s = Again w' r' h' \<longrightarrow> length (requests effs) = 1)"
proof -
  obtain stop r1 w1 where st: "stop_check r w = (stop, r1, w1)" by (metis prod_cases3)
  show ?thesis
  proof (cases stop)
    case True
    with a st live_stop [OF l st] show ?thesis by (auto simp: child_iteration_def)
  next
    case False
    with live_stop [OF l st] have l1: "live n m spec r1" by simp
    obtain res r2 where ch: "charge_turn (w_now w1) r1 = (res, r2)" by fastforce
    show ?thesis
    proof (cases res)
      case (Inl e)
      with a st False ch live_turn [OF l1 ch] show ?thesis by (auto simp: child_iteration_def)
    next
      case (Inr u)
      have l2: "live (Suc n) m spec r2" using live_turn [OF l1 ch] Inr by simp
      obtain w2 out where comp: "env_complete env (publish_in r2 w1) history = (w2, out)" by fastforce
      note head = a [unfolded child_iteration_def] st False ch Inr comp
      show ?thesis
      proof (cases out)
        case (Panics e)
        with head l2 show ?thesis by auto
      next
        case (Fails e)
        with head live_over(1) [OF l2] show ?thesis by auto
      next
        case (Fine response)
        obtain stop3 r3 w3 where st3: "stop_check r2 (note_usage r2 response w2) = (stop3, r3, w3)"
          by (metis prod_cases3)
        show ?thesis
        proof (cases stop3)
          case True
          with head Fine st3 live_stop [OF l2 st3] show ?thesis by auto
        next
          case no_stop: False
          with live_stop [OF l2 st3] have l3: "live (Suc n) m spec r3" by simp
          obtain res4 r4 where tk: "charge_tokens (w_now w3) (token_charge response) r3 = (res4, r4)" by fastforce
          show ?thesis
          proof (cases res4)
            case (Inl e)
            with head Fine st3 no_stop tk live_tokens [OF l3 tk] show ?thesis by auto
          next
            case ok: (Inr u4)
            have l4: "live (Suc n) m spec r4" using live_tokens [OF l3 tk] ok by simp
            obtain effs1 s1 where act: "act_on_reply env response w3 r4 history = (effs1, s1)" by fastforce
            have "effs = Requested tools history # effs1 \<and> s = s1"
              using head Fine st3 no_stop tk ok act by auto
            with act_on_reply_ok [OF l4 h act] show ?thesis by simp
          qed
        qed
      qed
    qed
  qed
qed

section \<open>Every child ends\<close>

definition within :: "nat \<Rightarrow> nat \<Rightarrow> subagent_spec \<Rightarrow> bool" where
  "within n m spec \<longleftrightarrow>
     n \<le> unat (max_turns (sp_budget spec)) - 1 \<and> m \<le> unat (max_tool_calls (sp_budget spec)) - 1"

lemma live_within: "live n m spec r \<or> over n m spec r \<Longrightarrow> within n m spec"
  by (auto simp: live_def over_def granted_ok_def within_def)

lemma child_loop_ends:
  assumes "live n m spec r" "owed [] history = Some []"
  shows "\<exists>effs w' r' p. child_loop env tools w r history = Some (effs, w', r', p) \<and> rec_spec r' = spec \<and>
    within (n + length (requests effs)) (m + length (tools_run effs)) spec \<and>
    (\<forall>q\<in>set (requests effs). fst q = tools \<and> owed [] (snd q) = Some []) \<and> (p = None \<longrightarrow> is_terminal (rec_status r'))"
  using assms
proof (induction "unat (max_turns (sp_budget spec)) - n" arbitrary: n m w r history rule: less_induct)
  case less
  obtain effs s where it: "child_iteration env tools w r history = (effs, s)" by fastforce
  note ok = child_iteration_ok [OF less(2,3) it]
  have reqs: "\<forall>q\<in>set (requests effs). fst q = tools \<and> owed [] (snd q) = Some []" using ok less(3) by auto
  show ?case
  proof (cases s)
    case (Ended w1 r1 p)
    then have "child_loop env tools w r history = Some (effs, w1, r1, p)"
      by (simp add: child_loop.simps [of env tools w r history] it)
    moreover have "over (n + length (requests effs)) (m + length (tools_run effs)) spec r1 \<or>
        (p \<noteq> None \<and> live (n + length (requests effs)) (m + length (tools_run effs)) spec r1)"
      using ok Ended by simp
    then have "within (n + length (requests effs)) (m + length (tools_run effs)) spec" "rec_spec r1 = spec"
      "p = None \<longrightarrow> is_terminal (rec_status r1)"
      using live_within by (auto simp: over_def live_def)
    ultimately show ?thesis using reqs by blast
  next
    case (Again w1 r1 h1)
    then have l1: "live (Suc n) (m + length (tools_run effs)) spec r1" "owed [] h1 = Some []"
      and one: "length (requests effs) = 1" using ok by auto
    have "Suc n \<le> unat (max_turns (sp_budget spec)) - 1" using live_within l1(1) by (auto simp: within_def)
    then have "unat (max_turns (sp_budget spec)) - Suc n < unat (max_turns (sp_budget spec)) - n" by simp
    from less(1) [OF this l1, of w1] obtain effs' w' r' p where
      ih: "child_loop env tools w1 r1 h1 = Some (effs', w', r', p)" "rec_spec r' = spec"
      "within (Suc n + length (requests effs')) (m + length (tools_run effs) + length (tools_run effs')) spec"
      "\<forall>q\<in>set (requests effs'). fst q = tools \<and> owed [] (snd q) = Some []" "p = None \<longrightarrow> is_terminal (rec_status r')" by blast
    have "child_loop env tools w r history = Some (effs @ effs', w', r', p)"
      by (simp add: child_loop.simps [of env tools w r history] it Again ih(1))
    with ih one reqs show ?thesis by (intro exI [of _ "effs @ effs'"]) (auto simp: add.assoc)
  qed
qed

lemma run_child_turn_ends:
  assumes l: "live 0 0 spec r"
  shows "\<exists>effs w' r' p. run_child_turn env w r = Some (effs, w', r', p) \<and> rec_spec r' = spec \<and>
    within (length (requests effs)) (length (tools_run effs)) spec \<and>
    (\<forall>q\<in>set (requests effs). fst q = child_tool_definitions (sp_depth spec) (env_mcp_tools env w) \<and>
       owed [] (snd q) = Some []) \<and>
    (p = None \<longrightarrow> is_terminal (rec_status r'))"
proof -
  have sp: "rec_spec r = spec" using l by (simp add: live_def)
  let ?row = "\<lparr>cw_id = env_uuid env w, cw_chat = subid (sp_id spec), cw_role = ''user'',
    cw_content = sp_prompt spec, cw_calls = None,
    cw_reasoning = None, cw_created_at = w_now w\<rparr>"
  let ?h = "[plain_message RoleSystem (child_system_prompt spec), plain_message RoleUser (sp_prompt spec)]"
  show ?thesis
  proof (cases "store_do env (insert_chat_message ?row) w")
    case (Inl x)
    then show ?thesis using live_over(1) [OF l] live_within [of 0 0 spec r] l sp
      by (cases x) (simp add: run_child_turn_def Let_def over_def)
  next
    case (Inr w1)
    have "owed [] ?h = Some []" by (simp add: plain_message_def)
    from child_loop_ends [OF l this, of env "child_tool_definitions (sp_depth spec) (env_mcp_tools env w)" w1]
    show ?thesis using Inr sp by (simp add: run_child_turn_def Let_def)
  qed
qed

lemma spawned_live: "live 0 0 spec (fst (spawn_child (record_new now spec) w))"
  by (simp add: spawn_child_def live_def granted_ok_def record_new_def begin_running_def Let_def)

lemma find_upd_first:
  "find P xs = Some x \<Longrightarrow> P (f x) \<Longrightarrow> find P (upd_first P f xs) = Some (f x)"
  by (induction xs) (auto split: if_splits)

lemma publish_ends:
  assumes "is_terminal (rec_status r)"
  shows "case snapshot (sp_id (rec_spec r)) (publish now r reg) of
    None \<Rightarrow> True | Some q \<Rightarrow> is_terminal (rec_status q)"
proof (cases "find (\<lambda>e. entry_id e = sp_id (rec_spec r)) (children reg)")
  case None
  then show ?thesis by (simp add: publish_def snapshot_def)
next
  case (Some e)
  have "find (\<lambda>e. entry_id e = sp_id (rec_spec r))
      (upd_first (\<lambda>e. entry_id e = sp_id (rec_spec r)) (\<lambda>e. e\<lparr>ce_record := r\<rparr>) (children reg)) =
      Some (e\<lparr>ce_record := r\<rparr>)"
    by (rule find_upd_first [OF Some]) (simp add: entry_id_def)
  with Some assms show ?thesis by (simp add: publish_def snapshot_def)
qed

lemma child_offers_spawn:
  "SPAWN_SUBAGENT_TOOL \<in> set (child_tool_definitions depth mcp) \<longleftrightarrow>
     can_spawn_subagent depth \<or> (\<exists>ts. mcp = Some ts \<and> SPAWN_SUBAGENT_TOOL \<in> set ts)"
  by (cases mcp) (auto simp: child_tool_definitions_def harness_tool_definitions_def SPAWN_SUBAGENT_TOOL_def Let_def)

text \<open>C9. Every child ends, whatever the model answers, the tools do, the store refuses and other tasks change
  meanwhile (\<open>run_child_task\<close>, \<open>run_child_turn\<close> in \<open>subagent_run/run.rs\<close>). The task of a child that was
  just spawned returns; the record it sends is terminal, also when a call panicked, and the record the
  registry shows for the child, if it has one, is terminal as well. On the way it asked the model fewer
  times than its turn budget and ran fewer tools than its call budget (a charge that reaches a maximum
  is refused), every request answers each earlier tool call exactly once and in order, and a request
  offers \<open>spawn_subagent\<close> only to a child below the depth limit, or when a configured server has a tool
  of that name.\<close>

theorem child_always_ends:
  "\<exists>effs w' r'. run_child_task env w (fst (spawn_child (record_new now spec) w0)) = Some (effs, w', r') \<and>
     is_terminal (rec_status r') \<and> rec_spec r' = spec \<and>
     (case snapshot (sp_id spec) (w_registry w') of None \<Rightarrow> True | Some q \<Rightarrow> is_terminal (rec_status q)) \<and>
     length (requests effs) \<le> unat (max_turns (sp_budget spec)) - 1 \<and>
     length (tools_run effs) \<le> unat (max_tool_calls (sp_budget spec)) - 1 \<and>
     list_all (\<lambda>(tools, history). owed [] history = Some [] \<and>
       (SPAWN_SUBAGENT_TOOL \<in> set tools \<longleftrightarrow> can_spawn_subagent (sp_depth spec) \<or>
          (\<exists>ts. env_mcp_tools env w = Some ts \<and> SPAWN_SUBAGENT_TOOL \<in> set ts))) (requests effs)"
proof -
  let ?r = "fst (spawn_child (record_new now spec) w0)"
  obtain effs w1 r1 p where turn: "run_child_turn env w ?r = Some (effs, w1, r1, p)" "rec_spec r1 = spec"
    "within (length (requests effs)) (length (tools_run effs)) spec"
    "\<forall>q\<in>set (requests effs). fst q = child_tool_definitions (sp_depth spec) (env_mcp_tools env w) \<and>
       owed [] (snd q) = Some []"
    "p = None \<longrightarrow> is_terminal (rec_status r1)"
    using run_child_turn_ends [OF spawned_live, of env w] by blast
  obtain r' where r': "run_child_task env w ?r = Some (effs, publish_in r' w1, r')"
    "is_terminal (rec_status r')" "rec_spec r' = spec"
    using turn(1,2,5) by (auto simp: run_child_task_def Let_def record_op_defs split: option.splits)
  have "case snapshot (sp_id spec) (w_registry (publish_in r' w1)) of
      None \<Rightarrow> True | Some q \<Rightarrow> is_terminal (rec_status q)"
    using publish_ends [OF r'(2)] r'(3) by (simp add: publish_in_def)
  with r' turn(3,4) show ?thesis
    by (auto simp: within_def list_all_iff case_prod_unfold child_offers_spawn intro!: exI [of _ effs])
qed

text \<open>A child whose stop bit or whose parent's has fired asks nothing further of the outside.\<close>

lemma cancelled_child_stops:
  assumes "signal (w_parent_cancel w) (own_cancel r w) = Some reason" "\<not> is_terminal (rec_status r)"
  shows "\<exists>w' r'. child_loop env tools w r history = Some ([], w', r', None) \<and> rec_status r' = Cancelled reason"
proof -
  have "\<exists>w' r'. child_iteration env tools w r history = ([], Ended w' r' None) \<and> rec_status r' = Cancelled reason"
    using assms by (auto simp: child_iteration_def stop_check_def stop_if_cancelled_def record_op_defs)
  then show ?thesis by (subst child_loop.simps) auto
qed

end
