(* ===== verification/Agent_History.thy ===== *)
theory Agent_History
  imports Chat_Store
begin

text \<open>
  The history a request is built from (\<open>crates/goble-core/src/reasoning/history.rs\<close>): the rows of a
  conversation as messages, with every call that has no result and every result that has no call left
  out, since a provider refuses a conversation in which the two do not match.
\<close>

section \<open>Rows to messages\<close>

fun split_once :: "char \<Rightarrow> string \<Rightarrow> (string \<times> string) option" where
  "split_once c [] = None"
| "split_once c (x # xs) =
     (if x = c then Some ([], xs) else map_option (\<lambda>(a, b). (x # a, b)) (split_once c xs))"

definition result_id :: "chat_row \<Rightarrow> string option" where
  "result_id r = map_option fst (split_once (CHR 0x0A) (cw_content r))"

definition has_calls :: "chat_row \<Rightarrow> bool" where
  "has_calls r \<longleftrightarrow> cw_role r = ''assistant'' \<or> cw_role r = ''tool_calls''"

definition row_calls :: "chat_row \<Rightarrow> chat_tool_call list" where
  "row_calls r = (case cw_calls r of None \<Rightarrow> [] | Some calls \<Rightarrow> calls)"

text \<open>The outcome of each call, the last record of an id counting.\<close>

definition statuses :: "chat_row list \<Rightarrow> string \<Rightarrow> tool_call_status option" where
  "statuses rows = map_of (rev (concat (map (\<lambda>r. map (\<lambda>c. (ct_id c, ct_status c)) (row_calls r)) rows)))"

definition answered :: "chat_row list \<Rightarrow> string list" where
  "answered rows = List.map_filter result_id (filter (\<lambda>r. cw_role r = ''tool'') rows)"

definition paired :: "chat_row list \<Rightarrow> string list" where
  "paired rows =
     filter (\<lambda>i. i \<in> set (answered rows))
       (concat (map (\<lambda>r. map ct_id (row_calls r)) (filter has_calls rows)))"

text \<open>A stored call read as a call of the model: the outcome is not part of it.\<close>

definition as_llm_call :: "chat_tool_call \<Rightarrow> llm_tool_call" where
  "as_llm_call c = \<lparr>lc_id = ct_id c, lc_name = ct_name c, lc_arguments = ct_arguments c\<rparr>"

definition role_of :: "string \<Rightarrow> role" where
  "role_of role =
     (if role = ''system'' then RoleSystem
      else if role = ''assistant'' then RoleAssistant
      else if role = ''tool_calls'' then RoleAssistant
      else if role = ''tool'' then RoleTool
      else RoleUser)"

definition row_message ::
  "string list \<Rightarrow> (string \<Rightarrow> tool_call_status option) \<Rightarrow> (string \<Rightarrow> string option) \<Rightarrow> chat_row \<Rightarrow> message option" where
  "row_message pair stat reasoning r =
     (if cw_role r = ''tool'' then
        (case split_once (CHR 0x0A) (cw_content r) of
           None \<Rightarrow> None
         | Some (i, rest) \<Rightarrow>
             if i \<in> set pair
             then Some \<lparr>msg_role = RoleTool, msg_content = rest, msg_tool_calls = None,
               msg_tool_call_id = Some i, msg_tool_status = stat i, msg_reasoning_content = reasoning (cw_id r)\<rparr>
             else None)
      else
        (let calls = (if has_calls r
               then map_option (\<lambda>cs. filter (\<lambda>c. lc_id c \<in> set pair) (map as_llm_call cs)) (cw_calls r)
               else None) in
         if calls = Some [] \<and> cw_content r = [] then None
         else Some \<lparr>msg_role = role_of (cw_role r), msg_content = cw_content r,
           msg_tool_calls = (if calls = Some [] then None else calls), msg_tool_call_id = None,
           msg_tool_status = None, msg_reasoning_content = reasoning (cw_id r)\<rparr>))"

definition history_of :: "(string \<times> string) list \<Rightarrow> chat_row list \<Rightarrow> message list" where
  "history_of reasoning rows =
     List.map_filter (row_message (paired rows) (statuses rows) (map_of reasoning)) rows"

definition build_history :: "fault \<Rightarrow> string \<Rightarrow> chat_store \<Rightarrow> message list" where
  "build_history fault chat s =
     (case list_chat_messages chat fault s of
        Err _ \<Rightarrow> []
      | Ok rows \<Rightarrow>
          history_of (case list_chat_message_reasoning chat fault s of Err _ \<Rightarrow> [] | Ok rs \<Rightarrow> rs) rows)"

section \<open>Calls and results match\<close>

definition history_calls :: "message list \<Rightarrow> string set" where
  "history_calls ms = {i. \<exists>m\<in>set ms. \<exists>calls. msg_tool_calls m = Some calls \<and> i \<in> lc_id ` set calls}"

definition history_results :: "message list \<Rightarrow> string set" where
  "history_results ms = {i. \<exists>m\<in>set ms. msg_role m = RoleTool \<and> msg_tool_call_id m = Some i}"

declare map_filter_simps [simp]

lemma set_map_filter: "set (List.map_filter f xs) = {y. \<exists>x\<in>set xs. f x = Some y}"
  by (induction xs) (auto split: option.splits)

definition call_ids :: "chat_row \<Rightarrow> string list" where
  "call_ids r = (if has_calls r then map ct_id (row_calls r) else [])"

abbreviation all_calls :: "chat_row list \<Rightarrow> string list" where
  "all_calls rows \<equiv> concat (map call_ids rows)"

lemma role_of_tool: "role_of s = RoleTool \<longleftrightarrow> s = ''tool''"
  by (simp add: role_of_def)

lemma as_llm_call_id [simp]: "lc_id (as_llm_call c) = ct_id c"
  by (simp add: as_llm_call_def)

lemma filter_calls: "filter (\<lambda>c. lc_id c \<in> P) (map as_llm_call cs) = map as_llm_call (filter (\<lambda>c. ct_id c \<in> P) cs)"
  by (simp add: filter_map comp_def)

lemma tool_message:
  "cw_role r = ''tool'' \<Longrightarrow> row_message pair stat re r = Some m \<Longrightarrow>
   msg_role m = RoleTool \<and> msg_tool_calls m = None \<and> result_id r = msg_tool_call_id m \<and>
   (\<exists>i\<in>set pair. msg_tool_call_id m = Some i)"
  by (auto simp: row_message_def result_id_def split: option.splits if_splits)

lemma other_message:
  "cw_role r \<noteq> ''tool'' \<Longrightarrow> row_message pair stat re r = Some m \<Longrightarrow>
   msg_role m \<noteq> RoleTool \<and> msg_tool_call_id m = None \<and> msg_tool_calls m \<noteq> Some [] \<and>
   (case msg_tool_calls m of None \<Rightarrow> [] | Some cs \<Rightarrow> map lc_id cs) =
     filter (\<lambda>i. i \<in> set pair) (call_ids r)"
  by (auto simp: row_message_def Let_def call_ids_def role_of_tool filter_calls row_calls_def filter_map comp_def
      split: option.splits if_splits)

lemma dropped_message:
  "cw_role r \<noteq> ''tool'' \<Longrightarrow> row_message pair stat re r = None \<Longrightarrow>
   filter (\<lambda>i. i \<in> set pair) (call_ids r) = []"
  by (auto simp: row_message_def Let_def call_ids_def row_calls_def filter_calls filter_map comp_def filter_empty_conv
      split: option.splits if_splits)

lemma paired_iff: "i \<in> set (paired rows) \<longleftrightarrow> i \<in> set (all_calls rows) \<and> i \<in> set (answered rows)"
  by (auto simp: paired_def call_ids_def)

lemma answered_iff: "i \<in> set (answered rows) \<longleftrightarrow> (\<exists>r\<in>set rows. cw_role r = ''tool'' \<and> result_id r = Some i)"
  by (auto simp: answered_def set_map_filter)

lemma history_results_paired: "history_results (history_of re rows) = set (paired rows)"
proof (intro equalityI subsetI)
  fix i assume "i \<in> history_results (history_of re rows)"
  then obtain m r where m: "row_message (paired rows) (statuses rows) (map_of re) r = Some m"
    "msg_role m = RoleTool" "msg_tool_call_id m = Some i"
    by (auto simp: history_results_def history_of_def set_map_filter)
  then show "i \<in> set (paired rows)" using other_message [OF _ m(1)] tool_message [OF _ m(1)] by fastforce
next
  fix i assume i: "i \<in> set (paired rows)"
  then obtain r where r: "r \<in> set rows" "cw_role r = ''tool''" "result_id r = Some i"
    by (auto simp: paired_iff answered_iff)
  with i obtain m where m: "row_message (paired rows) (statuses rows) (map_of re) r = Some m"
    by (auto simp: row_message_def result_id_def split: option.splits)
  with tool_message [OF r(2) m] r show "i \<in> history_results (history_of re rows)"
    by (auto simp: history_results_def history_of_def set_map_filter)
qed

lemma message_calls:
  assumes "row_message pair stat re r = Some m"
  shows "{i. \<exists>calls. msg_tool_calls m = Some calls \<and> i \<in> lc_id ` set calls} = set (call_ids r) \<inter> set pair"
proof (cases "cw_role r = ''tool''")
  case True
  with tool_message [OF True assms] show ?thesis by (simp add: call_ids_def has_calls_def)
next
  case False
  from other_message [OF False assms] have
    "set (case msg_tool_calls m of None \<Rightarrow> [] | Some cs \<Rightarrow> map lc_id cs) = set (filter (\<lambda>i. i \<in> set pair) (call_ids r))"
    by simp
  then show ?thesis by (cases "msg_tool_calls m") auto
qed

lemma history_calls_paired: "history_calls (history_of re rows) = set (paired rows)"
proof (intro equalityI subsetI)
  fix i assume "i \<in> history_calls (history_of re rows)"
  then show "i \<in> set (paired rows)"
    using message_calls by (fastforce simp: history_calls_def history_of_def set_map_filter)
next
  fix i assume i: "i \<in> set (paired rows)"
  then obtain r where r: "r \<in> set rows" "i \<in> set (call_ids r)" by (auto simp: paired_iff)
  have "cw_role r \<noteq> ''tool''" using r(2) by (auto simp: call_ids_def has_calls_def split: if_splits)
  then obtain m where m: "row_message (paired rows) (statuses rows) (map_of re) r = Some m"
    using dropped_message [of r "paired rows"] i r(2) by (fastforce simp: filter_empty_conv)
  have "i \<in> set (call_ids r) \<inter> set (paired rows)" using i r(2) by simp
  then obtain calls where "msg_tool_calls m = Some calls" "i \<in> lc_id ` set calls"
    using message_calls [OF m] by blast
  with m r(1) show "i \<in> history_calls (history_of re rows)"
    by (auto simp: history_calls_def history_of_def set_map_filter)
qed

text \<open>C18. Whatever rows a conversation holds, in the history built from it every call the model is said to have
  made has a result, every result belongs to such a call, and no message carries an empty list of
  calls (\<open>build_history\<close> in \<open>reasoning/history.rs\<close>). A provider refuses a history with a call and no
  result, or a result and no call.\<close>

theorem history_calls_and_results_match:
  "history_calls (build_history fault chat s) = history_results (build_history fault chat s) \<and>
   (\<nexists>m. m \<in> set (build_history fault chat s) \<and> msg_tool_calls m = Some [])"
proof -
  have "msg_tool_calls m \<noteq> Some []" if "m \<in> set (history_of re rows)" for m re rows
    using that tool_message other_message by (fastforce simp: history_of_def set_map_filter)
  then show ?thesis
    by (auto simp: build_history_def history_calls_paired history_results_paired split: sum.splits)
      (auto simp: history_calls_def history_results_def)
qed

section \<open>The order of results\<close>

text \<open>The calls that the rows so far leave open: a result must answer the next call of the row of calls before
  it. Anything else that is said closes the calls that are still open.\<close>

fun rows_open :: "string list \<Rightarrow> chat_row list \<Rightarrow> string list option" where
  "rows_open ids [] = Some ids"
| "rows_open ids (r # rs) =
     (if cw_role r = ''tool''
      then (case ids of
              [] \<Rightarrow> None
            | i # ids \<Rightarrow> if result_id r = Some i then rows_open ids rs else None)
      else rows_open (call_ids r) rs)"

lemma rows_open_append: "rows_open ids (a @ b) = Option.bind (rows_open ids a) (\<lambda>ids. rows_open ids b)"
  by (induction ids a rule: rows_open.induct) (auto split: list.splits)

lemma tool_no_calls: "cw_role r = ''tool'' \<Longrightarrow> call_ids r = []"
  by (simp add: call_ids_def has_calls_def)

lemma answered_Cons:
  "answered (r # rs) =
     (if cw_role r = ''tool'' then (case result_id r of None \<Rightarrow> [] | Some i \<Rightarrow> [i]) else []) @ answered rs"
  by (auto simp: answered_def split: option.splits)

lemma answered_were_open:
  "rows_open ids rows = Some out \<Longrightarrow> set (answered rows) \<subseteq> set ids \<union> set (all_calls rows)"
  by (induction ids rows rule: rows_open.induct)
    (auto simp: answered_Cons tool_no_calls answered_def split: list.splits if_splits option.splits)

lemma owed_open:
  assumes "rows_open ids rows = Some out" "distinct (ids @ all_calls rows)"
    "\<forall>i\<in>set ids \<union> set (all_calls rows). i \<in> set pair \<longleftrightarrow> i \<in> set (answered rows)"
  shows "owed (filter (\<lambda>i. i \<in> set pair) ids) (List.map_filter (row_message pair stat re) rows) = Some []"
  using assms
proof (induction ids rows rule: rows_open.induct)
  case (1 ids)
  then show ?case by (simp add: answered_def filter_empty_conv)
next
  case (2 ids r rs)
  show ?case
  proof (cases "cw_role r = ''tool''")
    case True
    then obtain i ids' where ids: "ids = i # ids'" "result_id r = Some i" "rows_open ids' rs = Some out"
      using 2(3) by (auto split: list.splits if_splits)
    have "i \<in> set pair" using 2(5) ids True by (auto simp: answered_Cons)
    then obtain m where m: "row_message pair stat re r = Some m" "msg_role m = RoleTool"
      "msg_tool_call_id m = Some i"
      using True ids by (auto simp: row_message_def result_id_def split: option.splits)
    have "owed (filter (\<lambda>i. i \<in> set pair) ids') (List.map_filter (row_message pair stat re) rs) = Some []"
      using 2(4,5) ids True by (intro 2(1) [OF True ids(1,2,3)]) (auto simp: answered_Cons tool_no_calls)
    with ids m \<open>i \<in> set pair\<close> show ?thesis by simp
  next
    case False
    have op: "rows_open (call_ids r) rs = Some out" using 2(3) False by simp
    have ans: "answered (r # rs) = answered rs" using False by (simp add: answered_Cons)
    have "set (answered rs) \<inter> set ids = {}" using answered_were_open [OF op] 2(4) by auto
    then have none: "filter (\<lambda>i. i \<in> set pair) ids = []" using 2(5) by (auto simp: filter_empty_conv ans)
    have ih: "owed (filter (\<lambda>i. i \<in> set pair) (call_ids r)) (List.map_filter (row_message pair stat re) rs) = Some []"
      using 2(4,5) op ans by (intro 2(2) [OF False op]) auto
    show ?thesis
    proof (cases "row_message pair stat re r")
      case None
      with ih dropped_message [OF False None] none show ?thesis by simp
    next
      case (Some m)
      with ih other_message [OF False Some] none show ?thesis by simp
    qed
  qed
qed

lemma orderly_history:
  assumes "rows_open [] rows = Some out" "distinct (all_calls rows)"
  shows "owed [] (history_of re rows) = Some []"
  using owed_open [OF assms(1), of "paired rows" "statuses rows" "map_of re"] assms(2)
  by (simp add: history_of_def paired_iff)

end
