(* ===== verification/Text_Diff.thy ===== *)
theory Text_Diff
  imports Rust_Text
begin

text \<open>
  The unified diff a file mutation records (\<open>crates/goble-core/src/harness/text_diff.rs\<close>): the edit
  script between two line sequences from a table of longest common subsequences, the numbered rows,
  and the rendering of the rows as hunks. Line numbers and table cells are 32-bit words.
\<close>

section \<open>Edit scripts\<close>

definition DIFF_CONTEXT :: nat where
  "DIFF_CONTEXT = 3"

definition MAX_TABLE_CELLS :: nat where
  "MAX_TABLE_CELLS = 1000000"

datatype diff_op = OpEqual | OpRemove | OpAdd

text \<open>The table, row by row from the last, each row from its last column; \<open>width\<close> is the row length
  of the flat vector.\<close>

definition table_cell ::
  "string list \<Rightarrow> string list \<Rightarrow> nat \<Rightarrow> nat \<Rightarrow> nat \<Rightarrow> u32 list \<Rightarrow> u32" where
  "table_cell old new width i j table =
     (if old ! i = new ! j then table ! ((i + 1) * width + j + 1) + 1
      else max (table ! ((i + 1) * width + j)) (table ! (i * width + j + 1)))"

definition fill_row :: "string list \<Rightarrow> string list \<Rightarrow> nat \<Rightarrow> nat \<Rightarrow> u32 list \<Rightarrow> u32 list" where
  "fill_row old new width i table =
     fold (\<lambda>j t. t[i * width + j := table_cell old new width i j t]) (rev [0..<length new]) table"

definition lcs_table :: "string list \<Rightarrow> string list \<Rightarrow> u32 list" where
  "lcs_table old new =
     (let width = length new + 1 in
      fold (fill_row old new width) (rev [0..<length old])
        (replicate ((length old + 1) * width) 0))"

text \<open>The walk through the table; the loop ends when one side is used up.\<close>

function table_walk :: "string list \<Rightarrow> string list \<Rightarrow> u32 list \<Rightarrow> nat \<Rightarrow> nat \<Rightarrow> diff_op list" where
  "table_walk old new table i j =
     (let width = length new + 1 in
      if i < length old \<and> j < length new then
        (if old ! i = new ! j then OpEqual # table_walk old new table (i + 1) (j + 1)
         else if table ! (i * width + j + 1) \<le> table ! ((i + 1) * width + j)
         then OpRemove # table_walk old new table (i + 1) j
         else OpAdd # table_walk old new table i (j + 1))
      else replicate (length old - i) OpRemove @ replicate (length new - j) OpAdd)"
  by pat_completeness auto
termination
  by (relation "measure (\<lambda>(old, new, table, i, j). (length old - i) + (length new - j))") auto

declare table_walk.simps [simp del]

definition middle_ops :: "string list \<Rightarrow> string list \<Rightarrow> diff_op list" where
  "middle_ops old new =
     (if old = [] then replicate (length new) OpAdd
      else if new = [] then replicate (length old) OpRemove
      else if MAX_TABLE_CELLS < length old * length new
      then replicate (length old) OpRemove @ replicate (length new) OpAdd
      else table_walk old new (lcs_table old new) 0 0)"

text \<open>The two counting loops at the ends.\<close>

fun common_prefix :: "string list \<Rightarrow> string list \<Rightarrow> nat" where
  "common_prefix (x # xs) (y # ys) = (if x = y then Suc (common_prefix xs ys) else 0)"
| "common_prefix _ _ = 0"

definition diff_ops :: "string list \<Rightarrow> string list \<Rightarrow> diff_op list" where
  "diff_ops old new =
     (let pre = common_prefix old new;
          suf = common_prefix (rev (drop pre old)) (rev (drop pre new))
      in replicate pre OpEqual @
         middle_ops (drop pre (take (length old - suf) old)) (drop pre (take (length new - suf) new)) @
         replicate suf OpEqual)"

section \<open>Rows and hunks\<close>

datatype row_kind = RowContext | RowRemoved | RowAdded

record row =
  row_kind :: row_kind
  old_line :: "u32 option"
  new_line :: "u32 option"
  row_text :: string

text \<open>\<open>rows\<close>: the ops with the line of each side, numbered from the two running indices. The ops run
  over exactly the lines there are; elsewhere the code would panic.\<close>

fun rows_from :: "nat \<Rightarrow> nat \<Rightarrow> string list \<Rightarrow> string list \<Rightarrow> diff_op list \<Rightarrow> row list option" where
  "rows_from i j old new [] = Some []"
| "rows_from i j (x # old) new (OpEqual # ops) =
     map_option (\<lambda>rs. \<lparr>row_kind = RowContext, old_line = Some (word_of_nat i + 1),
         new_line = Some (word_of_nat j + 1), row_text = x\<rparr> # rs)
       (rows_from (i + 1) (j + 1) old (tl new) ops)"
| "rows_from i j (x # old) new (OpRemove # ops) =
     map_option (\<lambda>rs. \<lparr>row_kind = RowRemoved, old_line = Some (word_of_nat i + 1),
         new_line = None, row_text = x\<rparr> # rs)
       (rows_from (i + 1) j old new ops)"
| "rows_from i j old (y # new) (OpAdd # ops) =
     map_option (\<lambda>rs. \<lparr>row_kind = RowAdded, old_line = None,
         new_line = Some (word_of_nat j + 1), row_text = y\<rparr> # rs)
       (rows_from i (j + 1) old new ops)"
| "rows_from i j old new ops = None"

definition diff_rows :: "string list \<Rightarrow> string list \<Rightarrow> diff_op list \<Rightarrow> row list option" where
  "diff_rows old new ops = rows_from 0 0 old new ops"

text \<open>The ranges of rows shown, in the code's loop over the row indices.\<close>

definition add_range :: "nat \<Rightarrow> nat \<Rightarrow> (nat \<times> nat) list \<Rightarrow> (nat \<times> nat) list" where
  "add_range start stop ranges =
     (if ranges \<noteq> [] \<and> start \<le> snd (last ranges)
      then butlast ranges @ [(fst (last ranges), stop)]
      else ranges @ [(start, stop)])"

definition diff_ranges :: "row list \<Rightarrow> nat \<Rightarrow> (nat \<times> nat) list" where
  "diff_ranges rs context =
     fold (\<lambda>i ranges.
        if row_kind (rs ! i) = RowContext then ranges
        else add_range (i - context) (min (i + context + 1) (length rs)) ranges)
       [0..<length rs] []"

definition range_text :: "u32 \<Rightarrow> nat \<Rightarrow> string" where
  "range_text start count =
     (if count = 1 then show_nat (unat start)
      else show_nat (unat start) @ '','' @ show_nat count)"

definition first_line_of :: "(row \<Rightarrow> u32 option) \<Rightarrow> row list \<Rightarrow> u32 option" where
  "first_line_of f rs = (case List.map_filter f rs of [] \<Rightarrow> None | n # _ \<Rightarrow> Some n)"

definition side_start :: "(row \<Rightarrow> u32 option) \<Rightarrow> row list \<Rightarrow> nat \<times> nat \<Rightarrow> u32" where
  "side_start f rs r =
     (case first_line_of f (drop (fst r) (take (snd r) rs)) of
        Some n \<Rightarrow> n
      | None \<Rightarrow> (case first_line_of f (rev (take (fst r) rs)) of Some n \<Rightarrow> n | None \<Rightarrow> 0))"

definition side_count :: "(row \<Rightarrow> u32 option) \<Rightarrow> row list \<Rightarrow> nat \<times> nat \<Rightarrow> nat" where
  "side_count f rs r = length (List.map_filter f (drop (fst r) (take (snd r) rs)))"

fun row_mark :: "row_kind \<Rightarrow> char" where
  "row_mark RowContext = CHR '' ''"
| "row_mark RowRemoved = CHR ''-''"
| "row_mark RowAdded = CHR ''+''"

definition hunk_header :: "row list \<Rightarrow> nat \<times> nat \<Rightarrow> string" where
  "hunk_header rs r =
     ''@@ -'' @ range_text (side_start old_line rs r) (side_count old_line rs r) @
     '' +'' @ range_text (side_start new_line rs r) (side_count new_line rs r) @ '' @@''"

definition render_hunk :: "row list \<Rightarrow> nat \<times> nat \<Rightarrow> string" where
  "render_hunk rs r =
     hunk_header rs r @ [CHR 0x0A] @
     concat (map (\<lambda>x. row_mark (row_kind x) # row_text x @ [CHR 0x0A])
       (drop (fst r) (take (snd r) rs)))"

definition render :: "row list \<Rightarrow> nat \<Rightarrow> string" where
  "render rs context = concat (map (render_hunk rs) (diff_ranges rs context))"

definition unified_diff_with_context :: "string \<Rightarrow> string \<Rightarrow> nat \<Rightarrow> string option" where
  "unified_diff_with_context old new context =
     (if old = new then Some []
      else
        (let old_lines = str_lines old; new_lines = str_lines new in
         map_option (\<lambda>rs. render rs context)
           (diff_rows old_lines new_lines (diff_ops old_lines new_lines))))"

definition unified_diff :: "string \<Rightarrow> string \<Rightarrow> string option" where
  "unified_diff old new = unified_diff_with_context old new DIFF_CONTEXT"

section \<open>Scripts and the best script\<close>

text \<open>A script is valid when it consumes both sequences, equal lines together.\<close>

fun script_ok :: "diff_op list \<Rightarrow> string list \<Rightarrow> string list \<Rightarrow> bool" where
  "script_ok [] old new \<longleftrightarrow> old = [] \<and> new = []"
| "script_ok (OpEqual # ops) (x # old) (y # new) \<longleftrightarrow> x = y \<and> script_ok ops old new"
| "script_ok (OpRemove # ops) (x # old) new \<longleftrightarrow> script_ok ops old new"
| "script_ok (OpAdd # ops) old (y # new) \<longleftrightarrow> script_ok ops old new"
| "script_ok _ old new \<longleftrightarrow> False"

definition equals :: "diff_op list \<Rightarrow> nat" where
  "equals ops = length (filter (\<lambda>x. x = OpEqual) ops)"

lemma equals_simps [simp]:
  "equals [] = 0" "equals (OpEqual # ops) = Suc (equals ops)" "equals (OpRemove # ops) = equals ops"
  "equals (OpAdd # ops) = equals ops" "equals (a @ b) = equals a + equals b" "equals (rev a) = equals a"
  "equals (replicate n OpEqual) = n" "equals (replicate n OpAdd) = 0" "equals (replicate n OpRemove) = 0"
  by (simp_all add: equals_def rev_filter [symmetric])

fun lcs :: "string list \<Rightarrow> string list \<Rightarrow> nat" where
  "lcs (x # xs) (y # ys) =
     max (if x = y then Suc (lcs xs ys) else 0) (max (lcs xs (y # ys)) (lcs (x # xs) ys))"
| "lcs _ _ = 0"

lemma lcs_Nil [simp]: "lcs xs [] = 0" "lcs [] ys = 0"
  by (cases xs; simp)+

lemma lcs_mono: "lcs xs ys \<le> lcs (x # xs) ys" "lcs xs ys \<le> lcs xs (y # ys)"
  by (cases ys; simp; fail) (cases xs; simp)

lemma lcs_step: "lcs (x # xs) ys \<le> Suc (lcs xs ys)" "lcs xs (y # ys) \<le> Suc (lcs xs ys)"
proof -
  show "lcs (x # xs) ys \<le> Suc (lcs xs ys)"
  proof (induction ys)
    case (Cons y ys)
    then show ?case using lcs_mono(2) [of xs ys y] by auto
  qed simp
  show "lcs xs (y # ys) \<le> Suc (lcs xs ys)"
  proof (induction xs)
    case (Cons x xs)
    then show ?case using lcs_mono(1) [of xs ys x] by auto
  qed simp
qed

lemma lcs_same: "lcs (x # xs) (x # ys) = Suc (lcs xs ys)"
  using lcs_step(1) [of x xs ys] lcs_step(2) [of xs x ys] by simp

lemma lcs_differ: "x \<noteq> y \<Longrightarrow> lcs (x # xs) (y # ys) = max (lcs xs (y # ys)) (lcs (x # xs) ys)"
  by simp

declare lcs.simps(1) [simp del]

lemma lcs_le: "lcs xs ys \<le> length xs" "lcs xs ys \<le> length ys"
proof -
  show "lcs xs ys \<le> length xs"
  proof (induction xs)
    case (Cons x xs)
    then show ?case using lcs_step(1) [of x xs ys] by simp
  qed simp
  show "lcs xs ys \<le> length ys"
  proof (induction ys)
    case (Cons y ys)
    then show ?case using lcs_step(2) [of xs y ys] by simp
  qed simp
qed

lemma script_le_lcs: "script_ok ops old new \<Longrightarrow> equals ops \<le> lcs old new"
proof (induction ops old new rule: script_ok.induct)
  case (2 ops x old y new)
  then show ?case by (auto simp: lcs_same)
next
  case (3 ops x old new)
  then show ?case using lcs_mono(1) [of old new x] by simp
next
  case (4 ops old y new)
  then show ?case using lcs_mono(2) [of old new y] by simp
qed auto

lemma script_append:
  "script_ok a o1 n1 \<Longrightarrow> script_ok b o2 n2 \<Longrightarrow> script_ok (a @ b) (o1 @ o2) (n1 @ n2)"
  by (induction a o1 n1 rule: script_ok.induct) auto

lemma script_rev: "script_ok ops old new \<Longrightarrow> script_ok (rev ops) (rev old) (rev new)"
proof (induction ops old new rule: script_ok.induct)
  case (2 ops x old y new)
  then show ?case using script_append [of "rev ops" "rev old" "rev new" "[OpEqual]" "[x]" "[y]"] by simp
next
  case (3 ops x old new)
  then show ?case using script_append [of "rev ops" "rev old" "rev new" "[OpRemove]" "[x]" "[]"] by simp
next
  case (4 ops old y new)
  then show ?case using script_append [of "rev ops" "rev old" "rev new" "[OpAdd]" "[]" "[y]"] by simp
qed auto

lemma script_replace:
  "script_ok (replicate (length old) OpRemove @ replicate (length new) OpAdd) old new"
proof -
  have "script_ok (replicate (length old) OpRemove) old []" by (induction old) auto
  moreover have "script_ok (replicate (length new) OpAdd) [] new" by (induction new) auto
  ultimately show ?thesis using script_append by fastforce
qed

lemma script_same: "script_ok (replicate (length xs) OpEqual) xs xs"
  by (induction xs) auto

text \<open>A best script exists, so the bound is the maximum and does not depend on the direction.\<close>

lemma lcs_script: "\<exists>ops. script_ok ops old new \<and> equals ops = lcs old new"
proof (induction old new rule: lcs.induct)
  case (1 x xs y ys)
  show ?case
  proof (cases "x = y")
    case True
    from 1(1) [OF True] obtain ops where "script_ok ops xs ys" "equals ops = lcs xs ys" by blast
    with True show ?thesis by (intro exI [of _ "OpEqual # ops"]) (simp add: lcs_same)
  next
    case False
    from 1(2) obtain a where a: "script_ok a xs (y # ys)" "equals a = lcs xs (y # ys)" by blast
    from 1(3) obtain b where b: "script_ok b (x # xs) ys" "equals b = lcs (x # xs) ys" by blast
    show ?thesis
    proof (cases "lcs xs (y # ys) \<le> lcs (x # xs) ys")
      case True
      with b False show ?thesis by (intro exI [of _ "OpAdd # b"]) (simp add: lcs_differ)
    next
      case le: False
      with a False show ?thesis by (intro exI [of _ "OpRemove # a"]) (simp add: lcs_differ)
    qed
  qed
qed (use script_replace in \<open>force intro!: exI [of _ "replicate _ OpRemove @ replicate _ OpAdd"]\<close>)+

lemma lcs_rev: "lcs (rev old) (rev new) = lcs old new"
proof -
  have "lcs old new \<le> lcs (rev old) (rev new)" for old new
    using lcs_script [of old new] script_le_lcs script_rev by (metis equals_simps(6))
  from this [of old new] this [of "rev old" "rev new"] show ?thesis by simp
qed

lemma lcs_prefix: "lcs (p @ xs) (p @ ys) = length p + lcs xs ys"
  by (induction p) (simp_all add: lcs_same)

lemma lcs_suffix: "lcs (xs @ p) (ys @ p) = lcs xs ys + length p"
  using lcs_prefix [of "rev p" "rev xs" "rev ys"] lcs_rev [of "xs @ p" "ys @ p"] lcs_rev [of xs ys]
  by simp

section \<open>The table holds the best scripts\<close>

text \<open>One cell, one row, then all rows, each from the last.\<close>

lemma row_before: "i' < i \<Longrightarrow> j < w \<Longrightarrow> i' * w + j < i * w" for i :: nat
proof -
  assume "i' < i" "j < w"
  then have "Suc i' * w \<le> i * w" by (intro mult_le_mono1) simp
  with \<open>j < w\<close> show ?thesis by simp
qed

definition small :: "string list \<Rightarrow> string list \<Rightarrow> bool" where
  "small old new \<longleftrightarrow> min (length old) (length new) < 2 ^ 32"

definition best :: "string list \<Rightarrow> string list \<Rightarrow> nat \<Rightarrow> nat \<Rightarrow> u32" where
  "best old new i j = word_of_nat (lcs (drop i old) (drop j new))"

lemma unat_best:
  assumes "small old new"
  shows "unat (best old new i j) = lcs (drop i old) (drop j new)"
proof -
  have "lcs (drop i old) (drop j new) \<le> min (length old) (length new)"
    using lcs_le [of "drop i old" "drop j new"] by (simp add: le_diff_conv) linarith
  with assms have "lcs (drop i old) (drop j new) < 2 ^ 32"
    by (auto simp: small_def min_def split: if_splits)
  then show ?thesis by (simp add: best_def unsigned_of_nat take_bit_nat_eq_self)
qed

lemma max_best:
  assumes "small old new"
  shows "max (best old new i j) (best old new k l) =
    word_of_nat (max (lcs (drop i old) (drop j new)) (lcs (drop k old) (drop l new)))"
  using unat_best [OF assms, of i j] unat_best [OF assms, of k l]
  by (auto simp: max_def word_le_nat_alt best_def)

lemma best_cell:
  assumes "i < length old" "j < length new" "small old new"
  shows "best old new i j =
    (if old ! i = new ! j then best old new (i + 1) (j + 1) + 1
     else max (best old new (i + 1) j) (best old new i (j + 1)))"
proof -
  have d: "drop i old = old ! i # drop (Suc i) old" "drop j new = new ! j # drop (Suc j) new"
    using assms by (simp_all add: Cons_nth_drop_Suc)
  show ?thesis
  proof (cases "old ! i = new ! j")
    case True
    then have "lcs (drop i old) (drop j new) = Suc (lcs (drop (Suc i) old) (drop (Suc j) new))"
      by (simp add: d lcs_same)
    with True show ?thesis by (simp add: best_def)
  next
    case False
    then have "lcs (drop i old) (drop j new) =
        max (lcs (drop (Suc i) old) (drop j new)) (lcs (drop i old) (drop (Suc j) new))"
      using lcs_differ [OF False, of "drop (Suc i) old" "drop (Suc j) new"] assms
      by (simp add: Cons_nth_drop_Suc)
    with False show ?thesis using max_best [OF assms(3)] by (simp add: best_def)
  qed
qed

lemma fill_row_from:
  fixes old new :: "string list"
  defines "w \<equiv> length new + 1"
  assumes i: "i < length old" and s: "small old new"
  shows "k \<le> length new \<Longrightarrow> length t = (length old + 1) * w \<Longrightarrow>
    (\<And>j. j \<le> length new \<Longrightarrow> t ! ((i + 1) * w + j) = best old new (i + 1) j) \<Longrightarrow>
    (\<And>j. k \<le> j \<Longrightarrow> j \<le> length new \<Longrightarrow> t ! (i * w + j) = best old new i j) \<Longrightarrow>
    (let t' = fold (\<lambda>j t. t[i * w + j := table_cell old new w i j t]) (rev [0..<k]) t in
     length t' = length t \<and> (\<forall>j \<le> length new. t' ! (i * w + j) = best old new i j) \<and>
     (\<forall>p. p < i * w \<or> (i + 1) * w \<le> p \<longrightarrow> t' ! p = t ! p))"
proof (induction k arbitrary: t)
  case 0
  then show ?case by simp
next
  case (Suc k)
  let ?t = "t[i * w + k := table_cell old new w i k t]"
  have len: "i * w + k < length t"
    using row_before [of i "length old + 1" k w] i Suc(2,3) by (simp add: w_def)
  have cell: "table_cell old new w i k t = best old new i k"
    using best_cell [of i old k new] Suc(2) Suc(4) [of k] Suc(4) [of "k + 1"] Suc(5) [of "k + 1"] i s
    by (simp add: table_cell_def add.assoc)
  have "let t' = fold (\<lambda>j t. t[i * w + j := table_cell old new w i j t]) (rev [0..<k]) ?t in
     length t' = length ?t \<and> (\<forall>j \<le> length new. t' ! (i * w + j) = best old new i j) \<and>
     (\<forall>p. p < i * w \<or> (i + 1) * w \<le> p \<longrightarrow> t' ! p = ?t ! p)"
  proof (rule Suc(1))
    show "k \<le> length new" "length ?t = (length old + 1) * w" using Suc(2,3) by simp_all
    show "?t ! ((i + 1) * w + j) = best old new (i + 1) j" if "j \<le> length new" for j
      using Suc(2) Suc(4) [OF that] by (simp add: w_def)
    show "?t ! (i * w + j) = best old new i j" if "k \<le> j" "j \<le> length new" for j
      using Suc(5) [of j] that len cell by (cases "j = k") (simp_all add: nth_list_update)
  qed
  moreover have "?t ! p = t ! p" if "p < i * w \<or> (i + 1) * w \<le> p" for p
    using that Suc(2) by (auto simp: w_def)
  ultimately show ?case by (simp add: Let_def)
qed

lemma fill_rows_from:
  fixes old new :: "string list"
  defines "w \<equiv> length new + 1"
  assumes s: "small old new"
  shows "k \<le> length old \<Longrightarrow> length t = (length old + 1) * w \<Longrightarrow>
    (\<And>i j. k \<le> i \<Longrightarrow> i \<le> length old \<Longrightarrow> j \<le> length new \<Longrightarrow> t ! (i * w + j) = best old new i j) \<Longrightarrow>
    (\<And>p. p < k * w \<Longrightarrow> t ! p = 0) \<Longrightarrow> i \<le> length old \<Longrightarrow> j \<le> length new \<Longrightarrow>
    fold (fill_row old new w) (rev [0..<k]) t ! (i * w + j) = best old new i j"
proof (induction k arbitrary: t)
  case 0
  then show ?case by simp
next
  case (Suc k)
  let ?t = "fill_row old new w k t"
  have zero: "t ! (k * w + length new) = 0" by (rule Suc(5)) (simp add: w_def)
  have row: "length ?t = length t \<and> (\<forall>j \<le> length new. ?t ! (k * w + j) = best old new k j) \<and>
     (\<forall>p. p < k * w \<or> (k + 1) * w \<le> p \<longrightarrow> ?t ! p = t ! p)"
    unfolding fill_row_def
  proof (rule fill_row_from [where old = old and new = new and i = k and k = "length new" and t = t,
        unfolded Let_def, folded w_def])
    show "t ! ((k + 1) * w + j) = best old new (k + 1) j" if "j \<le> length new" for j
      using Suc(4) [of "k + 1" j] Suc(2) that by simp
    show "t ! (k * w + j) = best old new k j" if "length new \<le> j" "j \<le> length new" for j
      using that zero by (simp add: best_def)
  qed (use Suc s in simp_all)
  have "fold (fill_row old new w) (rev [0..<k]) ?t ! (i * w + j) = best old new i j"
  proof (rule Suc(1))
    show "?t ! (i * w + j) = best old new i j" if "k \<le> i" "i \<le> length old" "j \<le> length new" for i j
    proof (cases "i = k")
      case False
      with that have "(k + 1) * w \<le> i * w" by (intro mult_le_mono1) simp
      then have "?t ! (i * w + j) = t ! (i * w + j)" using row by auto
      with False that Suc(4) show ?thesis by simp
    qed (use row that in simp)
    show "?t ! p = 0" if "p < k * w" for p
      using row that Suc(5) [of p] by simp
  qed (use Suc row in simp_all)
  then show ?case by simp
qed

lemma lcs_table_best:
  assumes "small old new" "i \<le> length old" "j \<le> length new"
  shows "lcs_table old new ! (i * (length new + 1) + j) = best old new i j"
  unfolding lcs_table_def Let_def
proof (rule fill_rows_from)
  show "replicate ((length old + 1) * (length new + 1)) 0 ! (i * (length new + 1) + j) = best old new i j"
    if "length old \<le> i" "i \<le> length old" "j \<le> length new" for i j
    using that nth_replicate [OF row_before [of i "length old + 1" j "length new + 1"], of "0 :: u32"]
    by (simp add: best_def del: mult_Suc mult_Suc_right replicate_Suc)
  show "replicate ((length old + 1) * (length new + 1)) 0 ! p = (0 :: u32)"
    if "p < length old * (length new + 1)" for p
    by (rule nth_replicate) (use that in simp)
qed (use assms in simp_all)

section \<open>The script of a diff\<close>

lemma walk_best:
  assumes s: "small old new"
  shows "i \<le> length old \<Longrightarrow> j \<le> length new \<Longrightarrow>
    script_ok (table_walk old new (lcs_table old new) i j) (drop i old) (drop j new) \<and>
    equals (table_walk old new (lcs_table old new) i j) = lcs (drop i old) (drop j new)"
proof (induction "(length old - i) + (length new - j)" arbitrary: i j rule: less_induct)
  case less
  let ?walk = "table_walk old new (lcs_table old new)" and ?w = "length new + 1"
  show ?case
  proof (cases "i < length old \<and> j < length new")
    case False
    then have "drop i old = [] \<or> drop j new = []" by auto
    then have "lcs (drop i old) (drop j new) = 0" by auto
    moreover have "?walk i j = replicate (length old - i) OpRemove @ replicate (length new - j) OpAdd"
      using False by (subst table_walk.simps) auto
    ultimately show ?thesis using script_replace [of "drop i old" "drop j new"] by simp
  next
    case True
    then have d: "drop i old = old ! i # drop (Suc i) old" "drop j new = new ! j # drop (Suc j) new"
      by (simp_all add: Cons_nth_drop_Suc)
    have m: "length old - Suc i + (length new - Suc j) < length old - i + (length new - j)"
      "length old - Suc i + (length new - j) < length old - i + (length new - j)"
      "length old - i + (length new - Suc j) < length old - i + (length new - j)"
      using True by linarith+
    have eq: "script_ok (?walk (Suc i) (Suc j)) (drop (Suc i) old) (drop (Suc j) new) \<and>
        equals (?walk (Suc i) (Suc j)) = lcs (drop (Suc i) old) (drop (Suc j) new)"
      and rem: "script_ok (?walk (Suc i) j) (drop (Suc i) old) (drop j new) \<and>
        equals (?walk (Suc i) j) = lcs (drop (Suc i) old) (drop j new)"
      and add: "script_ok (?walk i (Suc j)) (drop i old) (drop (Suc j) new) \<and>
        equals (?walk i (Suc j)) = lcs (drop i old) (drop (Suc j) new)"
      using True less(1) [OF m(1)] less(1) [OF m(2)] less(1) [OF m(3)] by simp_all
    have cells: "lcs_table old new ! (i * ?w + j + 1) \<le> lcs_table old new ! ((i + 1) * ?w + j) \<longleftrightarrow>
        lcs (drop i old) (drop (Suc j) new) \<le> lcs (drop (Suc i) old) (drop j new)"
      using True lcs_table_best [OF s, of i "j + 1"] lcs_table_best [OF s, of "i + 1" j]
      by (simp add: word_le_nat_alt unat_best [OF s] add.assoc del: mult_Suc mult_Suc_right)
    have walk: "?walk i j =
        (if old ! i = new ! j then OpEqual # ?walk (Suc i) (Suc j)
         else if lcs (drop i old) (drop (Suc j) new) \<le> lcs (drop (Suc i) old) (drop j new)
         then OpRemove # ?walk (Suc i) j else OpAdd # ?walk i (Suc j))"
      using True cells by (subst table_walk.simps) (simp add: Let_def)
    consider (same) "old ! i = new ! j" | (diff) "old ! i \<noteq> new ! j" by blast
    then show ?thesis
    proof cases
      case same
      then show ?thesis using eq by (simp add: walk d lcs_same)
    next
      case diff
      then have "lcs (drop i old) (drop j new) =
          max (lcs (drop (Suc i) old) (drop j new)) (lcs (drop i old) (drop (Suc j) new))"
        using lcs_differ [OF diff, of "drop (Suc i) old" "drop (Suc j) new"] by (simp add: d)
      then show ?thesis using diff rem add by (auto simp: walk d)
    qed
  qed
qed

lemma middle_ops_ok:
  "script_ok (middle_ops old new) old new \<and>
   (length old * length new \<le> MAX_TABLE_CELLS \<longrightarrow> equals (middle_ops old new) = lcs old new)"
proof -
  have "small old new" if "length old * length new \<le> MAX_TABLE_CELLS"
  proof -
    define m where "m = min (length old) (length new)"
    have "m * m \<le> 1000000"
      using that mult_le_mono [of m "length old" m "length new"] by (simp add: MAX_TABLE_CELLS_def m_def)
    moreover have "m \<le> m * m" by (cases m) auto
    ultimately have "m \<le> 1000000" by (rule le_trans [rotated])
    then show ?thesis by (simp add: small_def m_def [symmetric])
  qed
  then show ?thesis
    using walk_best [of old new 0 0] script_replace [of old new] script_replace [of "[]" new]
      script_replace [of old "[]"]
    by (auto simp: middle_ops_def)
qed

lemma common_prefix_take: "take (common_prefix xs ys) xs = take (common_prefix xs ys) ys"
  by (induction xs ys rule: common_prefix.induct) auto

lemma common_prefix_le: "common_prefix xs ys \<le> length xs" "common_prefix xs ys \<le> length ys"
  by (induction xs ys rule: common_prefix.induct) auto

text \<open>Both texts are a common start, the two middles, and a common end.\<close>

lemma diff_split:
  fixes old new :: "string list"
  defines "pre \<equiv> common_prefix old new"
  defines "suf \<equiv> common_prefix (rev (drop pre old)) (rev (drop pre new))"
  shows "\<exists>p q. length p = pre \<and> length q = suf \<and>
    old = p @ drop pre (take (length old - suf) old) @ q \<and>
    new = p @ drop pre (take (length new - suf) new) @ q"
proof -
  have pre: "pre \<le> length old" "pre \<le> length new" "take pre old = take pre new"
    using common_prefix_le common_prefix_take by (auto simp: pre_def)
  have suf: "suf \<le> length old - pre" "suf \<le> length new - pre"
    using common_prefix_le [of "rev (drop pre old)" "rev (drop pre new)"] by (auto simp: suf_def)
  have "take suf (rev (drop pre old)) = take suf (rev (drop pre new))"
    unfolding suf_def by (rule common_prefix_take)
  then have q: "drop (length old - suf) old = drop (length new - suf) new"
    using suf pre by (simp add: take_rev drop_drop)
  have cut: "xs = take pre xs @ drop pre (take (length xs - suf) xs) @ drop (length xs - suf) xs"
    if "pre + suf \<le> length xs" for xs :: "string list"
  proof -
    have "pre \<le> length xs - suf" using that by linarith
    then have "take pre (take (length xs - suf) xs) = take pre xs" by (simp add: min_absorb1)
    then show ?thesis by (metis append.assoc append_take_drop_id)
  qed
  show ?thesis
    using cut [of old] cut [of new] pre suf q
    by (intro exI [of _ "take pre old"] exI [of _ "drop (length old - suf) old"]) auto
qed

lemma diff_ops_ok:
  "script_ok (diff_ops old new) old new \<and>
   (length old * length new \<le> MAX_TABLE_CELLS \<longrightarrow> equals (diff_ops old new) = lcs old new)"
proof -
  define pre where "pre = common_prefix old new"
  define suf where "suf = common_prefix (rev (drop pre old)) (rev (drop pre new))"
  define a where "a = drop pre (take (length old - suf) old)"
  define b where "b = drop pre (take (length new - suf) new)"
  obtain p q where pq: "length p = pre" "length q = suf" "old = p @ a @ q" "new = p @ b @ q"
    using diff_split [of old new] unfolding pre_def [symmetric] suf_def [symmetric] a_def [symmetric]
      b_def [symmetric] by blast
  have ops: "diff_ops old new = replicate pre OpEqual @ middle_ops a b @ replicate suf OpEqual"
    by (simp add: diff_ops_def Let_def pre_def suf_def a_def b_def)
  have "script_ok (diff_ops old new) (p @ a @ q) (p @ b @ q)"
    unfolding ops using middle_ops_ok [of a b] script_same [of p] script_same [of q] pq(1,2)
    by (intro script_append) auto
  moreover have "lcs (p @ a @ q) (p @ b @ q) = pre + lcs a b + suf"
    using lcs_prefix [of p "a @ q" "b @ q"] lcs_suffix [of a q b] pq(1,2) by simp
  moreover have "equals (diff_ops old new) = pre + equals (middle_ops a b) + suf" by (simp add: ops)
  moreover have "length a * length b \<le> length old * length new"
    by (intro mult_le_mono) (simp_all add: a_def b_def)
  ultimately show ?thesis
    using middle_ops_ok [of a b] unfolding pq(3,4) [symmetric] by auto
qed

text \<open>C24. The edit script of \<open>diff_ops\<close> is right and as small as it can be. It consumes the old and the new
  lines exactly, keeping a line only where both texts have it; and unless the product of the line
  counts exceeds the table limit, no valid script keeps more lines. The prefix and suffix cuts and
  the flat table of 32-bit cells, filled backwards in place, lose nothing.
\<close>

theorem diff_ops_minimal:
  "script_ok (diff_ops old new) old new \<and>
   (\<forall>ops. script_ok ops old new \<and> length old * length new \<le> MAX_TABLE_CELLS \<longrightarrow>
      equals ops \<le> equals (diff_ops old new))"
  using diff_ops_ok [of old new] script_le_lcs by auto

lemma demo_script: "script_ok [OpRemove, OpEqual, OpAdd] [''a'', ''b''] [''b'', ''c'']"
  by simp

theorem diff_ops_minimal_witness:
  "length [''a'', ''b''] * length [''b'', ''c''] \<le> MAX_TABLE_CELLS \<and>
   equals [OpRemove, OpEqual, OpAdd] \<le> equals (diff_ops [''a'', ''b''] [''b'', ''c''])"
  using conjunct2 [OF diff_ops_minimal [of "[''a'', ''b'']" "[''b'', ''c'']"], rule_format,
    OF conjI, OF demo_script]
  by (simp add: MAX_TABLE_CELLS_def)

section \<open>Numbered rows\<close>

fun numbered :: "nat \<Rightarrow> nat \<Rightarrow> row list \<Rightarrow> bool" where
  "numbered i j [] \<longleftrightarrow> True"
| "numbered i j (r # rs) \<longleftrightarrow>
     (case row_kind r of
        RowContext \<Rightarrow> old_line r = Some (word_of_nat i + 1) \<and> new_line r = Some (word_of_nat j + 1) \<and>
          numbered (i + 1) (j + 1) rs
      | RowRemoved \<Rightarrow> old_line r = Some (word_of_nat i + 1) \<and> new_line r = None \<and> numbered (i + 1) j rs
      | RowAdded \<Rightarrow> old_line r = None \<and> new_line r = Some (word_of_nat j + 1) \<and> numbered i (j + 1) rs)"

definition old_texts :: "row list \<Rightarrow> string list" where
  "old_texts rs = map row_text (filter (\<lambda>r. row_kind r \<noteq> RowAdded) rs)"

definition new_texts :: "row list \<Rightarrow> string list" where
  "new_texts rs = map row_text (filter (\<lambda>r. row_kind r \<noteq> RowRemoved) rs)"

lemma texts_simps [simp]:
  "old_texts [] = []" "new_texts [] = []"
  "old_texts (r # rs) = (if row_kind r = RowAdded then old_texts rs else row_text r # old_texts rs)"
  "new_texts (r # rs) = (if row_kind r = RowRemoved then new_texts rs else row_text r # new_texts rs)"
  "old_texts (a @ b) = old_texts a @ old_texts b" "new_texts (a @ b) = new_texts a @ new_texts b"
  by (simp_all add: old_texts_def new_texts_def)

lemma rows_from_ok:
  "script_ok ops old new \<Longrightarrow>
   \<exists>rs. rows_from i j old new ops = Some rs \<and> numbered i j rs \<and> old_texts rs = old \<and> new_texts rs = new"
proof (induction ops old new arbitrary: i j rule: script_ok.induct)
  case (2 ops x old y new)
  then obtain rs where "rows_from (i + 1) (j + 1) old new ops = Some rs" "numbered (i + 1) (j + 1) rs"
    "old_texts rs = old" "new_texts rs = new" by fastforce
  with 2(2) show ?case by simp
next
  case (3 ops x old new)
  then obtain rs where "rows_from (i + 1) j old new ops = Some rs" "numbered (i + 1) j rs"
    "old_texts rs = old" "new_texts rs = new" by fastforce
  then show ?case by simp
next
  case (4 ops old y new)
  then obtain rs where rs: "rows_from i (j + 1) old new ops = Some rs" "numbered i (j + 1) rs"
    "old_texts rs = old" "new_texts rs = new" by fastforce
  then have "rows_from i j old (y # new) (OpAdd # ops) = Some (\<lparr>row_kind = RowAdded, old_line = None,
      new_line = Some (word_of_nat j + 1), row_text = y\<rparr> # rs)" by (cases old) simp_all
  with rs show ?case by auto
qed auto

lemma numbered_append:
  "numbered i j (a @ b) \<longleftrightarrow>
   numbered i j a \<and> numbered (i + length (old_texts a)) (j + length (new_texts a)) b"
  by (induction a arbitrary: i j) (auto split: row_kind.splits)

text \<open>The numbers of one side, and where a stretch of rows starts on it.\<close>

lemma numbered_old:
  "numbered i j rs \<Longrightarrow> List.map_filter old_line rs =
   map (\<lambda>k. word_of_nat k + 1) [i..<i + length (old_texts rs)]"
  by (induction rs arbitrary: i j)
    (auto simp: List.map_filter_simps upt_conv_Cons simp del: upt_Suc split: row_kind.splits)

lemma numbered_new:
  "numbered i j rs \<Longrightarrow> List.map_filter new_line rs =
   map (\<lambda>k. word_of_nat k + 1) [j..<j + length (new_texts rs)]"
  by (induction rs arbitrary: i j)
    (auto simp: List.map_filter_simps upt_conv_Cons simp del: upt_Suc split: row_kind.splits)

lemma map_filter_rev: "List.map_filter f (rev xs) = rev (List.map_filter f xs)"
  by (induction xs) (auto simp: List.map_filter_simps map_filter_def)

lemma side_start_from:
  assumes "List.map_filter f (take a rs) = map (\<lambda>k. word_of_nat k + 1) [0..<p]"
    and "List.map_filter f (drop a (take b rs)) = map (\<lambda>k. word_of_nat k + 1) [p..<p + n]"
  shows "side_start f rs (a, b) = (if n = 0 then word_of_nat p else word_of_nat p + 1)"
    and "side_count f rs (a, b) = n"
proof -
  have "first_line_of f (rev (take a rs)) = (if p = 0 then None else Some (word_of_nat p))"
    using assms(1) by (cases p) (auto simp: first_line_of_def map_filter_rev)
  moreover have "first_line_of f (drop a (take b rs)) = (if n = 0 then None else Some (word_of_nat p + 1))"
    using assms(2) by (auto simp: first_line_of_def upt_conv_Cons)
  ultimately show "side_start f rs (a, b) = (if n = 0 then word_of_nat p else word_of_nat p + 1)"
    by (auto simp: side_start_def)
  show "side_count f rs (a, b) = n" using assms(2) by (simp add: side_count_def)
qed

section \<open>The ranges shown\<close>

fun separated :: "nat \<Rightarrow> nat \<Rightarrow> (nat \<times> nat) list \<Rightarrow> bool" where
  "separated n lo [] \<longleftrightarrow> True"
| "separated n lo ((a, b) # rs) \<longleftrightarrow> lo \<le> a \<and> a < b \<and> b \<le> n \<and> separated n b rs"

definition range_end :: "nat \<Rightarrow> (nat \<times> nat) list \<Rightarrow> nat" where
  "range_end lo rs = (if rs = [] then lo else snd (last rs))"

lemma separated_snoc:
  "separated n lo (rs @ [(a, b)]) \<longleftrightarrow> separated n lo rs \<and> range_end lo rs \<le> a \<and> a < b \<and> b \<le> n"
  by (induction rs arbitrary: lo) (auto simp: range_end_def)

definition in_ranges :: "nat \<Rightarrow> (nat \<times> nat) list \<Rightarrow> bool" where
  "in_ranges i rs \<longleftrightarrow> (\<exists>(a, b)\<in>set rs. a \<le> i \<and> i < b)"

lemma add_range_ok:
  assumes s: "separated n 0 rs" and e: "range_end 0 rs \<le> stop" and ss: "start < stop" "stop \<le> n"
    and f: "rs \<noteq> [] \<longrightarrow> fst (last rs) \<le> start"
  shows "separated n 0 (add_range start stop rs)" and "range_end 0 (add_range start stop rs) = stop"
    and "in_ranges i rs \<Longrightarrow> in_ranges i (add_range start stop rs)"
    and "start \<le> i \<Longrightarrow> i < stop \<Longrightarrow> in_ranges i (add_range start stop rs)"
    and "fst (last (add_range start stop rs)) \<le> start"
proof -
  have "fst (last (add_range start stop rs)) \<le> start \<and> separated n 0 (add_range start stop rs) \<and> range_end 0 (add_range start stop rs) = stop \<and>
    (in_ranges i rs \<or> (start \<le> i \<and> i < stop) \<longrightarrow> in_ranges i (add_range start stop rs))"
  proof (cases rs rule: rev_cases)
    case Nil
    with ss show ?thesis by (auto simp: add_range_def range_end_def in_ranges_def)
  next
    case (snoc init r)
    obtain a b where r: "r = (a, b)" by fastforce
    show ?thesis
    proof (cases "start \<le> b")
      case True
      then have "add_range start stop rs = init @ [(a, stop)]" by (simp add: add_range_def snoc r)
      moreover have "b \<le> stop" using e by (simp add: snoc r range_end_def)
      ultimately show ?thesis
        using s ss f unfolding snoc r by (auto simp: separated_snoc range_end_def in_ranges_def)
    next
      case False
      then have "add_range start stop rs = rs @ [(start, stop)]" by (simp add: add_range_def snoc r)
      moreover have "range_end 0 rs = b" by (simp add: range_end_def snoc r)
      then have "separated n 0 (rs @ [(start, stop)])" using s ss False by (simp add: separated_snoc)
      ultimately show ?thesis by (auto simp: range_end_def in_ranges_def)
    qed
  qed
  then show "separated n 0 (add_range start stop rs)" "range_end 0 (add_range start stop rs) = stop"
    "in_ranges i rs \<Longrightarrow> in_ranges i (add_range start stop rs)"
    "start \<le> i \<Longrightarrow> i < stop \<Longrightarrow> in_ranges i (add_range start stop rs)"
    "fst (last (add_range start stop rs)) \<le> start" by blast+
qed

lemma diff_ranges_ok:
  "separated (length rs) 0 (diff_ranges rs context)"
  "i < length rs \<Longrightarrow> row_kind (rs ! i) \<noteq> RowContext \<Longrightarrow> in_ranges i (diff_ranges rs context)"
proof -
  let ?f = "\<lambda>i ranges. if row_kind (rs ! i) = RowContext then ranges
        else add_range (i - context) (min (i + context + 1) (length rs)) ranges"
  have "separated (length rs) 0 (fold ?f [0..<k] []) \<and>
    range_end 0 (fold ?f [0..<k] []) \<le> min (k + context) (length rs) \<and>
    (fold ?f [0..<k] [] \<noteq> [] \<longrightarrow> fst (last (fold ?f [0..<k] [])) \<le> k - context) \<and>
    (\<forall>i<k. row_kind (rs ! i) \<noteq> RowContext \<longrightarrow> in_ranges i (fold ?f [0..<k] []))"
    if "k \<le> length rs" for k
    using that
  proof (induction k)
    case (Suc k)
    let ?r = "fold ?f [0..<k] []"
    let ?stop = "min (k + context + 1) (length rs)"
    have IH: "separated (length rs) 0 ?r" "range_end 0 ?r \<le> ?stop"
      "?r \<noteq> [] \<longrightarrow> fst (last ?r) \<le> k - context"
      "\<forall>i<k. row_kind (rs ! i) \<noteq> RowContext \<longrightarrow> in_ranges i ?r"
      and e: "range_end 0 ?r \<le> min (k + context) (length rs)"
      using Suc by auto
    have ss: "k - context < ?stop" "?stop \<le> length rs" using Suc(2) by auto
    show ?case
    proof (cases "row_kind (rs ! k) = RowContext")
      case True
      then have "fold ?f [0..<Suc k] [] = ?r" by simp
      then show ?thesis using True IH e by (auto simp: less_Suc_eq)
    next
      case False
      then have r: "fold ?f [0..<Suc k] [] = add_range (k - context) ?stop ?r" by simp
      note ok = add_range_ok [OF IH(1,2) ss IH(3)]
      have "in_ranges i (add_range (k - context) ?stop ?r)"
        if "i < Suc k" "row_kind (rs ! i) \<noteq> RowContext" for i
        using that ok(3) [of i] ok(4) [of i] IH(4) Suc(2) by (cases "i = k") auto
      then show ?thesis unfolding r using ok(1,2,5) by (auto simp: diff_le_mono)
    qed
  qed (simp add: range_end_def)
  from this [of "length rs"] show "separated (length rs) 0 (diff_ranges rs context)"
    "i < length rs \<Longrightarrow> row_kind (rs ! i) \<noteq> RowContext \<Longrightarrow> in_ranges i (diff_ranges rs context)"
    by (simp_all add: diff_ranges_def)
qed

end
