(* ===== verification/Diff_View.thy ===== *)
theory Diff_View
  imports Text_Diff
begin

text \<open>
  The reader of a recorded diff (\<open>crates/goble-ui/src/elements/diff/model.rs\<close>): unified-diff text back
  into hunks of numbered lines, and the rows the transcript draws. It closes the loop with
  \<open>Text_Diff\<close>: what the file tool recorded, parsed and applied to the old text, is the new text.
\<close>

section \<open>Hunks\<close>

datatype diff_line_kind = LineContext | LineAdded | LineRemoved

record diff_line =
  dl_kind :: diff_line_kind
  dl_old :: "u32 option"
  dl_new :: "u32 option"
  dl_text :: string

record hunk =
  h_old_start :: u32
  h_old_count :: u32
  h_new_start :: u32
  h_new_count :: u32
  h_section :: string
  h_lines :: "diff_line list"

definition format_range :: "u32 \<Rightarrow> u32 \<Rightarrow> string" where
  "format_range start count =
     (if count = 1 then show_nat (unat start)
      else show_nat (unat start) @ '','' @ show_nat (unat count))"

definition header :: "hunk \<Rightarrow> string" where
  "header h =
     (let text = ''@@ -'' @ format_range (h_old_start h) (h_old_count h) @
        '' +'' @ format_range (h_new_start h) (h_new_count h) @ '' @@''
      in if h_section h \<noteq> [] then text @ '' '' @ h_section h else text)"

definition line_count :: "diff_line_kind \<Rightarrow> hunk \<Rightarrow> nat" where
  "line_count k h = length (filter (\<lambda>l. dl_kind l = k) (h_lines h))"

datatype diff_row =
    HunkHeader u32 u32 u32 u32 string
  | Gap nat
  | DiffRowLine diff_line

section \<open>Parsing\<close>

definition parse_range :: "string \<Rightarrow> (u32 \<times> u32) option" where
  "parse_range token =
     (let parts = split_on (CHR '','') (dropWhile (\<lambda>c. c = CHR ''-'' \<or> c = CHR ''+'') token) in
      case parse_u32 (trim (hd parts)) of
        None \<Rightarrow> None
      | Some start \<Rightarrow>
          (case tl parts of
             [] \<Rightarrow> Some (start, 1)
           | count # _ \<Rightarrow> map_option (\<lambda>n. (start, n)) (parse_u32 (trim count))))"

definition parse_hunk_header :: "string \<Rightarrow> hunk option" where
  "parse_hunk_header line =
     (if \<not> prefix ''@@'' line then None
      else
        (let rest = drop 2 line in
         case find_sub ''@@'' rest of
           None \<Rightarrow> None
         | Some stop \<Rightarrow>
             (case split_whitespace (take stop rest) of
                t1 # t2 # _ \<Rightarrow>
                  (case (parse_range t1, parse_range t2) of
                     (Some (os, oc), Some (ns, nc)) \<Rightarrow>
                       Some \<lparr>h_old_start = os, h_old_count = oc, h_new_start = ns, h_new_count = nc,
                         h_section = trim (drop (stop + 2) rest), h_lines = []\<rparr>
                   | _ \<Rightarrow> None)
              | _ \<Rightarrow> None)))"

text \<open>The variables of the loop: the hunks so far, the open hunk, the two consumed counts.\<close>

type_synonym parse_state = "hunk list \<times> hunk option \<times> u32 \<times> u32"

definition line_kind :: "string \<Rightarrow> diff_line_kind option" where
  "line_kind raw =
     (case raw of
        c # _ \<Rightarrow>
          if c = CHR '' '' then Some LineContext
          else if c = CHR ''+'' then Some LineAdded
          else if c = CHR ''-'' then Some LineRemoved else None
      | [] \<Rightarrow> None)"

definition push_line :: "string \<Rightarrow> diff_line_kind \<Rightarrow> hunk \<Rightarrow> u32 \<Rightarrow> u32 \<Rightarrow> hunk \<times> u32 \<times> u32" where
  "push_line raw kind h co cn =
     (h\<lparr>h_lines := h_lines h @
          [\<lparr>dl_kind = kind,
            dl_old = (if kind \<noteq> LineAdded then Some (h_old_start h + co) else None),
            dl_new = (if kind \<noteq> LineRemoved then Some (h_new_start h + cn) else None),
            dl_text = tl raw\<rparr>]\<rparr>,
      if kind \<noteq> LineAdded then co + 1 else co,
      if kind \<noteq> LineRemoved then cn + 1 else cn)"

definition close_hunk :: "hunk option \<Rightarrow> hunk list \<Rightarrow> hunk list" where
  "close_hunk current hunks = (case current of Some h \<Rightarrow> hunks @ [h] | None \<Rightarrow> hunks)"

fun parse_line :: "string \<Rightarrow> parse_state \<Rightarrow> parse_state" where
  "parse_line raw (hunks, current, co, cn) =
     (if prefix ''@@'' raw then
        (let hunks = close_hunk current hunks in
         case parse_hunk_header raw of
           Some h \<Rightarrow> (hunks, Some h, 0, 0)
         | None \<Rightarrow> (hunks, None, co, cn))
      else
        (case current of
           None \<Rightarrow> (hunks, None, co, cn)
         | Some h \<Rightarrow>
             if h_old_count h \<le> co \<and> h_new_count h \<le> cn then (hunks @ [h], None, co, cn)
             else
               (case line_kind raw of
                  None \<Rightarrow> (hunks, Some h, co, cn)
                | Some kind \<Rightarrow>
                    (let (h, co, cn) = push_line raw kind h co cn in (hunks, Some h, co, cn)))))"

definition parse_unified_diff :: "string \<Rightarrow> hunk list" where
  "parse_unified_diff input =
     (case fold parse_line (str_lines input) ([], None, 0, 0) of
        (hunks, current, co, cn) \<Rightarrow> close_hunk current hunks)"

section \<open>The rows drawn\<close>

definition skipped_between :: "hunk \<Rightarrow> hunk \<Rightarrow> nat" where
  "skipped_between prev next =
     unat (saturating_sub (h_old_start next) (saturating_add (h_old_start prev) (h_old_count prev)))"

definition hunk_rows :: "hunk \<Rightarrow> diff_row list" where
  "hunk_rows h =
     HunkHeader (h_old_start h) (h_old_count h) (h_new_start h) (h_new_count h) (h_section h) #
     map DiffRowLine (h_lines h)"

fun build_rows :: "hunk list \<Rightarrow> diff_row list" where
  "build_rows [] = []"
| "build_rows [h] = hunk_rows h"
| "build_rows (h # h' # hs) = hunk_rows h @ Gap (skipped_between h h') # build_rows (h' # hs)"

fun header_text :: "diff_row \<Rightarrow> string" where
  "header_text (HunkHeader os oc ns nc section) =
     header \<lparr>h_old_start = os, h_old_count = oc, h_new_start = ns, h_new_count = nc,
       h_section = section, h_lines = []\<rparr>"
| "header_text _ = []"

definition gap_text :: "nat \<Rightarrow> string" where
  "gap_text skipped =
     (if skipped = 1 then ''... 1 unchanged line skipped''
      else ''... '' @ show_nat skipped @ '' unchanged lines skipped'')"

section \<open>Applying hunks\<close>

text \<open>
  What a diff means, strictly: at each line the gutter numbers are the positions reached in the two
  texts, a context or removed line is the next old line, and a hunk starts where its header says.
\<close>

fun patch_body :: "nat \<Rightarrow> nat \<Rightarrow> diff_line list \<Rightarrow> string list \<Rightarrow> (string list \<times> string list) option" where
  "patch_body k m [] old = Some ([], old)"
| "patch_body k m (l # ls) old =
     (case dl_kind l of
        LineAdded \<Rightarrow>
          if dl_old l = None \<and> dl_new l = Some (word_of_nat m + 1)
          then map_option (\<lambda>(out, rest). (dl_text l # out, rest)) (patch_body k (m + 1) ls old) else None
      | LineRemoved \<Rightarrow>
          if dl_old l = Some (word_of_nat k + 1) \<and> dl_new l = None \<and> old \<noteq> [] \<and> hd old = dl_text l
          then patch_body (k + 1) m ls (tl old) else None
      | LineContext \<Rightarrow>
          if dl_old l = Some (word_of_nat k + 1) \<and> dl_new l = Some (word_of_nat m + 1) \<and>
            old \<noteq> [] \<and> hd old = dl_text l
          then map_option (\<lambda>(out, rest). (dl_text l # out, rest))
            (patch_body (k + 1) (m + 1) ls (tl old)) else None)"

definition hunk_start :: "u32 \<Rightarrow> u32 \<Rightarrow> nat" where
  "hunk_start start count = (if count = 0 then unat start else unat start - 1)"

fun patch :: "nat \<Rightarrow> nat \<Rightarrow> hunk list \<Rightarrow> string list \<Rightarrow> string list option" where
  "patch k m [] old = Some old"
| "patch k m (h # hs) old =
     (let n = hunk_start (h_old_start h) (h_old_count h) - k in
      if hunk_start (h_old_start h) (h_old_count h) < k \<or>
        hunk_start (h_new_start h) (h_new_count h) \<noteq> m + n \<or> length old < n then None
      else
        (case patch_body (k + n) (m + n) (h_lines h) (drop n old) of
           None \<Rightarrow> None
         | Some (out, rest) \<Rightarrow>
             map_option (\<lambda>more. take n old @ out @ more)
               (patch (k + n + unat (h_old_count h)) (m + n + unat (h_new_count h)) hs rest)))"


section \<open>Reading back a header\<close>

lemma find_sub_skip:
  "(\<And>c. c \<in> set w \<Longrightarrow> c \<noteq> p) \<Longrightarrow> find_sub (p # ps) (w @ (p # ps) @ r) = Some (length w)"
  by (induction w) auto

lemma show_nat_chars: "c \<in> set (show_nat n) \<Longrightarrow> is_digit c"
  using show_nat_digits by (auto simp: list_all_iff)

lemma range_text_chars: "c \<in> set (range_text s n) \<Longrightarrow> is_digit c \<or> c = CHR '',''"
  by (auto simp: range_text_def show_nat_chars split: if_splits)

lemma range_text_visible: "list_all visible (range_text s n)" "range_text s n \<noteq> []"
proof -
  show "list_all visible (range_text s n)"
    by (auto simp: list_all_iff visible_def is_digit_def dest!: range_text_chars)
qed (simp add: range_text_def)

lemma trim_show [simp]: "trim (show_nat n) = show_nat n"
  by (rule trim_visible) (auto simp: list_all_iff dest!: show_nat_chars digit_visible)

lemma parse_range_text:
  assumes "n < 2 ^ 32" and "c = CHR ''-'' \<or> c = CHR ''+''"
  shows "parse_range (c # range_text s n) = Some (s, word_of_nat n)"
proof -
  have first: "hd (range_text s n) \<noteq> CHR ''-''" "hd (range_text s n) \<noteq> CHR ''+''"
  proof -
    have "is_digit (hd (show_nat (unat s)))" by (rule show_nat_chars [of _ "unat s"]) simp
    then have "is_digit (hd (range_text s n))" by (simp add: range_text_def)
    then show "hd (range_text s n) \<noteq> CHR ''-''" "hd (range_text s n) \<noteq> CHR ''+''"
      by (auto simp: is_digit_def)
  qed
  have drop: "dropWhile (\<lambda>c. c = CHR ''-'' \<or> c = CHR ''+'') (c # range_text s n) = range_text s n"
    using assms(2) first range_text_visible(2) [of s n] by (cases "range_text s n") auto
  have comma: "CHR '','' \<notin> set (show_nat m)" for m
    using show_nat_chars [of "CHR '',''" m] by (auto simp: is_digit_def)
  have "unat (word_of_nat n :: u32) = n"
    using assms(1) by (simp add: unsigned_of_nat take_bit_nat_eq_self)
  then have num: "parse_u32 (show_nat n) = Some (word_of_nat n)"
    using parse_show_u32 [of "word_of_nat n"] by simp
  have split: "split_on (CHR '','') (range_text s n) =
      (if n = 1 then [show_nat (unat s)] else [show_nat (unat s), show_nat n])"
    using split_on_last [OF comma] split_on_word [OF comma, of "unat s" "show_nat n"]
    by (simp add: range_text_def)
  show ?thesis
    unfolding parse_range_def drop split by (auto simp: Let_def parse_show_u32 num)
qed

lemma split_two_words:
  assumes "ws_free a" "ws_free b"
  shows "split_whitespace ('' '' @ a @ '' '' @ b @ '' '') = [a, b]"
proof -
  have sp: "split_ws [] (CHR '' '' # r) = split_ws [] r" for r
  proof -
    have "ws_len (CHR '' '' # r) = 1" by (cases r rule: ws_len.cases) (auto simp: ws1_def)
    then show ?thesis by (simp add: split_ws.simps [of "[]" "CHR '' '' # r"])
  qed
  have word: "split_ws [] (w @ CHR '' '' # r) = w # split_ws [] r" if "ws_free w" for w r
    using that split_ws_word [of w "CHR '' '' # r" "[]"] split_ws_space [of w r]
    by (simp add: ws_free_def)
  show ?thesis
    using word [OF assms(1), of "b @ '' ''"] word [OF assms(2), of "[]"]
    by (simp add: split_whitespace_def sp split_ws.simps [of "[]" "[]"])
qed

lemma parse_header_split:
  assumes "\<And>c. c \<in> set w \<Longrightarrow> c \<noteq> CHR ''@''" and "split_whitespace w = [t1, t2]"
    and "parse_range t1 = Some (os, oc)" "parse_range t2 = Some (ns, nc)"
  shows "parse_hunk_header (''@@'' @ w @ ''@@'') =
    Some \<lparr>h_old_start = os, h_old_count = oc, h_new_start = ns, h_new_count = nc,
      h_section = [], h_lines = []\<rparr>"
  using assms find_sub_skip [of w "CHR ''@''" "''@''" "[]"]
  by (simp add: parse_hunk_header_def)

text \<open>A header read back, its counts below the width of a number.\<close>

lemma parse_hunk_header_text:
  assumes "side_count old_line rs r < 2 ^ 32" "side_count new_line rs r < 2 ^ 32"
  shows "parse_hunk_header (hunk_header rs r) =
    Some \<lparr>h_old_start = side_start old_line rs r, h_old_count = word_of_nat (side_count old_line rs r),
      h_new_start = side_start new_line rs r, h_new_count = word_of_nat (side_count new_line rs r),
      h_section = [], h_lines = []\<rparr>"
proof -
  let ?o = "range_text (side_start old_line rs r) (side_count old_line rs r)"
  let ?n = "range_text (side_start new_line rs r) (side_count new_line rs r)"
  let ?w = "'' '' @ (CHR ''-'' # ?o) @ '' '' @ (CHR ''+'' # ?n) @ '' ''"
  have line: "hunk_header rs r = ''@@'' @ ?w @ ''@@''" by (simp add: hunk_header_def)
  have "c \<noteq> CHR ''@''" if "c \<in> set ?w" for c
    using that by (auto simp: is_digit_def dest!: range_text_chars)
  moreover have "ws_free (CHR ''-'' # ?o)" "ws_free (CHR ''+'' # ?n)"
    by (rule visible_ws_free; simp add: range_text_visible visible_def)+
  then have "split_whitespace ?w = [CHR ''-'' # ?o, CHR ''+'' # ?n]" by (rule split_two_words)
  ultimately show ?thesis
    unfolding line by (rule parse_header_split [OF _ _ parse_range_text [OF assms(1)] parse_range_text [OF assms(2)]])
      simp_all
qed

section \<open>Reading back the rendering\<close>

fun view_kind :: "row_kind \<Rightarrow> diff_line_kind" where
  "view_kind RowContext = LineContext"
| "view_kind RowRemoved = LineRemoved"
| "view_kind RowAdded = LineAdded"

definition view_line :: "row \<Rightarrow> diff_line" where
  "view_line r = \<lparr>dl_kind = view_kind (row_kind r), dl_old = old_line r, dl_new = new_line r,
     dl_text = row_text r\<rparr>"

definition body_text :: "row \<Rightarrow> string" where
  "body_text r = row_mark (row_kind r) # row_text r"

definition slice :: "row list \<Rightarrow> nat \<times> nat \<Rightarrow> row list" where
  "slice rs r = drop (fst r) (take (snd r) rs)"

definition view_hunk :: "row list \<Rightarrow> nat \<times> nat \<Rightarrow> hunk" where
  "view_hunk rs r = \<lparr>h_old_start = side_start old_line rs r,
     h_old_count = word_of_nat (side_count old_line rs r),
     h_new_start = side_start new_line rs r, h_new_count = word_of_nat (side_count new_line rs r),
     h_section = [], h_lines = map view_line (slice rs r)\<rparr>"

lemma body_text_kind: "line_kind (body_text r) = Some (view_kind (row_kind r))"
  by (cases "row_kind r") (simp_all add: line_kind_def body_text_def)

lemma body_text_tl [simp]: "tl (body_text r) = row_text r"
  by (simp add: body_text_def)

lemma body_text_no_header: "\<not> prefix ''@@'' (body_text r)"
  by (cases "row_kind r") (simp_all add: body_text_def)

text \<open>The open hunk still expects the lines left on each side and numbers them as the rows are.\<close>

definition expects :: "u32 \<Rightarrow> u32 \<Rightarrow> u32 \<Rightarrow> nat \<Rightarrow> string list \<Rightarrow> bool" where
  "expects start count consumed i ls \<longleftrightarrow>
     unat consumed + length ls = unat count \<and> (ls \<noteq> [] \<longrightarrow> start + consumed = word_of_nat i + 1)"

lemma unat_u32_succ: "unat w + 1 < 2 ^ 32 \<Longrightarrow> unat (w + 1) = Suc (unat w)" for w :: u32
  using unat_add_lem [of w 1] by simp

lemma expects_Cons:
  assumes "expects start count consumed i (l # ls)"
  shows "expects start count (consumed + 1) (i + 1) ls" "\<not> count \<le> consumed"
    "start + consumed = word_of_nat i + 1"
proof -
  have lt: "unat consumed < unat count" using assms by (simp add: expects_def)
  moreover have "unat count < 2 ^ 32" using unsigned_less [of count] by simp
  ultimately have "unat (consumed + 1) = unat consumed + 1" by (simp add: unat_u32_succ)
  then show "expects start count (consumed + 1) (i + 1) ls"
    using assms by (simp add: expects_def algebra_simps)
  show "\<not> count \<le> consumed" using lt by (simp add: word_le_nat_alt)
  show "start + consumed = word_of_nat i + 1" using assms by (simp add: expects_def)
qed

lemma parse_body:
  assumes "numbered i j rows" "expects (h_old_start h) (h_old_count h) co i (old_texts rows)"
    "expects (h_new_start h) (h_new_count h) cn j (new_texts rows)"
  shows "\<exists>co' cn'. fold parse_line (map body_text rows) (hs, Some h, co, cn) =
    (hs, Some (h\<lparr>h_lines := h_lines h @ map view_line rows\<rparr>), co', cn')"
  using assms
proof (induction rows arbitrary: i j h co cn)
  case (Cons r rows)
  let ?h = "h\<lparr>h_lines := h_lines h @ [view_line r]\<rparr>"
  have more: "\<exists>co' cn'. fold parse_line (map body_text rows) (hs, Some ?h, co1, cn1) =
      (hs, Some (h\<lparr>h_lines := h_lines h @ map view_line (r # rows)\<rparr>), co', cn')"
    if "numbered i1 j1 rows" "expects (h_old_start h) (h_old_count h) co1 i1 (old_texts rows)"
      "expects (h_new_start h) (h_new_count h) cn1 j1 (new_texts rows)" for i1 j1 co1 cn1
    using Cons(1) [of i1 j1 ?h co1 cn1] that by simp
  note line = parse_line.simps body_text_no_header body_text_kind push_line_def view_line_def
  show ?case
  proof (cases "row_kind r")
    case RowContext
    with Cons(3,4) have o: "expects (h_old_start h) (h_old_count h) co i (row_text r # old_texts rows)"
      and n: "expects (h_new_start h) (h_new_count h) cn j (row_text r # new_texts rows)" by simp_all
    have "parse_line (body_text r) (hs, Some h, co, cn) = (hs, Some ?h, co + 1, cn + 1)"
      using RowContext Cons(2) expects_Cons(2,3) [OF o] expects_Cons(3) [OF n]
      by (simp add: line)
    with more [OF _ expects_Cons(1) [OF o] expects_Cons(1) [OF n]] RowContext Cons(2) show ?thesis by simp
  next
    case RowRemoved
    with Cons(3,4) have o: "expects (h_old_start h) (h_old_count h) co i (row_text r # old_texts rows)"
      and n: "expects (h_new_start h) (h_new_count h) cn j (new_texts rows)" by simp_all
    have "parse_line (body_text r) (hs, Some h, co, cn) = (hs, Some ?h, co + 1, cn)"
      using RowRemoved Cons(2) expects_Cons(2,3) [OF o] by (simp add: line)
    with more [OF _ expects_Cons(1) [OF o] n] RowRemoved Cons(2) show ?thesis by simp
  next
    case RowAdded
    with Cons(3,4) have o: "expects (h_old_start h) (h_old_count h) co i (old_texts rows)"
      and n: "expects (h_new_start h) (h_new_count h) cn j (row_text r # new_texts rows)" by simp_all
    have "parse_line (body_text r) (hs, Some h, co, cn) = (hs, Some ?h, co, cn + 1)"
      using RowAdded Cons(2) expects_Cons(2,3) [OF n] by (simp add: line)
    with more [OF _ o expects_Cons(1) [OF n]] RowAdded Cons(2) show ?thesis by simp
  qed
qed simp

lemma slice_join: "a \<le> b \<Longrightarrow> take b rs = take a rs @ slice rs (a, b)"
  using append_take_drop_id [of a "take b rs"] by (simp add: slice_def min_def)

lemma slice_rest: "a \<le> b \<Longrightarrow> drop a rs = slice rs (a, b) @ drop b rs"
  by (metis append_take_drop_id append.assoc slice_join same_append_eq)

lemma slice_parts: "a \<le> b \<Longrightarrow> rs = take a rs @ slice rs (a, b) @ drop b rs"
  using slice_rest [of a b rs] append_take_drop_id [of a rs] by simp

text \<open>Where a range of numbered rows stands on each side.\<close>

lemma range_sides:
  assumes "numbered 0 0 rs" "a \<le> b" "b \<le> length rs"
  defines "p \<equiv> length (old_texts (take a rs))" and "q \<equiv> length (new_texts (take a rs))"
    and "k \<equiv> length (old_texts (slice rs (a, b)))" and "m \<equiv> length (new_texts (slice rs (a, b)))"
  shows "numbered p q (slice rs (a, b))"
    and "side_start old_line rs (a, b) = (if k = 0 then word_of_nat p else word_of_nat p + 1)"
    and "side_count old_line rs (a, b) = k"
    and "side_start new_line rs (a, b) = (if m = 0 then word_of_nat q else word_of_nat q + 1)"
    and "side_count new_line rs (a, b) = m"
proof -
  note parts = slice_parts [OF assms(2), of rs]
  have num: "numbered 0 0 (take a rs)" "numbered p q (slice rs (a, b))"
    using assms(1) unfolding p_def q_def by (subst (asm) parts, simp add: numbered_append)+
  note old = numbered_old [OF num(1)] numbered_old [OF num(2)]
    and new = numbered_new [OF num(1)] numbered_new [OF num(2)]
  show "numbered p q (slice rs (a, b))" by (rule num)
  show "side_start old_line rs (a, b) = (if k = 0 then word_of_nat p else word_of_nat p + 1)"
    "side_count old_line rs (a, b) = k"
    using side_start_from [of old_line a rs p b k] old
    by (simp_all add: p_def k_def slice_def)
  show "side_start new_line rs (a, b) = (if m = 0 then word_of_nat q else word_of_nat q + 1)"
    "side_count new_line rs (a, b) = m"
    using side_start_from [of new_line a rs q b m] new
    by (simp_all add: q_def m_def slice_def)
qed

definition numberable :: "row list \<Rightarrow> bool" where
  "numberable rs \<longleftrightarrow> numbered 0 0 rs \<and> length (old_texts rs) < 2 ^ 32 \<and> length (new_texts rs) < 2 ^ 32"

lemma texts_slice_le:
  assumes "a \<le> b" "b \<le> length rs"
  shows "length (old_texts (take a rs)) + length (old_texts (slice rs (a, b))) \<le> length (old_texts rs)"
    "length (new_texts (take a rs)) + length (new_texts (slice rs (a, b))) \<le> length (new_texts rs)"
proof -
  note parts = slice_parts [OF assms(1), of rs]
  from arg_cong [OF parts, of "\<lambda>x. length (old_texts x)"] arg_cong [OF parts, of "\<lambda>x. length (new_texts x)"]
  show "length (old_texts (take a rs)) + length (old_texts (slice rs (a, b))) \<le> length (old_texts rs)"
    "length (new_texts (take a rs)) + length (new_texts (slice rs (a, b))) \<le> length (new_texts rs)"
    by simp_all
qed

definition range_lines :: "row list \<Rightarrow> nat \<times> nat \<Rightarrow> string list" where
  "range_lines rs r = hunk_header rs r # map body_text (slice rs r)"

lemma render_lines:
  "render rs context =
   concat (map (\<lambda>l. l @ [CHR 0x0A]) (concat (map (range_lines rs) (diff_ranges rs context))))"
proof -
  have "render_hunk rs r = concat (map (\<lambda>l. l @ [CHR 0x0A]) (range_lines rs r))" for r
    by (simp add: render_hunk_def range_lines_def slice_def body_text_def o_def)
  then have "concat (map (render_hunk rs) ranges) =
      concat (map (\<lambda>l. l @ [CHR 0x0A]) (concat (map (range_lines rs) ranges)))" for ranges
    by (induction ranges) simp_all
  then show ?thesis by (simp add: render_def)
qed

lemma hunk_header_prefix: "prefix ''@@'' (hunk_header rs r)"
  by (simp add: hunk_header_def)

lemma parse_range_lines:
  assumes "numberable rs" "a \<le> b" "b \<le> length rs"
  shows "\<exists>co' cn'. fold parse_line (range_lines rs (a, b)) (hs, cur, co, cn) =
    (close_hunk cur hs, Some (view_hunk rs (a, b)), co', cn')"
proof -
  let ?r = "(a, b)"
  have num: "numbered 0 0 rs" using assms(1) by (simp add: numberable_def)
  note sides = range_sides [OF num assms(2,3)]
  note le = texts_slice_le [OF assms(2,3)]
  have k: "length (old_texts (slice rs ?r)) < 2 ^ 32" "length (new_texts (slice rs ?r)) < 2 ^ 32"
    using le assms(1) by (auto simp: numberable_def)
  then have u: "unat (word_of_nat (length (old_texts (slice rs ?r))) :: u32) = length (old_texts (slice rs ?r))"
    "unat (word_of_nat (length (new_texts (slice rs ?r))) :: u32) = length (new_texts (slice rs ?r))"
    by (simp_all add: unsigned_of_nat take_bit_nat_eq_self)
  let ?h = "\<lparr>h_old_start = side_start old_line rs ?r, h_old_count = word_of_nat (side_count old_line rs ?r),
      h_new_start = side_start new_line rs ?r, h_new_count = word_of_nat (side_count new_line rs ?r),
      h_section = [], h_lines = []\<rparr>"
  have "parse_line (hunk_header rs ?r) (hs, cur, co, cn) = (close_hunk cur hs, Some ?h, 0, 0)"
    using parse_hunk_header_text [of rs ?r] k by (simp add: hunk_header_prefix sides(3,5))
  moreover have "expects (h_old_start ?h) (h_old_count ?h) 0 (length (old_texts (take a rs))) (old_texts (slice rs ?r))"
    "expects (h_new_start ?h) (h_new_count ?h) 0 (length (new_texts (take a rs))) (new_texts (slice rs ?r))"
    by (simp_all add: expects_def sides(2-5) u)
  from parse_body [OF sides(1) this]
  have "\<exists>co' cn'. fold parse_line (map body_text (slice rs ?r)) (close_hunk cur hs, Some ?h, 0, 0) =
    (close_hunk cur hs, Some (view_hunk rs ?r), co', cn')"
    by (simp add: view_hunk_def)
  ultimately show ?thesis by (simp add: range_lines_def)
qed

definition all_hunks :: "parse_state \<Rightarrow> hunk list" where
  "all_hunks s = (case s of (hunks, current, co, cn) \<Rightarrow> close_hunk current hunks)"

lemma parse_ranges:
  assumes "numberable rs" "separated (length rs) lo ranges"
  shows "all_hunks (fold parse_line (concat (map (range_lines rs) ranges)) s) =
    all_hunks s @ map (view_hunk rs) ranges"
  using assms(2)
proof (induction ranges arbitrary: lo s)
  case (Cons r ranges)
  obtain a b where r: "r = (a, b)" by fastforce
  obtain hs cur co cn where s: "s = (hs, cur, co, cn)" by (cases s)
  from Cons(2) have ab: "a \<le> b" "b \<le> length rs" and rest: "separated (length rs) b ranges"
    by (auto simp: r)
  obtain co' cn' where "fold parse_line (range_lines rs r) s =
      (close_hunk cur hs, Some (view_hunk rs r), co', cn')"
    using parse_range_lines [OF assms(1) ab] unfolding r s by blast
  then show ?case using Cons(1) [OF rest] by (simp add: all_hunks_def s close_hunk_def)
qed simp

lemma hunk_header_clean: "clean_line (hunk_header rs r)"
proof -
  have "CHR 0x0A \<notin> set (range_text s n)" for s n
    by (auto simp: is_digit_def dest!: range_text_chars)
  then show ?thesis by (auto simp: clean_line_def hunk_header_def)
qed

lemma parse_render:
  assumes "numberable rs" "\<And>r. r \<in> set rs \<Longrightarrow> clean_line (row_text r)"
  shows "parse_unified_diff (render rs context) = map (view_hunk rs) (diff_ranges rs context)"
proof -
  have "clean_line (body_text r)" if "r \<in> set rs" for r
    using assms(2) [OF that] by (cases "row_kind r") (auto simp: body_text_def clean_line_def)
  then have "list_all clean_line (concat (map (range_lines rs) (diff_ranges rs context)))"
    by (auto simp: list_all_iff range_lines_def slice_def hunk_header_clean dest: in_set_dropD in_set_takeD)
  then have "parse_unified_diff (render rs context) =
      all_hunks (fold parse_line (concat (map (range_lines rs) (diff_ranges rs context))) ([], None, 0, 0))"
    unfolding parse_unified_diff_def render_lines by (simp add: str_lines_concat all_hunks_def split: prod.splits)
  then show ?thesis
    using parse_ranges [OF assms(1) diff_ranges_ok(1)] by (simp add: all_hunks_def close_hunk_def)
qed

section \<open>The recorded diff applied\<close>

lemma patch_rows:
  "numbered k m rows \<Longrightarrow>
   patch_body k m (map view_line rows) (old_texts rows @ rest) = Some (new_texts rows, rest)"
  by (induction rows arbitrary: k m) (auto simp: view_line_def split: row_kind.splits)

lemma context_texts:
  "\<forall>r\<in>set rows. row_kind r = RowContext \<Longrightarrow>
   old_texts rows = map row_text rows \<and> new_texts rows = map row_text rows"
  by (induction rows) auto

lemma hunk_start_at:
  assumes "p + n < 2 ^ 32"
  shows "hunk_start (if n = 0 then word_of_nat p else word_of_nat p + 1 :: u32) (word_of_nat n) = p"
proof -
  have "unat (word_of_nat p :: u32) = p" "unat (word_of_nat n :: u32) = n"
    using assms by (simp_all add: unsigned_of_nat take_bit_nat_eq_self)
  moreover have "unat (word_of_nat p + 1 :: u32) = p + 1" if "n \<noteq> 0"
    using assms that calculation(1) by (simp add: unat_u32_succ)
  moreover have "word_of_nat n = (0 :: u32) \<longleftrightarrow> n = 0"
    using assms by (auto simp: word_of_nat_eq_0_iff dest: dvd_imp_le)
  ultimately show ?thesis unfolding hunk_start_def by (cases "n = 0") simp_all
qed

definition shown :: "row list \<Rightarrow> nat \<Rightarrow> (nat \<times> nat) list \<Rightarrow> bool" where
  "shown rs lo ranges \<longleftrightarrow>
     (\<forall>i. lo \<le> i \<and> i < length rs \<and> row_kind (rs ! i) \<noteq> RowContext \<longrightarrow> in_ranges i ranges)"

lemma separated_above: "separated n lo ranges \<Longrightarrow> (a, b) \<in> set ranges \<Longrightarrow> lo \<le> a"
  by (induction ranges arbitrary: lo) force+

lemma patch_ranges:
  assumes "numberable rs" "separated (length rs) lo ranges" "lo \<le> length rs" "shown rs lo ranges"
  shows "patch (length (old_texts (take lo rs))) (length (new_texts (take lo rs)))
    (map (view_hunk rs) ranges) (old_texts (drop lo rs)) = Some (new_texts (drop lo rs))"
  using assms(2-4)
proof (induction ranges arbitrary: lo)
  case Nil
  then have "\<forall>r\<in>set (drop lo rs). row_kind r = RowContext"
    by (auto simp: shown_def in_ranges_def in_set_conv_nth)
  from context_texts [OF this] show ?case by simp
next
  case (Cons r ranges)
  obtain a b where r: "r = (a, b)" by fastforce
  from Cons(2) have ab: "lo \<le> a" "a \<le> b" "b \<le> length rs" and rest: "separated (length rs) b ranges"
    by (auto simp: r)
  define gap where "gap = slice rs (lo, a)"
  define body where "body = slice rs (a, b)"
  have num: "numbered 0 0 rs" using assms(1) by (simp add: numberable_def)
  note sides = range_sides [OF num ab(2,3), folded body_def]
  note le = texts_slice_le [OF ab(2,3), folded body_def]
  have "row_kind (rs ! i) = RowContext" if "lo \<le> i" "i < a" for i
    using Cons(4) that ab rest separated_above [OF rest] unfolding shown_def in_ranges_def r
    by fastforce
  then have "\<forall>x\<in>set gap. row_kind x = RowContext"
    using ab by (auto simp: gap_def slice_def in_set_conv_nth)
  note gap = context_texts [OF this]
  have pre: "take a rs = take lo rs @ gap" and post: "drop lo rs = gap @ body @ drop b rs"
    and upto: "take b rs = take a rs @ body"
    using slice_join [OF ab(1)] slice_join [OF ab(2)] slice_rest [OF ab(1), of rs] slice_rest [OF ab(2), of rs]
    by (simp_all add: gap_def body_def)
  have lens: "length (old_texts (take a rs)) = length (old_texts (take lo rs)) + length gap"
    "length (new_texts (take a rs)) = length (new_texts (take lo rs)) + length gap"
    using gap by (simp_all add: pre)
  have fit: "length (old_texts (take a rs)) + length (old_texts body) < 2 ^ 32"
    "length (new_texts (take a rs)) + length (new_texts body) < 2 ^ 32"
    using le assms(1) by (auto simp: numberable_def)
  have counts: "unat (word_of_nat (length (old_texts body)) :: u32) = length (old_texts body)"
    "unat (word_of_nat (length (new_texts body)) :: u32) = length (new_texts body)"
    using fit by (simp_all add: unsigned_of_nat take_bit_nat_eq_self)
  have starts: "hunk_start (h_old_start (view_hunk rs r)) (h_old_count (view_hunk rs r)) = length (old_texts (take a rs))"
    "hunk_start (h_new_start (view_hunk rs r)) (h_new_count (view_hunk rs r)) = length (new_texts (take a rs))"
    using hunk_start_at [OF fit(1)] hunk_start_at [OF fit(2)]
    by (simp_all add: view_hunk_def r sides(2-5))
  have cnt: "unat (h_old_count (view_hunk rs r)) = length (old_texts body)"
    "unat (h_new_count (view_hunk rs r)) = length (new_texts body)"
    by (simp_all add: view_hunk_def r sides(3,5) counts)
  have "in_ranges i ranges" if "b \<le> i" "i < length rs" "row_kind (rs ! i) \<noteq> RowContext" for i
  proof -
    have "in_ranges i (r # ranges)" using Cons(4) ab that unfolding shown_def by simp
    then show ?thesis using that(1) by (simp add: in_ranges_def r)
  qed
  then have "shown rs b ranges" by (simp add: shown_def)
  from Cons(1) [OF rest ab(3) this]
  have more: "patch (length (old_texts (take a rs)) + length (old_texts body))
      (length (new_texts (take a rs)) + length (new_texts body))
      (map (view_hunk rs) ranges) (old_texts (drop b rs)) = Some (new_texts (drop b rs))"
    by (simp add: upto)
  have body: "patch_body (length (old_texts (take a rs))) (length (new_texts (take a rs)))
      (h_lines (view_hunk rs r)) (old_texts body @ old_texts (drop b rs)) = Some (new_texts body, old_texts (drop b rs))"
    using patch_rows [OF sides(1)] by (simp add: view_hunk_def r body_def)
  have gap_old: "old_texts gap = map row_text gap" and gap_new: "new_texts gap = map row_text gap"
    using gap by simp_all
  show ?case
    unfolding list.map patch.simps starts post cnt
    by (simp add: lens body [unfolded lens] more [unfolded lens] gap_old gap_new)
qed

lemma diff_rows_total:
  obtains rs where "diff_rows old new (diff_ops old new) = Some rs" "numbered 0 0 rs"
    "old_texts rs = old" "new_texts rs = new"
  using rows_from_ok [OF diff_ops_ok [THEN conjunct1, of old new]] unfolding diff_rows_def by blast

lemma unified_diff_total: "\<exists>d. unified_diff_with_context old new context = Some d"
  by (rule diff_rows_total [of "str_lines old" "str_lines new"])
    (simp add: unified_diff_with_context_def Let_def)

lemma unified_diff_patches:
  assumes "list_all clean_line (str_lines old)" "list_all clean_line (str_lines new)"
    and "length (str_lines old) < 2 ^ 32" "length (str_lines new) < 2 ^ 32"
  shows "\<exists>d. unified_diff_with_context old new context = Some d \<and>
    patch 0 0 (parse_unified_diff d) (str_lines old) = Some (str_lines new)"
proof (cases "old = new")
  case True
  then show ?thesis
    by (auto simp: unified_diff_with_context_def parse_unified_diff_def close_hunk_def)
next
  case False
  obtain rs where rs: "diff_rows (str_lines old) (str_lines new) (diff_ops (str_lines old) (str_lines new)) = Some rs"
    "numbered 0 0 rs" "old_texts rs = str_lines old" "new_texts rs = str_lines new"
    by (rule diff_rows_total)
  have num: "numberable rs" using rs assms by (simp add: numberable_def)
  have "row_text r \<in> set (old_texts rs) \<union> set (new_texts rs)" if "r \<in> set rs" for r
    using that by (cases "row_kind r") (auto simp: old_texts_def new_texts_def)
  then have clean: "clean_line (row_text r)" if "r \<in> set rs" for r
    using that assms(1,2) rs(3,4) by (auto simp: list_all_iff)
  have "shown rs 0 (diff_ranges rs context)" using diff_ranges_ok(2) by (simp add: shown_def)
  from patch_ranges [OF num diff_ranges_ok(1) _ this]
  have "patch 0 0 (parse_unified_diff (render rs context)) (str_lines old) = Some (str_lines new)"
    using rs(3,4) by (simp add: parse_render [OF num clean])
  then show ?thesis using False rs(1) by (simp add: unified_diff_with_context_def Let_def)
qed

text \<open>C7. The diff a file mutation records says exactly what happened to the file. For texts of fewer than
  2^32 lines, none ending in a carriage return of its own, the rendering always succeeds, and its text, parsed
  by the transcript's reader and applied strictly (each hunk where its header says, each gutter number
  the position reached, each context or removed line the next line of the old text), turns the old
  lines into the new ones.
\<close>

theorem recorded_diff_patches:
  assumes "list_all clean_line (str_lines old)" "list_all clean_line (str_lines new)"
    and "length (str_lines old) < 2 ^ 32" "length (str_lines new) < 2 ^ 32"
  shows "\<exists>d. unified_diff_with_context old new context = Some d \<and>
    patch 0 0 (parse_unified_diff d) (str_lines old) = Some (str_lines new)"
  using assms by (rule unified_diff_patches)

theorem recorded_diff_patches_witness:
  "\<exists>d. unified_diff_with_context ([CHR 0x61, CHR 0x0A, CHR 0x62]) ([CHR 0x61, CHR 0x0A, CHR 0x63]) 3 = Some d \<and>
    patch 0 0 (parse_unified_diff d) (str_lines ([CHR 0x61, CHR 0x0A, CHR 0x62])) = Some (str_lines ([CHR 0x61, CHR 0x0A, CHR 0x63]))"
  by (rule recorded_diff_patches) (simp_all add: str_lines.simps clean_line_def strip_cr_def)

text \<open>A change of line endings alone, or of the last line feed, is a change of the file with an empty
  diff.\<close>

lemma line_ending_change_leaves_no_diff:
  "[CHR 0x61, CHR 0x0A] \<noteq> [CHR 0x61] \<and> unified_diff [CHR 0x61, CHR 0x0A] [CHR 0x61] = Some [] \<and>
   unified_diff [CHR 0x61, CHR 0x0D, CHR 0x0A] [CHR 0x61, CHR 0x0A] = Some []"
  by code_simp

end
