(* ===== verification/Workspace_Files.thy ===== *)
theory Workspace_Files
  imports Diff_View
begin

text \<open>
  The file tools an agent calls (\<open>crates/goble-core/src/harness/files.rs\<close>): the check that a path
  stays in the workspace directory, reading, writing, editing, deleting and renaming, and the diff a
  change records. The operations of \<open>std::fs\<close> act on a POSIX file tree with symbolic links;
  permissions, quotas and other processes are left out. A call of \<open>std::fs\<close> either does its work or
  fails before it changed anything. For \<open>std::fs::write\<close> this leaves a case out: it truncates the file when it
  opens it, so a write that fails later, on a full disk for example, leaves an empty or a partial file
  behind (\<open>write_file\<close> and \<open>edit_file\<close> replace a file in this way and do not restore it). Nothing is
  claimed of the tree after an error but that what lies outside of the workspace is as it was.
\<close>

section \<open>Paths and the file tree\<close>

text \<open>An absolute \<open>Path\<close> is its \<open>components()\<close> after the root: empty pieces and dots are dropped.\<close>

datatype comp = Normal string | ParentDir

type_synonym rpath = "comp list"

definition path_components :: "string \<Rightarrow> rpath" where
  "path_components s =
     map (\<lambda>w. if w = ''..'' then ParentDir else Normal w)
       (filter (\<lambda>w. w \<noteq> [] \<and> w \<noteq> ''.'') (split_on (CHR ''/'') s))"

definition is_absolute :: "string \<Rightarrow> bool" where
  "is_absolute s \<longleftrightarrow> s \<noteq> [] \<and> hd s = CHR ''/''"

text \<open>A node is keyed by its own absolute path. A link holds whether its target is absolute.\<close>

datatype node = Dir | File string | is_link: Link bool rpath

type_synonym fs = "string list \<Rightarrow> node option"

datatype io_error =
  NotFound | NotADirectory | FilesystemLoop | AlreadyExists | IsADirectory | InvalidData |
  DirectoryNotEmpty | InvalidInput

definition MAX_LINKS :: nat where
  "MAX_LINKS = 40"

text \<open>Path resolution from a directory, following links; \<open>create\<close> allows the last name to be missing,
  as \<open>open\<close> with \<open>O_CREAT\<close> does.\<close>

fun namei :: "fs \<Rightarrow> bool \<Rightarrow> nat \<Rightarrow> string list \<Rightarrow> rpath \<Rightarrow> (io_error, string list) result" where
  "namei fs create k cur [] = Ok cur"
| "namei fs create k cur (ParentDir # cs) =
     (if fs cur = Some Dir then namei fs create k (butlast cur) cs else Err NotADirectory)"
| "namei fs create k cur (Normal n # cs) =
     (if fs cur \<noteq> Some Dir then Err NotADirectory
      else
        (case fs (cur @ [n]) of
           None \<Rightarrow> if create \<and> cs = [] then Ok (cur @ [n]) else Err NotFound
         | Some (Link absolute target) \<Rightarrow>
             (case k of
                0 \<Rightarrow> Err FilesystemLoop
              | Suc k \<Rightarrow> namei fs create k (if absolute then [] else cur) (target @ cs))
         | Some _ \<Rightarrow> namei fs create k (cur @ [n]) cs))"

definition canonicalize :: "fs \<Rightarrow> rpath \<Rightarrow> (io_error, string list) result" where
  "canonicalize fs p = namei fs False MAX_LINKS [] p"

definition path_exists :: "fs \<Rightarrow> rpath \<Rightarrow> bool" where
  "path_exists fs p = (case canonicalize fs p of Ok _ \<Rightarrow> True | Err _ \<Rightarrow> False)"

definition is_dir :: "fs \<Rightarrow> rpath \<Rightarrow> bool" where
  "is_dir fs p = (case canonicalize fs p of Ok q \<Rightarrow> fs q = Some Dir | Err _ \<Rightarrow> False)"

text \<open>The entry a path names, its last name not followed; \<open>None\<close> for the root and for a path that
  ends in \<open>..\<close>, which name no entry.\<close>

definition entry :: "fs \<Rightarrow> rpath \<Rightarrow> (io_error, string list option) result" where
  "entry fs p =
     (if p = [] then Ok None
      else
        (case canonicalize fs (butlast p) of
           Err e \<Rightarrow> Err e
         | Ok d \<Rightarrow>
             if fs d \<noteq> Some Dir then Err NotADirectory
             else (case last p of ParentDir \<Rightarrow> Ok None | Normal n \<Rightarrow> Ok (Some (d @ [n])))))"

section \<open>The operations of the standard library\<close>

definition read_to_string :: "fs \<Rightarrow> rpath \<Rightarrow> (io_error, string) result" where
  "read_to_string fs p =
     (case canonicalize fs p of
        Err e \<Rightarrow> Err e
      | Ok q \<Rightarrow>
          (case fs q of
             Some (File c) \<Rightarrow> if utf8_ok c then Ok c else Err InvalidData
           | Some Dir \<Rightarrow> Err IsADirectory
           | _ \<Rightarrow> Err NotFound))"

definition fs_write :: "fs \<Rightarrow> rpath \<Rightarrow> string \<Rightarrow> (io_error, fs) result" where
  "fs_write fs p content =
     (case namei fs True MAX_LINKS [] p of
        Err e \<Rightarrow> Err e
      | Ok q \<Rightarrow> if fs q = Some Dir then Err IsADirectory else Ok (fs(q \<mapsto> File content)))"

definition mkdir :: "fs \<Rightarrow> rpath \<Rightarrow> (io_error, fs) result" where
  "mkdir fs p =
     (case entry fs p of
        Err e \<Rightarrow> Err e
      | Ok None \<Rightarrow> Err AlreadyExists
      | Ok (Some q) \<Rightarrow> if fs q = None then Ok (fs(q \<mapsto> Dir)) else Err AlreadyExists)"

text \<open>The directories made before a failure stay.\<close>

function create_dir_all :: "fs \<Rightarrow> rpath \<Rightarrow> fs \<times> (io_error, unit) result" where
  "create_dir_all fs p =
     (case mkdir fs p of
        Ok fs' \<Rightarrow> (fs', Ok ())
      | Err e \<Rightarrow>
          if e \<noteq> NotFound then (if is_dir fs p then (fs, Ok ()) else (fs, Err e))
          else if p = [] then (fs, Err e)
          else
            (case create_dir_all fs (butlast p) of
               (fs1, Err e) \<Rightarrow> (fs1, Err e)
             | (fs1, Ok _) \<Rightarrow>
                 (case mkdir fs1 p of
                    Ok fs2 \<Rightarrow> (fs2, Ok ())
                  | Err e \<Rightarrow> if is_dir fs1 p then (fs1, Ok ()) else (fs1, Err e))))"
  by pat_completeness auto
termination
  by (relation "measure (\<lambda>(fs, p). length p)") auto

declare create_dir_all.simps [simp del]

definition fs_remove_file :: "fs \<Rightarrow> rpath \<Rightarrow> (io_error, fs) result" where
  "fs_remove_file fs p =
     (case entry fs p of
        Err e \<Rightarrow> Err e
      | Ok None \<Rightarrow> Err IsADirectory
      | Ok (Some q) \<Rightarrow>
          (case fs q of
             None \<Rightarrow> Err NotFound
           | Some Dir \<Rightarrow> Err IsADirectory
           | Some _ \<Rightarrow> Ok (fs(q := None))))"

text \<open>A rename moves the whole subtree.\<close>

definition move_tree :: "string list \<Rightarrow> string list \<Rightarrow> fs \<Rightarrow> fs" where
  "move_tree f t fs = (\<lambda>q.
     if prefix t q then fs (f @ drop (length t) q) else if prefix f q then None else fs q)"

definition has_children :: "fs \<Rightarrow> string list \<Rightarrow> bool" where
  "has_children fs d \<longleftrightarrow> (\<exists>n. fs (d @ [n]) \<noteq> None)"

definition fs_rename :: "fs \<Rightarrow> rpath \<Rightarrow> rpath \<Rightarrow> (io_error, fs) result" where
  "fs_rename fs from to =
     (case (entry fs from, entry fs to) of
        (Ok (Some f), Ok (Some t)) \<Rightarrow>
          if fs f = None then Err NotFound
          else if f = t then Ok fs
          else if prefix f t then Err InvalidInput
          else if fs f = Some Dir then
            (case fs t of
               None \<Rightarrow> Ok (move_tree f t fs)
             | Some Dir \<Rightarrow> if has_children fs t then Err DirectoryNotEmpty else Ok (move_tree f t fs)
             | Some _ \<Rightarrow> Err NotADirectory)
          else if fs t = Some Dir then Err IsADirectory
          else Ok (move_tree f t fs)
      | (Err e, _) \<Rightarrow> Err e
      | (_, Err e) \<Rightarrow> Err e
      | _ \<Rightarrow> Err InvalidInput)"

section \<open>The workspace check\<close>

text \<open>The loop of \<open>canonicalize_loose\<close>: up to the deepest ancestor that exists, then its canonical
  path and the names left off.\<close>

function loose_from :: "fs \<Rightarrow> rpath \<Rightarrow> rpath \<Rightarrow> string list \<Rightarrow> rpath" where
  "loose_from fs path existing tail =
     (if path_exists fs existing then
        (case canonicalize fs existing of Ok c \<Rightarrow> map Normal c | Err _ \<Rightarrow> existing) @ map Normal tail
      else if existing = [] then path
      else
        (case last existing of
           ParentDir \<Rightarrow> path
         | Normal n \<Rightarrow> loose_from fs path (butlast existing) (n # tail)))"
  by pat_completeness auto
termination
  by (relation "measure (\<lambda>(fs, path, existing, tail). length existing)") auto

declare loose_from.simps [simp del]

definition canonicalize_loose :: "fs \<Rightarrow> rpath \<Rightarrow> rpath" where
  "canonicalize_loose fs path = loose_from fs path path []"

datatype tool_error =
    Missing string
  | Escapes string rpath
  | FailedToRead rpath io_error
  | FailedToWrite rpath io_error
  | FailedToDelete rpath io_error
  | FailedToRename rpath rpath io_error
  | Io io_error
  | OldTextNotFound
  | DiffPanic

definition workspace_base :: "fs \<Rightarrow> rpath \<Rightarrow> rpath" where
  "workspace_base fs ws = (case canonicalize fs ws of Ok c \<Rightarrow> map Normal c | Err _ \<Rightarrow> ws)"

definition requested :: "rpath \<Rightarrow> string \<Rightarrow> rpath" where
  "requested ws path = (if is_absolute path then path_components path else ws @ path_components path)"

definition resolve_path :: "fs \<Rightarrow> rpath \<Rightarrow> string \<Rightarrow> (tool_error, rpath) result" where
  "resolve_path fs ws path =
     (let canonical_base = workspace_base fs ws;
          canonical_resolved = canonicalize_loose fs (requested ws path)
      in if prefix canonical_base canonical_resolved then Ok canonical_resolved
         else Err (Escapes path canonical_base))"

section \<open>The tools\<close>

text \<open>The text of an outcome is kept as what it says.\<close>

datatype tool_text =
  Content string | Wrote rpath | Edited rpath | Deleted rpath | Renamed rpath rpath

record tool_outcome =
  to_output :: tool_text
  to_diff :: "string option"

definition MAX_RECORDED_DIFF :: nat where
  "MAX_RECORDED_DIFF = 256 * 1024"

definition text_outcome :: "tool_text \<Rightarrow> tool_outcome" where
  "text_outcome output = \<lparr>to_output = output, to_diff = None\<rparr>"

definition with_diff :: "tool_text \<Rightarrow> string option \<Rightarrow> tool_outcome" where
  "with_diff output diff =
     \<lparr>to_output = output,
      to_diff = (case diff of
         None \<Rightarrow> None
       | Some d \<Rightarrow> if d \<noteq> [] \<and> length d \<le> MAX_RECORDED_DIFF then Some d else None)\<rparr>"

text \<open>The diff between a previous text, if there is one, and the new one.\<close>

definition recorded :: "tool_text \<Rightarrow> string option \<Rightarrow> string \<Rightarrow> (tool_error, tool_outcome) result" where
  "recorded output previous new =
     (case previous of
        None \<Rightarrow> Ok (with_diff output None)
      | Some old \<Rightarrow>
          (case unified_diff old new of
             None \<Rightarrow> Err DiffPanic
           | Some d \<Rightarrow> Ok (with_diff output (Some d))))"

text \<open>The string arguments of a call, by key; a missing key and a value that is no string are \<open>None\<close>.\<close>

type_synonym tool_args = "string \<Rightarrow> string option"

definition arg_path :: "fs \<Rightarrow> rpath \<Rightarrow> tool_args \<Rightarrow> string \<Rightarrow> (tool_error, rpath) result" where
  "arg_path fs ws args key =
     (case args key of None \<Rightarrow> Err (Missing key) | Some path \<Rightarrow> resolve_path fs ws path)"

definition read_file :: "tool_args \<Rightarrow> rpath \<Rightarrow> fs \<Rightarrow> (tool_error, string) result" where
  "read_file args ws fs =
     (case arg_path fs ws args ''path'' of
        Err e \<Rightarrow> Err e
      | Ok p \<Rightarrow>
          (case read_to_string fs p of Err e \<Rightarrow> Err (FailedToRead p e) | Ok text \<Rightarrow> Ok text))"

definition previous_text :: "fs \<Rightarrow> rpath \<Rightarrow> string option" where
  "previous_text fs p =
     (case read_to_string fs p of
        Ok text \<Rightarrow> Some text
      | Err _ \<Rightarrow> if path_exists fs p then None else Some [])"

text \<open>\<open>create_dir_all\<close> of the parent, where there is one.\<close>

definition make_parent :: "fs \<Rightarrow> rpath \<Rightarrow> fs \<times> (io_error, unit) result" where
  "make_parent fs p = (if p = [] then (fs, Ok ()) else create_dir_all fs (butlast p))"

definition write_file ::
  "tool_args \<Rightarrow> rpath \<Rightarrow> fs \<Rightarrow> fs \<times> (tool_error, tool_outcome) result" where
  "write_file args ws fs =
     (case (args ''path'', args ''content'') of
        (None, _) \<Rightarrow> (fs, Err (Missing ''path''))
      | (_, None) \<Rightarrow> (fs, Err (Missing ''content''))
      | (Some path, Some content) \<Rightarrow>
          (case resolve_path fs ws path of
             Err e \<Rightarrow> (fs, Err e)
           | Ok p \<Rightarrow>
               (let previous = previous_text fs p in
                case make_parent fs p of
                  (fs1, Err e) \<Rightarrow> (fs1, Err (Io e))
                | (fs1, Ok _) \<Rightarrow>
                    (case fs_write fs1 p content of
                       Err e \<Rightarrow> (fs1, Err (FailedToWrite p e))
                     | Ok fs2 \<Rightarrow> (fs2, recorded (Wrote p) previous content)))))"

text \<open>\<open>str::replacen\<close> with a count of one.\<close>

definition replace_first :: "string \<Rightarrow> string \<Rightarrow> string \<Rightarrow> string" where
  "replace_first old new s =
     (case find_sub old s of None \<Rightarrow> s | Some i \<Rightarrow> take i s @ new @ drop (i + length old) s)"

definition edit_file ::
  "tool_args \<Rightarrow> rpath \<Rightarrow> fs \<Rightarrow> fs \<times> (tool_error, tool_outcome) result" where
  "edit_file args ws fs =
     (case (args ''path'', args ''old_text'', args ''new_text'') of
        (None, _, _) \<Rightarrow> (fs, Err (Missing ''path''))
      | (_, None, _) \<Rightarrow> (fs, Err (Missing ''old_text''))
      | (_, _, None) \<Rightarrow> (fs, Err (Missing ''new_text''))
      | (Some path, Some old_text, Some new_text) \<Rightarrow>
          (case resolve_path fs ws path of
             Err e \<Rightarrow> (fs, Err e)
           | Ok p \<Rightarrow>
               (case read_to_string fs p of
                  Err e \<Rightarrow> (fs, Err (FailedToRead p e))
                | Ok content \<Rightarrow>
                    (let replaced = replace_first old_text new_text content in
                     if replaced = content then (fs, Err OldTextNotFound)
                     else
                       (case fs_write fs p replaced of
                          Err e \<Rightarrow> (fs, Err (FailedToWrite p e))
                        | Ok fs1 \<Rightarrow> (fs1, recorded (Edited p) (Some content) replaced))))))"

definition delete_file ::
  "tool_args \<Rightarrow> rpath \<Rightarrow> fs \<Rightarrow> fs \<times> (tool_error, tool_outcome) result" where
  "delete_file args ws fs =
     (case arg_path fs ws args ''path'' of
        Err e \<Rightarrow> (fs, Err e)
      | Ok p \<Rightarrow>
          (let removed = (case read_to_string fs p of Ok t \<Rightarrow> Some t | Err _ \<Rightarrow> None) in
           case fs_remove_file fs p of
             Err e \<Rightarrow> (fs, Err (FailedToDelete p e))
           | Ok fs1 \<Rightarrow> (fs1, recorded (Deleted p) removed [])))"

definition rename_file ::
  "tool_args \<Rightarrow> rpath \<Rightarrow> fs \<Rightarrow> fs \<times> (tool_error, tool_outcome) result" where
  "rename_file args ws fs =
     (case (args ''from'', args ''to'') of
        (None, _) \<Rightarrow> (fs, Err (Missing ''from''))
      | (_, None) \<Rightarrow> (fs, Err (Missing ''to''))
      | (Some f, Some t) \<Rightarrow>
          (case resolve_path fs ws f of
             Err e \<Rightarrow> (fs, Err e)
           | Ok from \<Rightarrow>
               (case resolve_path fs ws t of
                  Err e \<Rightarrow> (fs, Err e)
                | Ok to \<Rightarrow>
                    (case make_parent fs to of
                       (fs1, Err e) \<Rightarrow> (fs1, Err (Io e))
                     | (fs1, Ok _) \<Rightarrow>
                         (case fs_rename fs1 from to of
                            Err e \<Rightarrow> (fs1, Err (FailedToRename from to e))
                          | Ok fs2 \<Rightarrow> (fs2, Ok (text_outcome (Renamed from to))))))))"

text \<open>The arms of \<open>execute_tool_call\<close> that reach the file system.\<close>

datatype file_tool = ReadFile | WriteFile | EditFile | DeleteFile | RenameFile

fun execute_file_tool ::
  "file_tool \<Rightarrow> tool_args \<Rightarrow> rpath \<Rightarrow> fs \<Rightarrow> fs \<times> (tool_error, tool_outcome) result" where
  "execute_file_tool ReadFile args ws fs =
     (fs, case read_file args ws fs of Err e \<Rightarrow> Err e | Ok text \<Rightarrow> Ok (text_outcome (Content text)))"
| "execute_file_tool WriteFile args ws fs = write_file args ws fs"
| "execute_file_tool EditFile args ws fs = edit_file args ws fs"
| "execute_file_tool DeleteFile args ws fs = delete_file args ws fs"
| "execute_file_tool RenameFile args ws fs = rename_file args ws fs"

section \<open>Two ways out of the workspace\<close>

text \<open>A name that does not exist followed by \<open>..\<close> stops the loop, and the path is then compared as
  written; \<open>create_dir_all\<close> makes the missing directory, so the write follows the dots out.\<close>

definition demo_fs :: fs where
  "demo_fs = [[] \<mapsto> Dir, [''ws''] \<mapsto> Dir, [''etc''] \<mapsto> Dir]"

lemma demo_paths:
  "resolve_path demo_fs [Normal ''ws''] ''../etc/passwd'' = Err (Escapes ''../etc/passwd'' [Normal ''ws''])"
  "resolve_path demo_fs [Normal ''ws''] ''new/../../etc/passwd'' =
     Ok [Normal ''ws'', Normal ''new'', ParentDir, ParentDir, Normal ''etc'', Normal ''passwd'']"
  "resolve_path (demo_fs([''ws'', ''out''] \<mapsto> Link True [Normal ''etc'', Normal ''new''])) [Normal ''ws'']
     ''out'' = Ok [Normal ''ws'', Normal ''out'']"
  by code_simp+

lemmas demo_io = make_parent_def create_dir_all.simps mkdir_def entry_def canonicalize_def is_dir_def
  fs_write_def MAX_LINKS_def demo_fs_def

lemma write_escapes_by_missing_directory:
  "fst (write_file [''path'' \<mapsto> ''new/../../etc/passwd'', ''content'' \<mapsto> ''x''] [Normal ''ws''] demo_fs)
     [''etc'', ''passwd''] = Some (File ''x'') \<and>
   resolve_path demo_fs [Normal ''ws''] ''../etc/passwd'' = Err (Escapes ''../etc/passwd'' [Normal ''ws''])"
proof -
  let ?p = "[Normal ''ws'', Normal ''new'', ParentDir, ParentDir, Normal ''etc'', Normal ''passwd'']"
  have "make_parent demo_fs ?p = (demo_fs([''ws'', ''new''] \<mapsto> Dir), Ok ())"
    by (simp add: demo_io)
  moreover have "fs_write (demo_fs([''ws'', ''new''] \<mapsto> Dir)) ?p ''x'' =
      Ok (demo_fs([''ws'', ''new''] \<mapsto> Dir, [''etc'', ''passwd''] \<mapsto> File ''x''))"
    by (simp add: demo_io)
  ultimately show ?thesis by (simp add: write_file_def demo_paths)
qed

text \<open>A link to a name that does not exist yet counts as missing, so its own path passes the check, and
  the write goes through the link.\<close>

lemma write_escapes_by_dangling_link:
  "fst (write_file [''path'' \<mapsto> ''out'', ''content'' \<mapsto> ''x''] [Normal ''ws'']
     (demo_fs([''ws'', ''out''] \<mapsto> Link True [Normal ''etc'', Normal ''new''])))
     [''etc'', ''new''] = Some (File ''x'')"
proof -
  let ?fs = "demo_fs([''ws'', ''out''] \<mapsto> Link True [Normal ''etc'', Normal ''new''])"
  let ?p = "[Normal ''ws'', Normal ''out'']"
  have "make_parent ?fs ?p = (?fs, Ok ())"
    by (simp add: demo_io)
  moreover have "fs_write ?fs ?p ''x'' = Ok (?fs([''etc'', ''new''] \<mapsto> File ''x''))"
    by (simp add: demo_io)
  ultimately show ?thesis by (simp add: write_file_def demo_paths)
qed

section \<open>Resolution of real paths\<close>

definition wf_fs :: "fs \<Rightarrow> bool" where
  "wf_fs fs \<longleftrightarrow> fs [] = Some Dir \<and> (\<forall>q n. fs (q @ [n]) \<noteq> None \<longrightarrow> fs q = Some Dir)"

definition no_link :: "fs \<Rightarrow> string list \<Rightarrow> bool" where
  "no_link fs q \<longleftrightarrow> (\<forall>r x. prefix r q \<and> fs r = Some x \<longrightarrow> \<not> is_link x)"

lemma no_link_prefix: "no_link fs q \<Longrightarrow> prefix r q \<Longrightarrow> no_link fs r"
  by (auto simp: no_link_def dest: prefix_order.trans)

lemma prefix_next [simp]: "prefix (cur @ [n]) (cur @ n # p)"
  using prefix_prefix [of "cur @ [n]" "cur @ [n]" p] by simp

lemma no_linkD: "no_link fs q \<Longrightarrow> fs r = Some x \<Longrightarrow> prefix r q \<Longrightarrow> \<not> is_link x"
  by (auto simp: no_link_def)

lemma wf_prefix: "wf_fs fs \<Longrightarrow> fs q \<noteq> None \<Longrightarrow> strict_prefix r q \<Longrightarrow> fs r = Some Dir"
proof (induction q rule: rev_induct)
  case (snoc n q)
  then have "fs q = Some Dir" by (auto simp: wf_fs_def)
  moreover have "r = q \<or> strict_prefix r q" using snoc(4) by (simp add: strict_prefix_def) blast
  ultimately show ?case using snoc by auto
qed simp

lemma wf_inside:
  assumes "wf_fs fs" "fs base \<noteq> None" "prefix base p" "prefix q p" "fs q = None"
  shows "prefix base q"
  using assms wf_prefix [of fs base q] prefix_same_cases [of base p q]
  by (auto simp: strict_prefix_def)

text \<open>One step of a resolution, and induction over its steps.\<close>

lemma namei_step:
  "fs cur = Some Dir \<Longrightarrow> fs (cur @ [n]) = Some x \<Longrightarrow> \<not> is_link x \<Longrightarrow>
   namei fs create k cur (Normal n # cs) = namei fs create k (cur @ [n]) cs"
  by (cases x) auto

lemma namei_no_dir: "fs cur \<noteq> Some Dir \<Longrightarrow> namei fs create k cur (c # cs) = Err NotADirectory"
  by (cases c) auto

lemma namei_steps [case_names Nil NoDir Parent Missing Loop Follow Step]:
  assumes "\<And>k cur. P k cur []"
    and "\<And>k cur c cs. fs cur \<noteq> Some Dir \<Longrightarrow> P k cur (c # cs)"
    and "\<And>k cur cs. fs cur = Some Dir \<Longrightarrow> P k (butlast cur) cs \<Longrightarrow> P k cur (ParentDir # cs)"
    and "\<And>k cur n cs. fs cur = Some Dir \<Longrightarrow> fs (cur @ [n]) = None \<Longrightarrow> P k cur (Normal n # cs)"
    and "\<And>cur n cs b t. fs cur = Some Dir \<Longrightarrow> fs (cur @ [n]) = Some (Link b t) \<Longrightarrow>
      P 0 cur (Normal n # cs)"
    and "\<And>k cur n cs b t. fs cur = Some Dir \<Longrightarrow> fs (cur @ [n]) = Some (Link b t) \<Longrightarrow>
      P k (if b then [] else cur) (t @ cs) \<Longrightarrow> P (Suc k) cur (Normal n # cs)"
    and "\<And>k cur n cs x. fs cur = Some Dir \<Longrightarrow> fs (cur @ [n]) = Some x \<Longrightarrow> \<not> is_link x \<Longrightarrow>
      P k (cur @ [n]) cs \<Longrightarrow> P k cur (Normal n # cs)"
  shows "P k cur cs"
proof -
  have "f = fs \<Longrightarrow> P k cur cs" for f
  proof (induction f False k cur cs rule: namei.induct)
    case (2 f k cur cs)
    then show ?case using assms(2,3) by blast
  next
    case (3 f k cur n cs)
    show ?case
    proof (cases "fs cur = Some Dir")
      case True
      show ?thesis
      proof (cases "fs (cur @ [n])")
        case None
        then show ?thesis using True assms(4) by blast
      next
        case (Some x)
        show ?thesis
        proof (cases x)
          case (Link b t)
          then show ?thesis using True Some 3 assms(5,6) by (cases k) auto
        qed (use True Some 3 assms(7) in auto)
      qed
    qed (rule assms(2))
  qed (rule assms(1))
  then show ?thesis by simp
qed

text \<open>What a path resolves to is no link and lies in no link.\<close>

lemma namei_real:
  "wf_fs fs \<Longrightarrow> no_link fs cur \<Longrightarrow> fs cur \<noteq> None \<Longrightarrow> namei fs False k cur cs = Ok q \<Longrightarrow>
   no_link fs q \<and> fs q \<noteq> None"
proof (induction k cur cs rule: namei_steps [of _ fs])
  case (Parent k cur cs)
  have "no_link fs (butlast cur)" using Parent(4) by (rule no_link_prefix) (simp add: prefixeq_butlast)
  moreover have "fs (butlast cur) \<noteq> None"
    using Parent(3,5) by (cases cur rule: rev_cases) (auto simp: wf_fs_def)
  ultimately show ?case using Parent by simp
next
  case (Follow k cur n cs b t)
  have "no_link fs []" "fs [] \<noteq> None" using Follow(4) by (auto simp: no_link_def wf_fs_def)
  with Follow show ?case by (cases b) simp_all
next
  case (Step k cur n cs x)
  then have "no_link fs (cur @ [n])" by (auto simp: no_link_def)
  with Step show ?case by (cases x) simp_all
qed (simp_all add: namei_no_dir)

lemma canonicalize_real: "wf_fs fs \<Longrightarrow> canonicalize fs p = Ok q \<Longrightarrow> no_link fs q \<and> fs q \<noteq> None"
  unfolding canonicalize_def by (rule namei_real) (auto simp: wf_fs_def no_link_def)

text \<open>A path of names without links resolves to itself.\<close>

lemma namei_plain:
  "no_link fs (cur @ p) \<Longrightarrow> namei fs create k cur (map Normal p) = Ok q \<Longrightarrow> q = cur @ p"
proof (induction p arbitrary: cur)
  case (Cons n p)
  have real: "fs (cur @ [n]) = Some x \<Longrightarrow> \<not> is_link x" for x by (rule no_linkD [OF Cons(2)], assumption) simp
  have dir: "fs cur = Some Dir" using Cons(3) by (auto split: if_splits)
  show ?case
  proof (cases "fs (cur @ [n])")
    case None
    with Cons(3) dir show ?thesis by (auto split: if_splits)
  next
    case (Some x)
    then have "namei fs create k cur (map Normal (n # p)) = namei fs create k (cur @ [n]) (map Normal p)"
      using namei_step [OF dir Some real [OF Some]] by simp
    then show ?thesis using Cons(1) [of "cur @ [n]"] Cons(2,3) by simp
  qed
qed simp

lemma namei_parent:
  "no_link fs (cur @ d @ [n]) \<Longrightarrow> namei fs True k cur (map Normal (d @ [n])) = Ok q \<Longrightarrow> fs (cur @ d) = Some Dir"
proof (induction d arbitrary: cur)
  case (Cons m d)
  have real: "fs (cur @ [m]) = Some x \<Longrightarrow> \<not> is_link x" for x
    by (rule no_linkD [OF Cons(2)], assumption) simp
  have dir: "fs cur = Some Dir" using Cons(3) by (auto split: if_splits)
  obtain x where x: "fs (cur @ [m]) = Some x" using Cons(3) dir by (auto split: option.splits)
  show ?case using Cons(1) [of "cur @ [m]"] Cons(2,3) namei_step [OF dir x real [OF x]] by simp
qed (auto split: if_splits)

lemma namei_plain_ok:
  "wf_fs fs \<Longrightarrow> no_link fs (cur @ p) \<Longrightarrow> fs (cur @ p) \<noteq> None \<Longrightarrow>
   namei fs create k cur (map Normal p) = Ok (cur @ p)"
proof (induction p arbitrary: cur)
  case (Cons n p)
  have real: "fs (cur @ [n]) = Some x \<Longrightarrow> \<not> is_link x" for x by (rule no_linkD [OF Cons(3)], assumption) simp
  have dir: "fs cur = Some Dir" using wf_prefix [OF Cons(2,4), of cur] by (simp add: strict_prefix_def)
  have "fs (cur @ [n]) \<noteq> None"
    using Cons(4) wf_prefix [OF Cons(2,4), of "cur @ [n]"] by (cases p) (auto simp: strict_prefix_def)
  then obtain x where x: "fs (cur @ [n]) = Some x" by blast
  show ?case using Cons(1) [of "cur @ [n]"] Cons(2-4) namei_step [OF dir x real [OF x]] by simp
qed simp

lemma canonicalize_plain: "no_link fs p \<Longrightarrow> canonicalize fs (map Normal p) = Ok q \<Longrightarrow> q = p"
  using namei_plain [of fs "[]"] by (simp add: canonicalize_def)

lemma entry_plain: "no_link fs p \<Longrightarrow> entry fs (map Normal p) = Ok (Some q) \<Longrightarrow> q = p \<and> p \<noteq> []"
proof (cases p rule: rev_cases)
  case (snoc d n)
  assume "no_link fs p" "entry fs (map Normal p) = Ok (Some q)"
  moreover from this(1) have "no_link fs d" by (rule no_link_prefix) (simp add: snoc)
  ultimately show ?thesis
    by (auto simp: entry_def snoc split: sum.splits if_splits dest: canonicalize_plain)
qed (simp add: entry_def)

text \<open>The budget of links left after a part of the path.\<close>

lemma namei_append:
  "namei fs False k cur a = Ok c \<Longrightarrow>
   \<exists>k'\<le>k. \<forall>b. namei fs False k cur (a @ b) = namei fs False k' c b"
proof (induction k cur a rule: namei_steps [of _ fs])
  case (Follow k cur n cs b t)
  then obtain k' where "k' \<le> k"
    "\<forall>r. namei fs False k (if b then [] else cur) ((t @ cs) @ r) = namei fs False k' c r"
    by auto
  with Follow(1,2) show ?case by (intro exI [of _ k']) simp
next
  case (Step k cur n cs x)
  then show ?case by (cases x) simp_all
qed (simp_all add: namei_no_dir, blast)

lemma namei_mono:
  "namei fs False k cur a = Ok q \<Longrightarrow> k \<le> k' \<Longrightarrow> namei fs False k' cur a = Ok q"
proof (induction k cur a arbitrary: k' rule: namei_steps [of _ fs])
  case (Follow k cur n cs b t)
  then show ?case by (cases k') simp_all
next
  case (Step k cur n cs x)
  then show ?case by (cases x) simp_all
qed (simp_all add: namei_no_dir)

lemma namei_budget:
  "namei fs False k cur a = Err e \<Longrightarrow> e \<noteq> FilesystemLoop \<Longrightarrow> k \<le> k' \<Longrightarrow> namei fs False k' cur a = Err e"
proof (induction k cur a arbitrary: k' rule: namei_steps [of _ fs])
  case (Follow k cur n cs b t)
  then show ?case by (cases k') simp_all
next
  case (Step k cur n cs x)
  then show ?case by (cases x) simp_all
qed (simp_all add: namei_no_dir)

section \<open>Accepted paths\<close>

text \<open>A request is plain when it has no \<open>..\<close> and no part of it exceeds the budget of links; the
  workspace is closed when each link in it leads to something that exists.\<close>

definition plain_request :: "fs \<Rightarrow> rpath \<Rightarrow> string \<Rightarrow> bool" where
  "plain_request fs ws path \<longleftrightarrow>
     ParentDir \<notin> set (path_components path) \<and>
     (\<forall>r. prefix r (requested ws path) \<longrightarrow> canonicalize fs r \<noteq> Err FilesystemLoop)"

definition no_dangling :: "fs \<Rightarrow> string list \<Rightarrow> bool" where
  "no_dangling fs base \<longleftrightarrow>
     (\<forall>q x. prefix base q \<and> fs q = Some x \<and> is_link x \<longrightarrow> path_exists fs (map Normal q))"

lemma loose_from_normal:
  assumes "path_exists fs pre"
  shows "\<exists>j c. j \<le> length ns \<and> canonicalize fs (pre @ map Normal (take j ns)) = Ok c \<and>
    (j < length ns \<longrightarrow> \<not> path_exists fs (pre @ map Normal (take (Suc j) ns))) \<and>
    loose_from fs path (pre @ map Normal ns) tail = map Normal (c @ drop j ns @ tail)"
proof (induction ns arbitrary: tail rule: rev_induct)
  case Nil
  obtain c where "canonicalize fs pre = Ok c"
    using assms by (auto simp: path_exists_def split: sum.splits)
  with assms show ?case by (auto simp: loose_from.simps [of fs path pre])
next
  case (snoc n ns)
  let ?p = "pre @ map Normal (ns @ [n])"
  show ?case
  proof (cases "path_exists fs ?p")
    case True
    then obtain c where "canonicalize fs ?p = Ok c" by (auto simp: path_exists_def split: sum.splits)
    moreover from this True have loose: "loose_from fs path ?p tail = map Normal (c @ tail)"
      by (subst loose_from.simps) simp
    ultimately show ?thesis
      by (intro exI [of _ "Suc (length ns)"] exI [of _ c]) (simp add: loose)
  next
    case False
    obtain j c where j: "j \<le> length ns" "canonicalize fs (pre @ map Normal (take j ns)) = Ok c"
      "j < length ns \<longrightarrow> \<not> path_exists fs (pre @ map Normal (take (Suc j) ns))"
      "loose_from fs path (pre @ map Normal ns) (n # tail) = map Normal (c @ drop j ns @ n # tail)"
      using snoc [of "n # tail"] by blast
    have "loose_from fs path ?p tail = loose_from fs path (pre @ map Normal ns) (n # tail)"
      using False by (subst loose_from.simps) (simp add: butlast_append)
    with j False show ?thesis
      by (intro exI [of _ j] exI [of _ c]) (cases "j = length ns"; simp)
  qed
qed

lemma missing_name_no_link:
  assumes "wf_fs fs" "canonicalize fs a = Ok c" "\<not> path_exists fs (a @ [Normal n])"
    and "canonicalize fs (a @ [Normal n]) \<noteq> Err FilesystemLoop"
    and "\<And>x. is_link x \<Longrightarrow> fs (c @ [n]) = Some x \<Longrightarrow> path_exists fs (map Normal (c @ [n]))"
  shows "no_link fs (c @ n # rest)" and "fs (c @ [n]) = None"
proof -
  have c: "no_link fs c" "fs c \<noteq> None" using canonicalize_real [OF assms(1,2)] by simp_all
  show none: "fs (c @ [n]) = None"
  proof (rule ccontr)
    assume "fs (c @ [n]) \<noteq> None"
    then obtain x where x: "fs (c @ [n]) = Some x" by blast
    have dir: "fs c = Some Dir" using assms(1) x by (auto simp: wf_fs_def)
    obtain k where k: "k \<le> MAX_LINKS" "canonicalize fs (a @ [Normal n]) = namei fs False k c [Normal n]"
      using namei_append [OF assms(2) [unfolded canonicalize_def]] by (auto simp: canonicalize_def)
    obtain e where e: "namei fs False k c [Normal n] = Err e" "e \<noteq> FilesystemLoop"
      using assms(3,4) k(2) by (auto simp: path_exists_def split: sum.splits)
    show False
    proof (cases "is_link x")
      case False
      with e(1) namei_step [OF dir x False] show ?thesis by simp
    next
      case True
      obtain k' where k': "\<forall>b. namei fs False MAX_LINKS [] (map Normal c @ b) = namei fs False k' c b" "k' \<le> MAX_LINKS"
        using namei_append [OF namei_plain_ok [OF assms(1), of "[]" c False MAX_LINKS]] c by auto
      have "path_exists fs (map Normal (c @ [n]))" using assms(5) True x by blast
      then obtain d where "namei fs False k' c [Normal n] = Ok d"
        using k'(1) by (auto simp: path_exists_def canonicalize_def split: sum.splits)
      with namei_budget [OF e, of MAX_LINKS] namei_mono [of fs k' c "[Normal n]" d MAX_LINKS] k(1) k'(2)
      show ?thesis by simp
    qed
  qed
  have "fs r = None" if r: "prefix (c @ [n]) r" for r
  proof (rule ccontr)
    assume "fs r \<noteq> None"
    with none r have "fs (c @ [n]) = Some Dir"
      by (intro wf_prefix [OF assms(1)]) (auto simp: strict_prefix_def)
    with none show False by simp
  qed
  then show "no_link fs (c @ n # rest)"
    unfolding no_link_def using no_linkD [OF c(1)] by (fastforce simp: prefix_append prefix_Cons)
qed

lemma prefix_map_Normal: "prefix (map Normal a) (map Normal b) \<longleftrightarrow> prefix a b"
proof
  assume "prefix (map Normal a) (map Normal b)"
  then obtain r where "map Normal b = map Normal a @ r" by (auto simp: prefix_def)
  then show "prefix a b" by (auto simp: map_eq_append_conv inj_map_eq_map inj_def)
qed (rule map_mono_prefix)

text \<open>An accepted plain request is a path of names in the workspace, through no link; what exists of it
  resolved to its own front.\<close>

lemma resolve_real:
  assumes wf: "wf_fs fs" and base: "canonicalize fs ws = Ok base" and closed: "no_dangling fs base"
    and plain: "plain_request fs ws path" and ok: "resolve_path fs ws path = Ok p"
  shows "\<exists>a c rest q. requested ws path = a @ map Normal rest \<and> canonicalize fs a = Ok c \<and>
    q = c @ rest \<and> p = map Normal q \<and> prefix base q \<and> no_link fs q \<and>
    (rest \<noteq> [] \<longrightarrow> fs (c @ [hd rest]) = None)"
proof -
  obtain ns where ns: "path_components path = map Normal ns"
    using plain by (metis comp.exhaust ex_map_conv plain_request_def)
  define pre where "pre = (if is_absolute path then [] else ws)"
  have req: "requested ws path = pre @ map Normal ns" by (simp add: requested_def pre_def ns)
  have "path_exists fs pre" using base by (simp add: pre_def path_exists_def canonicalize_def)
  from loose_from_normal [OF this] obtain j c where j: "j \<le> length ns"
    "canonicalize fs (pre @ map Normal (take j ns)) = Ok c"
    "j < length ns \<longrightarrow> \<not> path_exists fs (pre @ map Normal (take (Suc j) ns))"
    "canonicalize_loose fs (requested ws path) = map Normal (c @ drop j ns)"
    unfolding canonicalize_loose_def req by (metis append_Nil2)
  have p: "p = map Normal (c @ drop j ns)" "prefix base (c @ drop j ns)"
    using ok j(4) prefix_map_Normal [of base "c @ drop j ns"]
    by (auto simp: resolve_path_def workspace_base_def base Let_def split: if_splits)
  let ?a = "pre @ map Normal (take j ns)"
  have split: "requested ws path = ?a @ map Normal (drop j ns)"
    by (simp add: req flip: map_append)
  show ?thesis
  proof (cases "j < length ns")
    case False
    then have "no_link fs (c @ drop j ns)" using canonicalize_real [OF wf j(2)] by simp
    with False split j(2) p show ?thesis
      by (intro exI [of _ ?a] exI [of _ c] exI [of _ "drop j ns"]) simp
  next
    case True
    let ?n = "ns ! j"
    have rest: "drop j ns = ?n # drop (Suc j) ns" using True by (simp add: Cons_nth_drop_Suc)
    have step: "pre @ map Normal (take (Suc j) ns) = ?a @ [Normal ?n]"
      using True by (simp add: take_Suc_conv_app_nth)
    have "prefix (?a @ [Normal ?n]) (requested ws path)"
      unfolding split rest by simp
    then have noloop: "canonicalize fs (?a @ [Normal ?n]) \<noteq> Err FilesystemLoop"
      using plain by (auto simp: plain_request_def)
    have link: "path_exists fs (map Normal (c @ [?n]))" if "is_link x" "fs (c @ [?n]) = Some x" for x
    proof -
      have "\<not> prefix (c @ [?n]) base"
        using no_linkD [of fs base "c @ [?n]" x] that canonicalize_real [OF wf base] by blast
      moreover have "prefix (c @ [?n]) (c @ drop j ns)" unfolding rest by simp
      ultimately have "prefix base (c @ [?n])" using p(2) prefix_same_cases by blast
      then show ?thesis using closed that unfolding no_dangling_def by blast
    qed
    have missing: "\<not> path_exists fs (?a @ [Normal ?n])" using j(3) True unfolding step by blast
    have real: "no_link fs (c @ drop j ns)" "fs (c @ [?n]) = None"
      unfolding rest using missing_name_no_link [OF wf j(2) missing noloop] link by blast+
    have "fs (c @ [hd (drop j ns)]) = None" using real(2) by (simp add: rest)
    with split j(2) p real(1) show ?thesis by blast
  qed
qed

section \<open>What the operations change\<close>

text \<open>Directories appear along a path; nothing that was there changes.\<close>

definition made :: "fs \<Rightarrow> fs \<Rightarrow> string list \<Rightarrow> bool" where
  "made fs fs' p \<longleftrightarrow> (\<forall>q. fs' q = fs q \<or> (prefix q p \<and> fs q = None \<and> fs' q = Some Dir))"

lemma made_same [simp]: "made fs fs p"
  by (simp add: made_def)

lemma made_trans: "made a b p \<Longrightarrow> made b c p' \<Longrightarrow> prefix p p' \<Longrightarrow> made a c p'"
  unfolding made_def by (metis prefix_order.trans)

lemma made_no_link: "made fs fs' p \<Longrightarrow> no_link fs q \<Longrightarrow> no_link fs' q"
proof -
  assume m: "made fs fs' p" and q: "no_link fs q"
  have "\<not> is_link x" if r: "prefix r q" "fs' r = Some x" for r x
  proof -
    from m have "fs' r = fs r \<or> fs' r = Some Dir" by (auto simp: made_def)
    with r no_linkD [OF q] show ?thesis by force
  qed
  then show ?thesis by (auto simp: no_link_def)
qed

lemma mkdir_plain:
  assumes "no_link fs p" "mkdir fs (map Normal p) = Ok fs'"
  shows "fs' = fs(p \<mapsto> Dir) \<and> made fs fs' p"
proof -
  obtain q where q: "entry fs (map Normal p) = Ok (Some q)" "fs q = None" "fs' = fs(q \<mapsto> Dir)"
    using assms(2) by (auto simp: mkdir_def split: sum.splits option.splits if_splits)
  then show ?thesis using entry_plain [OF assms(1) q(1)] by (auto simp: made_def)
qed

lemma mkdir_wf:
  assumes "wf_fs fs" "mkdir fs p = Ok fs'"
  shows "wf_fs fs'"
proof -
  obtain q where q: "entry fs p = Ok (Some q)" "fs q = None" "fs' = fs(q \<mapsto> Dir)"
    using assms(2) by (auto simp: mkdir_def split: sum.splits option.splits if_splits)
  then obtain d n where d: "q = d @ [n]" "fs d = Some Dir"
    by (auto simp: entry_def split: sum.splits if_splits comp.splits)
  have "fs (q @ [m]) = None" for m
    using assms(1) q(2) unfolding wf_fs_def by (metis option.distinct(1))
  with d q assms(1) show ?thesis by (auto simp: wf_fs_def)
qed

lemma create_dir_all_made:
  "no_link fs p \<Longrightarrow> create_dir_all fs (map Normal p) = (fs', r) \<Longrightarrow>
   made fs fs' p \<and> (wf_fs fs \<longrightarrow> wf_fs fs')"
proof (induction p arbitrary: fs' r rule: rev_induct)
  case Nil
  then show ?case
    by (subst (asm) create_dir_all.simps) (auto simp: mkdir_def entry_def split: if_splits)
next
  case (snoc n p)
  let ?p = "map Normal (p @ [n])"
  have step: "made fs fs2 (p @ [n]) \<and> (wf_fs fs1 \<longrightarrow> wf_fs fs2)"
    if "made fs fs1 (p @ [n])" "mkdir fs1 ?p = Ok fs2" for fs1 fs2
    using mkdir_plain [OF made_no_link [OF that(1) snoc(2)] that(2)] mkdir_wf [OF _ that(2)]
      made_trans [OF that(1)] by auto
  show ?case
  proof (cases "mkdir fs ?p")
    case (Inr fs2)
    with snoc(3) step [of fs fs2] show ?thesis by (subst (asm) create_dir_all.simps) auto
  next
    case (Inl e)
    obtain fs1 r1 where c: "create_dir_all fs (map Normal p) = (fs1, r1)" by fastforce
    have p: "no_link fs p" using snoc(2) by (rule no_link_prefix) simp
    have m: "made fs fs1 (p @ [n])" "wf_fs fs \<longrightarrow> wf_fs fs1"
      using snoc(1) [OF p c] made_trans [of fs fs1 p fs1 "p @ [n]"] by auto
    show ?thesis
    proof (cases "mkdir fs1 ?p")
      case (Inr fs2)
      with snoc(3) Inl c m step [OF m(1) Inr] show ?thesis
        by (subst (asm) create_dir_all.simps) (auto split: if_splits sum.splits)
    next
      case (Inl e')
      with snoc(3) \<open>mkdir fs ?p = Err e\<close> c m show ?thesis
        by (subst (asm) create_dir_all.simps) (auto split: if_splits sum.splits)
    qed
  qed
qed

lemma make_parent_made:
  assumes "no_link fs p" "make_parent fs (map Normal p) = (fs', r)"
  shows "made fs fs' p \<and> (wf_fs fs \<longrightarrow> wf_fs fs')"
proof (cases p rule: rev_cases)
  case (snoc d n)
  have "no_link fs d" using assms(1) by (rule no_link_prefix) (simp add: snoc)
  from create_dir_all_made [OF this, of fs' r] assms(2) made_trans [of fs fs' d fs' p]
  show ?thesis by (auto simp: make_parent_def snoc butlast_append)
qed (use assms in \<open>simp add: make_parent_def\<close>)

lemma fs_write_plain:
  "no_link fs p \<Longrightarrow> fs_write fs (map Normal p) c = Ok fs' \<Longrightarrow> fs' = fs(p \<mapsto> File c)"
  using namei_plain [of fs "[]" p True]
  by (auto simp: fs_write_def split: sum.splits if_splits)

lemma remove_plain:
  "no_link fs p \<Longrightarrow> fs_remove_file fs (map Normal p) = Ok fs' \<Longrightarrow> fs' = fs(p := None)"
  by (auto simp: fs_remove_file_def split: sum.splits option.splits node.splits dest: entry_plain)

lemma rename_plain:
  assumes "no_link fs f" "no_link fs t" "fs_rename fs (map Normal f) (map Normal t) = Ok fs'"
  shows "fs' = fs \<or> fs' = move_tree f t fs"
proof -
  obtain f' t' where e: "entry fs (map Normal f) = Ok (Some f')" "entry fs (map Normal t) = Ok (Some t')"
    using assms(3) by (auto simp: fs_rename_def split: sum.splits option.splits)
  have "f' = f" "t' = t" using e assms(1,2) by (auto dest: entry_plain)
  with e assms(3) show ?thesis by (auto simp: fs_rename_def split: if_splits option.splits node.splits)
qed

section \<open>The tools stay in the workspace\<close>

definition same_outside :: "string list \<Rightarrow> fs \<Rightarrow> fs \<Rightarrow> bool" where
  "same_outside base fs fs' \<longleftrightarrow> (\<forall>q. \<not> prefix base q \<longrightarrow> fs' q = fs q)"

lemma same_outside_trans:
  "same_outside base a b \<Longrightarrow> same_outside base b c \<Longrightarrow> same_outside base a c"
  by (simp add: same_outside_def)

lemma same_outside_refl [simp]: "same_outside base fs fs"
  by (simp add: same_outside_def)

lemma same_outside_upd: "prefix base p \<Longrightarrow> same_outside base fs (fs(p := x))"
  by (auto simp: same_outside_def)

lemma same_outside_move:
  "prefix base f \<Longrightarrow> prefix base t \<Longrightarrow> same_outside base fs (move_tree f t fs)"
  by (auto simp: same_outside_def move_tree_def dest: prefix_order.trans)

lemma same_outside_made:
  assumes "wf_fs fs" "fs base \<noteq> None" "prefix base p" "made fs fs' p"
  shows "same_outside base fs fs'"
proof -
  have "fs' q = fs q" if "\<not> prefix base q" for q
  proof -
    have "fs' q = fs q \<or> (prefix q p \<and> fs q = None)" using assms(4) by (auto simp: made_def)
    then show ?thesis using that wf_inside [OF assms(1-3), of q] by blast
  qed
  then show ?thesis by (simp add: same_outside_def)
qed

text \<open>The string arguments a tool resolves.\<close>

fun path_args :: "file_tool \<Rightarrow> string list" where
  "path_args RenameFile = [''from'', ''to'']"
| "path_args _ = [''path'']"

definition plain_call :: "file_tool \<Rightarrow> tool_args \<Rightarrow> rpath \<Rightarrow> fs \<Rightarrow> bool" where
  "plain_call tool args ws fs \<longleftrightarrow>
     list_all (\<lambda>key. case args key of None \<Rightarrow> True | Some path \<Rightarrow> plain_request fs ws path)
       (path_args tool)"

definition good_workspace :: "fs \<Rightarrow> rpath \<Rightarrow> string list \<Rightarrow> bool" where
  "good_workspace fs ws base \<longleftrightarrow> wf_fs fs \<and> canonicalize fs ws = Ok base \<and> no_dangling fs base"

lemma accepted:
  assumes "good_workspace fs ws base" "plain_request fs ws path" "resolve_path fs ws path = Ok p"
  obtains q where "p = map Normal q" "prefix base q" "no_link fs q"
proof -
  from assms(1) have "wf_fs fs" "canonicalize fs ws = Ok base" "no_dangling fs base"
    by (simp_all add: good_workspace_def)
  from resolve_real [OF this assms(2,3)] show thesis by (metis that)
qed

lemma good_base: "good_workspace fs ws base \<Longrightarrow> wf_fs fs \<and> fs base \<noteq> None"
  unfolding good_workspace_def using canonicalize_real by blast

lemma write_outside:
  assumes g: "good_workspace fs ws base" and c: "plain_call WriteFile args ws fs"
    and w: "write_file args ws fs = (fs', r)"
  shows "same_outside base fs fs'"
proof (cases "\<exists>path content p. args ''path'' = Some path \<and> args ''content'' = Some content \<and>
    resolve_path fs ws path = Ok p")
  case False
  then have "fs' = fs" using w by (auto simp: write_file_def split: option.splits sum.splits)
  then show ?thesis by simp
next
  case True
  then obtain path content p where a: "args ''path'' = Some path" "args ''content'' = Some content"
    "resolve_path fs ws path = Ok p" by blast
  with c have "plain_request fs ws path" by (simp add: plain_call_def)
  from accepted [OF g this a(3)] obtain q where q: "p = map Normal q" "prefix base q" "no_link fs q" .
  obtain fs1 r1 where m: "make_parent fs (map Normal q) = (fs1, r1)" by fastforce
  have wf: "wf_fs fs" "fs base \<noteq> None" using good_base [OF g] by blast+
  note made = make_parent_made [OF q(3) m, THEN conjunct1]
  have fs1: "same_outside base fs fs1" "no_link fs1 q"
    using same_outside_made [OF wf q(2) made] made_no_link [OF made q(3)] by auto
  have "fs' = fs1 \<or> fs' = fs1(q \<mapsto> File content)"
    using w m fs_write_plain [OF fs1(2)]
    by (auto simp: write_file_def a q(1) Let_def split: sum.splits)
  then show ?thesis using fs1(1) same_outside_upd [OF q(2)] same_outside_trans by blast
qed

lemma edit_outside:
  assumes g: "good_workspace fs ws base" and c: "plain_call EditFile args ws fs"
    and w: "edit_file args ws fs = (fs', r)"
  shows "same_outside base fs fs'"
proof (cases "fs' = fs")
  case False
  then obtain path p t where a: "args ''path'' = Some path" "resolve_path fs ws path = Ok p"
    "fs_write fs p t = Ok fs'"
    using w by (auto simp: edit_file_def Let_def split: option.splits sum.splits if_splits)
  with c have "plain_request fs ws path" by (simp add: plain_call_def)
  from accepted [OF g this a(2)] obtain q where q: "p = map Normal q" "prefix base q" "no_link fs q" .
  with a(3) fs_write_plain have "fs' = fs(q \<mapsto> File t)" by blast
  then show ?thesis using same_outside_upd [OF q(2)] by simp
qed simp

lemma delete_outside:
  assumes g: "good_workspace fs ws base" and c: "plain_call DeleteFile args ws fs"
    and w: "delete_file args ws fs = (fs', r)"
  shows "same_outside base fs fs'"
proof (cases "fs' = fs")
  case False
  then obtain path p where a: "args ''path'' = Some path" "resolve_path fs ws path = Ok p"
    "fs_remove_file fs p = Ok fs'"
    using w by (auto simp: delete_file_def arg_path_def Let_def split: option.splits sum.splits)
  with c have "plain_request fs ws path" by (simp add: plain_call_def)
  from accepted [OF g this a(2)] obtain q where q: "p = map Normal q" "prefix base q" "no_link fs q" .
  with a(3) remove_plain have "fs' = fs(q := None)" by blast
  then show ?thesis using same_outside_upd [OF q(2)] by simp
qed simp

lemma rename_outside:
  assumes g: "good_workspace fs ws base" and c: "plain_call RenameFile args ws fs"
    and w: "rename_file args ws fs = (fs', r)"
  shows "same_outside base fs fs'"
proof (cases "\<exists>f t f_path t_path. args ''from'' = Some f \<and> args ''to'' = Some t \<and>
    resolve_path fs ws f = Ok f_path \<and> resolve_path fs ws t = Ok t_path")
  case False
  then have "fs' = fs" using w by (auto simp: rename_file_def split: option.splits sum.splits)
  then show ?thesis by simp
next
  case True
  then obtain f t f_path t_path where a: "args ''from'' = Some f" "args ''to'' = Some t"
    "resolve_path fs ws f = Ok f_path" "resolve_path fs ws t = Ok t_path" by blast
  with c have pl: "plain_request fs ws f" "plain_request fs ws t" by (simp_all add: plain_call_def)
  from accepted [OF g pl(1) a(3)] obtain x where x: "f_path = map Normal x" "prefix base x" "no_link fs x" .
  from accepted [OF g pl(2) a(4)] obtain y where y: "t_path = map Normal y" "prefix base y" "no_link fs y" .
  obtain fs1 r1 where m: "make_parent fs (map Normal y) = (fs1, r1)" by fastforce
  have wf: "wf_fs fs" "fs base \<noteq> None" using good_base [OF g] by blast+
  note made = make_parent_made [OF y(3) m, THEN conjunct1]
  note real = made_no_link [OF made x(3)] made_no_link [OF made y(3)]
  have fs1: "same_outside base fs fs1" by (rule same_outside_made [OF wf y(2) made])
  have "fs' = fs1 \<or> fs' = move_tree x y fs1"
    using w m rename_plain [OF real]
    by (auto simp: rename_file_def a x(1) y(1) split: sum.splits)
  then show ?thesis using fs1 same_outside_move [OF x(2) y(2)] same_outside_trans by blast
qed

text \<open>C6. A file tool changes nothing outside the workspace directory: for a tree whose links in the workspace all
  lead somewhere, and a call whose paths have no \<open>..\<close> and stay in the system's budget of links,
  every node that does not lie under the canonical workspace directory is the same after the call,
  whatever the tool, the arguments, the links in between, and the outcome.
\<close>

theorem file_tools_stay_inside:
  assumes "good_workspace fs ws base" and "plain_call tool args ws fs"
    and "execute_file_tool tool args ws fs = (fs', r)"
  shows "\<forall>q. \<not> prefix base q \<longrightarrow> fs' q = fs q"
proof -
  have "same_outside base fs fs'"
    using assms write_outside edit_outside delete_outside rename_outside by (cases tool) auto
  then show ?thesis by (simp add: same_outside_def)
qed

lemma no_links_good: "wf_fs fs \<Longrightarrow> canonicalize fs ws = Ok base \<Longrightarrow> \<forall>q x. fs q = Some x \<longrightarrow> \<not> is_link x \<Longrightarrow>
  good_workspace fs ws base"
  by (auto simp: good_workspace_def no_dangling_def)

lemma demo_good: "good_workspace demo_fs [Normal ''ws''] [''ws'']"
proof (rule no_links_good)
  show "wf_fs demo_fs" by (auto simp: wf_fs_def demo_fs_def)
  show "canonicalize demo_fs [Normal ''ws''] = Ok [''ws'']"
    by (simp add: canonicalize_def demo_fs_def MAX_LINKS_def)
  show "\<forall>q x. demo_fs q = Some x \<longrightarrow> \<not> is_link x" by (auto simp: demo_fs_def split: if_splits)
qed

lemma no_links_no_loop:
  "\<forall>q x. fs q = Some x \<longrightarrow> \<not> is_link x \<Longrightarrow> namei fs False k cur p \<noteq> Err FilesystemLoop"
proof (induction k cur p rule: namei_steps [of _ fs])
  case (Step k cur n cs x)
  then show ?case by (cases x) simp_all
next
  case (Loop cur n cs b t)
  then have "\<not> is_link (Link b t)" by blast
  then show ?case by simp
next
  case (Follow k cur n cs b t)
  then have "\<not> is_link (Link b t)" by blast
  then show ?case by simp
qed (auto simp: namei_no_dir)

lemma demo_plain: "ParentDir \<notin> set (path_components path) \<Longrightarrow> plain_request demo_fs ws path"
  unfolding plain_request_def canonicalize_def
  using no_links_no_loop [of demo_fs] by (auto simp: demo_fs_def split: if_splits)

theorem file_tools_stay_inside_witness:
  "fst (execute_file_tool WriteFile [''path'' \<mapsto> ''a/b'', ''content'' \<mapsto> ''x''] [Normal ''ws''] demo_fs)
     [''etc''] = Some Dir"
proof -
  let ?args = "[''path'' \<mapsto> ''a/b'', ''content'' \<mapsto> ''x'']"
  have "plain_call WriteFile ?args [Normal ''ws''] demo_fs"
    by (simp add: plain_call_def) (rule demo_plain, code_simp)
  from file_tools_stay_inside [OF demo_good this prod.collapse [symmetric]]
  have "\<not> prefix [''ws''] [''etc''] \<longrightarrow>
      fst (execute_file_tool WriteFile ?args [Normal ''ws''] demo_fs) [''etc''] = demo_fs [''etc'']" by blast
  then show ?thesis by (simp add: demo_fs_def)
qed

section \<open>What the tools do\<close>

lemma recorded_ok: "\<exists>out. recorded text previous new = Ok out"
  using unified_diff_total unfolding recorded_def unified_diff_def
  by (cases previous) (simp, metis option.simps(5))

text \<open>A tree that keeps directories, links and the presence of files resolves what resolved before.\<close>

definition same_shape :: "fs \<Rightarrow> fs \<Rightarrow> bool" where
  "same_shape fs fs' \<longleftrightarrow>
     (\<forall>q x. fs q = Some x \<longrightarrow> fs' q = Some x \<or> (\<exists>c d. x = File c \<and> fs' q = Some (File d)))"

lemma write_shape:
  assumes "made fs fs1 p" "no_link fs p" "fs1 p \<noteq> Some Dir"
  shows "same_shape fs (fs1(p \<mapsto> File c))"
proof -
  have "fs1 q = Some x" if "fs q = Some x" for q x
    using spec [OF assms(1) [unfolded made_def], of q] that by simp
  moreover have "\<exists>d. x = File d" if "fs p = Some x" for x
    using assms(3) calculation [OF that] no_linkD [OF assms(2) that] by (cases x) auto
  ultimately show ?thesis by (auto simp: same_shape_def)
qed

lemma namei_kept:
  assumes "same_shape fs fs'"
  shows "namei fs False k cur a = Ok c \<Longrightarrow> namei fs' False k cur a = Ok c"
proof (induction k cur a rule: namei_steps [of _ fs])
  case (Parent k cur cs)
  then have "fs' cur = Some Dir" using assms unfolding same_shape_def by blast
  with Parent show ?case by simp
next
  case (Follow k cur n cs b t)
  then have "fs' cur = Some Dir" "fs' (cur @ [n]) = Some (Link b t)"
    using assms unfolding same_shape_def by blast+
  with Follow show ?case by simp
next
  case (Step k cur n cs x)
  then have d: "fs' cur = Some Dir" using assms unfolding same_shape_def by blast
  obtain x' where x': "fs' (cur @ [n]) = Some x'" "\<not> is_link x'"
    using assms Step(2,3) unfolding same_shape_def by fastforce
  from Step(5) have "namei fs False k (cur @ [n]) cs = Ok c" unfolding namei_step [OF Step(1-3)] .
  with Step(4) show ?case unfolding namei_step [OF d x'] by blast
qed (simp_all add: namei_no_dir)

lemma fs_write_wf:
  assumes "wf_fs fs" "no_link fs q" "fs_write fs (map Normal q) c = Ok fs'"
  shows "wf_fs fs'"
proof -
  have q: "fs' = fs(q \<mapsto> File c)" using fs_write_plain assms(2,3) by blast
  obtain r where r: "namei fs True MAX_LINKS [] (map Normal q) = Ok r" "fs r \<noteq> Some Dir"
    using assms(3) by (auto simp: fs_write_def split: sum.splits if_splits)
  have rq: "r = q" using namei_plain [of fs "[]" q] assms(2) r(1) by simp
  have kids: "fs (q @ [m]) = None" for m
    using assms(1) r(2) rq unfolding wf_fs_def by (metis not_None_eq)
  have parent: "fs d = Some Dir" if "q = d @ [n]" for d n
    using r(1) assms(1,2) namei_parent [of fs "[]" d n] that by simp
  have "q \<noteq> []" using r(2) rq assms(1) by (auto simp: wf_fs_def)
  moreover have "fs' p = Some Dir" if "fs' (p @ [n]) \<noteq> None" for p n
  proof (cases "q = p @ [n]")
    case True
    then show ?thesis using parent by (simp add: q)
  next
    case False
    with that have *: "fs (p @ [n]) \<noteq> None" by (simp add: q)
    then have "p \<noteq> q" using kids by auto
    with * assms(1) show ?thesis unfolding q wf_fs_def by auto
  qed
  ultimately show ?thesis using assms(1) unfolding wf_fs_def by (auto simp: q)
qed

lemma read_plain:
  "wf_fs fs \<Longrightarrow> no_link fs q \<Longrightarrow> fs q = Some (File c) \<Longrightarrow>
   read_to_string fs (map Normal q) = (if utf8_ok c then Ok c else Err InvalidData)"
  using namei_plain_ok [of fs "[]" q False MAX_LINKS] by (simp add: read_to_string_def canonicalize_def)

lemma read_plainD:
  "no_link fs q \<Longrightarrow> read_to_string fs (map Normal q) = Ok c \<Longrightarrow> fs q = Some (File c)"
  using canonicalize_plain [of fs q]
  by (auto simp: read_to_string_def split: sum.splits option.splits node.splits if_splits)

lemma resolve_again:
  assumes "wf_fs fs'" "same_shape fs fs'" "canonicalize fs ws = Ok base"
    and "requested ws path = a @ map Normal rest" "canonicalize fs a = Ok c"
    and "prefix base (c @ rest)" "no_link fs' (c @ rest)" "fs' (c @ rest) \<noteq> None"
  shows "resolve_path fs' ws path = Ok (map Normal (c @ rest))"
proof -
  have kept: "canonicalize fs' p = Ok q" if "canonicalize fs p = Ok q" for p q
    using namei_kept [OF assms(2)] that by (simp add: canonicalize_def)
  obtain k where "canonicalize fs' (a @ map Normal rest) = namei fs' False k c (map Normal rest)"
    using namei_append [OF kept [OF assms(5), unfolded canonicalize_def]] by (auto simp: canonicalize_def)
  then have "canonicalize fs' (requested ws path) = Ok (c @ rest)"
    using namei_plain_ok [OF assms(1,7,8)] by (simp add: assms(4))
  moreover from this have "canonicalize_loose fs' (requested ws path) = map Normal (c @ rest)"
    unfolding canonicalize_loose_def by (subst loose_from.simps) (simp add: path_exists_def)
  ultimately show ?thesis
    using assms(6) by (simp add: resolve_path_def workspace_base_def kept [OF assms(3)] prefix_map_Normal
        flip: map_append)
qed

text \<open>A file written is there to be read: in a good workspace, when \<open>write_file\<close> reports success for a
  plain path and some content (a Rust string, so valid UTF-8), \<open>read_file\<close> of the same path in the tree
  it left behind returns exactly that content, through whatever links and new directories the path goes.
\<close>

theorem write_then_read:
  assumes g: "good_workspace fs ws base" and c: "plain_call WriteFile args ws fs"
    and w: "write_file args ws fs = (fs', Ok out)"
    and content: "args ''content'' = Some content" "utf8_ok content"
  shows "read_file args ws fs' = Ok content"
proof -
  obtain path p where a: "args ''path'' = Some path" "resolve_path fs ws path = Ok p"
    using w content by (auto simp: write_file_def split: option.splits sum.splits)
  have base: "canonicalize fs ws = Ok base" and wf: "wf_fs fs" "no_dangling fs base"
    using g by (simp_all add: good_workspace_def)
  have "plain_request fs ws path" using c a by (simp add: plain_call_def)
  from resolve_real [OF wf(1) base wf(2) this a(2)]
  obtain a' c rest where q: "requested ws path = a' @ map Normal rest" "canonicalize fs a' = Ok c"
    "p = map Normal (c @ rest)" "prefix base (c @ rest)" "no_link fs (c @ rest)" by blast
  obtain fs1 r1 where m: "make_parent fs (map Normal (c @ rest)) = (fs1, r1)" by fastforce
  note made = make_parent_made [OF q(5) m]
  note real = made_no_link [OF made [THEN conjunct1] q(5)]
  have wr: "fs_write fs1 (map Normal (c @ rest)) content = Ok fs'"
    using w m by (auto simp: write_file_def a content q(3) Let_def simp del: map_append split: sum.splits)
  have fs': "fs' = fs1(c @ rest \<mapsto> File content)" by (rule fs_write_plain [OF real wr])
  have wf': "wf_fs fs'" using fs_write_wf [OF _ real wr] made wf by blast
  have real': "no_link fs' (c @ rest)" using real by (auto simp: fs' no_link_def)
  have "fs1 (c @ rest) \<noteq> Some Dir"
    using wr namei_plain [of fs1 "[]" "c @ rest" True MAX_LINKS] real
    by (auto simp: fs_write_def simp del: map_append split: sum.splits if_splits)
  then have "same_shape fs fs'" unfolding fs' using made q(5) by (intro write_shape) simp_all
  from resolve_again [OF wf' this base q(1,2,4) real'] have "resolve_path fs' ws path = Ok p"
    by (simp add: fs' q(3))
  then show ?thesis
    using read_plain [OF wf' real', of content] content(2) by (simp add: read_file_def arg_path_def a q(3) fs')
qed

lemma demo_write:
  "write_file [''path'' \<mapsto> ''a/b'', ''content'' \<mapsto> ''x''] [Normal ''ws''] demo_fs =
   (demo_fs([''ws'', ''a''] \<mapsto> Dir, [''ws'', ''a'', ''b''] \<mapsto> File ''x''),
    recorded (Wrote [Normal ''ws'', Normal ''a'', Normal ''b'']) (Some []) ''x'')"
proof -
  let ?p = "[Normal ''ws'', Normal ''a'', Normal ''b'']"
  have "resolve_path demo_fs [Normal ''ws''] ''a/b'' = Ok ?p" by code_simp
  moreover have "make_parent demo_fs ?p = (demo_fs([''ws'', ''a''] \<mapsto> Dir), Ok ())"
    "previous_text demo_fs ?p = Some []"
    "fs_write (demo_fs([''ws'', ''a''] \<mapsto> Dir)) ?p ''x'' =
      Ok (demo_fs([''ws'', ''a''] \<mapsto> Dir, [''ws'', ''a'', ''b''] \<mapsto> File ''x''))"
    by (simp_all add: demo_io previous_text_def read_to_string_def path_exists_def)
  ultimately show ?thesis by (simp add: write_file_def)
qed

theorem write_then_read_witness:
  "read_file [''path'' \<mapsto> ''a/b'', ''content'' \<mapsto> ''x''] [Normal ''ws'']
     (demo_fs([''ws'', ''a''] \<mapsto> Dir, [''ws'', ''a'', ''b''] \<mapsto> File ''x'')) = Ok ''x''"
proof -
  obtain out where out: "recorded (Wrote [Normal ''ws'', Normal ''a'', Normal ''b'']) (Some []) ''x'' = Ok out"
    using recorded_ok by blast
  have "plain_call WriteFile [''path'' \<mapsto> ''a/b'', ''content'' \<mapsto> ''x''] [Normal ''ws''] demo_fs"
    by (simp add: plain_call_def) (rule demo_plain, code_simp)
  from write_then_read [OF demo_good this demo_write [unfolded out]] show ?thesis by simp
qed

text \<open>C5. An edit does what it reports: in a good workspace and for a plain path, on success exactly one file of the workspace changes, its text is the old one with
  the first occurrence of \<open>old_text\<close> replaced and differs from it, and where the outcome carries a
  diff (and no line ends in a carriage return of its own), parsing and applying that diff to the old lines gives the new ones.
\<close>

theorem edit_replaces_and_records:
  assumes g: "good_workspace fs ws base" and c: "plain_call EditFile args ws fs"
    and w: "edit_file args ws fs = (fs', Ok out)"
    and args: "args ''old_text'' = Some old_text" "args ''new_text'' = Some new_text"
  shows "\<exists>q old new. prefix base q \<and> fs q = Some (File old) \<and> new = replace_first old_text new_text old \<and>
    new \<noteq> old \<and> fs' = fs(q \<mapsto> File new) \<and>
    (\<forall>d. to_diff out = Some d \<longrightarrow>
      list_all clean_line (str_lines old) \<and> list_all clean_line (str_lines new) \<and>
      length (str_lines old) < 2 ^ 32 \<and> length (str_lines new) < 2 ^ 32 \<longrightarrow>
      patch 0 0 (parse_unified_diff d) (str_lines old) = Some (str_lines new))"
proof -
  obtain path p old where a: "args ''path'' = Some path" "resolve_path fs ws path = Ok p"
    "read_to_string fs p = Ok old" "replace_first old_text new_text old \<noteq> old"
    "fs_write fs p (replace_first old_text new_text old) = Ok fs'"
    "recorded (Edited p) (Some old) (replace_first old_text new_text old) = Ok out"
    using w args by (auto simp: edit_file_def Let_def split: option.splits sum.splits if_splits)
  define new where "new = replace_first old_text new_text old"
  have "plain_request fs ws path" using c a by (simp add: plain_call_def)
  from accepted [OF g this a(2)] obtain q where q: "p = map Normal q" "prefix base q" "no_link fs q" .
  have "fs q = Some (File old)" "fs' = fs(q \<mapsto> File new)"
    using read_plainD [OF q(3)] fs_write_plain [OF q(3)] a(3,5) by (simp_all add: q(1) new_def)
  moreover have "patch 0 0 (parse_unified_diff d) (str_lines old) = Some (str_lines new)"
    if "to_diff out = Some d" "list_all clean_line (str_lines old)" "list_all clean_line (str_lines new)"
      "length (str_lines old) < 2 ^ 32" "length (str_lines new) < 2 ^ 32" for d
  proof -
    have "unified_diff old new = Some d"
      using a(6) that(1) by (auto simp: recorded_def with_diff_def new_def split: option.splits if_splits)
    then show ?thesis using unified_diff_patches [OF that(2-5), of DIFF_CONTEXT] by (simp add: unified_diff_def)
  qed
  ultimately show ?thesis using q(2) a(4) new_def by blast
qed

definition demo_text_fs :: fs where
  "demo_text_fs = demo_fs([''ws'', ''f''] \<mapsto> File ''aab'')"

lemma demo_text_good:
  "good_workspace demo_text_fs [Normal ''ws''] [''ws'']"
  "plain_request demo_text_fs [Normal ''ws''] ''f''"
proof -
  have no_links: "\<forall>q x. demo_text_fs q = Some x \<longrightarrow> \<not> is_link x"
    by (auto simp: demo_text_fs_def demo_fs_def split: if_splits)
  have "wf_fs demo_text_fs" by (auto simp: wf_fs_def demo_text_fs_def demo_fs_def)
  moreover have "canonicalize demo_text_fs [Normal ''ws''] = Ok [''ws'']"
    by (simp add: canonicalize_def demo_text_fs_def demo_fs_def MAX_LINKS_def)
  ultimately show "good_workspace demo_text_fs [Normal ''ws''] [''ws'']"
    using no_links by (rule no_links_good)
  have "ParentDir \<notin> set (path_components ''f'')" by code_simp
  then show "plain_request demo_text_fs [Normal ''ws''] ''f''"
    using no_links_no_loop [OF no_links] by (simp add: plain_request_def canonicalize_def)
qed

theorem edit_replaces_and_records_witness:
  "\<exists>out q old new. edit_file [''path'' \<mapsto> ''f'', ''old_text'' \<mapsto> ''a'', ''new_text'' \<mapsto> ''c'']
     [Normal ''ws''] demo_text_fs = (demo_text_fs(q \<mapsto> File new), Ok out) \<and>
   prefix [''ws''] q \<and> demo_text_fs q = Some (File old) \<and> new = replace_first ''a'' ''c'' old \<and> new \<noteq> old"
proof -
  let ?args = "[''path'' \<mapsto> ''f'', ''old_text'' \<mapsto> ''a'', ''new_text'' \<mapsto> ''c'']"
  have "resolve_path demo_text_fs [Normal ''ws''] ''f'' = Ok [Normal ''ws'', Normal ''f'']" by code_simp
  moreover have "read_to_string demo_text_fs [Normal ''ws'', Normal ''f''] = Ok ''aab''" by code_simp
  moreover have "replace_first ''a'' ''c'' ''aab'' = ''cab''" by code_simp
  moreover have "\<exists>fs1. fs_write demo_text_fs [Normal ''ws'', Normal ''f''] ''cab'' = Ok fs1"
    by (simp add: fs_write_def demo_text_fs_def demo_fs_def MAX_LINKS_def)
  moreover obtain out where "recorded (Edited [Normal ''ws'', Normal ''f'']) (Some ''aab'') ''cab'' = Ok out"
    using recorded_ok by blast
  ultimately obtain fs' where e: "edit_file ?args [Normal ''ws''] demo_text_fs = (fs', Ok out)"
    by (auto simp: edit_file_def)
  have "plain_call EditFile ?args [Normal ''ws''] demo_text_fs"
    by (simp add: plain_call_def demo_text_good(2))
  from edit_replaces_and_records [OF demo_text_good(1) this e, of "''a''" "''c''"] e show ?thesis by auto
qed

text \<open>Replacing a text by itself is reported as a text that was not found.\<close>

lemma replace_same: "replace_first t t content = content"
proof -
  have "find_sub t s = Some i \<Longrightarrow> take i s @ t @ drop (i + length t) s = s" for s i
    by (induction s arbitrary: i) (auto simp: prefix_def split: if_splits)
  then show ?thesis by (simp add: replace_first_def split: option.splits)
qed

lemma edit_same_text_not_found:
  "args ''path'' = Some path \<Longrightarrow> args ''old_text'' = Some t \<Longrightarrow> args ''new_text'' = Some t \<Longrightarrow>
   resolve_path fs ws path = Ok p \<Longrightarrow> read_to_string fs p = Ok content \<Longrightarrow>
   edit_file args ws fs = (fs, Err OldTextNotFound)"
  by (simp add: edit_file_def replace_same)

end
