(* ===== verification/Process_Sandbox.thy ===== *)
theory Process_Sandbox
  imports Workspace_Files
begin

text \<open>
  The isolation of the commands an agent starts (\<open>crates/goble-sandbox\<close>): profiles, the check of a
  command against its profile, the choice of a back end, the commands the \<open>bwrap\<close> and
  \<open>sandbox-exec\<close> back ends really start, and the policy the latter is given.
\<close>

section \<open>Profiles and commands\<close>

datatype sandbox_level = LevelNone | LevelAllowList | LevelHardened

record hardened_flags =
  no_network :: bool
  read_only_fs :: bool
  no_new_privs :: bool
  disable_ptrace :: bool

definition flags_hardened :: hardened_flags where
  "flags_hardened = \<lparr>no_network = True, read_only_fs = True, no_new_privs = True, disable_ptrace = True\<rparr>"

definition flags_permissive :: hardened_flags where
  "flags_permissive =
     \<lparr>no_network = False, read_only_fs = False, no_new_privs = False, disable_ptrace = False\<rparr>"

definition default_timeout_seconds :: u64 where
  "default_timeout_seconds = 60"

text \<open>The allow-list is a set kept as a list.\<close>

record sandbox_profile =
  sp_name :: string
  sp_level :: sandbox_level
  sp_allow_list :: "string list"
  sp_flags :: hardened_flags
  sp_timeout :: u64

definition profile_none :: "string \<Rightarrow> sandbox_profile" where
  "profile_none name = \<lparr>sp_name = name, sp_level = LevelNone, sp_allow_list = [],
     sp_flags = flags_permissive, sp_timeout = default_timeout_seconds\<rparr>"

definition profile_allow_list :: "string \<Rightarrow> string list \<Rightarrow> sandbox_profile" where
  "profile_allow_list name commands = \<lparr>sp_name = name, sp_level = LevelAllowList,
     sp_allow_list = commands, sp_flags = flags_permissive, sp_timeout = default_timeout_seconds\<rparr>"

definition profile_hardened :: "string \<Rightarrow> sandbox_profile" where
  "profile_hardened name = \<lparr>sp_name = name, sp_level = LevelHardened, sp_allow_list = [],
     sp_flags = flags_hardened, sp_timeout = default_timeout_seconds\<rparr>"

record prepared_command =
  pc_program :: string
  pc_args :: "string list"
  pc_cwd :: string
  pc_env :: "(string \<times> string) list"

definition prepared_new :: "string \<Rightarrow> prepared_command" where
  "prepared_new program = \<lparr>pc_program = program, pc_args = [], pc_cwd = ''.'', pc_env = []\<rparr>"

definition add_args :: "string list \<Rightarrow> prepared_command \<Rightarrow> prepared_command" where
  "add_args as c = c\<lparr>pc_args := pc_args c @ as\<rparr>"

definition basename :: "prepared_command \<Rightarrow> string" where
  "basename c = (case rev (path_components (pc_program c)) of Normal n # _ \<Rightarrow> n | _ \<Rightarrow> pc_program c)"

section \<open>Back ends\<close>

datatype sandbox_error =
    NotInAllowList string
  | UnsupportedLevel sandbox_level string
  | BackendUnavailable string
  | SandboxIo string

definition allowed :: "sandbox_profile \<Rightarrow> prepared_command \<Rightarrow> bool" where
  "allowed profile c =
     (case sp_level profile of
        LevelNone \<Rightarrow> pc_program c \<noteq> []
      | LevelAllowList \<Rightarrow>
          pc_program c \<in> set (sp_allow_list profile) \<or> basename c \<in> set (sp_allow_list profile)
      | LevelHardened \<Rightarrow> True)"

text \<open>Landlock and seccomp are one kind: both only declare the seam.\<close>

datatype backend =
    Noop sandbox_profile
  | Bwrap sandbox_profile
  | Kernel string sandbox_profile
  | Seatbelt sandbox_profile

fun sandbox_name :: "backend \<Rightarrow> string" where
  "sandbox_name (Noop p) = ''noop''"
| "sandbox_name (Bwrap p) = ''bwrap''"
| "sandbox_name (Kernel name p) = name"
| "sandbox_name (Seatbelt p) = ''seatbelt''"

fun sandbox_profile_of :: "backend \<Rightarrow> sandbox_profile" where
  "sandbox_profile_of (Noop p) = p"
| "sandbox_profile_of (Bwrap p) = p"
| "sandbox_profile_of (Kernel name p) = p"
| "sandbox_profile_of (Seatbelt p) = p"

definition check_allowed :: "sandbox_profile \<Rightarrow> prepared_command \<Rightarrow> (sandbox_error, unit) result" where
  "check_allowed p c = (if allowed p c then Ok () else Err (NotInAllowList (basename c)))"

text \<open>\<open>launcher\<close>: whether the system has \<open>/usr/bin/sandbox-exec\<close>.\<close>

definition prepare_noop :: "sandbox_profile \<Rightarrow> prepared_command \<Rightarrow> (sandbox_error, unit) result" where
  "prepare_noop p c =
     (if sp_level p = LevelHardened then Err (UnsupportedLevel LevelHardened ''noop'')
      else check_allowed p c)"

definition prepare_bwrap :: "sandbox_profile \<Rightarrow> prepared_command \<Rightarrow> (sandbox_error, unit) result" where
  "prepare_bwrap p c = check_allowed p c"

definition prepare_kernel ::
  "string \<Rightarrow> sandbox_profile \<Rightarrow> prepared_command \<Rightarrow> (sandbox_error, unit) result" where
  "prepare_kernel name p c =
     (if sp_level p = LevelHardened then Err (BackendUnavailable name) else check_allowed p c)"

definition prepare_seatbelt ::
  "bool \<Rightarrow> sandbox_profile \<Rightarrow> prepared_command \<Rightarrow> (sandbox_error, unit) result" where
  "prepare_seatbelt launcher p c =
     (if \<not> allowed p c then Err (NotInAllowList (basename c))
      else if sp_level p = LevelHardened \<and> \<not> launcher then Err (BackendUnavailable ''seatbelt'')
      else Ok ())"

lemmas prepare_defs = prepare_noop_def prepare_bwrap_def prepare_kernel_def prepare_seatbelt_def
  check_allowed_def

fun prepare :: "bool \<Rightarrow> backend \<Rightarrow> prepared_command \<Rightarrow> (sandbox_error, unit) result" where
  "prepare launcher (Noop p) c = prepare_noop p c"
| "prepare launcher (Bwrap p) c = prepare_bwrap p c"
| "prepare launcher (Kernel name p) c = prepare_kernel name p c"
| "prepare launcher (Seatbelt p) c = prepare_seatbelt launcher p c"

subsection \<open>Bubblewrap\<close>

definition build_wrapped :: "sandbox_profile \<Rightarrow> prepared_command \<Rightarrow> prepared_command" where
  "build_wrapped p c =
     (let flags = sp_flags p; cwd = pc_cwd c;
          b = prepared_new ''bwrap'';
          b = (if no_network flags then add_args [''--unshare-net''] b else b);
          b = (if read_only_fs flags then add_args [''--ro-bind'', cwd, cwd] b
               else if cwd \<noteq> [] then add_args [''--bind'', cwd, cwd] b else b);
          b = (if no_new_privs flags then add_args [''--die-with-parent'', ''--unshare-pid''] b else b);
          b = add_args [''--''] b;
          b = add_args [pc_program c] b;
          b = add_args (pc_args c) b;
          b = b\<lparr>pc_cwd := cwd\<rparr>
      in b\<lparr>pc_env := pc_env b @ pc_env c\<rparr>)"

subsection \<open>Seatbelt\<close>

datatype sb_target = Subpath string | Literal string

record sb_rule =
  sb_allow :: bool
  sb_operation :: string
  sb_target :: "sb_target option"

definition rule_allow :: "string \<Rightarrow> sb_rule" where
  "rule_allow operation = \<lparr>sb_allow = True, sb_operation = operation, sb_target = None\<rparr>"

definition rule_deny :: "string \<Rightarrow> sb_rule" where
  "rule_deny operation = \<lparr>sb_allow = False, sb_operation = operation, sb_target = None\<rparr>"

definition rule_allow_on :: "string \<Rightarrow> string \<Rightarrow> sb_rule" where
  "rule_allow_on operation path =
     \<lparr>sb_allow = True, sb_operation = operation, sb_target = Some (Subpath path)\<rparr>"

definition rule_allow_literal :: "string \<Rightarrow> string \<Rightarrow> sb_rule" where
  "rule_allow_literal operation path =
     \<lparr>sb_allow = True, sb_operation = operation, sb_target = Some (Literal path)\<rparr>"

definition DEVICE_WRITE_LITERALS :: "string list" where
  "DEVICE_WRITE_LITERALS =
     [''/dev/null'', ''/dev/zero'', ''/dev/random'', ''/dev/urandom'', ''/dev/tty'', ''/dev/dtracehelper'']"

definition DEVICE_WRITE_SUBPATHS :: "string list" where
  "DEVICE_WRITE_SUBPATHS = [''/dev/fd'']"

definition rules_for :: "sandbox_profile \<Rightarrow> string \<Rightarrow> sb_rule list" where
  "rules_for profile workspace =
     (let flags = sp_flags profile in
      [rule_allow ''process*'', rule_allow ''file-read-metadata'', rule_allow ''sysctl-read'',
       rule_allow ''mach-lookup'', rule_allow ''ipc-posix-shm'', rule_allow ''file-read*'',
       rule_allow_on ''file-read*'' workspace, rule_deny ''file-write*''] @
      map (rule_allow_literal ''file-write*'') DEVICE_WRITE_LITERALS @
      map (rule_allow_on ''file-write*'') DEVICE_WRITE_SUBPATHS @
      (if \<not> read_only_fs flags then [rule_allow_on ''file-write*'' workspace] else []) @
      (if no_network flags then [rule_deny ''network*''] else [rule_allow ''network*'']))"

definition DQUOTE :: string where
  "DQUOTE = [CHR 0x22]"

definition render_rule :: "sb_rule \<Rightarrow> string" where
  "render_rule rule =
     ''('' @ (if sb_allow rule then ''allow'' else ''deny'') @ '' '' @ sb_operation rule @
     (case sb_target rule of
        Some (Subpath path) \<Rightarrow> '' (subpath '' @ DQUOTE @ path @ DQUOTE @ '')''
      | Some (Literal path) \<Rightarrow> '' (literal '' @ DQUOTE @ path @ DQUOTE @ '')''
      | None \<Rightarrow> []) @ '')'' @ [CHR 0x0A]"

text \<open>\<open>real_path\<close> stands for the path the file system gives a working directory.\<close>

definition build_profile :: "(string \<Rightarrow> string) \<Rightarrow> sandbox_profile \<Rightarrow> prepared_command \<Rightarrow> string" where
  "build_profile real_path profile c =
     ''(version 1)'' @ [CHR 0x0A] @ ''(deny default)'' @ [CHR 0x0A] @
     concat (map render_rule (rules_for profile (real_path (pc_cwd c))))"

definition SANDBOX_EXEC :: string where
  "SANDBOX_EXEC = ''/usr/bin/sandbox-exec''"

definition seatbelt_wrapped ::
  "(string \<Rightarrow> string) \<Rightarrow> sandbox_profile \<Rightarrow> prepared_command \<Rightarrow> prepared_command" where
  "seatbelt_wrapped real_path p c =
     (let w = add_args ([''-p'', build_profile real_path p c] @ [pc_program c] @ pc_args c)
                (prepared_new SANDBOX_EXEC)
      in w\<lparr>pc_cwd := pc_cwd c, pc_env := pc_env c\<rparr>)"

fun wrap :: "(string \<Rightarrow> string) \<Rightarrow> backend \<Rightarrow> prepared_command \<Rightarrow> prepared_command" where
  "wrap real_path (Bwrap p) c = (if sp_level p = LevelHardened then build_wrapped p c else c)"
| "wrap real_path (Seatbelt p) c =
     (if sp_level p \<noteq> LevelHardened then c else seatbelt_wrapped real_path p c)"
| "wrap real_path _ c = c"

subsection \<open>The choice\<close>

text \<open>The build: its target system and the features that are on.\<close>

datatype target_os = Linux | MacOs | OtherOs

record build =
  target_os :: target_os
  unix_seatbelt :: bool
  unix_landlock :: bool
  unix_seccomp :: bool

definition sandbox_for :: "build \<Rightarrow> sandbox_profile \<Rightarrow> backend" where
  "sandbox_for b profile =
     (if target_os b = Linux \<and> sp_level profile = LevelHardened then Bwrap profile
      else if unix_seatbelt b \<and> target_os b = MacOs \<and> sp_level profile = LevelHardened
      then Seatbelt profile
      else if unix_landlock b \<and> target_os b = Linux then Kernel ''landlock'' profile
      else if unix_seccomp b \<and> target_os b = Linux then Kernel ''seccomp'' profile
      else Noop profile)"

section \<open>The contract of a back end\<close>

text \<open>What the guard relies on: a command the profile does not allow is not prepared, and what is
  started in its place still runs that program with those arguments last, in the same directory and
  with the same environment.\<close>

locale isolation =
  fixes prep :: "prepared_command \<Rightarrow> (sandbox_error, unit) result"
    and wrapped :: "prepared_command \<Rightarrow> prepared_command"
    and profile :: sandbox_profile
  assumes prep_allowed: "prep c = Ok () \<Longrightarrow> allowed profile c"
    and prep_refusal: "prep c = Err (NotInAllowList n) \<Longrightarrow> \<not> allowed profile c \<and> n = basename c"
    and wrapped_argv: "wrapped c = c \<or> suffix (pc_program c # pc_args c) (pc_args (wrapped c))"
    and wrapped_place: "pc_cwd (wrapped c) = pc_cwd c" "pc_env (wrapped c) = pc_env c"
begin

text \<open>\<open>SandboxGuard\<close>: the command that is started, if the back end accepts it.\<close>

lemma guarded:
  assumes "prep c = Ok ()"
  shows "allowed profile c \<and> (wrapped c = c \<or> suffix (pc_program c # pc_args c) (pc_args (wrapped c)))"
  using prep_allowed [OF assms] wrapped_argv by blast

lemma allow_list_holds:
  assumes "prep c = Ok ()" "sp_level profile = LevelAllowList"
  shows "pc_program c \<in> set (sp_allow_list profile) \<or> basename c \<in> set (sp_allow_list profile)"
  using prep_allowed [OF assms(1)] assms(2) by (simp add: allowed_def)

end

lemma build_wrapped_argv:
  "suffix (pc_program c # pc_args c) (pc_args (build_wrapped p c))"
  "pc_cwd (build_wrapped p c) = pc_cwd c" "pc_env (build_wrapped p c) = pc_env c"
  by (simp_all add: build_wrapped_def Let_def add_args_def prepared_new_def suffix_def)

lemma seatbelt_wrapped_argv:
  "suffix (pc_program c # pc_args c) (pc_args (seatbelt_wrapped real_path p c))"
  "pc_cwd (seatbelt_wrapped real_path p c) = pc_cwd c" "pc_env (seatbelt_wrapped real_path p c) = pc_env c"
  by (simp_all add: seatbelt_wrapped_def Let_def add_args_def prepared_new_def suffix_def)

lemmas backend_argv = build_wrapped_argv seatbelt_wrapped_argv

interpretation be: isolation "prepare launcher b" "wrap real_path b" "sandbox_profile_of b"
  for launcher real_path b
  by unfold_locales
    (cases b; auto simp: prepare_defs allowed_def backend_argv split: if_splits sandbox_level.splits)+

section \<open>What the policy allows\<close>

text \<open>The meaning of a policy: the last rule that matches decides, and what no rule matches is denied.\<close>

definition op_matches :: "string \<Rightarrow> string \<Rightarrow> bool" where
  "op_matches pat op =
     (if pat \<noteq> [] \<and> last pat = CHR ''*'' then prefix (butlast pat) op else pat = op)"

definition target_matches :: "sb_target option \<Rightarrow> string \<Rightarrow> bool" where
  "target_matches t path =
     (case t of
        None \<Rightarrow> True
      | Some (Literal l) \<Rightarrow> path_components l = path_components path
      | Some (Subpath s) \<Rightarrow> prefix (path_components s) (path_components path))"

definition decide :: "sb_rule list \<Rightarrow> string \<Rightarrow> string \<Rightarrow> bool" where
  "decide rules op path =
     (case filter (\<lambda>r. op_matches (sb_operation r) op \<and> target_matches (sb_target r) path) (rev rules) of
        [] \<Rightarrow> False
      | r # _ \<Rightarrow> sb_allow r)"

lemma decide_simps:
  "decide [] op path = False"
  "decide (rs @ [r]) op path =
     (if op_matches (sb_operation r) op \<and> target_matches (sb_target r) path then sb_allow r
      else decide rs op path)"
  by (simp_all add: decide_def)

definition device_path :: "string \<Rightarrow> bool" where
  "device_path path \<longleftrightarrow>
     list_ex (\<lambda>l. path_components l = path_components path) DEVICE_WRITE_LITERALS \<or>
     list_ex (\<lambda>s. prefix (path_components s) (path_components path)) DEVICE_WRITE_SUBPATHS"

lemma decide_append:
  "decide (a @ b) op path =
     (if list_ex (\<lambda>r. op_matches (sb_operation r) op \<and> target_matches (sb_target r) path) b
      then decide b op path else decide a op path)"
proof -
  have "list_ex P b \<longleftrightarrow> filter P (rev b) \<noteq> []" for P and b :: "'a list"
    by (auto simp: list_ex_iff filter_empty_conv)
  then show ?thesis by (auto simp: decide_def split: list.splits)
qed

lemma decide_allows:
  "list_all sb_allow rs \<Longrightarrow> decide rs op path \<longleftrightarrow>
   list_ex (\<lambda>r. op_matches (sb_operation r) op \<and> target_matches (sb_target r) path) rs"
proof (induction rs rule: rev_induct)
  case (snoc r rs)
  then show ?case by (auto simp: decide_simps)
qed (simp add: decide_simps)

lemmas rule_defs = rule_allow_def rule_deny_def rule_allow_on_def rule_allow_literal_def

text \<open>The rules on writes after the general denial.\<close>

definition write_rules :: "sandbox_profile \<Rightarrow> string \<Rightarrow> sb_rule list" where
  "write_rules p ws =
     map (rule_allow_literal ''file-write*'') DEVICE_WRITE_LITERALS @
     map (rule_allow_on ''file-write*'') DEVICE_WRITE_SUBPATHS @
     (if \<not> read_only_fs (sp_flags p) then [rule_allow_on ''file-write*'' ws] else [])"

lemma write_rules_allow: "list_all sb_allow (write_rules p ws)"
  by (auto simp: write_rules_def rule_defs list_all_iff)

lemma write_rules_match:
  "list_ex (\<lambda>r. op_matches (sb_operation r) op \<and> target_matches (sb_target r) path) (write_rules p ws) \<longleftrightarrow>
   op_matches ''file-write*'' op \<and>
   (device_path path \<or>
     (\<not> read_only_fs (sp_flags p) \<and> prefix (path_components ws) (path_components path)))"
  by (simp add: write_rules_def rule_defs list_ex_iff device_path_def target_matches_def bex_Un) blast

lemma rules_for_split:
  "rules_for p ws =
     ([rule_allow ''process*'', rule_allow ''file-read-metadata'', rule_allow ''sysctl-read'',
       rule_allow ''mach-lookup'', rule_allow ''ipc-posix-shm'', rule_allow ''file-read*'',
       rule_allow_on ''file-read*'' ws] @ [rule_deny ''file-write*''] @ write_rules p ws) @
     [if no_network (sp_flags p) then rule_deny ''network*'' else rule_allow ''network*'']"
  by (simp add: rules_for_def write_rules_def Let_def)

lemma decide_last:
  "\<not> (op_matches (sb_operation r) op \<and> target_matches (sb_target r) path) \<Longrightarrow>
   decide (rs @ [r]) op path = decide rs op path"
  "op_matches (sb_operation r) op \<Longrightarrow> target_matches (sb_target r) path \<Longrightarrow>
   decide (rs @ [r]) op path = sb_allow r"
  by (auto simp: decide_simps)

lemma policy_network:
  "op_matches ''network*'' op \<Longrightarrow> decide (rules_for p ws) op path \<longleftrightarrow> \<not> no_network (sp_flags p)"
  unfolding rules_for_split by (subst decide_last(2)) (simp_all add: rule_defs target_matches_def)

lemma policy_writes:
  assumes "op_matches ''file-write*'' op" "\<not> op_matches ''network*'' op"
  shows "decide (rules_for p ws) op path \<longleftrightarrow>
    device_path path \<or> (\<not> read_only_fs (sp_flags p) \<and> prefix (path_components ws) (path_components path))"
proof -
  have "\<not> decide (a @ [rule_deny ''file-write*'']) op path" for a
    using assms(1) by (subst decide_last(2)) (simp_all add: rule_defs target_matches_def)
  moreover have "decide (rules_for p ws) op path =
      decide ((a @ [rule_deny ''file-write*'']) @ write_rules p ws) op path" if "a = take 7 (rules_for p ws)" for a
    unfolding that unfolding rules_for_split
    using assms(2) by (subst decide_last(1)) (simp_all add: rule_defs)
  ultimately show ?thesis
    using assms(1) by (simp only: decide_append [of _ "write_rules p ws"] write_rules_match
        decide_allows [OF write_rules_allow] simp_thms if_bool_eq_conj)
qed

lemma policy_reads:
  assumes "op_matches ''file-read*'' op" "\<not> op_matches ''file-write*'' op" "\<not> op_matches ''network*'' op"
  shows "decide (rules_for p ws) op path"
proof -
  have "list_all sb_allow (take 7 (rules_for p ws))"
    "list_ex (\<lambda>r. op_matches (sb_operation r) op \<and> target_matches (sb_target r) path) (take 7 (rules_for p ws))"
    using assms(1) by (simp_all add: rules_for_split rule_defs target_matches_def)
  then have "decide (take 7 (rules_for p ws)) op path" by (simp add: decide_allows)
  moreover have "decide (rules_for p ws) op path = decide (take 7 (rules_for p ws)) op path"
  proof -
    have "decide (rules_for p ws) op path =
        decide ((take 7 (rules_for p ws) @ [rule_deny ''file-write*'']) @ write_rules p ws) op path"
      unfolding rules_for_split using assms(3) by (subst decide_last(1)) (simp_all add: rule_defs)
    also have "\<dots> = decide (take 7 (rules_for p ws) @ [rule_deny ''file-write*'']) op path"
      using assms(2) by (simp only: decide_append [of _ "write_rules p ws"] write_rules_match simp_thms if_False)
    also have "\<dots> = decide (take 7 (rules_for p ws)) op path"
      using assms(2) by (subst decide_last(1)) (simp_all add: rule_defs)
    finally show ?thesis .
  qed
  ultimately show ?thesis by simp
qed

text \<open>The policy of a hardened command confines its writes and its network: a write operation on a path is
  allowed exactly when the path is a standard device or a descriptor, or lies in the workspace and
  the profile keeps the workspace writable; a network operation is allowed exactly when the profile
  does not forbid the network; every read is allowed.
\<close>

theorem seatbelt_policy_confines:
  "(decide (rules_for p ws) (''file-write'' @ x) path \<longleftrightarrow>
     device_path path \<or> (\<not> read_only_fs (sp_flags p) \<and> prefix (path_components ws) (path_components path))) \<and>
   (decide (rules_for p ws) (''network'' @ x) path \<longleftrightarrow> \<not> no_network (sp_flags p)) \<and>
   decide (rules_for p ws) (''file-read'' @ x) path"
  using policy_writes [of "''file-write'' @ x"] policy_network [of "''network'' @ x"]
    policy_reads [of "''file-read'' @ x"]
  by (simp add: op_matches_def)

text \<open>The path is pasted into the policy unquoted, so a directory name with a double quote writes rules
  of its own: here a workspace that opens the whole disk.\<close>

lemma workspace_name_injects_rule:
  "render_rule (rule_allow_on ''file-write*''
     (''/w'' @ DQUOTE @ ''))(allow file-write* (subpath '' @ DQUOTE @ ''/'')) =
   butlast (render_rule (rule_allow_on ''file-write*'' ''/w'')) @ render_rule (rule_allow_on ''file-write*'' ''/'')"
  by code_simp

end
