(* ===== verification/Command_Runner.thy ===== *)
theory Command_Runner
  imports Process_Sandbox
begin

text \<open>
  The commands an agent runs (\<open>crates/goble-core/src/harness/runner.rs\<close>, \<open>commands.rs\<close>,
  \<open>credentials.rs\<close>, and the git tools of \<open>files.rs\<close>): the command line an approval card shows and
  its way back to an argument vector, the allow-list, the sandbox with its fallback, the route to a
  pane's shell, and the expansion of credential placeholders. Processes, the pane's shell and the
  credential store are parameters.
\<close>

section \<open>The command line\<close>

definition SHELL_SPECIAL :: string where
  "SHELL_SPECIAL = [CHR 0x27, CHR 0x22, CHR 0x5C] @ ''$`;&|<>()*?[]{}!~#''"

text \<open>Some character of the string is white space: one starts at one of its bytes.\<close>

fun has_ws :: "string \<Rightarrow> bool" where
  "has_ws [] \<longleftrightarrow> False"
| "has_ws (c # s) \<longleftrightarrow> ws_len (c # s) \<noteq> 0 \<or> has_ws s"

definition needs_quoting :: "string \<Rightarrow> bool" where
  "needs_quoting arg \<longleftrightarrow> arg = [] \<or> has_ws arg \<or> list_ex (\<lambda>c. c \<in> set SHELL_SPECIAL) arg"

text \<open>\<open>str::replace\<close> of a single quote.\<close>

fun escape_quotes :: "string \<Rightarrow> string" where
  "escape_quotes [] = []"
| "escape_quotes (c # s) =
     (if c = CHR 0x27 then [CHR 0x27, CHR 0x5C, CHR 0x27, CHR 0x27] else [c]) @ escape_quotes s"

definition quote_arg :: "string \<Rightarrow> string" where
  "quote_arg arg =
     (if \<not> needs_quoting arg then arg else [CHR 0x27] @ escape_quotes arg @ [CHR 0x27])"

definition shell_line :: "string \<Rightarrow> string list \<Rightarrow> string option" where
  "shell_line command args =
     (let command = trim command in
      if command = [] then None
      else Some (fold (\<lambda>arg line. line @ '' '' @ quote_arg arg) args command))"

text \<open>The scanner: the quote it is in, the word so far, whether a word is open, and the bytes left.
  A multi-byte character is pushed byte by byte, which never meets a special byte.\<close>

function scan_words :: "char option \<Rightarrow> string \<Rightarrow> bool \<Rightarrow> string \<Rightarrow> string list" where
  "scan_words quote current in_word s =
     (case s of
        [] \<Rightarrow> if in_word then [current] else []
      | c # r \<Rightarrow>
          (if quote = Some (CHR 0x27) then
             (if c = CHR 0x27 then scan_words None current in_word r
              else scan_words quote (current @ [c]) in_word r)
           else if quote = Some (CHR 0x22) then
             (if c = CHR 0x22 then scan_words None current in_word r
              else if c = CHR 0x5C then
                (case r of
                   [] \<Rightarrow> scan_words quote current in_word []
                 | next # r \<Rightarrow> scan_words quote (current @ [next]) in_word r)
              else scan_words quote (current @ [c]) in_word r)
           else if c = CHR 0x27 \<or> c = CHR 0x22 then scan_words (Some c) current True r
           else if c = CHR 0x5C then
             (case r of
                [] \<Rightarrow> scan_words None current True []
              | next # r \<Rightarrow> scan_words None (current @ [next]) True r)
           else if ws_len (c # r) \<noteq> 0 then
             (if in_word then current # scan_words None [] False (drop (ws_len (c # r)) (c # r))
              else scan_words None current False (drop (ws_len (c # r)) (c # r)))
           else scan_words None (current @ [c]) True r))"
  by pat_completeness auto
termination
  by (relation "measure (\<lambda>(q, cur, w, s). length s)") auto

declare scan_words.simps [simp del]

definition split_command_line :: "string \<Rightarrow> (string \<times> string list) option" where
  "split_command_line line =
     (case scan_words None [] False line of
        [] \<Rightarrow> None
      | command # words \<Rightarrow> if command = [] then None else Some (command, words))"

section \<open>The way back\<close>

lemma has_ws_iff: "\<not> has_ws u \<longleftrightarrow> (\<forall>v. suffix v u \<longrightarrow> ws_len v = 0)"
  by (induction u) (auto simp: suffix_Cons)

lemma scan_space: "scan_words None w True (CHR '' '' # r) = w # scan_words None [] False r"
proof -
  have "ws_len (CHR '' '' # r) = 1" by (cases r rule: ws_len.cases) (auto simp: ws1_def)
  then show ?thesis by (simp add: scan_words.simps [of None w True])
qed

lemma scan_plain:
  assumes "\<not> has_ws u" "list_all (\<lambda>c. c \<notin> {CHR 0x27, CHR 0x22, CHR 0x5C}) u" "r = [] \<or> hd r = CHR '' ''"
    and "u \<noteq> [] \<or> in_word"
  shows "scan_words None cur in_word (u @ r) = scan_words None (cur @ u) True r"
  using assms(1,2,4)
proof (induction u arbitrary: cur in_word)
  case (Cons c u)
  have "ws_len (c # u) = 0" using Cons(2) by simp
  then have "ws_len (c # u @ r) = 0"
    using assms(3) ws_len_append_space [of "c # u" "tl r"] by (cases r) auto
  with Cons(1) [of True "cur @ [c]"] Cons(2,3) show ?case
    by (subst scan_words.simps) simp
qed simp

lemma scan_quoted:
  "scan_words (Some (CHR 0x27)) cur True (escape_quotes a @ CHR 0x27 # r) = scan_words None (cur @ a) True r"
proof (induction a arbitrary: cur)
  case Nil
  then show ?case by (simp add: scan_words.simps [of "Some (CHR 0x27)"])
next
  case (Cons c a)
  show ?case
  proof (cases "c = CHR 0x27")
    case True
    have "scan_words (Some (CHR 0x27)) cur True (CHR 0x27 # CHR 0x5C # CHR 0x27 # CHR 0x27 # x) =
        scan_words (Some (CHR 0x27)) (cur @ [CHR 0x27]) True x" for x
      by (subst scan_words.simps, simp, subst scan_words.simps, simp, subst scan_words.simps) simp
    then show ?thesis using Cons [of "cur @ [c]"] True by simp
  next
    case False
    then show ?thesis using Cons [of "cur @ [c]"] by (simp add: scan_words.simps [of "Some (CHR 0x27)" cur])
  qed
qed

lemma scan_arg:
  assumes "r = [] \<or> hd r = CHR '' ''"
  shows "scan_words None [] False (quote_arg a @ r) = scan_words None a True r"
proof (cases "needs_quoting a")
  case True
  then show ?thesis
    using scan_quoted [of "[]" a r] by (simp add: quote_arg_def scan_words.simps [of None "[]" False])
next
  case False
  then have "\<not> has_ws a" "a \<noteq> []" "list_all (\<lambda>c. c \<notin> {CHR 0x27, CHR 0x22, CHR 0x5C}) a"
    by (auto simp: needs_quoting_def list_ex_iff list_all_iff SHELL_SPECIAL_def)
  with False show ?thesis using scan_plain [of a r False "[]"] assms by (simp add: quote_arg_def)
qed

definition arg_text :: "string list \<Rightarrow> string" where
  "arg_text args = concat (map (\<lambda>a. CHR '' '' # quote_arg a) args)"

lemma arg_text_start: "arg_text args = [] \<or> hd (arg_text args) = CHR '' ''"
  by (cases args) (simp_all add: arg_text_def)

lemma scan_args: "scan_words None w True (arg_text args) = w # args"
proof (induction args arbitrary: w)
  case Nil
  then show ?case by (simp add: arg_text_def scan_words.simps [of None])
next
  case (Cons a args)
  have "arg_text (a # args) = CHR '' '' # quote_arg a @ arg_text args" by (simp add: arg_text_def)
  then show ?case using Cons [of a] by (simp add: scan_space scan_arg [OF arg_text_start])
qed

lemma shell_line_text:
  "trim command \<noteq> [] \<Longrightarrow> shell_line command args = Some (trim command @ arg_text args)"
proof -
  have "fold (\<lambda>arg line. line @ '' '' @ quote_arg arg) args c = c @ arg_text args" for c
    by (induction args arbitrary: c) (simp_all add: arg_text_def)
  then show "trim command \<noteq> [] \<Longrightarrow> ?thesis" by (simp add: shell_line_def)
qed

lemma no_ws_trim: "\<not> has_ws u \<Longrightarrow> trim u = u"
proof (cases "u = []")
  case False
  assume u: "\<not> has_ws u"
  have free: "ws_len v = 0" if "suffix v u" for v using u that has_ws_iff by blast
  have "ws_len_rev (rev u) = 0"
  proof (cases "rev u" rule: ws_len_rev.cases)
    case (2 c)
    then have "suffix [c] u" by (simp add: suffix_to_prefix)
    from free [OF this] 2 show ?thesis by simp
  next
    case (3 c b)
    then have "suffix [c] u" "suffix [b, c] u" by (simp_all add: suffix_to_prefix)
    from free [OF this(1)] free [OF this(2)] 3 show ?thesis by (auto split: if_splits)
  next
    case (4 c b a r)
    then have "suffix [c] u" "suffix [b, c] u" "suffix [a, b, c] u" by (simp_all add: suffix_to_prefix)
    from free [OF this(1)] free [OF this(2)] free [OF this(3)] 4 show ?thesis by (auto split: if_splits)
  qed simp
  moreover have "ws_len u = 0" using free by simp
  ultimately show ?thesis
    by (simp add: trim_def trim_end_def trim_start.simps [of u] trim_rev.simps [of "rev u"])
qed (simp add: trim_def trim_end_def trim_rev.simps [of "[]"])

text \<open>A program name that reaches the shell as it is: no white space, no quote, no backslash.\<close>

definition plain_program :: "string \<Rightarrow> bool" where
  "plain_program command \<longleftrightarrow>
     command \<noteq> [] \<and> \<not> has_ws command \<and> list_all (\<lambda>c. c \<notin> {CHR 0x27, CHR 0x22, CHR 0x5C}) command"

lemma split_shell_line:
  assumes "plain_program command"
  shows "split_command_line (command @ arg_text args) = Some (command, args)"
proof -
  have c: "\<not> has_ws command" "command \<noteq> []"
    "list_all (\<lambda>c. c \<notin> {CHR 0x27, CHR 0x22, CHR 0x5C}) command"
    using assms by (auto simp: plain_program_def)
  then have "scan_words None [] False (command @ arg_text args) = command # args"
    using scan_plain [of command "arg_text args" False "[]"] arg_text_start by (simp add: scan_args)
  then show ?thesis using c by (simp add: split_command_line_def)
qed

text \<open>C23. The line an approval card shows is the command the model asked for: for a plain program name and any
  arguments whatever (empty ones, white space, quotes, backslashes, shell operators, line feeds), the
  line \<open>shell_line\<close> composes is split by \<open>split_command_line\<close> into exactly that program and those
  arguments.
\<close>

theorem shell_line_roundtrip:
  assumes "plain_program command"
  shows "\<exists>line. shell_line command args = Some line \<and> split_command_line line = Some (command, args)"
proof -
  have "trim command = command" "command \<noteq> []" using assms no_ws_trim by (auto simp: plain_program_def)
  then show ?thesis using shell_line_text [of command args] split_shell_line [OF assms] by simp
qed

theorem shell_line_roundtrip_witness:
  "\<exists>line. shell_line ''git'' [''commit'', ''-m'', ''a b'', [], [CHR 0x27]] = Some line \<and>
    split_command_line line = Some (''git'', [''commit'', ''-m'', ''a b'', [], [CHR 0x27]])"
  by (rule shell_line_roundtrip) (simp add: plain_program_def ws1_def ws2_def ws3_def)

section \<open>Runners\<close>

record process_output =
  po_success :: bool
  po_stdout :: string
  po_stderr :: string

datatype exec_result = TimedOut | SpawnFailed string | Finished process_output

text \<open>What lies outside: a process run to its end under a time limit, the presence of the macOS launcher,
  the file system's name for a directory, the pane's shell, and the credential store.\<close>

record host =
  h_spawn :: "u64 \<Rightarrow> prepared_command \<Rightarrow> exec_result"
  h_launcher :: bool
  h_real_path :: "string \<Rightarrow> string"
  h_pane :: "string \<Rightarrow> (string, string) result"
  h_credential :: "string \<Rightarrow> (string, string option) result"

datatype command_error =
    NotAllowed string
  | EmptyLine
  | EmptyCommand
  | SandboxDenied string
  | SandboxFailed sandbox_error
  | CommandTimedOut
  | FailedToExecute string
  | CommandFailed string
  | PaneError string
  | CredentialError string
  | UnknownCredential string
  | MessageRequired

text \<open>What a call does to the outside, in order.\<close>

datatype effect = Started prepared_command | PaneLine string

record sandboxed_runner =
  sr_allowed :: "string list"
  sr_timeout :: u64
  sr_working_dir :: string
  sr_sandbox :: "backend option"

datatype runner = Sandboxed sandboxed_runner | Routed bool runner

definition default_tools :: "string \<Rightarrow> sandboxed_runner" where
  "default_tools cwd =
     \<lparr>sr_allowed = [''echo'', ''cat'', ''ls'', ''pwd'', ''git'', ''cargo'', ''npm'', ''node'', ''python3'', ''rustc''],
      sr_timeout = 60, sr_working_dir = cwd, sr_sandbox = None\<rparr>"

definition with_sandbox :: "backend option \<Rightarrow> sandboxed_runner \<Rightarrow> sandboxed_runner" where
  "with_sandbox sandbox r = r\<lparr>sr_sandbox := sandbox\<rparr>"

definition harness_sandbox_profile :: sandbox_profile where
  "harness_sandbox_profile =
     (let p = profile_hardened ''harness'' in p\<lparr>sp_flags := (sp_flags p)\<lparr>read_only_fs := False\<rparr>\<rparr>)"

definition harness_sandbox :: "build \<Rightarrow> bool \<Rightarrow> backend option" where
  "harness_sandbox b launcher =
     (let sb = sandbox_for b harness_sandbox_profile in
      case prepare launcher sb (prepared_new ''echo'') of
        Ok _ \<Rightarrow> Some sb
      | Err (UnsupportedLevel _ _) \<Rightarrow> None
      | Err (BackendUnavailable _) \<Rightarrow> None
      | Err _ \<Rightarrow> Some sb)"

text \<open>The command \<open>run_prepared\<close> starts.\<close>

definition run_prepared ::
  "host \<Rightarrow> sandboxed_runner \<Rightarrow> prepared_command \<Rightarrow> (command_error, prepared_command) result" where
  "run_prepared h r c =
     (case sr_sandbox r of
        None \<Rightarrow> Ok c
      | Some sandbox \<Rightarrow>
          (case prepare (h_launcher h) sandbox c of
             Ok _ \<Rightarrow> Ok (wrap (h_real_path h) sandbox c)
           | Err (NotInAllowList denied) \<Rightarrow> Err (SandboxDenied denied)
           | Err (UnsupportedLevel _ _) \<Rightarrow> Ok c
           | Err (BackendUnavailable _) \<Rightarrow> Ok c
           | Err e \<Rightarrow> Err (SandboxFailed e)))"

definition argv_command :: "sandboxed_runner \<Rightarrow> string \<Rightarrow> string list \<Rightarrow> prepared_command" where
  "argv_command r command args = (add_args args (prepared_new command))\<lparr>pc_cwd := sr_working_dir r\<rparr>"

definition run_argv ::
  "host \<Rightarrow> sandboxed_runner \<Rightarrow> string \<Rightarrow> string list \<Rightarrow> effect list \<times> (command_error, string) result" where
  "run_argv h r command args =
     (case run_prepared h r (argv_command r command args) of
        Err e \<Rightarrow> ([], Err e)
      | Ok p \<Rightarrow>
          ([Started p],
           case h_spawn h (sr_timeout r) p of
             TimedOut \<Rightarrow> Err CommandTimedOut
           | SpawnFailed e \<Rightarrow> Err (FailedToExecute e)
           | Finished out \<Rightarrow>
               if \<not> po_success out then Err (CommandFailed (po_stderr out))
               else Ok (trim (po_stdout out @ po_stderr out))))"

definition pane_run :: "host \<Rightarrow> string \<Rightarrow> effect list \<times> (command_error, string) result" where
  "pane_run h line =
     ([PaneLine line], case h_pane h line of Err e \<Rightarrow> Err (PaneError e) | Ok out \<Rightarrow> Ok out)"

definition sandboxed_run ::
  "host \<Rightarrow> sandboxed_runner \<Rightarrow> string \<Rightarrow> string list \<Rightarrow> effect list \<times> (command_error, string) result" where
  "sandboxed_run h r command args =
     (if command \<notin> set (sr_allowed r) then ([], Err (NotAllowed command)) else run_argv h r command args)"

definition sandboxed_run_line ::
  "host \<Rightarrow> sandboxed_runner \<Rightarrow> string \<Rightarrow> effect list \<times> (command_error, string) result" where
  "sandboxed_run_line h r line =
     (case split_command_line line of
        None \<Rightarrow> ([], Err EmptyLine)
      | Some (command, args) \<Rightarrow> run_argv h r command args)"

fun runner_run ::
  "host \<Rightarrow> runner \<Rightarrow> string \<Rightarrow> string list \<Rightarrow> effect list \<times> (command_error, string) result" where
  "runner_run h (Sandboxed r) command args = sandboxed_run h r command args"
| "runner_run h (Routed pane sandbox) command args =
     (if pane then
        (case shell_line command args of
           None \<Rightarrow> ([], Err EmptyCommand)
         | Some line \<Rightarrow> pane_run h line)
      else runner_run h sandbox command args)"

fun runner_run_line ::
  "host \<Rightarrow> runner \<Rightarrow> string \<Rightarrow> effect list \<times> (command_error, string) result" where
  "runner_run_line h (Sandboxed r) line = sandboxed_run_line h r line"
| "runner_run_line h (Routed pane sandbox) line =
     (if pane then pane_run h line else runner_run_line h sandbox line)"

section \<open>Credentials and the command tools\<close>

definition OPEN :: string where
  "OPEN = ''{{credential:''"

lemma find_sub_bound: "find_sub pat s = Some i \<Longrightarrow> i + length pat \<le> length s"
  by (induction s arbitrary: i) (auto split: if_splits dest: prefix_length_le)

function expand_credential_refs :: "host \<Rightarrow> string \<Rightarrow> (command_error, string) result" where
  "expand_credential_refs h rest =
     (case find_sub OPEN rest of
        None \<Rightarrow> Ok rest
      | Some pos \<Rightarrow>
          (let tail = drop (pos + length OPEN) rest in
           case find_sub ''}}'' tail of
             None \<Rightarrow> Ok (take pos rest @ OPEN @ tail)
           | Some stop \<Rightarrow>
               (let name = trim (take stop tail) in
                case h_credential h name of
                  Err e \<Rightarrow> Err (CredentialError e)
                | Ok None \<Rightarrow> Err (UnknownCredential name)
                | Ok (Some v) \<Rightarrow>
                    (case expand_credential_refs h (drop (stop + 2) tail) of
                       Err e \<Rightarrow> Err e
                     | Ok out \<Rightarrow> Ok (take pos rest @ v @ out)))))"
  by pat_completeness auto
termination
  by (relation "measure (\<lambda>(h, s). length s)") (auto simp: OPEN_def dest!: find_sub_bound)

declare expand_credential_refs.simps [simp del]

text \<open>The arguments of a \<open>run_command\<close> call: the program, and the values of the array if there is one.\<close>

record command_call =
  cc_command :: "string option"
  cc_args :: "string option list option"

definition call_command :: "command_call \<Rightarrow> string" where
  "call_command call = (case cc_command call of None \<Rightarrow> [] | Some c \<Rightarrow> c)"

definition call_args :: "command_call \<Rightarrow> string list" where
  "call_args call = (case cc_args call of None \<Rightarrow> [] | Some vs \<Rightarrow> List.map_filter id vs)"

definition command_candidates :: "command_call \<Rightarrow> string list" where
  "command_candidates call =
     (case shell_line (call_command call) (call_args call) of None \<Rightarrow> [] | Some line \<Rightarrow> [line])"

definition run_approved_command ::
  "host \<Rightarrow> runner \<Rightarrow> string \<Rightarrow> effect list \<times> (command_error, string) result" where
  "run_approved_command h r line =
     (case expand_credential_refs h line of
        Err e \<Rightarrow> ([], Err e)
      | Ok line \<Rightarrow> runner_run_line h r line)"

fun expand_all :: "host \<Rightarrow> string list \<Rightarrow> (command_error, string list) result" where
  "expand_all h [] = Ok []"
| "expand_all h (a # as) =
     (case expand_credential_refs h a of
        Err e \<Rightarrow> Err e
      | Ok a \<Rightarrow> (case expand_all h as of Err e \<Rightarrow> Err e | Ok as \<Rightarrow> Ok (a # as)))"

definition run_command ::
  "host \<Rightarrow> runner \<Rightarrow> command_call \<Rightarrow> effect list \<times> (command_error, string) result" where
  "run_command h r call =
     (case expand_credential_refs h (call_command call) of
        Err e \<Rightarrow> ([], Err e)
      | Ok command \<Rightarrow>
          (case expand_all h (call_args call) of
             Err e \<Rightarrow> ([], Err e)
           | Ok args \<Rightarrow> runner_run h r command args))"

subsection \<open>The git tools\<close>

definition git_status :: "host \<Rightarrow> runner \<Rightarrow> effect list \<times> (command_error, string) result" where
  "git_status h r = runner_run h r ''git'' [''status'', ''--short'']"

definition git_diff :: "host \<Rightarrow> runner \<Rightarrow> string option \<Rightarrow> effect list \<times> (command_error, string) result" where
  "git_diff h r path =
     (let path = (case path of None \<Rightarrow> [] | Some p \<Rightarrow> p) in
      runner_run h r ''git'' ([''diff''] @ (if path \<noteq> [] then [path] else [])))"

definition git_commit ::
  "host \<Rightarrow> runner \<Rightarrow> string option \<Rightarrow> string option list option \<Rightarrow>
   effect list \<times> (command_error, string) result" where
  "git_commit h r message files =
     (case message of
        None \<Rightarrow> ([], Err MessageRequired)
      | Some message \<Rightarrow>
          (let files = (case files of None \<Rightarrow> [] | Some vs \<Rightarrow> List.map_filter id vs);
               add_args = (if files \<noteq> [] then ''add'' # files else [''add'', ''-A'']) in
           case runner_run h r ''git'' add_args of
             (effs, Err e) \<Rightarrow> (effs, Err e)
           | (effs, Ok _) \<Rightarrow>
               (case runner_run h r ''git'' [''commit'', ''-m'', message] of
                  (effs', res) \<Rightarrow> (effs @ effs', res))))"

section \<open>What is started\<close>

text \<open>The runner under the routes.\<close>

fun route_end :: "runner \<Rightarrow> sandboxed_runner option" where
  "route_end (Sandboxed r) = Some r"
| "route_end (Routed pane r) = (if pane then None else route_end r)"

lemma run_prepared_argv:
  assumes "run_prepared h r c = Ok p"
  shows "(p = c \<or> suffix (pc_program c # pc_args c) (pc_args p)) \<and> pc_cwd p = pc_cwd c \<and> pc_env p = pc_env c"
proof (cases "sr_sandbox r")
  case None
  with assms show ?thesis by (simp add: run_prepared_def)
next
  case (Some sb)
  then have "p = c \<or> p = wrap (h_real_path h) sb c"
    using assms by (auto simp: run_prepared_def split: sum.splits sandbox_error.splits)
  then show ?thesis using be.wrapped_argv be.wrapped_place by metis
qed

lemma run_argv_started:
  assumes "run_argv h r command args = (effs, res)"
  shows "effs = [] \<and> (\<exists>e. res = Err e) \<or>
    (\<exists>p. effs = [Started p] \<and> run_prepared h r (argv_command r command args) = Ok p)"
  using assms by (auto simp: run_argv_def split: sum.splits)

lemma runner_run_end:
  "route_end r = Some s \<Longrightarrow> runner_run h r command args = runner_run h (Sandboxed s) command args"
  by (induction r) (auto split: if_splits)

lemma runner_run_line_end:
  "route_end r = Some s \<Longrightarrow> runner_run_line h r line = runner_run_line h (Sandboxed s) line"
  by (induction r) (auto split: if_splits)

text \<open>C22. What an agent runs without asking is on the allow-list and confined: on a Linux build with the harness's sandbox
  and a working directory that is set (its text is not empty; without one nothing is bound),
  through any route that ends in the sandbox, a command that is not on the list starts nothing, and
  one that is starts at most one process, which is \<open>bwrap\<close> with the network unshared, only the working directory bound,
  and exactly the requested program and arguments behind \<open>--\<close>.
\<close>

theorem unattended_commands_confined:
  assumes "route_end r = Some s" and "sr_sandbox s = harness_sandbox b launcher" and "target_os b = Linux"
    and "sr_working_dir s \<noteq> []" and "runner_run h r command args = (effs, res)" and "x \<in> set effs"
  shows "command \<in> set (sr_allowed s) \<and> effs = [x] \<and>
    x = Started \<lparr>pc_program = ''bwrap'',
      pc_args = [''--unshare-net'', ''--bind'', sr_working_dir s, sr_working_dir s,
        ''--die-with-parent'', ''--unshare-pid'', ''--'', command] @ args,
      pc_cwd = sr_working_dir s, pc_env = []\<rparr>"
proof -
  have level: "sp_level harness_sandbox_profile = LevelHardened"
    by (simp add: harness_sandbox_profile_def profile_hardened_def)
  have sb: "sr_sandbox s = Some (Bwrap harness_sandbox_profile)"
    using assms(2,3) level
    by (simp add: harness_sandbox_def sandbox_for_def prepare_defs allowed_def)
  have run: "runner_run h (Sandboxed s) command args = (effs, res)"
    using assms(1,5) runner_run_end by metis
  with assms(6) have gate: "command \<in> set (sr_allowed s)" and argv: "run_argv h s command args = (effs, res)"
    by (auto simp: sandboxed_run_def split: if_splits)
  from run_argv_started [OF argv] assms(6) obtain p where
    p: "effs = [Started p]" "run_prepared h s (argv_command s command args) = Ok p" by auto
  have "p = build_wrapped harness_sandbox_profile (argv_command s command args)"
    using p(2) sb level by (simp add: run_prepared_def prepare_defs allowed_def)
  then have "p = \<lparr>pc_program = ''bwrap'',
      pc_args = [''--unshare-net'', ''--bind'', sr_working_dir s, sr_working_dir s,
        ''--die-with-parent'', ''--unshare-pid'', ''--'', command] @ args,
      pc_cwd = sr_working_dir s, pc_env = []\<rparr>"
    using assms(4) by (simp add: build_wrapped_def Let_def add_args_def prepared_new_def argv_command_def
        harness_sandbox_profile_def profile_hardened_def flags_hardened_def)
  with gate p(1) assms(6) show ?thesis by auto
qed

definition demo_host :: host where
  "demo_host = \<lparr>h_spawn = (\<lambda>_ _. Finished \<lparr>po_success = True, po_stdout = ''ok'', po_stderr = []\<rparr>),
     h_launcher = False, h_real_path = id, h_pane = (\<lambda>_. Ok []),
     h_credential = (\<lambda>n. Ok (if n = ''k'' then Some (''a'' @ [CHR 0x27] @ '' b'') else None))\<rparr>"

definition demo_linux :: build where
  "demo_linux = \<lparr>target_os = Linux, unix_seatbelt = False, unix_landlock = False, unix_seccomp = False\<rparr>"

theorem unattended_commands_confined_witness:
  "\<exists>x. fst (runner_run demo_host
      (Routed False (Sandboxed (with_sandbox (harness_sandbox demo_linux False) (default_tools ''/w''))))
      ''ls'' [''-l'']) = [x] \<and>
    x = Started \<lparr>pc_program = ''bwrap'',
      pc_args = [''--unshare-net'', ''--bind'', ''/w'', ''/w'', ''--die-with-parent'', ''--unshare-pid'',
        ''--'', ''ls''] @ [''-l''], pc_cwd = ''/w'', pc_env = []\<rparr>"
proof -
  let ?s = "with_sandbox (harness_sandbox demo_linux False) (default_tools ''/w'')"
  let ?r = "Routed False (Sandboxed ?s)"
  obtain effs res where run: "runner_run demo_host ?r ''ls'' [''-l''] = (effs, res)" by fastforce
  have "effs \<noteq> []"
    using run by (auto simp: sandboxed_run_def with_sandbox_def default_tools_def run_argv_def run_prepared_def harness_sandbox_def
        sandbox_for_def prepare_defs allowed_def harness_sandbox_profile_def profile_hardened_def
        demo_linux_def demo_host_def split: if_splits)
  then obtain x where x: "x \<in> set effs" by (cases effs) auto
  from unattended_commands_confined [of ?r ?s demo_linux False demo_host "''ls''" "[''-l'']" effs res x] run x
  show ?thesis by (simp add: with_sandbox_def default_tools_def demo_linux_def)
qed

lemma expand_none: "find_sub OPEN s = None \<Longrightarrow> expand_credential_refs h s = Ok s"
  by (simp add: expand_credential_refs.simps [of h s])

text \<open>An approval runs what was shown: a \<open>run_command\<close> call with a plain program name proposes exactly one line;
  where that line has no credential placeholder, approving it hands the pane's shell that very line, and
  without a pane it starts the sandbox on the program and arguments of the call, as if the argument vector had been
  given directly. The allow-list is not looked at; the comment on \<open>run_line\<close> says so, while those on
  \<open>SandboxedCommandRunner\<close>, on the provided method of the trait and on \<open>split_command_line\<close> say that it is always enforced.
\<close>

lemma approved_command_runs_as_shown:
  assumes "plain_program (call_command call)"
  shows "\<exists>line. command_candidates call = [line] \<and>
    (find_sub OPEN line = None \<longrightarrow>
      run_approved_command h (Routed True r) line = pane_run h line \<and>
      (\<forall>s. route_end r = Some s \<longrightarrow>
        run_approved_command h (Routed False r) line = run_argv h s (call_command call) (call_args call)))"
proof -
  have c: "\<not> has_ws (call_command call)" "trim (call_command call) \<noteq> []"
    using assms no_ws_trim by (auto simp: plain_program_def)
  define line where "line = trim (call_command call) @ arg_text (call_args call)"
  have "split_command_line line = Some (call_command call, call_args call)"
    using split_shell_line [OF assms] no_ws_trim [OF c(1)] by (simp add: line_def)
  moreover have "command_candidates call = [line]"
    using shell_line_text [OF c(2)] by (simp add: command_candidates_def line_def)
  ultimately show ?thesis
    by (intro exI [of _ line]) (auto simp: run_approved_command_def expand_none runner_run_line_end sandboxed_run_line_def)
qed

section \<open>Credential placeholders\<close>

text \<open>A text with placeholders: pieces of text, each followed by a placeholder, and a last piece.\<close>

definition placeholders :: "(string \<times> string) list \<Rightarrow> string \<Rightarrow> string" where
  "placeholders parts end_text =
     concat (map (\<lambda>(t, n). t @ OPEN @ n @ ''}}'') parts) @ end_text"

fun substituted :: "host \<Rightarrow> (string \<times> string) list \<Rightarrow> string \<Rightarrow> (command_error, string) result" where
  "substituted h [] end_text = Ok end_text"
| "substituted h ((t, n) # parts) end_text =
     (case h_credential h (trim n) of
        Err e \<Rightarrow> Err (CredentialError e)
      | Ok None \<Rightarrow> Err (UnknownCredential (trim n))
      | Ok (Some v) \<Rightarrow>
          (case substituted h parts end_text of Err e \<Rightarrow> Err e | Ok out \<Rightarrow> Ok (t @ v @ out)))"

lemma find_sub_first:
  "p \<notin> set w \<Longrightarrow> find_sub (p # ps) (w @ (p # ps) @ r) = Some (length w)"
  by (rule find_sub_skip) auto

lemma find_sub_absent: "p \<notin> set w \<Longrightarrow> find_sub (p # ps) w = None"
  by (induction w) auto

text \<open>C36. Placeholders are replaced once, in order, and by name: in a text whose pieces hold no opening brace and
  whose names hold no closing one, every \<open>{{credential:name}}\<close> becomes the stored value of the trimmed name, the
  text around it is untouched, a value is never expanded again whatever it holds, and the first name that is unknown (or
  that the store fails on) refuses the whole text.
\<close>

theorem credentials_substituted:
  assumes "list_all (\<lambda>(t, n). CHR ''{'' \<notin> set t \<and> CHR ''}'' \<notin> set n) parts" and "CHR ''{'' \<notin> set end_text"
  shows "expand_credential_refs h (placeholders parts end_text) = substituted h parts end_text"
  using assms(1)
proof (induction parts)
  case Nil
  then show ?case
    using find_sub_absent [OF assms(2), of "''{credential:''"]
    by (simp add: placeholders_def expand_none OPEN_def)
next
  case (Cons x parts)
  obtain t n where x: "x = (t, n)" by fastforce
  let ?rest = "placeholders parts end_text"
  have shape: "placeholders (x # parts) end_text = t @ OPEN @ n @ ''}}'' @ ?rest"
    by (simp add: placeholders_def x)
  have o: "find_sub OPEN (t @ OPEN @ n @ ''}}'' @ ?rest) = Some (length t)"
    using find_sub_first [of "CHR ''{''" t "''{credential:''"] Cons(2) by (simp add: OPEN_def x)
  have c: "find_sub ''}}'' (n @ ''}}'' @ ?rest) = Some (length n)"
    using find_sub_first [of "CHR ''}''" n "''}''"] Cons(2) by (simp add: x)
  show ?case
    unfolding shape using Cons o c
    by (subst expand_credential_refs.simps) (simp add: x Let_def split: sum.splits option.splits)
qed

theorem credentials_substituted_witness:
  "expand_credential_refs demo_host (placeholders [(''token='', '' k '')] ''!'') =
     Ok (''token=a'' @ [CHR 0x27] @ '' b!'')"
proof -
  have "trim '' k '' = ''k''" by code_simp
  then show ?thesis
    using credentials_substituted [of "[(''token='', '' k '')]" "''!''" demo_host] by (simp add: demo_host_def)
qed

text \<open>An approved line is expanded after it was quoted: a value with a single quote in it ends the quotes
  of its argument, so the approved call runs with other arguments than the same call unattended, and the text
  after the quote is words of its own.\<close>

lemma credential_breaks_quoting:
  "shell_line ''ls'' [''{{credential:k}}''] = Some (''ls '' @ [CHR 0x27] @ ''{{credential:k}}'' @ [CHR 0x27]) \<and>
   run_command demo_host (Sandboxed (default_tools ''/w''))
     \<lparr>cc_command = Some ''ls'', cc_args = Some [Some ''{{credential:k}}'']\<rparr> =
     run_argv demo_host (default_tools ''/w'') ''ls'' [''a'' @ [CHR 0x27] @ '' b''] \<and>
   run_approved_command demo_host (Sandboxed (default_tools ''/w''))
     (''ls '' @ [CHR 0x27] @ ''{{credential:k}}'' @ [CHR 0x27]) =
     run_argv demo_host (default_tools ''/w'') ''ls'' [''a'', ''b'']"
proof (intro conjI)
  show "shell_line ''ls'' [''{{credential:k}}''] = Some (''ls '' @ [CHR 0x27] @ ''{{credential:k}}'' @ [CHR 0x27])"
    by code_simp
  have k: "h_credential demo_host ''k'' = Ok (Some (''a'' @ [CHR 0x27] @ '' b''))" by (simp add: demo_host_def)
  have t: "trim ''k'' = ''k''" by code_simp
  have e: "expand_credential_refs demo_host ''{{credential:k}}'' = Ok (''a'' @ [CHR 0x27] @ '' b'')"
    by (subst expand_credential_refs.simps, simp add: OPEN_def k t,
        subst expand_credential_refs.simps) (simp add: OPEN_def)
  have n: "expand_credential_refs demo_host ''ls'' = Ok ''ls''"
    by (rule expand_none) (simp add: OPEN_def)
  show "run_command demo_host (Sandboxed (default_tools ''/w''))
     \<lparr>cc_command = Some ''ls'', cc_args = Some [Some ''{{credential:k}}'']\<rparr> =
     run_argv demo_host (default_tools ''/w'') ''ls'' [''a'' @ [CHR 0x27] @ '' b'']"
    by (simp add: run_command_def sandboxed_run_def call_command_def call_args_def List.map_filter_simps e n default_tools_def)
  have l: "expand_credential_refs demo_host (''ls '' @ [CHR 0x27] @ ''{{credential:k}}'' @ [CHR 0x27]) =
      Ok (''ls '' @ [CHR 0x27] @ ''a'' @ [CHR 0x27] @ '' b'' @ [CHR 0x27])"
    by (subst expand_credential_refs.simps, simp add: OPEN_def k t,
        subst expand_credential_refs.simps) (simp add: OPEN_def)
  have "split_command_line (''ls '' @ [CHR 0x27] @ ''a'' @ [CHR 0x27] @ '' b'' @ [CHR 0x27]) =
      Some (''ls'', [''a'', ''b''])" by code_simp
  with l show "run_approved_command demo_host (Sandboxed (default_tools ''/w''))
     (''ls '' @ [CHR 0x27] @ ''{{credential:k}}'' @ [CHR 0x27]) =
     run_argv demo_host (default_tools ''/w'') ''ls'' [''a'', ''b'']"
    by (simp add: run_approved_command_def sandboxed_run_line_def)
qed

end
