(* ===== verification/Turn_Trace.thy ===== *)
theory Turn_Trace
  imports Agent_History Command_Runner
begin

text \<open>
  The frame of a turn of the main agent: the world it runs in, the requests it sends
  (\<open>CompletionRequest\<close> in \<open>crates/goble-core/src/llm/types.rs\<close>), the events it yields (\<open>HarnessEvent\<close> in
  \<open>harness/types.rs\<close>), and the pieces its generator is composed of, each leaving a trace. The rules for
  triples over these pieces carry the properties of a turn.
\<close>

section \<open>The world of a turn\<close>

record turn_world =
  tw_store :: chat_store
  tw_cancel :: bool
  tw_now :: timestamp

record completion_request =
  rq_provider :: string
  rq_model :: string
  rq_messages :: "message list"
  rq_tools :: "string list"

definition request_new :: "string \<Rightarrow> string \<Rightarrow> completion_request" where
  "request_new provider model =
     \<lparr>rq_provider = provider, rq_model = model, rq_messages = [], rq_tools = []\<rparr>"

definition with_system :: "string \<Rightarrow> completion_request \<Rightarrow> completion_request" where
  "with_system content rq = rq\<lparr>rq_messages := rq_messages rq @ [plain_message RoleSystem content]\<rparr>"

definition with_messages :: "message list \<Rightarrow> completion_request \<Rightarrow> completion_request" where
  "with_messages messages rq = rq\<lparr>rq_messages := messages\<rparr>"

definition with_tools :: "string list \<Rightarrow> completion_request \<Rightarrow> completion_request" where
  "with_tools tools rq = rq\<lparr>rq_tools := tools\<rparr>"

datatype stream_event =
    AssistantDelta string
  | ReasoningDelta string
  | ToolCalls "llm_tool_call list"
  | Usage usage_buckets
  | StreamDone
  | StreamError string

text \<open>What arrives on a reply's stream: an event, after a wait in which the world may change.\<close>

type_synonym arrival = "(turn_world \<Rightarrow> turn_world) \<times> stream_event"

record turn_env =
  te_stream :: "turn_world \<Rightarrow> completion_request \<Rightarrow> turn_world \<times> (string, arrival list) result"
  te_tool :: "turn_world \<Rightarrow> llm_tool_call \<Rightarrow> turn_world \<times> (string, string \<times> string option) result"
  te_pause :: "turn_world \<Rightarrow> turn_world"
  te_fault :: "turn_world \<Rightarrow> string option"
  te_uuid :: "turn_world \<Rightarrow> string"
  te_mcp_tools :: "turn_world \<Rightarrow> string list option"
  te_str :: "string \<Rightarrow> string \<Rightarrow> string option"
  te_strs :: "string \<Rightarrow> string \<Rightarrow> string option list option"
  te_host :: "turn_world \<Rightarrow> host"
  te_runner :: runner

record turn_cfg =
  tc_chat :: string
  tc_provider :: string
  tc_model :: string
  tc_reasoning :: bool
  tc_auto_approve :: bool
  tc_workspace :: string

text \<open>\<open>HarnessEvent\<close>; the events of sub-agents are the registry's \<open>lifecycle_event\<close>.\<close>

datatype turn_event =
    EvAssistantDelta string
  | EvToolCallStarted llm_tool_call
  | EvToolCallFinished string string
  | EvToolCallError string string
  | EvThinkingModeChanged string
  | EvReasoningStarted nat string
  | EvReasoningDelta string
  | EvReasoningDone nat string string string
  | EvAskUser string "string list"
  | EvCommandProposed string "string list" string
  | EvSubAgent lifecycle_event
  | EvMissionUpdated string string
  | EvTokenUsage string usage_buckets
  | EvDone
  | EvError string

text \<open>A turn leaves a trace: the events it yields, the requests it sends, the tools it runs, and what
  an approved command did outside.\<close>

datatype act = Out turn_event | Sent completion_request | Used llm_tool_call | Did effect

text \<open>A piece of a turn: its trace, in which each act stands with the world it happened in, the world after the piece,
  and its value, or nothing when the turn returned in it. The stream of a turn may be dropped at any of its
  acts; the world is then the one that stands there.\<close>

type_synonym trace = "(act \<times> turn_world) list"
type_synonym 'a turn = "turn_world \<Rightarrow> trace \<times> turn_world \<times> 'a option"

abbreviation acts_of :: "trace \<Rightarrow> act list" where
  "acts_of \<equiv> map fst"

definition ret :: "'a \<Rightarrow> 'a turn" where
  "ret a w = ([], w, Some a)"

definition seq :: "'a turn \<Rightarrow> ('a \<Rightarrow> 'b turn) \<Rightarrow> 'b turn" where
  "seq m f w =
     (case m w of
        (acts, w, None) \<Rightarrow> (acts, w, None)
      | (acts, w, Some a) \<Rightarrow> (case f a w of (acts', w, r) \<Rightarrow> (acts @ acts', w, r)))"

definition act :: "act \<Rightarrow> unit turn" where
  "act a w = ([(a, w)], w, Some ())"

abbreviation out :: "turn_event \<Rightarrow> unit turn" where
  "out ev \<equiv> act (Out ev)"

definition stop :: "turn_event \<Rightarrow> 'a turn" where
  "stop ev w = ([(Out ev, w)], w, None)"

definition look :: "(turn_world \<Rightarrow> 'a) \<Rightarrow> 'a turn" where
  "look f w = ([], w, Some (f w))"

definition pass :: "(turn_world \<Rightarrow> turn_world) \<Rightarrow> unit turn" where
  "pass f w = ([], f w, Some ())"

definition call_out :: "(turn_world \<Rightarrow> turn_world \<times> 'a) \<Rightarrow> 'a turn" where
  "call_out f w = (case f w of (w, a) \<Rightarrow> ([], w, Some a))"

text \<open>A statement and a query of the store; a failure ends the turn with its message.\<close>

definition store_fault :: "turn_env \<Rightarrow> turn_world \<Rightarrow> fault" where
  "store_fault env w s = te_fault env (w\<lparr>tw_store := s\<rparr>)"

definition perform :: "turn_env \<Rightarrow> (fault \<Rightarrow> statement) \<Rightarrow> unit turn" where
  "perform env stmt w =
     (case stmt (store_fault env w) (tw_store w) of
        Err (e, s) \<Rightarrow> (let w = w\<lparr>tw_store := s\<rparr> in ([(Out (EvError e), w)], w, None))
      | Ok s \<Rightarrow> ([], w\<lparr>tw_store := s\<rparr>, Some ()))"

definition ask_store :: "turn_env \<Rightarrow> (fault \<Rightarrow> chat_store \<Rightarrow> (string, 'a) result) \<Rightarrow> 'a turn" where
  "ask_store env q w =
     (case q (store_fault env w) (tw_store w) of
        Err e \<Rightarrow> ([(Out (EvError e), w)], w, None)
      | Ok a \<Rightarrow> ([], w, Some a))"

section \<open>Triples\<close>

text \<open>From a world with \<open>P\<close>, every act of the piece and its world satisfy \<open>A\<close>; it leaves \<open>Q\<close> with its value, or \<open>R\<close> when the
  turn returned in it.\<close>

definition triple ::
  "(turn_world \<Rightarrow> bool) \<Rightarrow> 'a turn \<Rightarrow> (act \<times> turn_world \<Rightarrow> bool) \<Rightarrow> ('a \<Rightarrow> turn_world \<Rightarrow> bool) \<Rightarrow> (turn_world \<Rightarrow> bool) \<Rightarrow> bool" where
  "triple P m A Q R \<longleftrightarrow>
     (\<forall>w. P w \<longrightarrow> (case m w of (acts, w', r) \<Rightarrow>
        list_all A acts \<and> (case r of None \<Rightarrow> R w' | Some a \<Rightarrow> Q a w')))"

named_theorems triple_rules

lemma triple_conseq:
  "triple P' m A Q' R' \<Longrightarrow> (\<And>w. P w \<Longrightarrow> P' w) \<Longrightarrow> (\<And>a w. Q' a w \<Longrightarrow> Q a w) \<Longrightarrow> (\<And>w. R' w \<Longrightarrow> R w) \<Longrightarrow>
   triple P m A Q R"
  unfolding triple_def by (fastforce split: prod.splits option.splits)

lemma triple_pre: "triple P' m A Q R \<Longrightarrow> (\<And>w. P w \<Longrightarrow> P' w) \<Longrightarrow> triple P m A Q R"
  by (rule triple_conseq)

lemma triple_post: "triple P m A Q' R \<Longrightarrow> (\<And>a w. Q' a w \<Longrightarrow> Q a w) \<Longrightarrow> triple P m A Q R"
  by (rule triple_conseq)

lemma tripleD:
  "triple P m A Q R \<Longrightarrow> P w \<Longrightarrow> m w = (acts, w', r) \<Longrightarrow>
   list_all A acts \<and> (case r of None \<Rightarrow> R w' | Some a \<Rightarrow> Q a w')"
  unfolding triple_def by fastforce

lemma triple_ex:
  assumes "\<And>x. triple (P x) m A Q R"
  shows "triple (\<lambda>w. \<exists>x. P x w) m A Q R"
  unfolding triple_def
proof (intro allI impI, elim exE)
  fix w x assume "P x w"
  with assms [of x] show "case m w of (acts, w', r) \<Rightarrow>
      list_all A acts \<and> (case r of None \<Rightarrow> R w' | Some a \<Rightarrow> Q a w')" by (simp add: triple_def)
qed

lemma triple_fact:
  assumes "F \<Longrightarrow> triple P m A Q R" "\<And>w. P w \<Longrightarrow> F"
  shows "triple P m A Q R"
proof (cases F)
  case False
  with assms(2) have "\<not> P w" for w by blast
  then show ?thesis by (simp add: triple_def)
qed (rule assms(1))

lemma triple_ret [triple_rules]: "(\<And>w. P w \<Longrightarrow> Q a w) \<Longrightarrow> triple P (ret a) A Q R"
  by (simp add: triple_def ret_def)

lemma triple_seq [triple_rules]:
  assumes "triple P m A Q' R" "\<And>a. triple (Q' a) (f a) A Q R"
  shows "triple P (seq m f) A Q R"
  unfolding triple_def
proof (intro allI impI)
  fix w assume "P w"
  with assms show "case seq m f w of (acts, w', r) \<Rightarrow>
      list_all A acts \<and> (case r of None \<Rightarrow> R w' | Some a \<Rightarrow> Q a w')"
    unfolding triple_def seq_def by (fastforce split: prod.splits option.splits)
qed

lemma triple_act [triple_rules]: "(\<And>w. P w \<Longrightarrow> A (a, w)) \<Longrightarrow> (\<And>w. P w \<Longrightarrow> Q () w) \<Longrightarrow> triple P (act a) A Q R"
  by (simp add: triple_def act_def)

lemma triple_stop [triple_rules]: "(\<And>w. P w \<Longrightarrow> A (Out ev, w)) \<Longrightarrow> (\<And>w. P w \<Longrightarrow> R w) \<Longrightarrow> triple P (stop ev) A Q R"
  by (simp add: triple_def stop_def)

lemma triple_look [triple_rules]: "(\<And>w. P w \<Longrightarrow> Q (f w) w) \<Longrightarrow> triple P (look f) A Q R"
  by (simp add: triple_def look_def)

lemma triple_pass [triple_rules]: "(\<And>w. P w \<Longrightarrow> Q () (f w)) \<Longrightarrow> triple P (pass f) A Q R"
  by (simp add: triple_def pass_def)

lemma triple_call_out [triple_rules]:
  "(\<And>w w' a. P w \<Longrightarrow> f w = (w', a) \<Longrightarrow> Q a w') \<Longrightarrow> triple P (call_out f) A Q R"
  by (auto simp: triple_def call_out_def split: prod.splits)

lemma triple_perform:
  assumes "\<And>w e. R w \<Longrightarrow> A (Out (EvError e), w)"
    "\<And>w e s. P w \<Longrightarrow> stmt (store_fault env w) (tw_store w) = Err (e, s) \<Longrightarrow> R (w\<lparr>tw_store := s\<rparr>)"
    "\<And>w s. P w \<Longrightarrow> stmt (store_fault env w) (tw_store w) = Ok s \<Longrightarrow> Q () (w\<lparr>tw_store := s\<rparr>)"
  shows "triple P (perform env stmt) A Q R"
  using assms unfolding triple_def perform_def Let_def by (auto split: sum.splits)

lemma triple_ask:
  assumes "\<And>w e. R w \<Longrightarrow> A (Out (EvError e), w)" "\<And>w. P w \<Longrightarrow> R w"
    "\<And>w a. P w \<Longrightarrow> q (store_fault env w) (tw_store w) = Ok a \<Longrightarrow> Q a w"
  shows "triple P (ask_store env q) A Q R"
  using assms unfolding triple_def ask_store_def by (auto split: sum.splits)

lemma triple_if [triple_rules]:
  "(b \<Longrightarrow> triple P m A Q R) \<Longrightarrow> (\<not> b \<Longrightarrow> triple P m' A Q R) \<Longrightarrow> triple P (if b then m else m') A Q R"
  by simp

subsection \<open>What a piece may do, how often it asks, how it returns\<close>

definition emits :: "(act \<Rightarrow> bool) \<Rightarrow> 'a turn \<Rightarrow> bool" where
  "emits A m \<longleftrightarrow> (\<forall>w. list_all A (acts_of (fst (m w))))"

fun is_sent :: "act \<Rightarrow> bool" where
  "is_sent (Sent _) \<longleftrightarrow> True"
| "is_sent _ \<longleftrightarrow> False"

definition sends :: "nat \<Rightarrow> 'a turn \<Rightarrow> bool" where
  "sends n m \<longleftrightarrow> (\<forall>w. length (filter is_sent (acts_of (fst (m w)))) \<le> n)"

text \<open>The events after which a stream has nothing more to say.\<close>

fun settles :: "act \<Rightarrow> bool" where
  "settles (Out EvDone) \<longleftrightarrow> True"
| "settles (Out (EvError _)) \<longleftrightarrow> True"
| "settles (Out (EvAskUser _ _)) \<longleftrightarrow> True"
| "settles (Out (EvCommandProposed _ _ _)) \<longleftrightarrow> True"
| "settles _ \<longleftrightarrow> False"

fun suspends :: "act \<Rightarrow> bool" where
  "suspends (Out (EvAskUser _ _)) \<longleftrightarrow> True"
| "suspends (Out (EvCommandProposed _ _ _)) \<longleftrightarrow> True"
| "suspends _ \<longleftrightarrow> False"

definition ends :: "bool \<Rightarrow> 'a turn \<Rightarrow> bool" where
  "ends always m \<longleftrightarrow>
     (\<forall>w. case m w of (tr, _, r) \<Rightarrow>
        (always \<or> r = None \<longrightarrow> tr \<noteq> [] \<and> settles (last (acts_of tr))) \<and>
        list_all (\<lambda>a. \<not> suspends a) (if r = None then butlast (acts_of tr) else acts_of tr))"

lemma seq_trace: "fst (seq m f w) = fst (m w) @ (case m w of (_, w', None) \<Rightarrow> [] | (_, w', Some a) \<Rightarrow> fst (f a w'))"
  by (auto simp: seq_def split: prod.splits option.splits)

lemma emits_seq: "emits A m \<Longrightarrow> (\<And>a. emits A (f a)) \<Longrightarrow> emits A (seq m f)"
  by (auto simp: emits_def seq_trace split: prod.splits option.splits)

lemma sends_seq:
  assumes "sends n m" "\<And>a. sends k (f a)"
  shows "sends (n + k) (seq m f)"
  unfolding sends_def
proof
  fix w
  have "length (filter is_sent (acts_of (case m w of (_, w', None) \<Rightarrow> [] | (_, w', Some a) \<Rightarrow> fst (f a w')))) \<le> k"
    using assms(2) by (auto simp: sends_def split: prod.splits option.splits)
  moreover have "length (filter is_sent (acts_of (fst (m w)))) \<le> n" using assms(1) by (simp add: sends_def)
  ultimately show "length (filter is_sent (acts_of (fst (seq m f w)))) \<le> n + k" by (simp add: seq_trace)
qed

lemma sends_seq0: "sends 0 m \<Longrightarrow> (\<And>a. sends n (f a)) \<Longrightarrow> sends n (seq m f)"
  using sends_seq [of 0 m n f] by simp

lemma sends_mono: "sends n m \<Longrightarrow> n \<le> k \<Longrightarrow> sends k m"
  by (auto simp: sends_def intro: le_trans)

lemma ends_seq:
  assumes "ends False m" "\<And>a. ends b (f a)"
  shows "ends b (seq m f)"
proof -
  have m: "(r = None \<longrightarrow> tr \<noteq> [] \<and> settles (last (acts_of tr))) \<and>
      list_all (\<lambda>a. \<not> suspends a) (if r = None then butlast (acts_of tr) else acts_of tr)" if "m w = (tr, w', r)" for w tr w' r
    using assms(1) that by (auto simp: ends_def dest!: spec [of _ w])
  have f: "(b \<or> r = None \<longrightarrow> tr \<noteq> [] \<and> settles (last (acts_of tr))) \<and>
      list_all (\<lambda>a. \<not> suspends a) (if r = None then butlast (acts_of tr) else acts_of tr)" if "f a w = (tr, w', r)" for a w tr w' r
    using assms(2) [of a] that by (auto simp: ends_def dest!: spec [of _ w])
  show ?thesis
    unfolding ends_def seq_def
    by (auto split: prod.splits option.splits if_splits dest!: m f simp: butlast_append)
qed

lemma basic_emits:
  "emits A (ret a)" "emits A (look f)" "emits A (pass g)" "emits A (call_out h)"
  "emits A (act x) \<longleftrightarrow> A x" "emits A (stop ev) \<longleftrightarrow> A (Out ev)"
  "(\<And>e. A (Out (EvError e))) \<Longrightarrow> emits A (perform env stmt)"
  "(\<And>e. A (Out (EvError e))) \<Longrightarrow> emits A (ask_store env q)"
  by (auto simp: emits_def ret_def look_def pass_def call_out_def act_def stop_def perform_def ask_store_def Let_def
      split: prod.splits sum.splits)

lemma basic_sends:
  "sends n (ret a)" "sends n (look f)" "sends n (pass g)" "sends n (call_out h)"
  "sends n (act x) \<longleftrightarrow> (is_sent x \<longrightarrow> 0 < n)" "sends n (stop ev)" "sends n (perform env stmt)" "sends n (ask_store env q)"
  by (auto simp: sends_def ret_def look_def pass_def call_out_def act_def stop_def perform_def ask_store_def Let_def
      split: prod.splits sum.splits)

lemma basic_ends:
  "ends False (ret a)" "ends False (look f)" "ends False (pass g)" "ends False (call_out h)"
  "ends False (act x) \<longleftrightarrow> \<not> suspends x" "ends True (act x) \<longleftrightarrow> settles x \<and> \<not> suspends x"
  "ends b (stop ev) \<longleftrightarrow> settles (Out ev)" "ends False (perform env stmt)" "ends False (ask_store env q)"
  by (auto simp: ends_def ret_def look_def pass_def call_out_def act_def stop_def perform_def ask_store_def Let_def
      split: prod.splits sum.splits)

end
