(* ===== verification/Agent_Turn.thy ===== *)
theory Agent_Turn
  imports Turn_Trace
begin

text \<open>
  One turn of the main agent (\<open>crates/goble-core/src/reasoning/mission.rs\<close> with \<open>classify.rs\<close>,
  \<open>persist.rs\<close>, \<open>prompts.rs\<close>, \<open>tools.rs\<close>, \<open>types.rs\<close>): the reasoning phase, the execution loop that streams
  replies into rows and runs the calls of a reply, the approval gate before a command, and the mission
  around them. The model, the tools, the readers of JSON arguments and the faults of the store are
  parameters.
\<close>

section \<open>Modes, goals and prompts\<close>

definition MAX_REASONING_STEPS :: nat where "MAX_REASONING_STEPS = 6"

definition MAX_EXECUTION_STEPS :: nat where "MAX_EXECUTION_STEPS = 8"

fun mode_str :: "thinking_mode \<Rightarrow> string" where
  "mode_str Direct = ''direct''"
| "mode_str Contemplating = ''contemplating''"
| "mode_str Ruminating = ''ruminating''"
| "mode_str Baking = ''baking''"
| "mode_str Reflecting = ''reflecting''"
| "mode_str Verifying = ''verifying''"
| "mode_str Debugging = ''debugging''"
| "mode_str Synthesizing = ''synthesizing''"
| "mode_str Planning = ''planning''"

fun mode_prompt :: "thinking_mode \<Rightarrow> string" where
  "mode_prompt Direct = ''Think briefly and then act or reply.''"
| "mode_prompt Contemplating =
     ''Explore multiple angles and viewpoints before deciding. Do not commit yet.''"
| "mode_prompt Ruminating = ''Let the problem sit. Revisit assumptions, constraints, and edge cases.''"
| "mode_prompt Baking =
     ''Allow the idea to mature. Synthesize partial thoughts without rushing to a conclusion.''"
| "mode_prompt Reflecting = ''Check what you already know, what is missing, and whether the goal is clear.''"
| "mode_prompt Verifying = ''Validate facts, plan consistency, and tool availability before acting.''"
| "mode_prompt Debugging = ''Diagnose why the previous approach might fail or what could go wrong.''"
| "mode_prompt Synthesizing = ''Combine gathered information into a coherent plan or answer.''"
| "mode_prompt Planning = ''Break the goal into concrete steps, tools, and dependencies.''"

definition all_modes :: "thinking_mode list" where
  "all_modes = [Direct, Contemplating, Ruminating, Baking, Reflecting, Verifying, Debugging, Synthesizing, Planning]"

definition parse_mode :: "string \<Rightarrow> thinking_mode option" where
  "parse_mode s = find (\<lambda>m. mode_str m = s) all_modes"

fun decision_json :: "reasoning_decision \<Rightarrow> string" where
  "decision_json DecideContinue = [CHR 0x22] @ ''continue'' @ [CHR 0x22]"
| "decision_json DecideExecute = [CHR 0x22] @ ''execute'' @ [CHR 0x22]"
| "decision_json DecideAskUser = [CHR 0x22] @ ''ask_user'' @ [CHR 0x22]"
| "decision_json DecideDone = [CHR 0x22] @ ''done'' @ [CHR 0x22]"

record reasoning_step =
  rs_step :: nat
  rs_mode :: thinking_mode
  rs_content :: string
  rs_decision :: reasoning_decision
  rs_calls :: "llm_tool_call list"

record pending_ask =
  pa_id :: string
  pa_question :: string
  pa_replies :: "string list"

record mission_state =
  ms_id :: string
  ms_chat :: string
  ms_goal :: string
  ms_status :: string
  ms_plan :: "string option"
  ms_workflow :: "string option"
  ms_steps :: "reasoning_step list"
  ms_ask :: "pending_ask option"

text \<open>\<open>str::to_lowercase\<close> as far as ASCII letters are concerned: besides the ASCII capitals, the dotted capital I
  and the Kelvin sign are the characters whose lower case has one. Other characters have none before
  or after and stay as they are.\<close>

function to_lowercase :: "string \<Rightarrow> string" where
  "to_lowercase s =
     (case s of
        [] \<Rightarrow> []
      | c # r \<Rightarrow>
          (if c = CHR 0xC4 \<and> take 1 r = [CHR 0xB0] then CHR ''i'' # CHR 0xCC # CHR 0x87 # to_lowercase (drop 1 r)
           else if c = CHR 0xE2 \<and> take 2 r = [CHR 0x84, CHR 0xAA] then CHR ''k'' # to_lowercase (drop 2 r)
           else (if (of_char c :: nat) \<in> {65..90} then char_of ((of_char c :: nat) + 32) else c) # to_lowercase r))"
  by pat_completeness auto
termination by (relation "measure length") auto

declare to_lowercase.simps [simp del]

definition GOAL_TRIGGERS :: "string list" where
  "GOAL_TRIGGERS =
     [''agent'', ''workflow'', ''mcp'', ''deploy'', ''schedule'', ''cron'', ''worker'', ''orchestr'',
      ''automate'', ''build a'', ''create a'', ''mission'', ''plan'', ''multiple steps'', ''complex'']"

definition is_orchestration_goal :: "string \<Rightarrow> bool" where
  "is_orchestration_goal prompt = list_ex (\<lambda>t. find_sub t (to_lowercase prompt) \<noteq> None) GOAL_TRIGGERS"

abbreviation nl :: string where "nl \<equiv> [CHR 0x0A]"

definition build_reasoning_prompt :: "thinking_mode \<Rightarrow> string \<Rightarrow> reasoning_step list \<Rightarrow> string" where
  "build_reasoning_prompt mode goal steps =
     ''You are in thinking mode: '' @ mode_str mode @ ''.'' @ nl @ mode_prompt mode @ nl @ nl @
     ''You are orchestrating a complex task. You may call reasoning tools: set_thinking_mode, '' @
     ''continue_thinking, execute, ask_user, create_mission, update_mission.'' @ nl @
     ''Rules:'' @ nl @
     ''- If you need more information, call ask_user.'' @ nl @
     ''- If you need to keep reasoning, call continue_thinking or set_thinking_mode.'' @ nl @
     ''- When you are ready to act (call tools, create agents/workflows, deploy), call execute.'' @ nl @
     ''- Track the overall goal using create_mission / update_mission.'' @ nl @ nl @
     ''Current goal: '' @ goal @ nl @ nl @
     (if steps = [] then []
      else ''Previous reasoning steps:'' @ nl @
        concat (map (\<lambda>s. ''- ['' @ show_nat (rs_step s) @ ''] '' @ mode_str (rs_mode s) @ '' -> '' @
            decision_json (rs_decision s) @ nl) (take 4 (rev steps))) @ nl)"

fun take_chars :: "nat \<Rightarrow> string \<Rightarrow> string" where
  "take_chars n [] = []"
| "take_chars n (c # s) =
     (if cont c then c # take_chars n s
      else (case n of 0 \<Rightarrow> [] | Suc m \<Rightarrow> c # take_chars m s))"

definition build_execution_prompt :: "string \<Rightarrow> reasoning_step list \<Rightarrow> string" where
  "build_execution_prompt goal steps =
     ''You are now executing. The goal is: '' @ goal @ nl @ nl @ ''Reasoning summary:'' @ nl @
     concat (map (\<lambda>s. ''- ['' @ show_nat (rs_step s) @ ''] '' @ mode_str (rs_mode s) @ '': '' @
         take_chars 200 (rs_content s) @ nl) (take 6 (rev steps))) @ nl @
     ''Use available tools to create agents, workflows, discover MCPs, install/connect MCPs, deploy to '' @
     ''workers, and schedule workflows.'' @ nl @
     ''Only call a tool when you have enough information. If still missing info, ask the user instead.'' @ nl"

definition build_reasoning_tools :: "string list" where
  "build_reasoning_tools =
     [''set_thinking_mode'', ''continue_thinking'', ''execute'', ''ask_user'', ''create_mission'', ''update_mission'']"

section \<open>Missions\<close>

definition step_of_row :: "step_row \<Rightarrow> reasoning_step" where
  "step_of_row row =
     \<lparr>rs_step = sr_index row,
      rs_mode = (case parse_mode (sr_mode row) of None \<Rightarrow> Direct | Some m \<Rightarrow> m),
      rs_content = sr_content row, rs_decision = sr_decision row, rs_calls = sr_calls row\<rparr>"

definition open_mission :: "string \<Rightarrow> mission_row list \<Rightarrow> mission_row option" where
  "open_mission chat rows = find (\<lambda>m. mr_chat m = chat \<and> mr_status m \<noteq> ''done'') rows"

definition load_or_create_mission :: "turn_env \<Rightarrow> turn_cfg \<Rightarrow> string \<Rightarrow> mission_state turn" where
  "load_or_create_mission env cfg goal =
     seq (ask_store env list_missions) (\<lambda>missions.
       case open_mission (tc_chat cfg) missions of
         Some m \<Rightarrow>
           seq (ask_store env (list_reasoning_steps (mr_id m))) (\<lambda>rows.
           seq (ask_store env (get_pending_ask (tc_chat cfg))) (\<lambda>pending.
             ret \<lparr>ms_id = mr_id m, ms_chat = mr_chat m, ms_goal = mr_goal m, ms_status = mr_status m,
               ms_plan = mr_plan m, ms_workflow = mr_workflow m, ms_steps = map step_of_row rows,
               ms_ask = map_option (\<lambda>p. \<lparr>pa_id = ar_id p, pa_question = ar_question p,
                 pa_replies = split_on (CHR 0x0A) (ar_replies p)\<rparr>) pending\<rparr>))
       | None \<Rightarrow>
           seq (look (\<lambda>w. (te_uuid env w, tw_now w))) (\<lambda>(i, now).
           seq (perform env (insert_mission \<lparr>mr_id = i, mr_chat = tc_chat cfg, mr_goal = goal,
             mr_status = ''clarifying'', mr_plan = None, mr_workflow = None, mr_created_at = now,
             mr_updated_at = now\<rparr>)) (\<lambda>_.
             ret \<lparr>ms_id = i, ms_chat = tc_chat cfg, ms_goal = goal, ms_status = ''clarifying'',
               ms_plan = None, ms_workflow = None, ms_steps = [], ms_ask = None\<rparr>)))"

definition persist_mission :: "turn_env \<Rightarrow> mission_state \<Rightarrow> unit turn" where
  "persist_mission env mission =
     seq (look tw_now) (\<lambda>now.
       perform env (insert_mission \<lparr>mr_id = ms_id mission, mr_chat = ms_chat mission,
         mr_goal = ms_goal mission, mr_status = ms_status mission, mr_plan = ms_plan mission,
         mr_workflow = ms_workflow mission, mr_created_at = now, mr_updated_at = now\<rparr>))"

definition persist_reasoning_step :: "turn_env \<Rightarrow> string \<Rightarrow> reasoning_step \<Rightarrow> unit turn" where
  "persist_reasoning_step env mission s =
     seq (look (\<lambda>w. (te_uuid env w, tw_now w))) (\<lambda>(i, now).
       perform env (insert_reasoning_step \<lparr>sr_id = i, sr_mission = mission, sr_index = rs_step s,
         sr_mode = mode_str (rs_mode s), sr_content = rs_content s, sr_decision = rs_decision s,
         sr_calls = rs_calls s, sr_created_at = now\<rparr>))"

definition persist_tool_call_records :: "turn_env \<Rightarrow> string \<Rightarrow> chat_tool_call list \<Rightarrow> unit turn" where
  "persist_tool_call_records env message recs =
     perform env (set_chat_message_tool_calls message recs)"

text \<open>A new row of the conversation; its value is the id it got.\<close>

definition insert_row ::
  "turn_env \<Rightarrow> turn_cfg \<Rightarrow> string \<Rightarrow> string \<Rightarrow> chat_tool_call list option \<Rightarrow> string turn" where
  "insert_row env cfg role content calls =
     seq (look (\<lambda>w. (te_uuid env w, tw_now w))) (\<lambda>(i, now).
     seq (perform env (insert_chat_message \<lparr>cw_id = i, cw_chat = tc_chat cfg, cw_role = role,
       cw_content = content, cw_calls = calls, cw_reasoning = None, cw_created_at = now\<rparr>)) (\<lambda>_.
       ret i))"

definition send_request :: "turn_env \<Rightarrow> completion_request \<Rightarrow> arrival list turn" where
  "send_request env request =
     seq (act (Sent request)) (\<lambda>_.
     seq (call_out (\<lambda>w. te_stream env w request)) (\<lambda>r.
       case r of Err e \<Rightarrow> stop (EvError e) | Ok evs \<Rightarrow> ret evs))"

definition history_now :: "turn_env \<Rightarrow> turn_cfg \<Rightarrow> message list turn" where
  "history_now env cfg = look (\<lambda>w. build_history (store_fault env w) (tc_chat cfg) (tw_store w))"

text \<open>The stop bit is read after the world has moved on.\<close>

definition cancelled :: "turn_env \<Rightarrow> bool turn" where
  "cancelled env = seq (pass (te_pause env)) (\<lambda>_. look tw_cancel)"

section \<open>The reasoning phase\<close>

fun parse_calls ::
  "turn_env \<Rightarrow> llm_tool_call list \<Rightarrow> reasoning_decision \<times> thinking_mode \<Rightarrow> reasoning_decision \<times> thinking_mode"
where
  "parse_calls env [] (decision, mode) = (decision, mode)"
| "parse_calls env (call # calls) (decision, mode) =
     parse_calls env calls
       (if lc_name call = ''set_thinking_mode''
        then (decision, case te_str env (lc_arguments call) ''mode'' of
                None \<Rightarrow> mode
              | Some m \<Rightarrow> (case parse_mode m of None \<Rightarrow> mode | Some mode \<Rightarrow> mode))
        else if lc_name call = ''continue_thinking'' then (DecideContinue, mode)
        else if lc_name call = ''execute'' then (DecideExecute, mode)
        else if lc_name call = ''ask_user'' then (DecideAskUser, mode)
        else if lc_name call = ''create_mission'' \<or> lc_name call = ''update_mission'' then (DecideContinue, mode)
        else (decision, mode))"

definition parse_reasoning_tool_calls ::
  "turn_env \<Rightarrow> llm_tool_call list \<Rightarrow> thinking_mode \<Rightarrow> reasoning_decision \<times> thinking_mode" where
  "parse_reasoning_tool_calls env calls mode = parse_calls env calls (DecideContinue, mode)"

definition extract_ask_user :: "turn_env \<Rightarrow> llm_tool_call list \<Rightarrow> (string \<times> string list) option" where
  "extract_ask_user env calls =
     (case find (\<lambda>c. lc_name c = ''ask_user'') calls of
        None \<Rightarrow> None
      | Some call \<Rightarrow>
          (case te_str env (lc_arguments call) ''question'' of
             None \<Rightarrow> None
           | Some question \<Rightarrow>
               Some (question,
                 case te_strs env (lc_arguments call) ''quick_replies'' of
                   None \<Rightarrow> []
                 | Some vs \<Rightarrow> List.map_filter id vs)))"

fun plan_stream :: "turn_cfg \<Rightarrow> arrival list \<Rightarrow> string \<Rightarrow> llm_tool_call list \<Rightarrow> (string \<times> llm_tool_call list) turn" where
  "plan_stream cfg [] content calls = ret (content, calls)"
| "plan_stream cfg ((wait, ev) # evs) content calls =
     seq (pass wait) (\<lambda>_. seq (look tw_cancel) (\<lambda>stopped.
       if stopped then stop (EvError ''cancelled'')
       else (case ev of
           AssistantDelta delta \<Rightarrow>
             seq (out (EvReasoningDelta delta)) (\<lambda>_. plan_stream cfg evs (content @ delta) calls)
         | ReasoningDelta _ \<Rightarrow> plan_stream cfg evs content calls
         | ToolCalls new \<Rightarrow> plan_stream cfg evs content new
         | Usage u \<Rightarrow> seq (out (EvTokenUsage (tc_chat cfg) u)) (\<lambda>_. plan_stream cfg evs content calls)
         | StreamDone \<Rightarrow> ret (content, calls)
         | StreamError message \<Rightarrow> stop (EvError message))))"

text \<open>A question to the user: answered for them when approvals are automatic, else the turn is suspended on it.\<close>

definition ask_user :: "turn_env \<Rightarrow> turn_cfg \<Rightarrow> mission_state \<Rightarrow> llm_tool_call list \<Rightarrow> unit turn" where
  "ask_user env cfg mission calls =
     (case extract_ask_user env calls of
        None \<Rightarrow> ret ()
      | Some (question, replies) \<Rightarrow>
          if tc_auto_approve cfg
          then seq (insert_row env cfg ''user'' (''(auto-approved; no answer to: '' @ question @ '')'') None)
                 (\<lambda>_. ret ())
          else
            seq (look (\<lambda>w. (te_uuid env w, tw_now w))) (\<lambda>(i, now).
            seq (perform env (insert_pending_ask \<lparr>ar_id = i, ar_chat = tc_chat cfg,
              ar_mission = Some (ms_id mission), ar_question = question, ar_replies = join nl replies,
              ar_status = ''pending'', ar_created_at = now, ar_updated_at = now\<rparr>)) (\<lambda>_.
              stop (EvAskUser question replies))))"

definition reasoning_request ::
  "turn_cfg \<Rightarrow> mission_state \<Rightarrow> thinking_mode \<Rightarrow> message list \<Rightarrow> completion_request" where
  "reasoning_request cfg mission mode history =
     with_tools build_reasoning_tools (with_messages history
       (with_system (build_reasoning_prompt mode (ms_goal mission) (ms_steps mission))
         (with_system HARNESS_SYSTEM_PROMPT (request_new (tc_provider cfg) (tc_model cfg)))))"

text \<open>The loop; its first number counts down from the limit, its second is the step.\<close>

primrec reason ::
  "turn_env \<Rightarrow> turn_cfg \<Rightarrow> nat \<Rightarrow> nat \<Rightarrow> mission_state \<Rightarrow> thinking_mode \<Rightarrow>
   (mission_state \<times> thinking_mode \<times> reasoning_decision) turn" where
  "reason env cfg 0 = (\<lambda>step mission mode. ret (mission, mode, DecideExecute))"
| "reason env cfg (Suc n) = (\<lambda>step mission mode.
     seq (cancelled env) (\<lambda>stopped.
     if stopped then stop (EvError ''cancelled'') else
     seq (history_now env cfg) (\<lambda>history.
     seq (out (EvReasoningStarted step (mode_str mode))) (\<lambda>_.
     seq (send_request env (reasoning_request cfg mission mode history)) (\<lambda>evs.
     seq (plan_stream cfg evs [] []) (\<lambda>(content, calls).
     let (decision, mode) = parse_reasoning_tool_calls env calls mode;
         s = \<lparr>rs_step = step, rs_mode = mode, rs_content = content, rs_decision = decision, rs_calls = calls\<rparr> in
     seq (persist_reasoning_step env (ms_id mission) s) (\<lambda>_.
     let mission = mission\<lparr>ms_steps := ms_steps mission @ [s]\<rparr> in
     seq (out (EvReasoningDone step (mode_str mode) content (decision_json decision))) (\<lambda>_.
     if decision = DecideExecute \<or> decision = DecideDone then ret (mission, mode, decision)
     else
       seq (if decision = DecideAskUser then ask_user env cfg mission calls else ret ()) (\<lambda>_.
         reason env cfg n (Suc step) mission mode)))))))))"

section \<open>The execution loop\<close>

record reply =
  rp_content :: string
  rp_reasoning :: string
  rp_calls :: "llm_tool_call list"
  rp_id :: "string option"

definition no_reply :: reply where
  "no_reply = \<lparr>rp_content = [], rp_reasoning = [], rp_calls = [], rp_id = None\<rparr>"

text \<open>A piece of the answer goes into the row of the reply, which the first piece creates.\<close>

definition put_delta :: "turn_env \<Rightarrow> turn_cfg \<Rightarrow> string \<Rightarrow> reply \<Rightarrow> reply turn" where
  "put_delta env cfg delta rp =
     (let rp = rp\<lparr>rp_content := rp_content rp @ delta\<rparr> in
      case rp_id rp of
        Some i \<Rightarrow> seq (perform env (append_chat_message_content i delta)) (\<lambda>_. ret rp)
      | None \<Rightarrow> seq (insert_row env cfg ''assistant'' delta None) (\<lambda>i. ret (rp\<lparr>rp_id := Some i\<rparr>)))"

fun reply_stream :: "turn_env \<Rightarrow> turn_cfg \<Rightarrow> arrival list \<Rightarrow> reply \<Rightarrow> reply turn" where
  "reply_stream env cfg [] rp = ret rp"
| "reply_stream env cfg ((wait, ev) # evs) rp =
     seq (pass wait) (\<lambda>_. seq (look tw_cancel) (\<lambda>stopped.
       if stopped then seq (out (EvError ''cancelled'')) (\<lambda>_. ret rp)
       else (case ev of
           AssistantDelta delta \<Rightarrow>
             seq (put_delta env cfg delta rp) (\<lambda>rp.
             seq (out (EvAssistantDelta delta)) (\<lambda>_. reply_stream env cfg evs rp))
         | ReasoningDelta delta \<Rightarrow>
             reply_stream env cfg evs (rp\<lparr>rp_reasoning := rp_reasoning rp @ delta\<rparr>)
         | ToolCalls calls \<Rightarrow> reply_stream env cfg evs (rp\<lparr>rp_calls := calls\<rparr>)
         | Usage u \<Rightarrow> seq (out (EvTokenUsage (tc_chat cfg) u)) (\<lambda>_. reply_stream env cfg evs rp)
         | StreamDone \<Rightarrow> ret rp
         | StreamError message \<Rightarrow> stop (EvError message))))"

definition keep_reasoning :: "turn_env \<Rightarrow> string \<Rightarrow> string option \<Rightarrow> unit turn" where
  "keep_reasoning env reasoning i =
     (if reasoning = [] then ret ()
      else case i of
        None \<Rightarrow> ret ()
      | Some i \<Rightarrow> perform env (set_chat_message_reasoning i reasoning))"

definition attach_calls :: "turn_env \<Rightarrow> turn_cfg \<Rightarrow> reply \<Rightarrow> string turn" where
  "attach_calls env cfg rp =
     (let recs = map planned (rp_calls rp) in
      case rp_id rp of
        Some i \<Rightarrow> seq (perform env (set_chat_message_tool_calls i recs)) (\<lambda>_. ret i)
      | None \<Rightarrow> insert_row env cfg ''assistant'' [] (Some recs))"

definition COMMAND_TOOL :: string where "COMMAND_TOOL = ''run_command''"

definition call_arguments :: "turn_env \<Rightarrow> llm_tool_call \<Rightarrow> command_call" where
  "call_arguments env call =
     \<lparr>cc_command = te_str env (lc_arguments call) ''command'',
      cc_args = te_strs env (lc_arguments call) ''args''\<rparr>"

text \<open>The suspension on a command: the calls after it are dropped from the row, the proposal waits in the store.\<close>

definition propose ::
  "turn_env \<Rightarrow> turn_cfg \<Rightarrow> string \<Rightarrow> nat \<Rightarrow> llm_tool_call \<Rightarrow> chat_tool_call list \<Rightarrow> 'a turn" where
  "propose env cfg message index call recs =
     (let candidates = command_candidates (call_arguments env call);
          cwd = tc_workspace cfg in
      seq (look tw_now) (\<lambda>now.
      seq (persist_tool_call_records env message (take (index + 1) recs)) (\<lambda>_.
      seq (perform env (insert_pending_command \<lparr>cd_call = lc_id call, cd_chat = tc_chat cfg,
        cd_message = message, cd_candidates = candidates, cd_cwd = cwd, cd_status = ''pending'',
        cd_created_at = now, cd_updated_at = now\<rparr>)) (\<lambda>_.
        stop (EvCommandProposed (lc_id call) candidates cwd)))))"

text \<open>A call that ran: its result as a row, then on its record, then as an event.\<close>

definition finish_call ::
  "turn_env \<Rightarrow> turn_cfg \<Rightarrow> string \<Rightarrow> nat \<Rightarrow> llm_tool_call \<Rightarrow> chat_tool_call list \<Rightarrow>
   (string, string \<times> string option) result \<Rightarrow> chat_tool_call list turn" where
  "finish_call env cfg message index call recs res =
     (case res of
        Ok (output, diff) \<Rightarrow>
          seq (insert_row env cfg ''tool'' (lc_id call @ nl @ output) None) (\<lambda>_.
          let recs = recs[index := (recs ! index)\<lparr>ct_status := CallFinished,
                ct_result := Some output, ct_diff := diff\<rparr>] in
          seq (persist_tool_call_records env message recs) (\<lambda>_.
          seq (out (EvToolCallFinished (lc_id call) output)) (\<lambda>_. ret recs)))
      | Err e \<Rightarrow>
          seq (insert_row env cfg ''tool'' (lc_id call @ nl @ e) None) (\<lambda>_.
          let recs = recs[index := (recs ! index)\<lparr>ct_status := CallError, ct_result := Some e\<rparr>] in
          seq (persist_tool_call_records env message recs) (\<lambda>_.
          seq (out (EvToolCallError (lc_id call) e)) (\<lambda>_. ret recs))))"

fun run_calls ::
  "turn_env \<Rightarrow> turn_cfg \<Rightarrow> string \<Rightarrow> nat \<Rightarrow> llm_tool_call list \<Rightarrow> chat_tool_call list \<Rightarrow> unit turn" where
  "run_calls env cfg message index [] recs = ret ()"
| "run_calls env cfg message index (call # calls) recs =
     seq (cancelled env) (\<lambda>stopped.
     if stopped then out (EvError ''cancelled'')
     else
       let recs = recs[index := (recs ! index)\<lparr>ct_status := CallRunning\<rparr>] in
       seq (persist_tool_call_records env message recs) (\<lambda>_.
       seq (out (EvToolCallStarted call)) (\<lambda>_.
       if \<not> tc_auto_approve cfg \<and> lc_name call = COMMAND_TOOL
       then propose env cfg message index call recs
       else
         seq (act (Used call)) (\<lambda>_.
         seq (call_out (\<lambda>w. te_tool env w call)) (\<lambda>res.
         seq (finish_call env cfg message index call recs res) (\<lambda>recs.
           run_calls env cfg message (index + 1) calls recs))))))"

definition execution_request ::
  "turn_cfg \<Rightarrow> string list \<Rightarrow> mission_state \<Rightarrow> message list \<Rightarrow> completion_request" where
  "execution_request cfg tools mission history =
     with_tools tools (with_messages
       (history @ [plain_message RoleSystem (build_execution_prompt (ms_goal mission) (ms_steps mission))])
       (with_system HARNESS_SYSTEM_PROMPT (request_new (tc_provider cfg) (tc_model cfg))))"

text \<open>The loop; its number counts down from the limit of iterations.\<close>

primrec execute_loop ::
  "turn_env \<Rightarrow> turn_cfg \<Rightarrow> string list \<Rightarrow> mission_state \<Rightarrow> nat \<Rightarrow> llm_tool_call list \<Rightarrow> unit turn" where
  "execute_loop env cfg tools mission 0 = (\<lambda>prev.
     seq (cancelled env) (\<lambda>stopped.
       stop (EvError (if stopped then ''cancelled'' else ''too many execution iterations''))))"
| "execute_loop env cfg tools mission (Suc n) = (\<lambda>prev.
     seq (cancelled env) (\<lambda>stopped.
     if stopped then stop (EvError ''cancelled'') else
     seq (history_now env cfg) (\<lambda>history.
     seq (send_request env (execution_request cfg tools mission history)) (\<lambda>evs.
     seq (reply_stream env cfg evs no_reply) (\<lambda>rp.
     seq (keep_reasoning env (rp_reasoning rp) (rp_id rp)) (\<lambda>_.
     if rp_calls rp = [] \<or> (rp_content rp = [] \<and> rp_calls rp = prev) then ret ()
     else
       let prev = (if rp_content rp = [] then rp_calls rp else prev) in
       seq (attach_calls env cfg rp) (\<lambda>message.
       seq (keep_reasoning env (rp_reasoning rp) (Some message)) (\<lambda>_.
       seq (run_calls env cfg message 0 (rp_calls rp) (map planned (rp_calls rp))) (\<lambda>_.
         execute_loop env cfg tools mission n prev)))))))))"

section \<open>The turn\<close>

definition start_mode :: "mission_state \<Rightarrow> thinking_mode" where
  "start_mode mission = (if ms_steps mission = [] then Direct else rs_mode (last (ms_steps mission)))"

definition turn_tools :: "turn_env \<Rightarrow> turn_world \<Rightarrow> string list" where
  "turn_tools env w =
     (let tools = harness_tool_definitions in
      (case te_mcp_tools env w of None \<Rightarrow> tools | Some mcp \<Rightarrow> tools @ mcp) @ [''mcp_call''])"

definition reasoning_wanted :: "turn_cfg \<Rightarrow> mission_state \<Rightarrow> bool" where
  "reasoning_wanted cfg mission \<longleftrightarrow>
     tc_reasoning cfg \<and> (is_orchestration_goal (ms_goal mission) \<or> ms_steps mission \<noteq> [] \<or> ms_ask mission \<noteq> None)"

definition plan_mission ::
  "turn_env \<Rightarrow> turn_cfg \<Rightarrow> mission_state \<Rightarrow> (mission_state \<times> thinking_mode \<times> reasoning_decision) turn" where
  "plan_mission env cfg mission =
     (if reasoning_wanted cfg mission
      then reason env cfg MAX_REASONING_STEPS 0 mission (start_mode mission)
      else ret (mission, start_mode mission, DecideExecute))"

definition finish_mission :: "turn_env \<Rightarrow> mission_state \<Rightarrow> unit turn" where
  "finish_mission env mission =
     (let mission = mission\<lparr>ms_status := ''done''\<rparr> in
      seq (persist_mission env mission) (\<lambda>_.
      seq (out (EvMissionUpdated (ms_id mission) (ms_status mission))) (\<lambda>_.
        out EvDone)))"

definition run_mission :: "turn_env \<Rightarrow> turn_cfg \<Rightarrow> string \<Rightarrow> unit turn" where
  "run_mission env cfg prompt =
     seq (load_or_create_mission env cfg prompt) (\<lambda>mission.
     seq (out (EvMissionUpdated (ms_id mission) (ms_status mission))) (\<lambda>_.
     seq (look (turn_tools env)) (\<lambda>tools.
     seq (plan_mission env cfg mission) (\<lambda>(mission, mode, decision).
     if decision = DecideDone then stop EvDone
     else
       seq (execute_loop env cfg tools mission MAX_EXECUTION_STEPS []) (\<lambda>_.
         finish_mission env mission)))))"

definition run_mission_turn :: "turn_env \<Rightarrow> turn_cfg \<Rightarrow> string \<Rightarrow> unit turn" where
  "run_mission_turn env cfg prompt =
     seq (insert_row env cfg ''user'' prompt None) (\<lambda>_. run_mission env cfg prompt)"

end
