(* ===== verification/Agent_Approval.thy ===== *)
theory Agent_Approval
  imports Agent_Turn
begin

text \<open>
  What a turn of the main agent may do without the user: no command runs that was not approved, the
  number of model calls is bounded, and the turn always ends on an event that tells its reader that
  it is over or suspended.
\<close>

section \<open>What a turn may run\<close>

definition permits :: "turn_cfg \<Rightarrow> (act \<Rightarrow> bool) \<Rightarrow> bool" where
  "permits cfg A \<longleftrightarrow> (\<forall>ev. A (Out ev)) \<and> (\<forall>rq. A (Sent rq)) \<and>
     (\<forall>c. (tc_auto_approve cfg \<or> lc_name c \<noteq> COMMAND_TOOL) \<longrightarrow> A (Used c))"

lemma permitsD:
  "permits cfg A \<Longrightarrow> A (Out ev)" "permits cfg A \<Longrightarrow> A (Sent rq)"
  "permits cfg A \<Longrightarrow> tc_auto_approve cfg \<or> lc_name c \<noteq> COMMAND_TOOL \<Longrightarrow> A (Used c)"
  by (auto simp: permits_def)

lemmas piece_defs = insert_row_def send_request_def history_now_def cancelled_def persist_mission_def
  persist_reasoning_step_def persist_tool_call_records_def load_or_create_mission_def put_delta_def
  keep_reasoning_def attach_calls_def propose_def finish_call_def ask_user_def Let_def

lemma emits_pieces:
  assumes "permits cfg A"
  shows "emits A (insert_row env cfg role content col)" "emits A (send_request env rq)"
    "emits A (history_now env cfg)" "emits A (cancelled env)" "emits A (persist_mission env mission)"
    "emits A (persist_reasoning_step env mid s)" "emits A (persist_tool_call_records env mid recs)"
    "emits A (load_or_create_mission env cfg goal)" "emits A (put_delta env cfg delta rp)"
    "emits A (keep_reasoning env re i)" "emits A (attach_calls env cfg rp)"
    "emits A (propose env cfg mid index call recs)" "emits A (finish_call env cfg mid index call recs res)"
    "emits A (ask_user env cfg mission calls)"
  using assms
  by (auto simp: piece_defs basic_emits permitsD intro!: emits_seq split: prod.split option.split sum.split)

lemma emits_plan_stream: "permits cfg A \<Longrightarrow> emits A (plan_stream cfg evs content calls)"
  by (induction cfg evs content calls rule: plan_stream.induct)
    (auto simp: basic_emits permitsD intro!: emits_seq split: stream_event.split)

lemma emits_reply_stream: "permits cfg A \<Longrightarrow> emits A (reply_stream env cfg evs rp)"
  by (induction env cfg evs rp rule: reply_stream.induct)
    (auto simp: basic_emits permitsD emits_pieces intro!: emits_seq split: stream_event.split)

lemma emits_run_calls: "permits cfg A \<Longrightarrow> emits A (run_calls env cfg mid index calls recs)"
  by (induction env cfg mid index calls recs rule: run_calls.induct)
    (auto simp: basic_emits permitsD emits_pieces Let_def intro!: emits_seq)

lemma emits_reason: "permits cfg A \<Longrightarrow> emits A (reason env cfg n step mission mode)"
  by (induction n arbitrary: step mission mode)
    (auto simp: basic_emits permitsD emits_pieces emits_plan_stream Let_def intro!: emits_seq split: prod.split)

lemma emits_execute_loop: "permits cfg A \<Longrightarrow> emits A (execute_loop env cfg tools mission n prev)"
  by (induction n arbitrary: prev)
    (auto simp: basic_emits permitsD emits_pieces emits_reply_stream emits_run_calls Let_def intro!: emits_seq)

lemma emits_run_mission: "permits cfg A \<Longrightarrow> emits A (run_mission env cfg prompt)"
  by (auto simp: run_mission_def plan_mission_def finish_mission_def basic_emits permitsD emits_pieces emits_reason emits_execute_loop Let_def
      intro!: emits_seq split: prod.split)

section \<open>How a turn ends, and how often it asks the model\<close>

lemma sends_pieces:
  "sends 0 (insert_row env cfg role content col)" "sends 1 (send_request env rq)"
  "sends 0 (history_now env cfg)" "sends 0 (cancelled env)" "sends 0 (persist_mission env mission)"
  "sends 0 (persist_reasoning_step env mid s)" "sends 0 (persist_tool_call_records env mid recs)"
  "sends 0 (load_or_create_mission env cfg goal)" "sends 0 (put_delta env cfg delta rp)"
  "sends 0 (keep_reasoning env re i)" "sends 0 (attach_calls env cfg rp)"
  "sends 0 (propose env cfg mid index call recs)" "sends 0 (finish_call env cfg mid index call recs res)"
  "sends 0 (ask_user env cfg mission calls)"
  by (auto simp: piece_defs basic_sends intro!: sends_seq0 sends_seq [of 1 _ 0, simplified]
      split: prod.split option.split sum.split)

lemma sends_plan_stream: "sends 0 (plan_stream cfg evs content calls)"
  by (induction cfg evs content calls rule: plan_stream.induct)
    (auto simp: basic_sends intro!: sends_seq0 split: stream_event.split)

lemma sends_reply_stream: "sends 0 (reply_stream env cfg evs rp)"
  by (induction env cfg evs rp rule: reply_stream.induct)
    (auto simp: basic_sends sends_pieces intro!: sends_seq0 split: stream_event.split)

lemma sends_run_calls: "sends 0 (run_calls env cfg mid index calls recs)"
  by (induction env cfg mid index calls recs rule: run_calls.induct)
    (auto simp: basic_sends sends_pieces Let_def intro!: sends_seq0)

lemma sends_request_then: "(\<And>evs. sends n (f evs)) \<Longrightarrow> sends (Suc n) (seq (send_request env rq) f)"
  using sends_seq [OF sends_pieces(2), of n f env rq] by simp

lemmas sends_zero = sends_seq0 [OF basic_sends(1)] sends_seq0 [OF basic_sends(2)] sends_seq0 [OF basic_sends(3)]
  sends_seq0 [OF sends_pieces(1)] sends_seq0 [OF sends_pieces(3)] sends_seq0 [OF sends_pieces(4)]
  sends_seq0 [OF sends_pieces(5)] sends_seq0 [OF sends_pieces(6)] sends_seq0 [OF sends_pieces(7)]
  sends_seq0 [OF sends_pieces(8)] sends_seq0 [OF sends_pieces(10)] sends_seq0 [OF sends_pieces(11)]
  sends_seq0 [OF sends_pieces(14)]
  sends_seq0 [OF sends_plan_stream] sends_seq0 [OF sends_reply_stream] sends_seq0 [OF sends_run_calls]

lemma sends_out_then: "(\<And>u. sends n (f u)) \<Longrightarrow> sends n (seq (out ev) f)"
  by (rule sends_seq0) (simp_all add: basic_sends)

lemma sends_reason: "sends n (reason env cfg n step mission mode)"
  by (induction n arbitrary: step mission mode)
    (auto simp: basic_sends sends_pieces Let_def split: prod.split
      intro!: sends_zero sends_out_then sends_request_then)

lemma sends_execute_loop: "sends n (execute_loop env cfg tools mission n prev)"
  by (induction n arbitrary: prev)
    (auto simp: basic_sends Let_def intro!: sends_zero sends_out_then sends_request_then)

lemma sends_run_mission: "sends (MAX_REASONING_STEPS + MAX_EXECUTION_STEPS) (run_mission env cfg prompt)"
proof -
  have "sends 0 (finish_mission env mission)" for mission
    by (auto simp: finish_mission_def Let_def basic_sends intro!: sends_zero sends_out_then)
  then have "sends MAX_EXECUTION_STEPS (seq (execute_loop env cfg tools mission MAX_EXECUTION_STEPS [])
      (\<lambda>_. finish_mission env mission))" for tools mission
    by (intro sends_seq [OF sends_execute_loop, where k = 0, simplified])
  moreover have "sends MAX_REASONING_STEPS (plan_mission env cfg mission)" for mission
    by (simp add: plan_mission_def sends_reason basic_sends)
  ultimately show ?thesis
    unfolding run_mission_def
    by (intro sends_zero sends_out_then sends_seq) (auto simp: basic_sends split: prod.split)
qed

lemma ends_pieces:
  "ends False (insert_row env cfg role content col)" "ends False (send_request env rq)"
  "ends False (history_now env cfg)" "ends False (cancelled env)" "ends False (persist_mission env mission)"
  "ends False (persist_reasoning_step env mid s)" "ends False (persist_tool_call_records env mid recs)"
  "ends False (load_or_create_mission env cfg goal)" "ends False (put_delta env cfg delta rp)"
  "ends False (keep_reasoning env re i)" "ends False (attach_calls env cfg rp)"
  "ends False (propose env cfg mid index call recs)" "ends False (finish_call env cfg mid index call recs res)"
  "ends False (ask_user env cfg mission calls)"
  by (auto simp: piece_defs basic_ends intro!: ends_seq split: prod.split option.split sum.split)

lemma ends_streams:
  "ends False (plan_stream cfg evs content calls)" "ends False (reply_stream env cfg evs rp)"
  "ends False (run_calls env cfg mid index calls' recs)"
proof -
  show "ends False (plan_stream cfg evs content calls)"
    by (induction cfg evs content calls rule: plan_stream.induct)
      (auto simp: basic_ends intro!: ends_seq split: stream_event.split)
  show "ends False (reply_stream env cfg evs rp)"
    by (induction env cfg evs rp rule: reply_stream.induct)
      (auto simp: basic_ends ends_pieces intro!: ends_seq split: stream_event.split)
  show "ends False (run_calls env cfg mid index calls' recs)"
    by (induction env cfg mid index calls' recs rule: run_calls.induct)
      (auto simp: basic_ends ends_pieces Let_def intro!: ends_seq)
qed

lemma ends_loops:
  "ends False (reason env cfg n step mission mode)" "ends False (execute_loop env cfg tools mission n prev)"
proof -
  show "ends False (reason env cfg n step mission mode)"
    by (induction n arbitrary: step mission mode)
      (auto simp: basic_ends ends_pieces ends_streams Let_def intro!: ends_seq split: prod.split)
  show "ends False (execute_loop env cfg tools mission n prev)"
    by (induction n arbitrary: prev)
      (auto simp: basic_ends ends_pieces ends_streams Let_def intro!: ends_seq)
qed

lemma ends_run_mission: "ends True (run_mission env cfg prompt)"
  by (auto simp: run_mission_def plan_mission_def finish_mission_def basic_ends ends_pieces ends_loops Let_def intro!: ends_seq split: prod.split)

section \<open>The properties\<close>

lemma turn_gated:
  "tc_auto_approve cfg \<or>
   list_all (\<lambda>a. \<nexists>c. a = Used c \<and> lc_name c = COMMAND_TOOL) (acts_of (fst (run_mission_turn env cfg prompt w)))"
proof -
  let ?A = "\<lambda>a. tc_auto_approve cfg \<or> (\<nexists>c. a = Used c \<and> lc_name c = COMMAND_TOOL)"
  have "permits cfg ?A" by (simp add: permits_def)
  then have "emits ?A (run_mission_turn env cfg prompt)"
    unfolding run_mission_turn_def by (intro emits_seq emits_pieces emits_run_mission)
  then show ?thesis by (auto simp: emits_def list_all_iff)
qed

lemma turn_settles:
  assumes "acts = acts_of (fst (run_mission_turn env cfg prompt w))"
  shows "acts \<noteq> [] \<and> settles (last acts) \<and> list_all (\<lambda>a. \<not> suspends a) (butlast acts)"
proof -
  obtain tr w' r where turn: "run_mission_turn env cfg prompt w = (tr, w', r)" by (metis prod_cases3)
  have "ends True (run_mission_turn env cfg prompt)"
    unfolding run_mission_turn_def by (intro ends_seq ends_pieces ends_run_mission)
  then have "tr \<noteq> []" "settles (last (acts_of tr))"
    "list_all (\<lambda>a. \<not> suspends a) (if r = None then butlast (acts_of tr) else acts_of tr)"
    using turn by (auto simp: ends_def dest!: spec [of _ w])
  moreover from this(3) have "list_all (\<lambda>a. \<not> suspends a) (butlast (acts_of tr))"
    by (cases r) (fastforce simp: list_all_iff dest: in_set_butlastD)+
  ultimately show ?thesis using assms turn by simp
qed

text \<open>C16. Without automatic approvals a turn never runs a command (\<open>run_mission_turn\<close> in \<open>reasoning/mission.rs\<close>):
  among the tools it ran there is no \<open>run_command\<close>, whatever the model asks for and the tools, the store
  and other tasks do. It asks the model at most fourteen times. Its last event says that it is done, that
  it failed, that it waits for an answer or that it waits for an approval; and a question or a proposal
  is never followed by anything.\<close>

theorem turn_bounded_and_gated:
  "let acts = acts_of (fst (run_mission_turn env cfg prompt w)) in
     (tc_auto_approve cfg \<or> list_all (\<lambda>a. \<nexists>c. a = Used c \<and> lc_name c = COMMAND_TOOL) acts) \<and>
     length (filter is_sent acts) \<le> 14 \<and>
     acts \<noteq> [] \<and> settles (last acts) \<and> list_all (\<lambda>a. \<not> suspends a) (butlast acts)"
proof -
  have "sends (MAX_REASONING_STEPS + MAX_EXECUTION_STEPS) (run_mission_turn env cfg prompt)"
    unfolding run_mission_turn_def by (intro sends_zero sends_run_mission)
  then have "length (filter is_sent (acts_of (fst (run_mission_turn env cfg prompt w)))) \<le> 14"
    by (simp add: sends_def MAX_REASONING_STEPS_def MAX_EXECUTION_STEPS_def)
  then show ?thesis using turn_gated turn_settles [OF refl] unfolding Let_def by blast
qed

end
