(* ===== verification/Agent_Conversation.thy ===== *)
theory Agent_Conversation
  imports Agent_Approval
begin

text \<open>
  The conversation a turn leaves behind, and the requests it sends on the way: as long as call ids are
  not reused and nobody else writes to the conversation, every request answers each call exactly once,
  in order and at once, also after cancelled, failed and suspended turns.
\<close>

section \<open>Orderly conversations\<close>

abbreviation rows_in :: "string \<Rightarrow> turn_world \<Rightarrow> chat_row list" where
  "rows_in chat w \<equiv> chat_rows chat (tw_store w)"

definition pendings :: "string \<Rightarrow> turn_world \<Rightarrow> command_row list" where
  "pendings chat w = filter (\<lambda>c. cd_chat c = chat \<and> cd_status c = ''pending'') (st_commands (tw_store w))"

definition tidy_rows :: "string \<Rightarrow> turn_world \<Rightarrow> bool" where
  "tidy_rows chat w \<longleftrightarrow>
     sorted (map cw_created_at (rows_in chat w)) \<and> (\<forall>r\<in>set (rows_in chat w). cw_created_at r \<le> tw_now w) \<and>
     distinct (map cw_id (rows_in chat w)) \<and> distinct (all_calls (rows_in chat w))"

definition tidy :: "string \<Rightarrow> turn_world \<Rightarrow> bool" where
  "tidy chat w \<longleftrightarrow> tidy_rows chat w \<and> pendings chat w = []"

text \<open>A conversation that no command waits in.\<close>

definition orderly :: "string \<Rightarrow> turn_world \<Rightarrow> bool" where
  "orderly chat w \<longleftrightarrow> tidy chat w \<and> rows_open [] (rows_in chat w) \<noteq> None"

text \<open>The rows end with the row of a reply, whose calls are \<open>ids\<close>, and the results of the calls \<open>ans\<close>;
  the calls of the rows before are \<open>used\<close>.\<close>

definition batch_rows :: "string \<Rightarrow> string list \<Rightarrow> string list \<Rightarrow> chat_row list \<Rightarrow> bool" where
  "batch_rows mid ids ans rows \<longleftrightarrow>
     (\<exists>pre r ts. rows = pre @ r # ts \<and> cw_id r = mid \<and> has_calls r \<and> map ct_id (row_calls r) = ids \<and>
        rows_open [] pre \<noteq> None \<and> (\<forall>t\<in>set ts. cw_role t = ''tool'') \<and> map result_id ts = map Some ans)"

definition batch ::
  "string \<Rightarrow> string list \<Rightarrow> string \<Rightarrow> string list \<Rightarrow> string list \<Rightarrow> turn_world \<Rightarrow> bool" where
  "batch chat used mid ids ans w \<longleftrightarrow>
     tidy chat w \<and> batch_rows mid ids ans (rows_in chat w) \<and> all_calls (rows_in chat w) = used @ ids"

text \<open>A conversation suspended on a command: the one that waits is the last call of the last reply, and the only
  one without a result.\<close>

definition awaiting :: "string \<Rightarrow> turn_world \<Rightarrow> bool" where
  "awaiting chat w \<longleftrightarrow> tidy_rows chat w \<and>
     (\<exists>i mid ans. pendings chat w \<noteq> [] \<and> (\<forall>c\<in>set (pendings chat w). cd_call c = i \<and> cd_message c = mid) \<and>
        CHR 0x0A \<notin> set i \<and> batch_rows mid (ans @ [i]) ans (rows_in chat w))"

definition settled :: "string \<Rightarrow> turn_world \<Rightarrow> bool" where
  "settled chat w \<longleftrightarrow> orderly chat w \<or> awaiting chat w"

definition quiet :: "string \<Rightarrow> (turn_world \<Rightarrow> turn_world) \<Rightarrow> bool" where
  "quiet chat f \<longleftrightarrow>
     (\<forall>w. rows_in chat (f w) = rows_in chat w \<and> pendings chat (f w) = pendings chat w \<and> tw_now w \<le> tw_now (f w))"

definition fresh_calls :: "string list \<Rightarrow> llm_tool_call list \<Rightarrow> bool" where
  "fresh_calls used calls \<longleftrightarrow>
     distinct (used @ map lc_id calls) \<and> (\<forall>c\<in>set calls. CHR 0x0A \<notin> set (lc_id c))"

definition arrivals_ok :: "string \<Rightarrow> string list \<Rightarrow> arrival list \<Rightarrow> bool" where
  "arrivals_ok chat used evs \<longleftrightarrow>
     (\<forall>(wait, ev)\<in>set evs. quiet chat wait \<and> (\<forall>calls. ev = ToolCalls calls \<longrightarrow> fresh_calls used calls))"

text \<open>Nobody else writes to the conversation, the clock does not run back, and the model gives each call a new id.\<close>

definition orderly_env :: "string \<Rightarrow> turn_env \<Rightarrow> bool" where
  "orderly_env chat env \<longleftrightarrow>
     quiet chat (te_pause env) \<and> (\<forall>call. quiet chat (\<lambda>w. fst (te_tool env w call))) \<and>
     (\<forall>rq. quiet chat (\<lambda>w. fst (te_stream env w rq))) \<and>
     (\<forall>w rq w' evs. te_stream env w rq = (w', Ok evs) \<longrightarrow> arrivals_ok chat (all_calls (rows_in chat w)) evs)"

definition accepted :: "act \<Rightarrow> bool" where
  "accepted a \<longleftrightarrow> (\<forall>rq. a = Sent rq \<longrightarrow> owed [] (rq_messages rq) = Some [])"

lemma accepted_simps [simp]:
  "accepted (Out ev)" "accepted (Used call)" "accepted (Did e)"
  "accepted (Sent rq) \<longleftrightarrow> owed [] (rq_messages rq) = Some []"
  by (simp_all add: accepted_def)

lemma calls_not_tool: "has_calls r \<Longrightarrow> cw_role r \<noteq> ''tool''"
  by (auto simp: has_calls_def)

lemma open_results:
  "(\<forall>t\<in>set ts. cw_role t = ''tool'') \<Longrightarrow> map result_id ts = map Some ans \<Longrightarrow>
   rows_open (ans @ rest) ts = Some rest"
  by (induction ts arbitrary: ans) (auto simp: Cons_eq_map_conv map_eq_Cons_conv)

lemma batch_orderly: "batch chat used mid (ans @ rest) ans w \<Longrightarrow> orderly chat w"
  by (auto simp: batch_def orderly_def batch_rows_def rows_open_append calls_not_tool call_ids_def open_results)

lemma quiet_tidy: "quiet chat f \<Longrightarrow> tidy chat w \<Longrightarrow> tidy chat (f w)"
  unfolding quiet_def tidy_def tidy_rows_def by (metis order_trans)

lemma quiet_rows: "quiet chat f \<Longrightarrow> rows_in chat (f w) = rows_in chat w"
  by (simp add: quiet_def)

lemma quiet_keeps:
  "quiet chat f \<Longrightarrow> orderly chat w \<Longrightarrow> orderly chat (f w)"
  "quiet chat f \<Longrightarrow> batch chat used mid ids ans w \<Longrightarrow> batch chat used mid ids ans (f w)"
  by (simp_all add: orderly_def batch_def quiet_rows quiet_tidy)

text \<open>An orderly conversation makes a request that a provider accepts.\<close>

lemma orderly_history_now:
  assumes "orderly chat w"
  shows "owed [] (build_history fault chat (tw_store w)) = Some []"
proof -
  have "sort_key cw_created_at (rows_in chat w) = rows_in chat w"
    using assms by (simp add: orderly_def tidy_def tidy_rows_def sort_key_id_if_sorted)
  then show ?thesis
    using assms orderly_history
    by (auto simp: build_history_def list_chat_messages_def query_def orderly_def tidy_def tidy_rows_def
        split: option.splits sum.splits)
qed

section \<open>What the statements do to a conversation\<close>

lemma insert_message_rows:
  assumes "cw_chat row = chat" "insert_chat_message row fault s = res"
  shows "(\<exists>e. res = Err (e, s)) \<or>
    (\<exists>s'. (res = Ok s' \<or> (\<exists>e. res = Err (e, s'))) \<and> chat_rows chat s' = chat_rows chat s @ [row] \<and>
       st_commands s' = st_commands s \<and> cw_id row \<notin> cw_id ` set (chat_rows chat s))"
  using assms by (auto simp: insert_chat_message_def execute_def chat_rows_def split: option.splits if_splits)

lemma update_row_rows:
  assumes "\<And>r. cw_chat (f r) = cw_chat r"
  shows "update_row i f fault s = Ok s' \<Longrightarrow>
      chat_rows chat s' = map (\<lambda>r. if cw_id r = i then f r else r) (chat_rows chat s) \<and> st_commands s' = st_commands s"
    "update_row i f fault s = Err (e, s') \<Longrightarrow> s' = s"
proof -
  have "filter (\<lambda>r. cw_chat r = chat) (map (\<lambda>r. if cw_id r = i then f r else r) rows) =
      map (\<lambda>r. if cw_id r = i then f r else r) (filter (\<lambda>r. cw_chat r = chat) rows)" for rows
    by (induction rows) (auto simp: assms)
  then show "update_row i f fault s = Ok s' \<Longrightarrow>
      chat_rows chat s' = map (\<lambda>r. if cw_id r = i then f r else r) (chat_rows chat s) \<and> st_commands s' = st_commands s"
    by (auto simp: update_row_def execute_def chat_rows_def split: option.splits)
qed (auto simp: update_row_def execute_def split: option.splits)

text \<open>Statements on other tables.\<close>

definition elsewhere :: "(fault \<Rightarrow> statement) \<Rightarrow> bool" where
  "elsewhere stmt \<longleftrightarrow>
     (\<forall>fault s s'. stmt fault s = Ok s' \<or> (\<exists>e. stmt fault s = Err (e, s')) \<longrightarrow>
        st_rows s' = st_rows s \<and> st_commands s' = st_commands s)"

lemma elsewhere_statements [simp]:
  "elsewhere (insert_mission m)" "elsewhere (insert_reasoning_step st)" "elsewhere (insert_pending_ask a)"
  "elsewhere (resolve_pending_ask i status now)" "elsewhere (set_credential name v)"
  by (auto simp: elsewhere_def insert_mission_def insert_reasoning_step_def insert_pending_ask_def
      resolve_pending_ask_def set_credential_def execute_def split: option.splits)

lemma same_rows:
  assumes "rows_in chat w' = rows_in chat w" "pendings chat w' = pendings chat w" "tw_now w' = tw_now w"
  shows "tidy chat w' = tidy chat w" "orderly chat w' = orderly chat w"
    "batch chat used mid ids ans w' = batch chat used mid ids ans w" "settled chat w' = settled chat w"
  using assms by (simp_all add: tidy_def tidy_rows_def orderly_def batch_def settled_def awaiting_def)

text \<open>A new row, dated now, with an id of its own.\<close>

lemma tidy_new_row:
  assumes "tidy chat w" "rows_in chat w' = rows_in chat w @ [row]" "tw_now w' = tw_now w"
    "pendings chat w' = pendings chat w" "cw_created_at row = tw_now w" "cw_id row \<notin> cw_id ` set (rows_in chat w)"
    "distinct (all_calls (rows_in chat w) @ call_ids row)"
  shows "tidy chat w'"
  using assms by (auto simp: tidy_def tidy_rows_def sorted_append)

lemma orderly_new_row:
  assumes "orderly chat w" "cw_role row \<noteq> ''tool''" "rows_in chat w' = rows_in chat w @ [row]" "tw_now w' = tw_now w"
    "pendings chat w' = pendings chat w" "cw_created_at row = tw_now w" "cw_id row \<notin> cw_id ` set (rows_in chat w)"
    "distinct (all_calls (rows_in chat w) @ call_ids row)"
  shows "orderly chat w'" "has_calls row \<Longrightarrow> batch chat (all_calls (rows_in chat w)) (cw_id row) (map ct_id (row_calls row)) [] w'"
proof -
  have t: "tidy chat w'" using tidy_new_row [OF _ assms(3-8)] assms(1) by (simp add: orderly_def)
  obtain ids where ids: "rows_open [] (rows_in chat w) = Some ids" using assms(1) by (auto simp: orderly_def)
  with t assms(2,3) show "orderly chat w'" by (auto simp: orderly_def rows_open_append)
  show "has_calls row \<Longrightarrow> batch chat (all_calls (rows_in chat w)) (cw_id row) (map ct_id (row_calls row)) [] w'"
    using t ids assms(3) unfolding batch_def batch_rows_def by (fastforce simp: call_ids_def)
qed

lemma batch_result_row:
  assumes "batch chat used mid ids ans w" "cw_role row = ''tool''" "result_id row = Some i"
    "rows_in chat w' = rows_in chat w @ [row]" "tw_now w' = tw_now w" "pendings chat w' = pendings chat w" "cw_created_at row = tw_now w"
    "cw_id row \<notin> cw_id ` set (rows_in chat w)"
  shows "batch chat used mid ids (ans @ [i]) w'"
proof -
  have t: "tidy chat w'"
    using assms by (intro tidy_new_row [of chat w w' row]) (auto simp: batch_def tidy_def tidy_rows_def tool_no_calls)
  obtain pre r ts where b: "rows_in chat w = pre @ r # ts" "cw_id r = mid" "has_calls r"
    "map ct_id (row_calls r) = ids" "rows_open [] pre \<noteq> None" "\<forall>t\<in>set ts. cw_role t = ''tool''"
    "map result_id ts = map Some ans" using assms(1) by (auto simp: batch_def batch_rows_def)
  have "rows_in chat w' = pre @ r # (ts @ [row])" using b(1) assms(4) by simp
  with b assms(2,3) have "batch_rows mid ids (ans @ [i]) (rows_in chat w')"
    unfolding batch_rows_def by (intro exI [of _ pre] exI [of _ r] exI [of _ "ts @ [row]"]) auto
  with t assms(1,2,4) show ?thesis by (simp add: batch_def tool_no_calls)
qed

text \<open>A change of the reply's row: its text, its thinking, or its calls.\<close>

lemma batch_update:
  assumes b: "batch chat used mid ids ans w"
    and f: "\<And>r. cw_id (f r) = cw_id r" "\<And>r. cw_role (f r) = cw_role r" "\<And>r. cw_created_at (f r) = cw_created_at r"
    and calls: "\<And>r. map ct_id (row_calls r) = ids \<Longrightarrow> map ct_id (row_calls (f r)) = ids'"
    and rows: "rows_in chat w' = map (\<lambda>r. if cw_id r = mid then f r else r) (rows_in chat w)" "tw_now w' = tw_now w"
      "pendings chat w' = pendings chat w"
    and new: "distinct (used @ ids')"
  shows "batch chat used mid ids' ans w'"
proof -
  obtain pre r ts where r: "rows_in chat w = pre @ r # ts" "cw_id r = mid" "has_calls r"
    "map ct_id (row_calls r) = ids" "rows_open [] pre \<noteq> None" "\<forall>t\<in>set ts. cw_role t = ''tool''"
    "map result_id ts = map Some ans" using b by (auto simp: batch_def batch_rows_def)
  have tidy: "tidy chat w" using b by (simp add: batch_def)
  have "mid \<notin> cw_id ` set pre \<union> cw_id ` set ts" using tidy r(1,2) by (auto simp: tidy_def tidy_rows_def)
  then have "map (\<lambda>r. if cw_id r = mid then f r else r) pre = pre" "map (\<lambda>r. if cw_id r = mid then f r else r) ts = ts"
    by (auto intro!: map_idI)
  then have rows': "rows_in chat w' = pre @ f r # ts" using rows(1) r(1,2) by simp
  have hc: "has_calls (f r)" using r(3) f(2) by (simp add: has_calls_def)
  have ts: "all_calls ts = []" using r(6) by (auto simp: tool_no_calls)
  have "all_calls pre = used" using b ts r(1,3,4) by (simp add: batch_def call_ids_def)
  then have all: "all_calls (rows_in chat w') = used @ ids'"
    unfolding rows' using hc calls [OF r(4)] ts by (simp add: call_ids_def)
  have "map cw_created_at (rows_in chat w') = map cw_created_at (rows_in chat w)"
    "map cw_id (rows_in chat w') = map cw_id (rows_in chat w)"
    using f by (simp_all add: rows' r(1))
  moreover have "\<forall>r\<in>set (rows_in chat w'). cw_created_at r \<le> tw_now w'"
    using tidy rows f by (auto simp: tidy_def tidy_rows_def)
  ultimately have "tidy chat w'" using tidy new all rows(3) by (simp add: tidy_def tidy_rows_def)
  moreover have "batch_rows mid ids' ans (rows_in chat w')"
    unfolding batch_rows_def rows' using r f hc calls [OF r(4)] by blast
  ultimately show ?thesis using all by (simp add: batch_def)
qed

section \<open>The pieces of a turn\<close>

definition stable :: "string \<Rightarrow> (turn_world \<Rightarrow> bool) \<Rightarrow> bool" where
  "stable chat P \<longleftrightarrow>
     (\<forall>w w'. rows_in chat w' = rows_in chat w \<longrightarrow> pendings chat w' = pendings chat w \<longrightarrow> tw_now w \<le> tw_now w' \<longrightarrow> P w \<longrightarrow> P w')"

lemma stable_orderly: "stable chat (orderly chat)"
  unfolding stable_def orderly_def tidy_def tidy_rows_def by (metis order_trans)

lemma stable_batch: "stable chat (batch chat used mid ids ans)"
  unfolding stable_def batch_def tidy_def tidy_rows_def by (metis order_trans)

lemma stable_conj: "stable chat P \<Longrightarrow> stable chat Q \<Longrightarrow> stable chat (\<lambda>w. P w \<and> Q w)"
  unfolding stable_def by blast

lemma stable_rows: "stable chat (\<lambda>w. F (rows_in chat w))"
  unfolding stable_def by simp

text \<open>A piece that sends acceptable requests only, and leaves a settled conversation at every act and when the turn
  returns in it.\<close>

abbreviation okay :: "string \<Rightarrow> (turn_world \<Rightarrow> bool) \<Rightarrow> 'a turn \<Rightarrow> ('a \<Rightarrow> turn_world \<Rightarrow> bool) \<Rightarrow> bool" where
  "okay chat P m Q \<equiv> triple P m (\<lambda>(a, w). accepted a \<and> settled chat w) Q (settled chat)"

lemma orderly_settled: "orderly chat w \<Longrightarrow> settled chat w"
  by (simp add: settled_def)

lemma pendings_store: "st_commands s = st_commands (tw_store w) \<Longrightarrow> pendings chat (w\<lparr>tw_store := s\<rparr>) = pendings chat w"
  by (simp add: pendings_def)

lemma okay_quiet: "quiet chat f \<Longrightarrow> stable chat P \<Longrightarrow> okay chat P (pass f) (\<lambda>_. P)"
  by (rule triple_pass) (auto simp: quiet_def stable_def)

lemma okay_elsewhere:
  assumes "elsewhere stmt" "stable chat P" "\<And>w. P w \<Longrightarrow> orderly chat w"
  shows "okay chat P (perform env stmt) (\<lambda>_. P)"
proof (rule triple_perform)
  have same: "rows_in chat (w\<lparr>tw_store := s\<rparr>) = rows_in chat w" "pendings chat (w\<lparr>tw_store := s\<rparr>) = pendings chat w"
    if "stmt (store_fault env w) (tw_store w) = Ok s \<or> (\<exists>e. stmt (store_fault env w) (tw_store w) = Err (e, s))" for w s
  proof -
    have "st_rows s = st_rows (tw_store w)" "st_commands s = st_commands (tw_store w)"
      using assms(1) that unfolding elsewhere_def by blast+
    then show "rows_in chat (w\<lparr>tw_store := s\<rparr>) = rows_in chat w" "pendings chat (w\<lparr>tw_store := s\<rparr>) = pendings chat w"
      by (simp_all add: chat_rows_def pendings_def)
  qed
  fix w s
  { fix e assume p: "P w" and e: "stmt (store_fault env w) (tw_store w) = Err (e, s)"
    have "settled chat (w\<lparr>tw_store := s\<rparr>) = settled chat w"
      using same [of w s] e by (intro same_rows(4)) auto
    with assms(3) [OF p] show "settled chat (w\<lparr>tw_store := s\<rparr>)" by (simp add: orderly_settled) }
  assume "P w" "stmt (store_fault env w) (tw_store w) = Ok s"
  moreover have "tw_now w \<le> tw_now (w\<lparr>tw_store := s\<rparr>)" by simp
  ultimately show "P (w\<lparr>tw_store := s\<rparr>)" using assms(2) same [of w s] unfolding stable_def by blast
qed simp

lemma okay_ask: "(\<And>w. P w \<Longrightarrow> orderly chat w) \<Longrightarrow> okay chat P (ask_store env q) (\<lambda>_. P)"
  by (rule triple_ask) (auto intro: orderly_settled)

lemma okay_look: "okay chat P (look f) (\<lambda>_. P)"
  by (rule triple_look)

lemma okay_act: "accepted a \<Longrightarrow> (\<And>w. P w \<Longrightarrow> orderly chat w) \<Longrightarrow> okay chat P (act a) (\<lambda>_. P)"
  by (rule triple_act) (auto intro: orderly_settled)

lemma okay_out: "okay chat (orderly chat) (out ev) (\<lambda>_. orderly chat)"
  by (rule okay_act) auto

lemma okay_stop: "(\<And>w. P w \<Longrightarrow> orderly chat w) \<Longrightarrow> okay chat P (stop ev) Q"
  by (rule triple_stop) (auto intro: orderly_settled)

lemma okay_cancelled: "orderly_env chat env \<Longrightarrow> stable chat P \<Longrightarrow> okay chat P (cancelled env) (\<lambda>_. P)"
  unfolding cancelled_def
  by (rule triple_seq [where Q' = "\<lambda>_. P"]) (auto simp: orderly_env_def okay_look intro: okay_quiet)

lemma okay_insert_row:
  assumes ord: "\<And>w. P w \<Longrightarrow> orderly (tc_chat cfg) w"
    and new: "\<And>w w' row. P w \<Longrightarrow> cw_role row = role \<Longrightarrow> cw_content row = content \<Longrightarrow> cw_calls row = calls \<Longrightarrow>
      cw_created_at row = tw_now w \<Longrightarrow> rows_in (tc_chat cfg) w' = rows_in (tc_chat cfg) w @ [row] \<Longrightarrow> tw_now w' = tw_now w \<Longrightarrow>
      pendings (tc_chat cfg) w' = pendings (tc_chat cfg) w \<Longrightarrow> cw_id row \<notin> cw_id ` set (rows_in (tc_chat cfg) w) \<Longrightarrow> Q (cw_id row) w' \<and> orderly (tc_chat cfg) w'"
  shows "okay (tc_chat cfg) P (insert_row env cfg role content calls) Q"
  unfolding insert_row_def
proof (rule triple_seq [where Q' = "\<lambda>p w. P w \<and> snd p = tw_now w"])
  show "okay (tc_chat cfg) P (look (\<lambda>w. (te_uuid env w, tw_now w))) (\<lambda>p w. P w \<and> snd p = tw_now w)"
    by (rule triple_look) simp
  fix p :: "string \<times> timestamp"
  obtain i now where p: "p = (i, now)" by fastforce
  let ?row = "\<lparr>cw_id = i, cw_chat = tc_chat cfg, cw_role = role, cw_content = content, cw_calls = calls,
    cw_reasoning = None, cw_created_at = now\<rparr>"
  have "okay (tc_chat cfg) (\<lambda>w. P w \<and> now = tw_now w) (perform env (insert_chat_message ?row)) (\<lambda>_. Q i)"
  proof (rule triple_perform)
    fix w s
    note rows = insert_message_rows [of ?row "tc_chat cfg" "store_fault env w" "tw_store w", simplified]
    { fix e assume "P w \<and> now = tw_now w" "insert_chat_message ?row (store_fault env w) (tw_store w) = Err (e, s)"
      with rows new [of w ?row "w\<lparr>tw_store := s\<rparr>"] ord show "settled (tc_chat cfg) (w\<lparr>tw_store := s\<rparr>)"
        by (auto simp: pendings_def intro: orderly_settled) }
    assume "P w \<and> now = tw_now w" "insert_chat_message ?row (store_fault env w) (tw_store w) = Ok s"
    with rows new [of w ?row "w\<lparr>tw_store := s\<rparr>"] show "Q i (w\<lparr>tw_store := s\<rparr>)" by (auto simp: pendings_def)
  qed simp
  then have "okay (tc_chat cfg) (\<lambda>w. P w \<and> now = tw_now w)
      (seq (perform env (insert_chat_message ?row)) (\<lambda>_. ret i)) Q"
    by (rule triple_seq) (rule triple_ret)
  then show "okay (tc_chat cfg) (\<lambda>w. P w \<and> snd p = tw_now w) (case p of (i, now) \<Rightarrow>
      seq (perform env (insert_chat_message \<lparr>cw_id = i, cw_chat = tc_chat cfg, cw_role = role, cw_content = content,
        cw_calls = calls, cw_reasoning = None, cw_created_at = now\<rparr>)) (\<lambda>_. ret i)) Q"
    by (simp add: p)
qed

lemma okay_update:
  assumes "prefix ans ids" "prefix ans ids'" "\<And>r. cw_chat (f r) = cw_chat r" "\<And>r. cw_id (f r) = cw_id r"
    "\<And>r. cw_role (f r) = cw_role r" "\<And>r. cw_created_at (f r) = cw_created_at r"
    "\<And>r. map ct_id (row_calls r) = ids \<Longrightarrow> map ct_id (row_calls (f r)) = ids'"
    "distinct (used @ ids')"
    "\<And>w. P w \<Longrightarrow> batch chat used mid ids ans w"
  shows "okay chat P (perform env (update_row mid f)) (\<lambda>_. batch chat used mid ids' ans)"
proof (rule triple_perform)
  fix w s
  { fix e assume "P w" "update_row mid f (store_fault env w) (tw_store w) = Err (e, s)"
    then have "s = tw_store w" "batch chat used mid ids ans w" using update_row_rows(2) [OF assms(3)] assms(9) by blast+
    then show "settled chat (w\<lparr>tw_store := s\<rparr>)"
      using assms(1) by (auto simp: prefix_def intro: batch_orderly orderly_settled) }
  assume p: "P w" and "update_row mid f (store_fault env w) (tw_store w) = Ok s"
  then have "rows_in chat (w\<lparr>tw_store := s\<rparr>) = map (\<lambda>r. if cw_id r = mid then f r else r) (rows_in chat w)"
    "pendings chat (w\<lparr>tw_store := s\<rparr>) = pendings chat w"
    using update_row_rows(1) [OF assms(3)] by (simp_all add: pendings_store)
  from batch_update [OF assms(9) [OF p] assms(4,5,6,7) this(1) _ this(2) assms(8)]
  show "batch chat used mid ids' ans (w\<lparr>tw_store := s\<rparr>)" by simp
qed simp

subsection \<open>A reply and its calls\<close>

definition reply_ok :: "string \<Rightarrow> string list \<Rightarrow> reply \<Rightarrow> turn_world \<Rightarrow> bool" where
  "reply_ok chat used rp w \<longleftrightarrow>
     orderly chat w \<and> all_calls (rows_in chat w) = used \<and> fresh_calls used (rp_calls rp) \<and>
     (\<forall>i. rp_id rp = Some i \<longrightarrow> batch chat used i [] [] w)"

lemma stable_reply: "stable chat (reply_ok chat used rp)"
  using stable_orderly [of chat] stable_batch [of chat used] unfolding stable_def reply_ok_def by fastforce

lemma batch_reply: "batch chat used i [] [] w \<Longrightarrow> fresh_calls used (rp_calls rp) \<Longrightarrow> rp_id rp = Some i \<Longrightarrow> reply_ok chat used rp w"
  using batch_orderly [of chat used i "[]" "[]" w] by (simp add: reply_ok_def batch_def)

lemma reply_okD: "reply_ok chat used rp w \<Longrightarrow> orderly chat w"
  by (simp add: reply_ok_def)

lemma okay_out_reply: "okay chat (reply_ok chat used rp) (out ev) (\<lambda>_. reply_ok chat used rp)"
  by (rule okay_act) (simp_all add: reply_okD)

lemma okay_act_batch:
  "accepted a \<Longrightarrow> prefix ans ids \<Longrightarrow> okay chat (batch chat used mid ids ans) (act a) (\<lambda>_. batch chat used mid ids ans)"
  by (rule okay_act) (auto simp: prefix_def intro: batch_orderly)

lemma fresh_calls_distinct: "fresh_calls used calls \<Longrightarrow> distinct (used @ map lc_id calls)" "fresh_calls used calls \<Longrightarrow> distinct used"
  by (auto simp: fresh_calls_def)

lemma okay_text_update:
  assumes "prefix ans ids" "\<And>w. P w \<Longrightarrow> batch chat used mid ids ans w"
    "\<And>r. cw_chat (f r) = cw_chat r \<and> cw_id (f r) = cw_id r \<and> cw_role (f r) = cw_role r \<and>
       cw_created_at (f r) = cw_created_at r \<and> cw_calls (f r) = cw_calls r" "distinct (used @ ids)"
  shows "okay chat P (perform env (update_row mid f)) (\<lambda>_. batch chat used mid ids ans)"
  by (rule okay_update [OF assms(1,1)]) (use assms in \<open>auto simp: row_calls_def\<close>)

lemma okay_put_delta:
  "okay (tc_chat cfg) (reply_ok (tc_chat cfg) used rp) (put_delta env cfg delta rp) (reply_ok (tc_chat cfg) used)"
proof (cases "rp_id rp")
  case (Some i)
  let ?rp = "rp\<lparr>rp_content := rp_content rp @ delta\<rparr>"
  have "okay (tc_chat cfg) (reply_ok (tc_chat cfg) used rp)
      (perform env (append_chat_message_content i delta)) (\<lambda>_. reply_ok (tc_chat cfg) used ?rp)"
  proof (rule triple_fact [where F = "fresh_calls used (rp_calls rp)"])
    assume fresh: "fresh_calls used (rp_calls rp)"
    have "okay (tc_chat cfg) (reply_ok (tc_chat cfg) used rp)
        (perform env (append_chat_message_content i delta)) (\<lambda>_. batch (tc_chat cfg) used i [] [])"
      unfolding append_chat_message_content_def
      by (rule okay_text_update) (use Some fresh_calls_distinct [OF fresh] in \<open>auto simp: reply_ok_def\<close>)
    then show "okay (tc_chat cfg) (reply_ok (tc_chat cfg) used rp)
        (perform env (append_chat_message_content i delta)) (\<lambda>_. reply_ok (tc_chat cfg) used ?rp)"
      by (rule triple_post) (use fresh Some in \<open>auto intro: batch_reply\<close>)
  qed (simp add: reply_ok_def)
  then show ?thesis
    unfolding put_delta_def by (simp add: Some) (rule triple_seq, assumption, rule triple_ret, assumption)
next
  case None
  have "okay (tc_chat cfg) (reply_ok (tc_chat cfg) used rp) (insert_row env cfg ''assistant'' delta None)
      (\<lambda>i. reply_ok (tc_chat cfg) used (rp\<lparr>rp_content := rp_content rp @ delta, rp_id := Some i\<rparr>))"
  proof (rule okay_insert_row)
    fix w w' row
    assume a: "reply_ok (tc_chat cfg) used rp w" "cw_role row = ''assistant''" "cw_calls row = None"
      "cw_created_at row = tw_now w" "rows_in (tc_chat cfg) w' = rows_in (tc_chat cfg) w @ [row]"
      "tw_now w' = tw_now w" "pendings (tc_chat cfg) w' = pendings (tc_chat cfg) w"
      "cw_id row \<notin> cw_id ` set (rows_in (tc_chat cfg) w)"
    have c: "call_ids row = []" "has_calls row" "row_calls row = []"
      using a(2,3) by (simp_all add: call_ids_def has_calls_def row_calls_def)
    have "orderly (tc_chat cfg) w" "distinct (all_calls (rows_in (tc_chat cfg) w) @ call_ids row)"
      using a(1) c by (auto simp: reply_ok_def orderly_def tidy_def tidy_rows_def)
    from orderly_new_row [OF this(1) _ a(5,6,7,4,8) this(2)] a(1,2,5) c
    show "reply_ok (tc_chat cfg) used (rp\<lparr>rp_content := rp_content rp @ delta, rp_id := Some (cw_id row)\<rparr>) w' \<and>
        orderly (tc_chat cfg) w'"
      by (auto simp: reply_ok_def intro!: batch_reply)
  qed (simp add: reply_okD)
  then show ?thesis
    unfolding put_delta_def by (simp add: None) (rule triple_seq, assumption, rule triple_ret, simp)
qed

lemma okay_reply_stream:
  assumes "arrivals_ok (tc_chat cfg) used evs"
  shows "okay (tc_chat cfg) (reply_ok (tc_chat cfg) used rp) (reply_stream env cfg evs rp) (reply_ok (tc_chat cfg) used)"
  using assms
proof (induction env cfg evs rp rule: reply_stream.induct)
  case (1 env cfg rp)
  show ?case by (simp add: triple_ret)
next
  case (2 env cfg wait ev evs rp)
  let ?ok = "reply_ok (tc_chat cfg) used"
  have q: "quiet (tc_chat cfg) wait" and rest: "arrivals_ok (tc_chat cfg) used evs"
    and new: "\<And>calls. ev = ToolCalls calls \<Longrightarrow> fresh_calls used calls"
    using 2(5) by (auto simp: arrivals_ok_def)
  note ih = 2(1-4)
  show ?case
    unfolding reply_stream.simps
  proof (rule triple_seq [OF okay_quiet [OF q stable_reply]], rule triple_seq [OF okay_look], rule triple_if, goal_cases)
    case 1
    show ?case by (rule triple_seq [OF okay_out_reply]) (rule triple_ret)
  next
    case (2 _ stopped)
    show ?case
    proof (cases ev)
      case (AssistantDelta delta)
      with 2 ih(1) rest show ?thesis
        by (auto intro!: triple_seq [OF okay_put_delta] triple_seq [OF okay_out_reply])
    next
      case (ReasoningDelta delta)
      have "?ok rp w \<Longrightarrow> ?ok (rp\<lparr>rp_reasoning := rp_reasoning rp @ delta\<rparr>) w" for w by (simp add: reply_ok_def)
      with 2 ih(2) rest ReasoningDelta show ?thesis by (auto intro: triple_pre)
    next
      case (ToolCalls calls)
      have "?ok rp w \<Longrightarrow> ?ok (rp\<lparr>rp_calls := calls\<rparr>) w" for w using new [OF ToolCalls] by (simp add: reply_ok_def)
      with 2 ih(3) rest ToolCalls show ?thesis by (auto intro: triple_pre)
    next
      case (Usage u)
      with 2 ih(4) rest show ?thesis by (auto intro!: triple_seq [OF okay_out_reply])
    qed (auto intro: triple_ret okay_stop reply_okD)
  qed
qed

lemma batch_distinct: "batch chat used mid ids ans w \<Longrightarrow> distinct (used @ ids)"
  by (auto simp: batch_def tidy_def tidy_rows_def)

lemma prefix_orderly: "prefix ans ids \<Longrightarrow> batch chat used mid ids ans w \<Longrightarrow> orderly chat w"
  by (auto simp: prefix_def intro: batch_orderly)

lemma okay_keep_batch:
  assumes "prefix ans ids"
  shows "okay chat (batch chat used mid ids ans) (keep_reasoning env re (Some mid)) (\<lambda>_. batch chat used mid ids ans)"
  unfolding keep_reasoning_def set_chat_message_reasoning_def option.case
proof (rule triple_fact [OF _ batch_distinct])
  assume "distinct (used @ ids)"
  then show "okay chat (batch chat used mid ids ans) (if re = [] then ret ()
      else perform env (update_row mid (\<lambda>r. r\<lparr>cw_reasoning := Some re\<rparr>))) (\<lambda>_. batch chat used mid ids ans)"
    by (auto intro!: triple_ret okay_text_update assms)
qed

lemma okay_keep_reply:
  "okay chat (reply_ok chat used rp) (keep_reasoning env re (rp_id rp)) (\<lambda>_. reply_ok chat used rp)"
proof (cases "rp_id rp")
  case (Some i)
  show ?thesis
  proof (rule triple_fact [where F = "fresh_calls used (rp_calls rp)"])
    assume fresh: "fresh_calls used (rp_calls rp)"
    have "okay chat (reply_ok chat used rp) (keep_reasoning env re (Some i)) (\<lambda>_. batch chat used i [] [])"
      by (rule triple_pre [OF okay_keep_batch]) (auto simp: reply_ok_def Some)
    then show "okay chat (reply_ok chat used rp) (keep_reasoning env re (rp_id rp)) (\<lambda>_. reply_ok chat used rp)"
      unfolding Some by (rule triple_post) (use fresh Some in \<open>auto intro: batch_reply\<close>)
  qed (simp add: reply_ok_def)
qed (simp add: keep_reasoning_def triple_ret)

lemma planned_ids [simp]: "map ct_id (map planned calls) = map lc_id calls"
  by (simp add: planned_def)

lemma okay_attach_calls:
  "okay (tc_chat cfg) (reply_ok (tc_chat cfg) used rp) (attach_calls env cfg rp)
     (\<lambda>mid. batch (tc_chat cfg) used mid (map lc_id (rp_calls rp)) [])"
proof (cases "rp_id rp")
  case (Some i)
  let ?ids = "map lc_id (rp_calls rp)"
  have "okay (tc_chat cfg) (reply_ok (tc_chat cfg) used rp)
      (perform env (set_chat_message_tool_calls i (map planned (rp_calls rp)))) (\<lambda>_. batch (tc_chat cfg) used i ?ids [])"
  proof (rule triple_fact [where F = "fresh_calls used (rp_calls rp)"])
    assume fresh: "fresh_calls used (rp_calls rp)"
    show "okay (tc_chat cfg) (reply_ok (tc_chat cfg) used rp)
        (perform env (set_chat_message_tool_calls i (map planned (rp_calls rp)))) (\<lambda>_. batch (tc_chat cfg) used i ?ids [])"
      unfolding set_chat_message_tool_calls_def
      by (rule okay_update [where ids = "[]"])
        (use Some fresh_calls_distinct [OF fresh] in \<open>auto simp: reply_ok_def row_calls_def planned_def\<close>)
  qed (simp add: reply_ok_def)
  then show ?thesis
    unfolding attach_calls_def by (simp add: Some) (rule triple_seq, assumption, rule triple_ret, simp)
next
  case None
  have "okay (tc_chat cfg) (reply_ok (tc_chat cfg) used rp)
      (insert_row env cfg ''assistant'' [] (Some (map planned (rp_calls rp))))
      (\<lambda>mid. batch (tc_chat cfg) used mid (map lc_id (rp_calls rp)) [])"
  proof (rule okay_insert_row)
    fix w w' row
    assume a: "reply_ok (tc_chat cfg) used rp w" "cw_role row = ''assistant''"
      "cw_calls row = Some (map planned (rp_calls rp))"
      "cw_created_at row = tw_now w" "rows_in (tc_chat cfg) w' = rows_in (tc_chat cfg) w @ [row]"
      "tw_now w' = tw_now w" "pendings (tc_chat cfg) w' = pendings (tc_chat cfg) w"
      "cw_id row \<notin> cw_id ` set (rows_in (tc_chat cfg) w)"
    have c: "has_calls row" "map ct_id (row_calls row) = map lc_id (rp_calls rp)"
      using a(2,3) by (simp_all add: has_calls_def row_calls_def planned_def)
    have "orderly (tc_chat cfg) w" "distinct (all_calls (rows_in (tc_chat cfg) w) @ call_ids row)"
      using a(1) c fresh_calls_distinct by (auto simp: reply_ok_def call_ids_def)
    from orderly_new_row [OF this(1) _ a(5,6,7,4,8) this(2)] a(1,2) c
    show "batch (tc_chat cfg) used (cw_id row) (map lc_id (rp_calls rp)) [] w' \<and> orderly (tc_chat cfg) w'"
      by (auto simp: reply_ok_def)
  qed (simp add: reply_okD)
  then show ?thesis unfolding attach_calls_def by (simp add: None)
qed

lemma okay_persist_records:
  assumes "prefix ans ids" "prefix ans ids'" "map ct_id recs = ids'" "set ids' \<subseteq> set ids" "distinct ids'"
  shows "okay chat (batch chat used mid ids ans) (persist_tool_call_records env mid recs) (\<lambda>_. batch chat used mid ids' ans)"
proof (rule triple_fact [OF _ batch_distinct])
  assume "distinct (used @ ids)"
  then have "distinct (used @ ids')" using assms(4,5) by auto
  then show "okay chat (batch chat used mid ids ans) (persist_tool_call_records env mid recs) (\<lambda>_. batch chat used mid ids' ans)"
    unfolding persist_tool_call_records_def set_chat_message_tool_calls_def
    by (intro okay_update [OF assms(1,2)]) (auto simp: row_calls_def assms(3))
qed

lemma okay_insert_pending:
  assumes "cd_chat row = chat" "cd_status row = ''pending''" "cd_message row = mid" "CHR 0x0A \<notin> set (cd_call row)"
  shows "okay chat (batch chat used mid (ans @ [cd_call row]) ans) (perform env (insert_pending_command row))
    (\<lambda>_. awaiting chat)"
proof (rule triple_perform)
  fix w s
  let ?i = "cd_call row"
  { fix e assume "batch chat used mid (ans @ [?i]) ans w"
      "insert_pending_command row (store_fault env w) (tw_store w) = Err (e, s)"
    then show "settled chat (w\<lparr>tw_store := s\<rparr>)"
      by (auto simp: insert_pending_command_def execute_def split: option.splits
          intro!: orderly_settled intro: batch_orderly) }
  assume b: "batch chat used mid (ans @ [?i]) ans w"
    and ok: "insert_pending_command row (store_fault env w) (tw_store w) = Ok s"
  let ?cs = "st_commands (tw_store w)"
  have s: "s = tw_store w\<lparr>st_commands :=
      upsert cd_call (\<lambda>old new. new\<lparr>cd_created_at := cd_created_at old\<rparr>) row ?cs\<rparr>"
    using ok by (auto simp: insert_pending_command_def execute_def split: option.splits)
  have none: "cd_chat c = chat \<Longrightarrow> cd_status c \<noteq> ''pending''" if "c \<in> set ?cs" for c
    using b that by (auto simp: batch_def tidy_def pendings_def filter_empty_conv)
  have "set (pendings chat (w\<lparr>tw_store := s\<rparr>)) \<noteq> {} \<and>
      (\<forall>c\<in>set (pendings chat (w\<lparr>tw_store := s\<rparr>)). cd_call c = ?i \<and> cd_message c = mid)"
  proof (cases "?i \<in> cd_call ` set ?cs")
    case True
    then obtain c where "c \<in> set ?cs" "cd_call c = ?i" by auto
    then have "row\<lparr>cd_created_at := cd_created_at c\<rparr> \<in> set (pendings chat (w\<lparr>tw_store := s\<rparr>))"
      using True assms(1,2) by (auto simp: pendings_def s upsert_def)
    then have "set (pendings chat (w\<lparr>tw_store := s\<rparr>)) \<noteq> {}" by (metis empty_iff)
    moreover have "cd_call c = ?i \<and> cd_message c = mid" if "c \<in> set (pendings chat (w\<lparr>tw_store := s\<rparr>))" for c
      using that True none assms(3) by (auto simp: pendings_def s upsert_def split: if_splits)
    ultimately show ?thesis by blast
  next
    case False
    with none assms(1-3) show ?thesis by (auto simp: pendings_def s upsert_def)
  qed
  moreover have "rows_in chat (w\<lparr>tw_store := s\<rparr>) = rows_in chat w" by (simp add: s chat_rows_def)
  ultimately show "awaiting chat (w\<lparr>tw_store := s\<rparr>)"
    using b assms(4) unfolding awaiting_def batch_def tidy_def tidy_rows_def by auto
qed simp

lemma okay_propose:
  assumes "map ct_id recs = ans @ lc_id call # rest" "index = length ans" "distinct (ans @ lc_id call # rest)"
    "CHR 0x0A \<notin> set (lc_id call)"
  shows "okay (tc_chat cfg) (batch (tc_chat cfg) used mid (ans @ lc_id call # rest) ans)
    (propose env cfg mid index call recs) Q"
proof -
  have recs: "map ct_id (take (Suc index) recs) = ans @ [lc_id call]"
    using assms(1,2) by (simp add: take_map [symmetric])
  let ?row = "\<lambda>now. \<lparr>cd_call = lc_id call, cd_chat = tc_chat cfg, cd_message = mid,
    cd_candidates = command_candidates (call_arguments env call), cd_cwd = tc_workspace cfg,
    cd_status = ''pending'', cd_created_at = now, cd_updated_at = now\<rparr>"
  have "okay (tc_chat cfg) (batch (tc_chat cfg) used mid (ans @ [lc_id call]) ans)
      (seq (perform env (insert_pending_command (?row now)))
        (\<lambda>_. stop (EvCommandProposed (lc_id call) (command_candidates (call_arguments env call)) (tc_workspace cfg)))) Q" for now
    by (rule triple_seq [OF okay_insert_pending [of "?row now", simplified]])
      (auto intro: triple_stop simp: settled_def assms(4))
  then show ?thesis
    unfolding propose_def Let_def
    by (intro triple_seq [OF okay_look] triple_seq [OF okay_persist_records [where ids' = "ans @ [lc_id call]"]])
      (use recs assms(3) in auto)
qed

lemma result_id_text: "CHR 0x0A \<notin> set i \<Longrightarrow> cw_content row = i @ CHR 0x0A # body \<Longrightarrow> result_id row = Some i"
proof -
  have "CHR 0x0A \<notin> set i \<Longrightarrow> split_once (CHR 0x0A) (i @ CHR 0x0A # body) = Some (i, body)"
    by (induction i) auto
  then show "CHR 0x0A \<notin> set i \<Longrightarrow> cw_content row = i @ CHR 0x0A # body \<Longrightarrow> result_id row = Some i"
    by (simp add: result_id_def)
qed

lemma okay_result_row:
  assumes "CHR 0x0A \<notin> set i" "prefix (ans @ [i]) ids"
  shows "okay (tc_chat cfg) (batch (tc_chat cfg) used mid ids ans) (insert_row env cfg ''tool'' (i @ CHR 0x0A # body) None)
    (\<lambda>_. batch (tc_chat cfg) used mid ids (ans @ [i]))"
proof (rule okay_insert_row)
  show "batch (tc_chat cfg) used mid ids ans w \<Longrightarrow> orderly (tc_chat cfg) w" for w
    using assms(2) by (intro prefix_orderly [of ans ids]) (auto simp: prefix_def)
  fix w w' row
  assume "batch (tc_chat cfg) used mid ids ans w" "cw_role row = ''tool''" "cw_content row = i @ CHR 0x0A # body"
    "cw_created_at row = tw_now w" "rows_in (tc_chat cfg) w' = rows_in (tc_chat cfg) w @ [row]"
    "tw_now w' = tw_now w" "pendings (tc_chat cfg) w' = pendings (tc_chat cfg) w"
      "cw_id row \<notin> cw_id ` set (rows_in (tc_chat cfg) w)"
  then have "batch (tc_chat cfg) used mid ids (ans @ [i]) w'"
    using batch_result_row result_id_text [OF assms(1)] by blast
  then show "batch (tc_chat cfg) used mid ids (ans @ [i]) w' \<and> orderly (tc_chat cfg) w'"
    using prefix_orderly [OF assms(2)] by blast
qed

lemma okay_finish_call:
  assumes "CHR 0x0A \<notin> set (lc_id call)" "map ct_id recs = ids" "ids = ans @ lc_id call # rest" "index = length ans" "distinct ids"
  shows "okay (tc_chat cfg) (batch (tc_chat cfg) used mid ids ans) (finish_call env cfg mid index call recs res)
    (\<lambda>recs' w. map ct_id recs' = ids \<and> batch (tc_chat cfg) used mid ids (ans @ [lc_id call]) w)"
proof -
  have ids: "map ct_id (recs[index := (recs ! index)\<lparr>ct_status := st, ct_result := re, ct_diff := di\<rparr>]) = ids"
    "map ct_id (recs[index := (recs ! index)\<lparr>ct_status := st, ct_result := re\<rparr>]) = ids" for st re di
    using assms(2-4) by (auto simp: map_update list_eq_iff_nth_eq nth_list_update)
  have pre: "prefix (ans @ [lc_id call]) ids" using assms(3) by (simp add: prefix_def)
  show ?thesis
    unfolding finish_call_def Let_def
    by (cases res)
      (auto split: prod.split intro!: triple_seq [OF okay_result_row [OF assms(1) pre]]
        triple_seq [OF okay_persist_records [OF pre pre]] triple_seq [OF okay_act_batch [OF accepted_simps(1) pre]]
        triple_ret simp: ids assms(5))
qed

lemma okay_call_out: "quiet chat (\<lambda>w. fst (f w)) \<Longrightarrow> stable chat P \<Longrightarrow> okay chat P (call_out f) (\<lambda>_. P)"
  by (rule triple_call_out) (metis fst_conv quiet_def stable_def)

lemma okay_run_calls:
  assumes env: "orderly_env (tc_chat cfg) env"
    and "\<forall>c\<in>set calls. CHR 0x0A \<notin> set (lc_id c)" "map ct_id recs = ans @ map lc_id calls" "index = length ans"
  shows "okay (tc_chat cfg) (batch (tc_chat cfg) used mid (ans @ map lc_id calls) ans)
    (run_calls env cfg mid index calls recs) (\<lambda>_. orderly (tc_chat cfg))"
  using assms(2-4)
proof (induction calls arbitrary: recs ans index)
  case Nil
  show ?case by (simp, rule triple_ret, rule prefix_orderly) auto
next
  case (Cons call calls)
  let ?ids = "ans @ lc_id call # map lc_id calls"
  let ?b = "batch (tc_chat cfg) used mid ?ids"
  let ?recs = "recs[index := (recs ! index)\<lparr>ct_status := CallRunning\<rparr>]"
  have recs: "map ct_id ?recs = ?ids"
    using Cons(3,4) by (auto simp: map_update list_eq_iff_nth_eq nth_list_update)
  have pre: "prefix ans ?ids" by simp
  have "okay (tc_chat cfg) (?b ans) (run_calls env cfg mid index (call # calls) recs) (\<lambda>_. orderly (tc_chat cfg))"
  proof (rule triple_fact [OF _ batch_distinct])
    assume "distinct (used @ ?ids)"
    then have d: "distinct ?ids" by auto
    have nl: "CHR 0x0A \<notin> set (lc_id call)" using Cons(2) by simp
    have tail: "okay (tc_chat cfg) (?b (ans @ [lc_id call])) (run_calls env cfg mid (Suc index) calls recs')
        (\<lambda>_. orderly (tc_chat cfg))" if "map ct_id recs' = ?ids" for recs'
      using Cons(1) [of recs' "ans @ [lc_id call]" "Suc index"] Cons(2,4) that by simp
    have "okay (tc_chat cfg) (?b ans) (seq (finish_call env cfg mid index call ?recs res)
        (run_calls env cfg mid (Suc index) calls)) (\<lambda>_. orderly (tc_chat cfg))" for res
    proof (rule triple_seq [OF okay_finish_call [OF _ recs refl Cons(4) d]])
      show "CHR 0x0A \<notin> set (lc_id call)" using Cons(2) by simp
      show "okay (tc_chat cfg) (\<lambda>w. map ct_id recs' = ?ids \<and> ?b (ans @ [lc_id call]) w)
          (run_calls env cfg mid (Suc index) calls recs') (\<lambda>_. orderly (tc_chat cfg))" for recs'
        by (rule triple_fact [where F = "map ct_id recs' = ?ids"], rule triple_pre [OF tail]) auto
    qed
    note body = this
    have tool: "quiet (tc_chat cfg) (\<lambda>w. fst (te_tool env w call))" using env by (simp add: orderly_env_def)
    show "okay (tc_chat cfg) (?b ans) (run_calls env cfg mid index (call # calls) recs) (\<lambda>_. orderly (tc_chat cfg))"
      unfolding run_calls.simps Let_def
    proof (rule triple_seq [OF okay_cancelled [OF env stable_batch]], rule triple_if, goal_cases)
      case 1
      show ?case by (rule triple_post [OF okay_act_batch [OF accepted_simps(1) pre]]) (rule batch_orderly)
    next
      case 2
      show ?case
        by (rule triple_seq [OF okay_persist_records [OF pre pre recs subset_refl d]],
            rule triple_seq [OF okay_act_batch [OF accepted_simps(1) pre]], rule triple_if,
            rule okay_propose [OF recs Cons(4) d nl], rule triple_seq [OF okay_act_batch [OF accepted_simps(2) pre]], rule triple_seq [OF okay_call_out [OF tool stable_batch]])
          (use body in simp)
    qed
  qed
  then show ?case by simp
qed

section \<open>The loops and the turn\<close>

lemma okay_history:
  "okay (tc_chat cfg) (orderly (tc_chat cfg)) (history_now env cfg)
     (\<lambda>h w. orderly (tc_chat cfg) w \<and> owed [] h = Some [])"
  unfolding history_now_def by (rule triple_look) (simp add: orderly_history_now)

lemma okay_send:
  assumes env: "orderly_env chat env" and rq: "owed [] (rq_messages rq) = Some []"
  shows "okay chat (orderly chat) (send_request env rq)
    (\<lambda>evs w. orderly chat w \<and> arrivals_ok chat (all_calls (rows_in chat w)) evs)"
  unfolding send_request_def
proof (rule triple_seq [where Q' = "\<lambda>_. orderly chat"])
  show "okay chat (orderly chat) (act (Sent rq)) (\<lambda>_. orderly chat)" by (rule okay_act) (simp_all add: rq)
  let ?Q = "\<lambda>r w. orderly chat w \<and> (\<forall>evs. r = Ok evs \<longrightarrow> arrivals_ok chat (all_calls (rows_in chat w)) evs)"
  have "okay chat (orderly chat) (call_out (\<lambda>w. te_stream env w rq)) ?Q"
  proof (rule triple_call_out)
    fix w w' r assume o: "orderly chat w" and s: "te_stream env w rq = (w', r)"
    have "quiet chat (\<lambda>w. fst (te_stream env w rq))" using env by (simp add: orderly_env_def)
    from quiet_keeps(1) [OF this o] quiet_rows [OF this, of w] s
    have "orderly chat w'" "rows_in chat w' = rows_in chat w" by simp_all
    with env s show "?Q r w'" by (auto simp: orderly_env_def)
  qed
  then show "okay chat (orderly chat) (seq (call_out (\<lambda>w. te_stream env w rq))
      (\<lambda>r. case r of Err e \<Rightarrow> stop (EvError e) | Ok evs \<Rightarrow> ret evs))
      (\<lambda>evs w. orderly chat w \<and> arrivals_ok chat (all_calls (rows_in chat w)) evs)"
    by (rule triple_seq) (auto split: sum.split intro: triple_ret okay_stop)
qed

lemma okay_reply:
  "okay (tc_chat cfg) (\<lambda>w. orderly (tc_chat cfg) w \<and> arrivals_ok (tc_chat cfg) (all_calls (rows_in (tc_chat cfg) w)) evs)
     (reply_stream env cfg evs no_reply) (\<lambda>rp w. \<exists>used. reply_ok (tc_chat cfg) used rp w)"
proof -
  have "okay (tc_chat cfg) (\<lambda>w. arrivals_ok (tc_chat cfg) used evs \<and> reply_ok (tc_chat cfg) used no_reply w)
      (reply_stream env cfg evs no_reply) (\<lambda>rp w. \<exists>used. reply_ok (tc_chat cfg) used rp w)" for used
    by (rule triple_fact [where F = "arrivals_ok (tc_chat cfg) used evs"],
        rule triple_conseq [OF okay_reply_stream]) auto
  from triple_ex [OF this] show ?thesis
    by (rule triple_pre) (auto simp: reply_ok_def no_reply_def fresh_calls_def orderly_def tidy_def tidy_rows_def)
qed

lemma okay_execute_loop:
  assumes env: "orderly_env (tc_chat cfg) env"
  shows "okay (tc_chat cfg) (orderly (tc_chat cfg)) (execute_loop env cfg tools mission n prev) (\<lambda>_. orderly (tc_chat cfg))"
proof (induction n arbitrary: prev)
  case 0
  show ?case
    unfolding execute_loop.simps
    by (rule triple_seq [OF okay_cancelled [OF env stable_orderly]]) (auto intro: okay_stop)
next
  case (Suc n)
  have calls: "okay (tc_chat cfg) (reply_ok (tc_chat cfg) used rp)
      (seq (attach_calls env cfg rp) (\<lambda>message.
       seq (keep_reasoning env (rp_reasoning rp) (Some message)) (\<lambda>_.
       seq (run_calls env cfg message 0 (rp_calls rp) (map planned (rp_calls rp))) (\<lambda>_.
         execute_loop env cfg tools mission n prev')))) (\<lambda>_. orderly (tc_chat cfg))" for used rp prev'
  proof (rule triple_fact [where F = "fresh_calls used (rp_calls rp)"])
    assume "fresh_calls used (rp_calls rp)"
    then have nl: "\<forall>c\<in>set (rp_calls rp). CHR 0x0A \<notin> set (lc_id c)" by (simp add: fresh_calls_def)
    have "okay (tc_chat cfg) (batch (tc_chat cfg) used mid (map lc_id (rp_calls rp)) [])
        (run_calls env cfg mid 0 (rp_calls rp) (map planned (rp_calls rp))) (\<lambda>_. orderly (tc_chat cfg))" for mid
      using okay_run_calls [OF env nl, of "map planned (rp_calls rp)" "[]" 0 used mid] by (simp add: planned_def)
    then show "okay (tc_chat cfg) (reply_ok (tc_chat cfg) used rp)
      (seq (attach_calls env cfg rp) (\<lambda>message.
       seq (keep_reasoning env (rp_reasoning rp) (Some message)) (\<lambda>_.
       seq (run_calls env cfg message 0 (rp_calls rp) (map planned (rp_calls rp))) (\<lambda>_.
         execute_loop env cfg tools mission n prev')))) (\<lambda>_. orderly (tc_chat cfg))"
      using Suc by (intro triple_seq [OF okay_attach_calls] triple_seq [OF okay_keep_batch]) (auto intro: triple_seq)
  qed (simp add: reply_ok_def)
  show ?case
    unfolding execute_loop.simps
  proof (rule triple_seq [OF okay_cancelled [OF env stable_orderly]], rule triple_if, goal_cases)
    case 1
    show ?case by (rule okay_stop)
  next
    case 2
    show ?case
    proof (rule triple_seq [OF okay_history], goal_cases)
      case (1 history)
      show ?case
      proof (rule triple_fact [where F = "owed [] history = Some []"], rule triple_pre [where P' = "orderly (tc_chat cfg)"])
        assume "owed [] history = Some []"
        then have "owed [] (rq_messages (execution_request cfg tools mission history)) = Some []"
          by (simp add: execution_request_def with_tools_def with_messages_def owed_append plain_message_def)
        then show "okay (tc_chat cfg) (orderly (tc_chat cfg))
          (seq (send_request env (execution_request cfg tools mission history)) (\<lambda>evs.
           seq (reply_stream env cfg evs no_reply) (\<lambda>rp.
           seq (keep_reasoning env (rp_reasoning rp) (rp_id rp)) (\<lambda>_.
           if rp_calls rp = [] \<or> (rp_content rp = [] \<and> rp_calls rp = prev) then ret ()
           else
             let prev = (if rp_content rp = [] then rp_calls rp else prev) in
             seq (attach_calls env cfg rp) (\<lambda>message.
             seq (keep_reasoning env (rp_reasoning rp) (Some message)) (\<lambda>_.
             seq (run_calls env cfg message 0 (rp_calls rp) (map planned (rp_calls rp))) (\<lambda>_.
               execute_loop env cfg tools mission n prev))))))) (\<lambda>_. orderly (tc_chat cfg))"
          unfolding Let_def
          by (intro triple_seq [OF okay_send [OF env]] triple_seq [OF okay_reply] triple_ex
              triple_seq [OF okay_keep_reply] triple_if calls triple_ret) (auto simp: reply_okD)
      qed auto
    qed
  qed
qed

lemma okay_plan_stream:
  assumes "arrivals_ok (tc_chat cfg) used evs"
  shows "okay (tc_chat cfg) (orderly (tc_chat cfg)) (plan_stream cfg evs content calls) (\<lambda>_. orderly (tc_chat cfg))"
  using assms
proof (induction cfg evs content calls rule: plan_stream.induct)
  case (1 cfg content calls)
  show ?case by (simp add: triple_ret)
next
  case (2 cfg wait ev evs content calls)
  have q: "quiet (tc_chat cfg) wait" and rest: "arrivals_ok (tc_chat cfg) used evs"
    using 2(5) by (auto simp: arrivals_ok_def)
  show ?case
    unfolding plan_stream.simps
  proof (rule triple_seq [OF okay_quiet [OF q stable_orderly]], rule triple_seq [OF okay_look], rule triple_if, goal_cases)
    case (2 _ stopped)
    with "2.IH" rest show ?case
      by (cases ev) (auto intro: triple_ret okay_stop triple_seq [OF okay_out])
  qed (rule okay_stop)
qed

lemma okay_user_row:
  "okay (tc_chat cfg) (orderly (tc_chat cfg)) (insert_row env cfg ''user'' content None) (\<lambda>_. orderly (tc_chat cfg))"
proof (rule okay_insert_row)
  fix w w' row
  assume "orderly (tc_chat cfg) w" "cw_role row = ''user''" "cw_created_at row = tw_now w"
    "rows_in (tc_chat cfg) w' = rows_in (tc_chat cfg) w @ [row]" "tw_now w' = tw_now w" "pendings (tc_chat cfg) w' = pendings (tc_chat cfg) w"
    "cw_id row \<notin> cw_id ` set (rows_in (tc_chat cfg) w)"
  then show "orderly (tc_chat cfg) w' \<and> orderly (tc_chat cfg) w'"
    using orderly_new_row(1) [of "tc_chat cfg" w row w']
    by (simp add: call_ids_def has_calls_def orderly_def tidy_def tidy_rows_def)
qed

lemma okay_ask_user:
  "okay (tc_chat cfg) (orderly (tc_chat cfg)) (ask_user env cfg mission calls) (\<lambda>_. orderly (tc_chat cfg))"
  unfolding ask_user_def
  by (auto split: option.split prod.split intro!: triple_ret triple_seq [OF okay_user_row] triple_seq [OF okay_look]
      triple_seq [OF okay_elsewhere] okay_stop stable_orderly)

lemma okay_load:
  "okay (tc_chat cfg) (orderly (tc_chat cfg)) (load_or_create_mission env cfg goal) (\<lambda>_. orderly (tc_chat cfg))"
  unfolding load_or_create_mission_def
  by (auto split: option.split prod.split intro!: triple_ret triple_seq [OF okay_ask] triple_seq [OF okay_look]
      triple_seq [OF okay_elsewhere] stable_orderly)

lemma okay_persist:
  "okay chat (orderly chat) (persist_mission env mission) (\<lambda>_. orderly chat)"
  "okay chat (orderly chat) (persist_reasoning_step env mid s) (\<lambda>_. orderly chat)"
  unfolding persist_mission_def persist_reasoning_step_def
  by (auto split: prod.split intro!: triple_seq [OF okay_look] okay_elsewhere stable_orderly)

lemma okay_plan:
  "okay (tc_chat cfg) (\<lambda>w. orderly (tc_chat cfg) w \<and> arrivals_ok (tc_chat cfg) (all_calls (rows_in (tc_chat cfg) w)) evs)
     (plan_stream cfg evs content calls) (\<lambda>_. orderly (tc_chat cfg))"
  by (rule triple_fact [where F = "\<exists>used. arrivals_ok (tc_chat cfg) used evs"])
    (auto intro: triple_pre [OF okay_plan_stream])

lemma okay_reasoning_request:
  assumes "orderly_env (tc_chat cfg) env"
  shows "okay (tc_chat cfg) (\<lambda>w. orderly (tc_chat cfg) w \<and> owed [] history = Some [])
    (send_request env (reasoning_request cfg mission mode history))
    (\<lambda>evs w. orderly (tc_chat cfg) w \<and> arrivals_ok (tc_chat cfg) (all_calls (rows_in (tc_chat cfg) w)) evs)"
  by (rule triple_fact [where F = "owed [] history = Some []"], rule triple_pre [OF okay_send [OF assms]])
    (simp_all add: reasoning_request_def with_tools_def with_messages_def)

lemma okay_reason:
  assumes env: "orderly_env (tc_chat cfg) env"
  shows "okay (tc_chat cfg) (orderly (tc_chat cfg)) (reason env cfg n step mission mode) (\<lambda>_. orderly (tc_chat cfg))"
proof (induction n arbitrary: step mission mode)
  case 0
  show ?case by (simp add: triple_ret)
next
  case (Suc n)
  show ?case
    unfolding reason.simps Let_def
  proof (rule triple_seq [OF okay_cancelled [OF env stable_orderly]], rule triple_if, goal_cases)
    case 1
    show ?case by (rule okay_stop)
  next
    case 2
    show ?case
      by (rule triple_seq [OF okay_history], rule triple_seq [OF okay_act [OF accepted_simps(1) conjunct1]], assumption,
          rule triple_seq [OF okay_reasoning_request [OF env]], rule triple_seq [OF okay_plan])
        (auto split: prod.split intro!: triple_seq [OF okay_persist(2)] triple_seq [OF okay_out] triple_ret
          triple_seq [OF okay_ask_user] Suc triple_seq [OF triple_ret, where Q' = "\<lambda>_. orderly (tc_chat cfg)"])
  qed
qed

lemma okay_run_mission:
  assumes env: "orderly_env (tc_chat cfg) env"
  shows "okay (tc_chat cfg) (orderly (tc_chat cfg)) (run_mission env cfg prompt) (\<lambda>_. orderly (tc_chat cfg))"
proof -
  have plan: "okay (tc_chat cfg) (orderly (tc_chat cfg)) (plan_mission env cfg mission) (\<lambda>_. orderly (tc_chat cfg))" for mission
    unfolding plan_mission_def using okay_reason [OF env] by (auto intro: triple_ret)
  have fin: "okay (tc_chat cfg) (orderly (tc_chat cfg)) (finish_mission env mission) (\<lambda>_. orderly (tc_chat cfg))" for mission
    unfolding finish_mission_def Let_def by (auto intro!: triple_seq [OF okay_persist(1)] triple_seq [OF okay_out] okay_out)
  show ?thesis
    unfolding run_mission_def
    by (rule triple_seq [OF okay_load], rule triple_seq [OF okay_out], rule triple_seq [OF okay_look],
        rule triple_seq [OF plan])
      (auto split: prod.split intro!: okay_stop triple_seq [OF okay_execute_loop [OF env]] fin)
qed

end
