(* ===== verification/Agent_Resume.thy ===== *)
theory Agent_Resume
  imports Agent_Conversation
begin

text \<open>
  The two ways back into a suspended turn (\<open>crates/goble-core/src/reasoning/resume.rs\<close>): the answer to a
  question and the decision on a command. A decision runs at most the text the user approved, records
  the outcome where the command was planned, and continues the mission.
\<close>

section \<open>Resuming\<close>

datatype command_decision = DecideApprove string | DecideEdit string | DecideReject string

text \<open>What the outermost error of a failed command says.\<close>

fun command_error_text :: "command_error \<Rightarrow> string" where
  "command_error_text (NotAllowed command) = ''command `'' @ command @ ''` is not in the allowed list''"
| "command_error_text EmptyLine = ''the command line is empty''"
| "command_error_text EmptyCommand = ''the agent asked for an empty command''"
| "command_error_text (SandboxDenied _) = ''failed to execute command''"
| "command_error_text (SandboxFailed _) = ''failed to execute command''"
| "command_error_text CommandTimedOut = ''command timed out''"
| "command_error_text (FailedToExecute _) = ''failed to execute command''"
| "command_error_text (CommandFailed stderr) = ''command failed: '' @ stderr"
| "command_error_text (PaneError e) = e"
| "command_error_text (CredentialError e) = e"
| "command_error_text (UnknownCredential name) =
     ''unknown credential `'' @ name @ ''`; use the `credentials` tool to list stored credentials''"
| "command_error_text MessageRequired = ''message is required''"

text \<open>The host of a command, with the credentials the store holds.\<close>

definition get_credential :: "string \<Rightarrow> fault \<Rightarrow> chat_store \<Rightarrow> (string, string option) result" where
  "get_credential name = query (\<lambda>s. map_of (st_credentials s) name)"

definition turn_host :: "turn_env \<Rightarrow> turn_world \<Rightarrow> host" where
  "turn_host env w =
     (te_host env w)\<lparr>h_credential := \<lambda>name. get_credential name (store_fault env w) (tw_store w)\<rparr>"

definition run_line :: "turn_env \<Rightarrow> string \<Rightarrow> (string, string) result turn" where
  "run_line env line w =
     (case run_approved_command (turn_host env w) (te_runner env) line of
        (effs, res) \<Rightarrow>
          (map (\<lambda>e. (Did e, w)) effs, te_pause env w,
           Some (case res of Err e \<Rightarrow> Err (command_error_text e) | Ok v \<Rightarrow> Ok v)))"

fun carry_out :: "turn_env \<Rightarrow> command_decision \<Rightarrow> (string, string) result turn" where
  "carry_out env (DecideReject why) =
     ret (Err (if trim why = [] then ''rejected by user'' else ''rejected by user: '' @ why))"
| "carry_out env (DecideApprove line) = run_line env line"
| "carry_out env (DecideEdit line) = run_line env line"

definition update_record :: "string \<Rightarrow> tool_call_status \<Rightarrow> string \<Rightarrow> chat_tool_call list \<Rightarrow> chat_tool_call list" where
  "update_record call status body recs =
     upd_first (\<lambda>r. ct_id r = call) (\<lambda>r. r\<lparr>ct_status := status, ct_result := Some body\<rparr>) recs"

definition rewrite_record ::
  "turn_env \<Rightarrow> string \<Rightarrow> string \<Rightarrow> tool_call_status \<Rightarrow> string \<Rightarrow> chat_row list \<Rightarrow> unit turn" where
  "rewrite_record env message call status body rows =
     (case find (\<lambda>r. cw_id r = message) rows of
        None \<Rightarrow> ret ()
      | Some row \<Rightarrow>
          (case cw_calls row of
             None \<Rightarrow> ret ()
           | Some recs \<Rightarrow>
               if find (\<lambda>r. ct_id r = call) recs = None then ret ()
               else persist_tool_call_records env message (update_record call status body recs)))"

definition record_command_outcome ::
  "turn_env \<Rightarrow> turn_cfg \<Rightarrow> string \<Rightarrow> string \<Rightarrow> tool_call_status \<Rightarrow> string \<Rightarrow> unit turn" where
  "record_command_outcome env cfg message call status body =
     seq (insert_row env cfg ''tool'' (call @ nl @ body) None) (\<lambda>_.
     if message = [] then ret ()
     else
       seq (ask_store env (list_chat_messages (tc_chat cfg))) (\<lambda>rows.
         rewrite_record env message call status body rows))"

definition open_goal :: "turn_env \<Rightarrow> turn_cfg \<Rightarrow> turn_world \<Rightarrow> string" where
  "open_goal env cfg w =
     (case list_missions (store_fault env w) (tw_store w) of
        Err _ \<Rightarrow> []
      | Ok missions \<Rightarrow> (case open_mission (tc_chat cfg) missions of None \<Rightarrow> [] | Some m \<Rightarrow> mr_goal m))"

text \<open>From the decision on: its outcome is recorded, told, and the mission goes on.\<close>

definition continue_with :: "turn_env \<Rightarrow> turn_cfg \<Rightarrow> command_row \<Rightarrow> command_decision \<Rightarrow> unit turn" where
  "continue_with env cfg p decision =
     seq (carry_out env decision) (\<lambda>outcome.
     seq (case outcome of
            Ok v \<Rightarrow> record_command_outcome env cfg (cd_message p) (cd_call p) CallFinished v
          | Err e \<Rightarrow> record_command_outcome env cfg (cd_message p) (cd_call p) CallError e) (\<lambda>_.
     seq (out (case outcome of
            Ok v \<Rightarrow> EvToolCallFinished (cd_call p) v
          | Err e \<Rightarrow> EvToolCallError (cd_call p) e)) (\<lambda>_.
     seq (look (open_goal env cfg)) (\<lambda>goal. run_mission env cfg goal))))"

definition resume_command_turn :: "turn_env \<Rightarrow> turn_cfg \<Rightarrow> command_decision \<Rightarrow> unit turn" where
  "resume_command_turn env cfg decision =
     seq (look (\<lambda>w. (tw_now w, get_pending_command (tc_chat cfg) (store_fault env w) (tw_store w)))) (\<lambda>(now, pending).
     case pending of
       Ok (Some p) \<Rightarrow>
         seq (perform env (resolve_pending_command (cd_call p) ''resolved'' now)) (\<lambda>_.
           continue_with env cfg p decision)
     | _ \<Rightarrow> stop (EvError ''no pending command for chat''))"

text \<open>The name of a credential entered with an answer; the value goes to the store, the name into the answer.\<close>

definition store_credential :: "turn_env \<Rightarrow> (string \<times> string) option \<Rightarrow> string turn" where
  "store_credential env credential =
     (case credential of
        None \<Rightarrow> ret []
      | Some (name, val) \<Rightarrow>
          seq (look (te_uuid env)) (\<lambda>i.
          let name = (if trim name = [] then ''cred_'' @ filter (\<lambda>c. c \<noteq> CHR ''-'') i else name) in
          seq (perform env (set_credential name val)) (\<lambda>_.
            ret (nl @ ''Credential stored as '' @ name @
              ''. Reference it in run_command as {{credential:'' @ name @ ''}}.''))))"

definition resume_mission_turn ::
  "turn_env \<Rightarrow> turn_cfg \<Rightarrow> string \<Rightarrow> (string \<times> string) option \<Rightarrow> unit turn" where
  "resume_mission_turn env cfg response credential =
     seq (look (\<lambda>w. (tw_now w, get_pending_ask (tc_chat cfg) (store_fault env w) (tw_store w)))) (\<lambda>(now, pending).
     case pending of
       Ok (Some ask) \<Rightarrow>
         seq (perform env (resolve_pending_ask (ar_id ask) ''answered'' now)) (\<lambda>_.
         seq (store_credential env credential) (\<lambda>note.
         seq (insert_row env cfg ''user''
           (''Answer to question '' @ [CHR 0x27] @ ar_question ask @ [CHR 0x27] @ '': '' @ response @ note) None) (\<lambda>_.
           run_mission_turn env (cfg\<lparr>tc_reasoning := True\<rparr>) response)))
     | _ \<Rightarrow> stop (EvError ''no pending ask for chat''))"

section \<open>Order after a decision\<close>

lemma okay_run_line:
  "orderly_env chat env \<Longrightarrow> stable chat P \<Longrightarrow> (\<And>w. P w \<Longrightarrow> settled chat w) \<Longrightarrow> okay chat P (run_line env line) (\<lambda>_. P)"
  by (auto simp: triple_def run_line_def orderly_env_def quiet_def stable_def list_all_iff split: prod.splits)

lemma okay_carry_out: "orderly_env chat env \<Longrightarrow> stable chat P \<Longrightarrow> (\<And>w. P w \<Longrightarrow> settled chat w) \<Longrightarrow> okay chat P (carry_out env decision) (\<lambda>_. P)"
  by (cases decision) (auto intro: okay_run_line triple_ret)

lemma update_record_ids: "map ct_id (update_record call status body recs) = map ct_id recs"
proof -
  have "map ct_id (upd_first P (\<lambda>r. r\<lparr>ct_status := status, ct_result := Some body\<rparr>) recs) = map ct_id recs" for P
    by (induction recs) auto
  then show ?thesis by (simp add: update_record_def)
qed

lemma okay_rows:
  "okay chat (batch chat used mid ids ids) (ask_store env (list_chat_messages chat))
     (\<lambda>rows w. batch chat used mid ids ids w \<and> rows = rows_in chat w)"
proof (rule triple_ask)
  show "batch chat used mid ids ids w \<Longrightarrow> settled chat w" for w
    using prefix_orderly [of ids ids] by (auto intro: orderly_settled)
  fix w a
  assume b: "batch chat used mid ids ids w" and q: "list_chat_messages chat (store_fault env w) (tw_store w) = Ok a"
  have "sorted (map cw_created_at (rows_in chat w))" using b by (simp add: batch_def tidy_def tidy_rows_def)
  with b q show "batch chat used mid ids ids w \<and> a = rows_in chat w"
    by (auto simp: list_chat_messages_def query_def sort_key_id_if_sorted split: option.splits)
qed simp

lemma batch_row:
  assumes "batch chat used mid ids ans w" "find (\<lambda>r. cw_id r = mid) (rows_in chat w) = Some row"
  shows "map ct_id (row_calls row) = ids"
proof -
  obtain pre r ts where r: "rows_in chat w = pre @ r # ts" "cw_id r = mid" "map ct_id (row_calls r) = ids"
    using assms(1) by (auto simp: batch_def batch_rows_def)
  have "row \<in> set (rows_in chat w)" "cw_id row = mid" using assms(2) by (auto simp: find_Some_iff)
  moreover have "distinct (map cw_id (rows_in chat w))" using assms(1) by (simp add: batch_def tidy_def tidy_rows_def)
  ultimately have "row = r" using r(1,2) by (auto simp: distinct_map inj_on_def)
  with r(3) show ?thesis by simp
qed

lemma okay_rewrite_record:
  assumes "i \<in> set ids"
  shows "okay chat (\<lambda>w. batch chat used mid ids ids w \<and> rows = rows_in chat w)
    (rewrite_record env mid i status body rows) (\<lambda>_. orderly chat)"
proof (cases "find (\<lambda>r. cw_id r = mid) rows")
  have ord: "batch chat used mid ids ids w \<Longrightarrow> orderly chat w" for w using prefix_orderly [of ids ids] by simp
  case None
  then show ?thesis unfolding rewrite_record_def by (auto intro: triple_ret ord)
next
  have ord: "batch chat used mid ids ids w \<Longrightarrow> orderly chat w" for w using prefix_orderly [of ids ids] by simp
  case (Some row)
  show ?thesis
  proof (rule triple_fact [where F = "map ct_id (row_calls row) = ids \<and> distinct (used @ ids)"])
    assume ids: "map ct_id (row_calls row) = ids \<and> distinct (used @ ids)"
    have "okay chat (batch chat used mid ids ids) (persist_tool_call_records env mid (update_record i status body recs))
        (\<lambda>_. orderly chat)" if "cw_calls row = Some recs" for recs
      by (rule triple_post [OF okay_persist_records [where ids' = ids]])
        (use ids ord that in \<open>auto simp: update_record_ids row_calls_def\<close>)
    then show "okay chat (\<lambda>w. batch chat used mid ids ids w \<and> rows = rows_in chat w)
        (rewrite_record env mid i status body rows) (\<lambda>_. orderly chat)"
      unfolding rewrite_record_def using Some by (auto split: option.split intro: triple_pre triple_ret ord)
  qed (use Some batch_row batch_distinct in blast)
qed

lemma okay_record_outcome:
  assumes "CHR 0x0A \<notin> set i"
  shows "okay (tc_chat cfg) (batch (tc_chat cfg) used mid (ans @ [i]) ans)
    (record_command_outcome env cfg mid i status body) (\<lambda>_. orderly (tc_chat cfg))"
proof -
  let ?ids = "ans @ [i]"
  have "batch (tc_chat cfg) used mid ?ids ?ids w \<Longrightarrow> orderly (tc_chat cfg) w" for w
    using prefix_orderly [of ?ids ?ids] by simp
  then show ?thesis
    unfolding record_command_outcome_def
    using okay_result_row [OF assms, of ans ?ids cfg used mid env body]
    by (intro triple_seq [where Q' = "\<lambda>_. batch (tc_chat cfg) used mid ?ids ?ids"] triple_if triple_ret
        triple_seq [OF okay_rows okay_rewrite_record]) auto
qed

lemma first_of_mem: "first_of xs = Some x \<Longrightarrow> x \<in> set xs"
  by (auto simp: first_of_def split: list.splits)

lemma okay_resolve:
  "okay chat (\<lambda>w. awaiting chat w \<and> get_pending_command chat (store_fault env w) (tw_store w) = Ok (Some p))
     (perform env (resolve_pending_command (cd_call p) ''resolved'' now))
     (\<lambda>_ w. CHR 0x0A \<notin> set (cd_call p) \<and> (\<exists>used ans. batch chat used (cd_message p) (ans @ [cd_call p]) ans w))"
proof (rule triple_perform)
  fix w s
  { fix e assume "awaiting chat w \<and> get_pending_command chat (store_fault env w) (tw_store w) = Ok (Some p)"
      "resolve_pending_command (cd_call p) ''resolved'' now (store_fault env w) (tw_store w) = Err (e, s)"
    then show "settled chat (w\<lparr>tw_store := s\<rparr>)"
      by (auto simp: resolve_pending_command_def execute_def settled_def split: option.splits) }
  assume a: "awaiting chat w \<and> get_pending_command chat (store_fault env w) (tw_store w) = Ok (Some p)"
    and ok: "resolve_pending_command (cd_call p) ''resolved'' now (store_fault env w) (tw_store w) = Ok s"
  obtain i mid ans where t: "tidy_rows chat w" and
    w: "\<forall>c\<in>set (pendings chat w). cd_call c = i \<and> cd_message c = mid" "CHR 0x0A \<notin> set i"
      "batch_rows mid (ans @ [i]) ans (rows_in chat w)"
    using a by (auto simp: awaiting_def)
  have "p \<in> set (pendings chat w)"
    using a first_of_mem [of "sort_key cd_created_at (pendings chat w)" p]
    by (auto simp: get_pending_command_def query_def pendings_def split: option.splits)
  with w(1) have p: "cd_call p = i" "cd_message p = mid" by auto
  have s: "s = tw_store w\<lparr>st_commands := map (\<lambda>c. if cd_call c = i
      then c\<lparr>cd_status := ''resolved'', cd_updated_at := now\<rparr> else c) (st_commands (tw_store w))\<rparr>"
    using ok p(1) by (auto simp: resolve_pending_command_def execute_def split: option.splits)
  have rows: "rows_in chat (w\<lparr>tw_store := s\<rparr>) = rows_in chat w" by (simp add: s chat_rows_def)
  have "pendings chat (w\<lparr>tw_store := s\<rparr>) = []"
    using w(1) by (auto simp: pendings_def s filter_empty_conv)
  moreover obtain pre r ts where "rows_in chat w = pre @ r # ts" "has_calls r" "map ct_id (row_calls r) = ans @ [i]"
    "\<forall>t\<in>set ts. cw_role t = ''tool''" using w(3) by (auto simp: batch_rows_def)
  then have "all_calls (rows_in chat w) = all_calls pre @ (ans @ [i])" by (auto simp: call_ids_def dest: calls_not_tool)
  ultimately have "batch chat (all_calls pre) mid (ans @ [i]) ans (w\<lparr>tw_store := s\<rparr>)"
    using t w(3) rows by (auto simp: batch_def tidy_def tidy_rows_def)
  with p w(2) show "CHR 0x0A \<notin> set (cd_call p) \<and>
      (\<exists>used ans. batch chat used (cd_message p) (ans @ [cd_call p]) ans (w\<lparr>tw_store := s\<rparr>))" by blast
qed simp

lemma okay_continue:
  assumes env: "orderly_env (tc_chat cfg) env"
  shows "okay (tc_chat cfg) (\<lambda>w. CHR 0x0A \<notin> set (cd_call p) \<and>
      (\<exists>used ans. batch (tc_chat cfg) used (cd_message p) (ans @ [cd_call p]) ans w))
    (continue_with env cfg p decision) (\<lambda>_. orderly (tc_chat cfg))"
  unfolding continue_with_def
  by (rule triple_fact [where F = "CHR 0x0A \<notin> set (cd_call p)"],
      rule triple_pre [where P' = "\<lambda>w. \<exists>used ans. batch (tc_chat cfg) used (cd_message p) (ans @ [cd_call p]) ans w"],
      rule triple_ex, rule triple_ex, rule triple_seq [OF okay_carry_out [OF env stable_batch orderly_settled [OF batch_orderly]]], assumption,
      rule triple_seq [where Q' = "\<lambda>_. orderly (tc_chat cfg)"])
    (auto split: sum.split intro: okay_record_outcome triple_seq [OF okay_out] triple_seq [OF okay_look]
      okay_run_mission [OF env])

lemma okay_resume_command:
  assumes env: "orderly_env (tc_chat cfg) env"
  shows "okay (tc_chat cfg) (settled (tc_chat cfg)) (resume_command_turn env cfg decision) (\<lambda>_. orderly (tc_chat cfg))"
proof -
  let ?get = "\<lambda>w. get_pending_command (tc_chat cfg) (store_fault env w) (tw_store w)"
  have "okay (tc_chat cfg) (\<lambda>w. settled (tc_chat cfg) w \<and> pending = ?get w) (case pending of
       Ok (Some p) \<Rightarrow> seq (perform env (resolve_pending_command (cd_call p) ''resolved'' now)) (\<lambda>_.
         continue_with env cfg p decision)
     | _ \<Rightarrow> stop (EvError ''no pending command for chat'')) (\<lambda>_. orderly (tc_chat cfg))" for now pending
  proof (cases "\<exists>p. pending = Ok (Some p)")
    case True
    then obtain p where p: "pending = Ok (Some p)" by blast
    have "awaiting (tc_chat cfg) w \<and> ?get w = Ok (Some p)" if "settled (tc_chat cfg) w \<and> pending = ?get w" for w
      using that p by (auto simp: settled_def orderly_def tidy_def get_pending_command_def query_def pendings_def
          first_of_def split: option.splits list.splits)
    then show ?thesis
      unfolding p sum.case option.case
      by (intro triple_pre [OF triple_seq [OF okay_resolve okay_continue [OF env]]]) auto
  next
    case False
    then show ?thesis by (auto split: sum.split option.split intro: triple_stop)
  qed
  then show ?thesis
    unfolding resume_command_turn_def
    by (intro triple_seq [where Q' = "\<lambda>p w. settled (tc_chat cfg) w \<and> snd p = ?get w"] triple_look)
      (auto split: prod.split)
qed

lemma okay_resume_mission:
  assumes env: "orderly_env (tc_chat cfg) env"
  shows "okay (tc_chat cfg) (orderly (tc_chat cfg)) (resume_mission_turn env cfg response credential) (\<lambda>_. orderly (tc_chat cfg))"
proof -
  have cred: "okay (tc_chat cfg) (orderly (tc_chat cfg)) (store_credential env credential) (\<lambda>_. orderly (tc_chat cfg))"
    unfolding store_credential_def Let_def
    by (auto split: option.split intro!: triple_ret triple_seq [OF okay_look] triple_seq [OF okay_elsewhere] stable_orderly)
  have turn: "okay (tc_chat cfg) (orderly (tc_chat cfg)) (run_mission_turn env (cfg\<lparr>tc_reasoning := True\<rparr>) response)
      (\<lambda>_. orderly (tc_chat cfg))"
    unfolding run_mission_turn_def
    using okay_user_row [of "cfg\<lparr>tc_reasoning := True\<rparr>"] okay_run_mission [of "cfg\<lparr>tc_reasoning := True\<rparr>" env] env
    by (auto intro: triple_seq)
  show ?thesis
    unfolding resume_mission_turn_def
    by (rule triple_seq [OF okay_look])
      (auto split: prod.split sum.split option.split intro!: okay_stop triple_seq [OF okay_elsewhere]
        triple_seq [OF cred] triple_seq [OF okay_user_row] turn stable_orderly)
qed

section \<open>Conversations\<close>

text \<open>Where a turn may leave the conversation: the stream was read to its end, or dropped at one of its acts.\<close>

definition left_at :: "trace \<times> turn_world \<times> 'a option \<Rightarrow> act list \<Rightarrow> turn_world \<Rightarrow> bool" where
  "left_at run acts w' \<longleftrightarrow>
     (case run of (tr, w, r) \<Rightarrow>
        acts = acts_of tr \<and> w' = w \<or> (\<exists>pre a post. tr = pre @ (a, w') # post \<and> acts = acts_of pre @ [a]))"

text \<open>What a client does with a conversation: it prompts while no command waits, it decides on a command, it answers a
  question, it drops the stream of a turn, and in between the world moves on.\<close>

inductive conversation :: "turn_env \<Rightarrow> turn_cfg \<Rightarrow> turn_world \<Rightarrow> act list \<Rightarrow> turn_world \<Rightarrow> bool" for env cfg w where
  start: "conversation env cfg w [] w"
| prompt: "conversation env cfg w acts w1 \<Longrightarrow> pendings (tc_chat cfg) w1 = [] \<Longrightarrow>
    left_at (run_mission_turn env cfg line w1) acts' w2 \<Longrightarrow> conversation env cfg w (acts @ acts') w2"
| answer: "conversation env cfg w acts w1 \<Longrightarrow> pendings (tc_chat cfg) w1 = [] \<Longrightarrow>
    left_at (resume_mission_turn env cfg line credential w1) acts' w2 \<Longrightarrow> conversation env cfg w (acts @ acts') w2"
| decision: "conversation env cfg w acts w1 \<Longrightarrow>
    left_at (resume_command_turn env cfg d w1) acts' w2 \<Longrightarrow> conversation env cfg w (acts @ acts') w2"
| meanwhile: "conversation env cfg w acts w1 \<Longrightarrow> conversation env cfg w acts (te_pause env w1)"

lemma okay_turn:
  "orderly_env (tc_chat cfg) env \<Longrightarrow>
   okay (tc_chat cfg) (orderly (tc_chat cfg)) (run_mission_turn env cfg line) (\<lambda>_. orderly (tc_chat cfg))"
  unfolding run_mission_turn_def by (rule triple_seq [OF okay_user_row okay_run_mission])

lemma okay_settles:
  assumes "okay chat P m (\<lambda>_. orderly chat)" "P w" "left_at (m w) acts w'"
  shows "list_all accepted acts \<and> settled chat w'"
proof -
  obtain tr v r where m: "m w = (tr, v, r)" by (metis prod_cases3)
  from tripleD [OF assms(1,2) m] have "list_all (\<lambda>(a, w). accepted a \<and> settled chat w) tr" "settled chat v"
    by (auto split: option.splits intro: orderly_settled)
  with assms(3) show ?thesis by (auto simp: left_at_def m list_all_iff split_beta)
qed

lemma settled_free: "settled chat w \<Longrightarrow> pendings chat w = [] \<Longrightarrow> orderly chat w"
  by (auto simp: settled_def awaiting_def)

lemma quiet_settled: "quiet chat f \<Longrightarrow> settled chat w \<Longrightarrow> settled chat (f w)"
  unfolding quiet_def settled_def orderly_def awaiting_def tidy_def tidy_rows_def by (metis order_trans)

lemma conversation_settled:
  assumes "conversation env cfg w acts w'" "orderly_env (tc_chat cfg) env" "settled (tc_chat cfg) w"
  shows "list_all accepted acts \<and> settled (tc_chat cfg) w'"
  using assms
proof (induction rule: conversation.induct)
  case (prompt acts w1 line acts' w2)
  with okay_settles [OF okay_turn _ prompt(3)] settled_free show ?case by auto
next
  case (answer acts w1 line credential acts' w2)
  with okay_settles [OF okay_resume_mission _ answer(3)] settled_free show ?case by auto
next
  case (decision acts w1 d acts' w2)
  with okay_settles [OF okay_resume_command _ decision(2)] show ?case by auto
next
  case (meanwhile acts w1)
  then show ?case by (simp add: quiet_settled orderly_env_def)
qed simp

text \<open>C15. Every request of a conversation is one a provider accepts, through any sequence of prompts, answers,
  approvals and rejections (\<open>run_mission_turn\<close>, \<open>resume_mission_turn\<close>, \<open>resume_command_turn\<close> with
  \<open>build_history\<close>): in its messages each call is answered by exactly one result, in the order of the
  calls, before anything else is said, also after turns that failed, were cancelled in the middle of a
  batch, suspended on a command, or whose stream was dropped at any point. And the conversation always either waits for no command, or for exactly
  the call that ends it. This is for a conversation that starts in order, which nobody else writes to and
  that is not prompted while a command waits, a clock that does not run back, and a model that gives each
  call an id of its own.\<close>

theorem conversation_requests_answered:
  assumes "orderly_env (tc_chat cfg) env" "settled (tc_chat cfg) w" "conversation env cfg w acts w'"
  shows "list_all (\<lambda>a. case a of Sent rq \<Rightarrow> owed [] (rq_messages rq) = Some [] | _ \<Rightarrow> True) acts \<and>
    settled (tc_chat cfg) w'"
  using conversation_settled [OF assms(3,1,2)] by (auto simp: list_all_iff accepted_def split: act.split)

text \<open>A conversation: a prompt, a reply that asks for a command, its rejection, and the answer after it.\<close>

definition demo_call :: llm_tool_call where
  "demo_call = \<lparr>lc_id = ''1'', lc_name = ''run_command'', lc_arguments = []\<rparr>"

definition demo_replies :: "turn_world \<Rightarrow> arrival list" where
  "demo_replies w =
     (if all_calls (rows_in ''c'' w) = [] then [(id, ToolCalls [demo_call])] else [(id, AssistantDelta ''ok''), (id, StreamDone)])"

definition demo_turn_env :: turn_env where
  "demo_turn_env =
     \<lparr>te_stream = (\<lambda>w _. (w, Ok (demo_replies w))), te_tool = (\<lambda>w _. (w, Err [])), te_pause = id,
      te_fault = (\<lambda>_. None), te_uuid = (\<lambda>w. replicate (length (st_rows (tw_store w))) (CHR ''x'')),
      te_mcp_tools = (\<lambda>_. None), te_str = (\<lambda>_ _. Some ''ls''), te_strs = (\<lambda>_ _. None),
      te_host = (\<lambda>_. demo_host), te_runner = Sandboxed (default_tools ''/w'')\<rparr>"

definition demo_turn_cfg :: turn_cfg where
  "demo_turn_cfg = \<lparr>tc_chat = ''c'', tc_provider = [], tc_model = [], tc_reasoning = False, tc_auto_approve = False,
     tc_workspace = ''/w''\<rparr>"

definition demo_turn_world :: turn_world where
  "demo_turn_world = \<lparr>tw_store = \<lparr>st_chats = [(''c'', 0)], st_rows = [], st_missions = [], st_steps = [], st_asks = [],
     st_commands = [], st_credentials = []\<rparr>, tw_cancel = False, tw_now = 0\<rparr>"

definition demo_prompted :: "trace \<times> turn_world \<times> unit option" where
  "demo_prompted = run_mission_turn demo_turn_env demo_turn_cfg ''hi'' demo_turn_world"

definition demo_rejected :: "trace \<times> turn_world \<times> unit option" where
  "demo_rejected = resume_command_turn demo_turn_env demo_turn_cfg (DecideReject []) (fst (snd demo_prompted))"

lemma quiet_id: "quiet chat (\<lambda>w. w)"
  by (simp add: quiet_def)

lemma demo_replies_ok: "arrivals_ok ''c'' (all_calls (rows_in ''c'' w)) (demo_replies w)"
  by (cases "all_calls (rows_in ''c'' w) = []")
    (simp_all add: demo_replies_def arrivals_ok_def fresh_calls_def demo_call_def quiet_id id_def del: concat_eq_Nil_conv)

lemma demo_env_orderly: "orderly_env ''c'' demo_turn_env"
  by (auto simp: orderly_env_def demo_turn_env_def demo_replies_ok quiet_id id_def)

lemma demo_conversation: "conversation demo_turn_env demo_turn_cfg demo_turn_world
    (acts_of (fst demo_prompted) @ acts_of (fst demo_rejected)) (fst (snd demo_rejected))"
proof -
  have full: "left_at run (acts_of (fst run)) (fst (snd run))" for run :: "trace \<times> turn_world \<times> unit option"
    by (simp add: left_at_def split: prod.split)
  have "pendings (tc_chat demo_turn_cfg) demo_turn_world = []" by code_simp
  from conversation.prompt [OF conversation.start this full]
  have "conversation demo_turn_env demo_turn_cfg demo_turn_world (acts_of (fst demo_prompted)) (fst (snd demo_prompted))"
    unfolding demo_prompted_def append_Nil .
  from conversation.decision [OF this full] show ?thesis unfolding demo_rejected_def .
qed

lemma demo_asked_again:
  "list_ex (\<lambda>a. case a of Sent rq \<Rightarrow> length (rq_messages rq) = 4 | _ \<Rightarrow> False) (acts_of (fst demo_rejected))"
  by code_simp

theorem conversation_requests_answered_witness:
  "\<exists>rq. Sent rq \<in> set (acts_of (fst demo_rejected)) \<and> length (rq_messages rq) = 4 \<and> owed [] (rq_messages rq) = Some []"
proof -
  have "settled ''c'' demo_turn_world"
    by (simp add: settled_def orderly_def tidy_def tidy_rows_def demo_turn_world_def pendings_def chat_rows_def call_ids_def)
  with conversation_requests_answered [of demo_turn_cfg demo_turn_env, OF _ _ demo_conversation] demo_env_orderly
  have "list_all (\<lambda>a. case a of Sent rq \<Rightarrow> owed [] (rq_messages rq) = Some [] | _ \<Rightarrow> True) (acts_of (fst demo_rejected))"
    by (simp add: demo_turn_cfg_def)
  moreover obtain a where "a \<in> set (acts_of (fst demo_rejected))" "case a of Sent rq \<Rightarrow> length (rq_messages rq) = 4 | _ \<Rightarrow> False"
    using demo_asked_again unfolding list_ex_iff by blast
  ultimately show ?thesis unfolding list_all_iff by (cases a) (force dest: bspec)+
qed

section \<open>Decisions\<close>











section \<open>What the code does otherwise than it says\<close>

text \<open>The system prompts of a request are set before its messages, which replace them: the reasoning phase sends
  the history alone, without the modes, rules and goal its prompt states, and the execution loop
  sends the execution prompt but not the harness's.\<close>

lemma system_prompts_dropped:
  "rq_messages (reasoning_request cfg mission mode history) = history"
  "rq_messages (execution_request cfg tools mission history) =
     history @ [plain_message RoleSystem (build_execution_prompt (ms_goal mission) (ms_steps mission))]"
  by (simp_all add: reasoning_request_def execution_request_def with_tools_def with_messages_def)

text \<open>A prompt while a command waits finishes the mission and leaves the proposal. The decision on it afterwards puts
  the result behind the later messages, where no provider accepts it, and goes on with a new
  mission whose goal is empty.\<close>

definition demo_late_decision :: "act list" where
  "demo_late_decision =
     (let w = fst (snd (run_mission_turn demo_turn_env demo_turn_cfg ''hm'' (fst (snd demo_prompted)))) in
      acts_of (fst (resume_command_turn demo_turn_env demo_turn_cfg (DecideReject []) w)))"

lemma late_decision_breaks_history:
  "list_ex (\<lambda>a. case a of
      Sent rq \<Rightarrow> owed [] (rq_messages rq) = None \<and> msg_content (last (rq_messages rq)) = build_execution_prompt [] []
    | _ \<Rightarrow> False) demo_late_decision"
  by code_simp

end
