(* ===== verification/Agent_Harness.thy ===== *)
theory Agent_Harness
  imports Agent_Resume Harness_Types
begin

text \<open>
  The harness around a turn: the merge of the sub-agents' events into the stream of a turn
  (\<open>subagent_run/events.rs\<close>), the recording of token counts on the way out and the operations of \<open>Harness\<close>
  (\<open>harness/mod.rs\<close>), and the adaptor that shows it to the daemon as a harness
  (\<open>crates/goble-harness-internal\<close>). The times at which the events of sub-agents arrive are parameters.
\<close>

section \<open>The merge of lifecycle events\<close>

fun life_event :: "lifecycle_event \<Rightarrow> turn_event" where
  "life_event (TokenUsage chat inp cached outp) =
     EvTokenUsage chat \<lparr>ub_input = inp, ub_cached = cached, ub_output = outp\<rparr>"
| "life_event ev = EvSubAgent ev"

fun ends_turn :: "turn_event \<Rightarrow> bool" where
  "ends_turn EvDone \<longleftrightarrow> True"
| "ends_turn (EvError _) \<longleftrightarrow> True"
| "ends_turn _ \<longleftrightarrow> False"

text \<open>The select prefers what the sink holds. The sink delivers \<open>before k\<close> before the turn's event number \<open>k\<close>,
  or its end, is ready, and holds \<open>late\<close> when the turn has settled.\<close>

fun merge_lifecycle ::
  "(nat \<Rightarrow> lifecycle_event list) \<Rightarrow> lifecycle_event list \<Rightarrow> nat \<Rightarrow> turn_event list \<Rightarrow> turn_event list" where
  "merge_lifecycle before late k [] = map life_event (before k) @ map life_event late"
| "merge_lifecycle before late k (ev # evs) =
     map life_event (before k) @ ev #
       (if ends_turn ev then map life_event late else merge_lifecycle before late (Suc k) evs)"

record sink =
  sk_before :: "nat \<Rightarrow> lifecycle_event list"
  sk_late :: "lifecycle_event list"

definition with_subagent_lifecycle :: "sink \<Rightarrow> turn_event list \<Rightarrow> turn_event list" where
  "with_subagent_lifecycle sk evs = merge_lifecycle (sk_before sk) (sk_late sk) 0 evs"

section \<open>Token counts\<close>

text \<open>The usage columns of the conversations: 64-bit signed integers.\<close>

record usage_row =
  us_input :: int
  us_cached :: "int option"
  us_output :: int

type_synonym usage_table = "(string \<times> usage_row) list"

abbreviation I64_MAX :: int where "I64_MAX \<equiv> 2 ^ 63 - 1"

definition added_usage :: "usage_buckets \<Rightarrow> usage_row \<Rightarrow> usage_row" where
  "added_usage u r =
     \<lparr>us_input = us_input r + uint (ub_input u),
      us_cached = (case ub_cached u of
          None \<Rightarrow> us_cached r
        | Some c \<Rightarrow> Some ((case us_cached r of None \<Rightarrow> 0 | Some n \<Rightarrow> n) + uint c)),
      us_output = us_output r + uint (ub_output u)\<rparr>"

text \<open>A count that is no \<open>i64\<close> is not bound; a sum that is none becomes a real number, which the strict table refuses.\<close>

definition usage_error :: "usage_buckets \<Rightarrow> usage_row \<Rightarrow> string option" where
  "usage_error u r =
     (let r = added_usage u r in
      if I64_MAX < us_input r
      then Some ''cannot store REAL value in INTEGER column chats.usage_input''
      else if I64_MAX < us_output r
      then Some ''cannot store REAL value in INTEGER column chats.usage_output''
      else if (case us_cached r of None \<Rightarrow> False | Some c \<Rightarrow> I64_MAX < c)
      then Some ''cannot store REAL value in INTEGER column chats.usage_cached''
      else None)"

definition binds :: "usage_buckets \<Rightarrow> bool" where
  "binds u \<longleftrightarrow> uint (ub_input u) \<le> I64_MAX \<and> uint (ub_output u) \<le> I64_MAX \<and>
     (case ub_cached u of None \<Rightarrow> True | Some c \<Rightarrow> uint c \<le> I64_MAX)"

definition add_chat_usage ::
  "(usage_table \<Rightarrow> string option) \<Rightarrow> string \<Rightarrow> usage_buckets \<Rightarrow> usage_table \<Rightarrow> (string, usage_table) result" where
  "add_chat_usage fault chat u t =
     (if \<not> binds u then Err ''out of range integral type conversion attempted''
      else case fault t of
        Some e \<Rightarrow> Err e
      | None \<Rightarrow>
          (case map_of t chat of
             None \<Rightarrow> Ok t
           | Some r \<Rightarrow>
               (case usage_error u r of
                  Some e \<Rightarrow> Err e
                | None \<Rightarrow> Ok (AList.update chat (added_usage u r) t))))"

definition chat_usage :: "string \<Rightarrow> usage_table \<Rightarrow> usage_row option" where
  "chat_usage chat t =
     (case map_of t chat of
        None \<Rightarrow> None
      | Some r \<Rightarrow> if us_input r + us_output r = 0 \<and> us_cached r = None then None else Some r)"

text \<open>Each count is recorded before its event is passed on; an event that could not be recorded becomes an error.\<close>

fun recorded_usage ::
  "(usage_table \<Rightarrow> string option) \<Rightarrow> turn_event list \<Rightarrow> usage_table \<Rightarrow> turn_event list \<times> usage_table" where
  "recorded_usage fault [] t = ([], t)"
| "recorded_usage fault (ev # evs) t =
     (let (ev', t') =
        (case ev of
           EvTokenUsage chat u \<Rightarrow>
             (case add_chat_usage fault chat u t of Err e \<Rightarrow> (EvError e, t) | Ok t' \<Rightarrow> (ev, t'))
         | _ \<Rightarrow> (ev, t));
        (evs', t'') = recorded_usage fault evs t'
      in (ev' # evs', t''))"

section \<open>The harness\<close>

record core_harness =
  hn_reasoning :: bool
  hn_auto_approve :: bool
  hn_workspace :: string

definition harness_new :: "string \<Rightarrow> core_harness" where
  "harness_new cwd = \<lparr>hn_reasoning = False, hn_auto_approve = False, hn_workspace = cwd\<rparr>"

definition turn_cfg_of :: "core_harness \<Rightarrow> string \<Rightarrow> string \<Rightarrow> string \<Rightarrow> turn_cfg" where
  "turn_cfg_of h chat provider model =
     \<lparr>tc_chat = chat, tc_provider = provider, tc_model = model, tc_reasoning = hn_reasoning h,
      tc_auto_approve = hn_auto_approve h, tc_workspace = hn_workspace h\<rparr>"

text \<open>What a call of the harness meets: the environment of turns, the world, the sub-agents' events and the usage columns.\<close>

record harness_env =
  he_turn :: turn_env
  he_world :: turn_world
  he_sink :: sink
  he_usage :: usage_table
  he_usage_fault :: "usage_table \<Rightarrow> string option"

definition yielded :: "trace \<Rightarrow> turn_event list" where
  "yielded tr = List.map_filter (\<lambda>(a, w). case a of Out ev \<Rightarrow> Some ev | _ \<Rightarrow> None) tr"

definition sent_out :: "harness_env \<Rightarrow> trace \<times> turn_world \<times> unit option \<Rightarrow> turn_event list \<times> usage_table" where
  "sent_out e run =
     recorded_usage (he_usage_fault e) (with_subagent_lifecycle (he_sink e) (yielded (fst run))) (he_usage e)"

definition run_turn ::
  "harness_env \<Rightarrow> core_harness \<Rightarrow> string \<Rightarrow> string \<Rightarrow> string \<Rightarrow> string \<Rightarrow> turn_event list \<times> usage_table" where
  "run_turn e h chat prompt provider model =
     sent_out e (run_mission_turn (he_turn e) (turn_cfg_of h chat provider model) prompt (he_world e))"

definition resume_turn ::
  "harness_env \<Rightarrow> core_harness \<Rightarrow> string \<Rightarrow> string \<Rightarrow> (string \<times> string) option \<Rightarrow> string \<Rightarrow> string \<Rightarrow>
   turn_event list \<times> usage_table" where
  "resume_turn e h chat response credential provider model =
     sent_out e (resume_mission_turn (he_turn e) (turn_cfg_of h chat provider model) response credential (he_world e))"

definition resume_command ::
  "harness_env \<Rightarrow> core_harness \<Rightarrow> string \<Rightarrow> Agent_Resume.command_decision \<Rightarrow> string \<Rightarrow> string \<Rightarrow>
   turn_event list \<times> usage_table" where
  "resume_command e h chat decision provider model =
     sent_out e (resume_command_turn (he_turn e) (turn_cfg_of h chat provider model) decision (he_world e))"

text \<open>A stop sets the bit that turns and children read, and ends the records of the children.\<close>

definition harness_cancel :: "(nat \<Rightarrow> timestamp) \<Rightarrow> turn_world \<times> sub_registry \<Rightarrow> turn_world \<times> sub_registry" where
  "harness_cancel clock = (\<lambda>(w, reg). (w\<lparr>tw_cancel := True\<rparr>, reg_cancel_all clock PARENT_CANCEL_REASON reg))"

definition list_tools :: "turn_env \<Rightarrow> turn_world \<Rightarrow> string list" where
  "list_tools env w = turn_tools env w"

section \<open>The adaptor\<close>

record internal_harness =
  ih_id :: harness_id
  ih_provider :: string
  ih_model :: string
  ih_harness :: core_harness

definition internal_new :: "string \<Rightarrow> internal_harness" where
  "internal_new cwd =
     \<lparr>ih_id = HarnessId ''internal'', ih_provider = ''mock'', ih_model = ''mock'', ih_harness = harness_new cwd\<rparr>"

fun life_frame :: "session_id \<Rightarrow> lifecycle_event \<Rightarrow> harness_server_event" where
  "life_frame s (SubAgentSpawned chat i ty description call background) =
     HSubAgentSpawned s chat i ty description call background"
| "life_frame s (SubAgentProgress chat i status activity turns calls toks ms) =
     HSubAgentProgress s chat i status activity turns calls toks ms"
| "life_frame s (SubAgentFinished chat i status outp e ms turns calls toks) =
     HSubAgentFinished s chat i status outp e ms turns calls toks"
| "life_frame s (TokenUsage chat inp cached outp) = HTokenUsage s chat inp cached outp"

text \<open>The arguments of a call are JSON, read by \<open>js\<close>.\<close>

fun internal_map_event :: "(string \<Rightarrow> json) \<Rightarrow> session_id \<Rightarrow> turn_event \<Rightarrow> harness_server_event list" where
  "internal_map_event js s (EvAssistantDelta delta) = [HAssistantDelta s delta]"
| "internal_map_event js s (EvToolCallStarted call) = [HToolCallStarted s (lc_id call) (lc_name call) (js (lc_arguments call))]"
| "internal_map_event js s (EvToolCallFinished i res) = [HToolCallFinished s i res]"
| "internal_map_event js s (EvToolCallError i message) = [HToolCallError s i message]"
| "internal_map_event js s (EvThinkingModeChanged _) = []"
| "internal_map_event js s (EvReasoningStarted step mode) = [HReasoningStarted s step mode]"
| "internal_map_event js s (EvReasoningDelta delta) = [HReasoningDelta s delta]"
| "internal_map_event js s (EvReasoningDone step mode content decision) = [HReasoningDone s step mode content decision]"
| "internal_map_event js s (EvAskUser question replies) = [HAskUser s question replies]"
| "internal_map_event js s (EvCommandProposed i candidates cwd) = [HCommandProposed s i candidates cwd]"
| "internal_map_event js s (EvSubAgent ev) = [life_frame s ev]"
| "internal_map_event js s (EvMissionUpdated mission status) = [HMissionUpdated s mission status]"
| "internal_map_event js s (EvTokenUsage chat u) = [HTokenUsage s chat (ub_input u) (ub_cached u) (ub_output u)]"
| "internal_map_event js s EvDone = [HDone s]"
| "internal_map_event js s (EvError message) = [HError s message]"

definition map_stream :: "(string \<Rightarrow> json) \<Rightarrow> session_id \<Rightarrow> turn_event list \<Rightarrow> harness_server_event list" where
  "map_stream js s evs = concat (map (internal_map_event js s) evs)"

fun to_core_decision :: "Harness_Types.command_decision \<Rightarrow> Agent_Resume.command_decision" where
  "to_core_decision (Approve line) = DecideApprove line"
| "to_core_decision (Edit line) = DecideEdit line"
| "to_core_decision (Reject why) = DecideReject why"

definition internal_runtime :: "(timestamp \<Rightarrow> harness_env) \<Rightarrow> (string \<Rightarrow> json) \<Rightarrow> internal_harness \<Rightarrow> harness_runtime" where
  "internal_runtime env js h =
     (harness_default (ih_id h) capabilities_internal (\<lambda>now turn.
        map_stream js (turn_session_id turn)
          (fst (run_turn (env now) (ih_harness h) (sid (turn_session_id turn)) (turn_goal turn)
             (ih_provider h) (ih_model h)))))
     \<lparr>hr_resume := (\<lambda>now s response credential. Some (map_stream js s
        (fst (resume_turn (env now) (ih_harness h) (sid s) response credential (ih_provider h) (ih_model h))))),
      hr_resume_command := (\<lambda>now s decision. Some (map_stream js s
        (fst (resume_command (env now) (ih_harness h) (sid s) (to_core_decision decision)
           (ih_provider h) (ih_model h)))))\<rparr>"

section \<open>The stream of a turn\<close>

text \<open>The events of a turn up to the one that settles it, and how often the merge waits for the turn.\<close>

fun until_settled :: "turn_event list \<Rightarrow> turn_event list" where
  "until_settled [] = []"
| "until_settled (ev # evs) = ev # (if ends_turn ev then [] else until_settled evs)"

fun rounds :: "turn_event list \<Rightarrow> nat" where
  "rounds [] = 1"
| "rounds (ev # evs) = (if ends_turn ev then 1 else Suc (rounds evs))"

lemma life_event_open [simp]: "\<not> ends_turn (life_event ev)"
  by (cases ev) auto

lemma rounds_pos [simp]: "0 < rounds evs"
  by (induction evs) auto

lemma shuffles_prepend: "zs \<in> shuffles xs ys \<Longrightarrow> as @ zs \<in> shuffles xs (as @ ys)"
  by (induction as) (auto intro: Cons_in_shuffles_rightI)

lemma merge_shuffles:
  "merge_lifecycle before late k evs \<in>
     shuffles (until_settled evs) (map life_event (concat (map before [k..<k + rounds evs]) @ late))"
proof (induction before late k evs rule: merge_lifecycle.induct)
  case (1 before late k)
  show ?case by (simp add: upt_rec)
next
  case (2 before late k ev evs)
  show ?case
  proof (cases "ends_turn ev")
    case True
    then show ?thesis by (auto simp: upt_rec intro!: shuffles_prepend Cons_in_shuffles_leftI)
  next
    case False
    then have "[k..<k + rounds (ev # evs)] = k # [Suc k..<Suc k + rounds evs]"
      using rounds_pos [of evs] by (simp add: upt_conv_Cons del: rounds_pos)
    with shuffles_prepend [OF Cons_in_shuffles_leftI [OF 2 [OF False], of ev], of "map life_event (before k)"] False
    show ?thesis by (simp del: upt_Suc)
  qed
qed

lemma merge_settles_once:
  "filter ends_turn (merge_lifecycle before late k evs) = take 1 (filter ends_turn evs)"
  by (induction before late k evs rule: merge_lifecycle.induct) (auto simp: filter_empty_conv o_def)

lemma merge_settled_tail:
  "dropWhile (\<lambda>ev. \<not> ends_turn ev) (merge_lifecycle before late k evs) =
     (if list_ex ends_turn evs then hd (filter ends_turn evs) # map life_event late else [])"
  by (induction before late k evs rule: merge_lifecycle.induct)
    (auto simp: dropWhile_append list_ex_iff dropWhile_eq_Nil_conv)

text \<open>C19. The stream of a turn is the turn's own events up to the one that settles it, interleaved with the events
  of its sub-agents (\<open>with_subagent_lifecycle\<close>): both in their order, each exactly once, none lost that reached
  the sink before the stream closed. The stream carries at most one event that settles the turn, the
  turn's first, also when the turn goes on after a cancellation; and after it only what the
  sub-agents had still in flight.\<close>

theorem lifecycle_interleaved:
  "with_subagent_lifecycle sk evs \<in>
     shuffles (until_settled evs) (map life_event (concat (map (sk_before sk) [0..<rounds evs]) @ sk_late sk)) \<and>
   filter ends_turn (with_subagent_lifecycle sk evs) = take 1 (filter ends_turn evs) \<and>
   dropWhile (\<lambda>ev. \<not> ends_turn ev) (with_subagent_lifecycle sk evs) =
     (if list_ex ends_turn evs then hd (filter ends_turn evs) # map life_event (sk_late sk) else [])"
  unfolding with_subagent_lifecycle_def
  using merge_shuffles [of "sk_before sk" "sk_late sk" 0 evs] merge_settles_once merge_settled_tail by simp

section \<open>The totals of a conversation\<close>

fun usage_of :: "string \<Rightarrow> turn_event \<Rightarrow> usage_buckets option" where
  "usage_of chat (EvTokenUsage c u) = (if c = chat then Some u else None)"
| "usage_of chat _ = None"

definition replaced :: "turn_event \<Rightarrow> turn_event \<Rightarrow> bool" where
  "replaced ev ev' \<longleftrightarrow> ev' = ev \<or> (\<exists>c u e. ev = EvTokenUsage c u \<and> ev' = EvError e)"

lemma recorded_one:
  assumes "(case ev of EvTokenUsage c u \<Rightarrow>
        (case add_chat_usage fault c u t of Err e \<Rightarrow> (EvError e, t) | Ok t' \<Rightarrow> (ev, t')) | _ \<Rightarrow> (ev, t)) = (ev', t')"
  shows "replaced ev ev' \<and> map_of t' chat =
    map_option (\<lambda>r. case usage_of chat ev' of None \<Rightarrow> r | Some u \<Rightarrow> added_usage u r) (map_of t chat)"
proof (cases ev)
  case (EvTokenUsage c u)
  with assms show ?thesis
    by (auto simp: replaced_def add_chat_usage_def update_conv option.map_ident split: sum.splits if_splits option.splits)
qed (use assms in \<open>auto simp: replaced_def option.map_ident\<close>)

lemma recorded_all:
  "list_all2 replaced evs (fst (recorded_usage fault evs t)) \<and>
   map_of (snd (recorded_usage fault evs t)) chat =
     map_option (fold added_usage (List.map_filter (usage_of chat) (fst (recorded_usage fault evs t)))) (map_of t chat)"
proof (induction fault evs t rule: recorded_usage.induct)
  case (2 fault ev evs t)
  obtain ev' t' where one: "(case ev of EvTokenUsage c u \<Rightarrow>
        (case add_chat_usage fault c u t of Err e \<Rightarrow> (EvError e, t) | Ok t' \<Rightarrow> (ev, t')) | _ \<Rightarrow> (ev, t)) = (ev', t')"
    by fastforce
  obtain evs' t'' where rest: "recorded_usage fault evs t' = (evs', t'')" by fastforce
  have all: "recorded_usage fault (ev # evs) t = (ev' # evs', t'')" by (simp add: one rest)
  from 2 [OF one [symmetric] refl] rest recorded_one [OF one, of chat] show ?case
    unfolding all
    by (auto simp: map_filter_simps option.map_comp o_def split: option.splits intro!: option.map_cong)
qed (simp add: option.map_ident map_filter_simps)

text \<open>The totals as sums over the counts, and when one more count is taken.\<close>

definition cached_total :: "int option \<Rightarrow> usage_buckets list \<Rightarrow> int option" where
  "cached_total old us =
     (case List.map_filter ub_cached us of
        [] \<Rightarrow> old
      | cs \<Rightarrow> Some ((case old of None \<Rightarrow> 0 | Some n \<Rightarrow> n) + (\<Sum>c\<leftarrow>cs. uint c)))"

lemma added_sums:
  "fold added_usage us r =
     \<lparr>us_input = us_input r + (\<Sum>u\<leftarrow>us. uint (ub_input u)), us_cached = cached_total (us_cached r) us,
      us_output = us_output r + (\<Sum>u\<leftarrow>us. uint (ub_output u))\<rparr>"
proof (induction us arbitrary: r)
  case Nil
  then show ?case by (simp add: cached_total_def map_filter_simps)
next
  case (Cons u us)
  then show ?case
    by (auto simp: added_usage_def cached_total_def map_filter_simps split: option.split list.split)
qed

definition fits_i64 :: "int \<Rightarrow> bool" where
  "fits_i64 n \<longleftrightarrow> n < 2 ^ 63"

definition count_taken :: "(usage_table \<Rightarrow> string option) \<Rightarrow> string \<Rightarrow> usage_buckets \<Rightarrow> usage_table \<Rightarrow> bool" where
  "count_taken fault chat u t \<longleftrightarrow>
     fits_i64 (uint (ub_input u)) \<and> fits_i64 (uint (ub_output u)) \<and> pred_option (fits_i64 \<circ> uint) (ub_cached u) \<and>
     fault t = None \<and>
     pred_option (\<lambda>r. fits_i64 (us_input r + uint (ub_input u)) \<and> fits_i64 (us_output r + uint (ub_output u)) \<and>
       pred_option fits_i64 (cached_total (us_cached r) [u])) (map_of t chat)"

lemma recorded_append:
  "recorded_usage fault (evs @ [ev]) t =
     (case recorded_usage fault evs t of (evs', t') \<Rightarrow>
        case recorded_usage fault [ev] t' of (ev', t'') \<Rightarrow> (evs' @ ev', t''))"
  by (induction evs arbitrary: t) (simp_all add: Let_def split: prod.split)

lemma count_taken_iff:
  "count_taken fault chat u t \<longleftrightarrow> (\<exists>t'. add_chat_usage fault chat u t = Ok t')"
  by (auto simp: count_taken_def fits_i64_def add_chat_usage_def binds_def usage_error_def added_usage_def cached_total_def
      map_filter_simps Let_def split: option.splits if_splits)

lemma recorded_last:
  "recorded_usage fault [EvTokenUsage chat u] t = (evs', t') \<Longrightarrow>
   \<exists>e. evs' = [if count_taken fault chat u t then EvTokenUsage chat u else EvError e]"
  unfolding count_taken_iff by (auto split: sum.splits)

text \<open>C20. A conversation's stored totals are what its client was told (\<open>recorded_usage\<close>, \<open>add_chat_usage\<close>):
  after any stream of events, input and output are the old totals plus the sums over the counts that were
  passed on for that conversation, its own and its sub-agents', and the cached total is the old one plus
  the sum over those counts that state one. The next count is passed on exactly when its numbers are no
  larger than a signed 64-bit integer, the store does not fail and none of the new totals is larger than
  one; otherwise the client is told an error in its place. Every other event is passed on unchanged.\<close>

theorem stored_usage_is_what_was_told:
  "case recorded_usage fault evs t of (evs', t') \<Rightarrow>
     let us = List.map_filter (usage_of chat) evs' in
     list_all2 replaced evs evs' \<and>
     map_of t' chat = map_option (\<lambda>r.
       \<lparr>us_input = us_input r + (\<Sum>u\<leftarrow>us. uint (ub_input u)), us_cached = cached_total (us_cached r) us,
        us_output = us_output r + (\<Sum>u\<leftarrow>us. uint (ub_output u))\<rparr>) (map_of t chat) \<and>
     (\<exists>e. fst (recorded_usage fault (evs @ [EvTokenUsage next_chat next]) t) =
        evs' @ [if count_taken fault next_chat next t' then EvTokenUsage next_chat next else EvError e])"
proof -
  obtain evs' t' where r: "recorded_usage fault evs t = (evs', t')" by (rule prod.exhaust)
  obtain ev' t'' where l: "recorded_usage fault [EvTokenUsage next_chat next] t' = (ev', t'')" by (rule prod.exhaust)
  have "fst (recorded_usage fault (evs @ [EvTokenUsage next_chat next]) t) = evs' @ ev'"
    unfolding recorded_append r prod.case l by simp
  then show ?thesis
    using recorded_all [of evs fault t chat] recorded_last [OF l]
    by (auto simp: r Let_def simp flip: added_sums)
qed

end
