(* ===== verification/Agent_Daemon.thy ===== *)
theory Agent_Daemon
  imports Agent_Harness Daemon_Runs
begin

text \<open>
  The main agent under the daemon: the stream of a turn, through the merge, the recording of counts and the
  adaptor, as the daemon drains it. What the daemon records of the turn and whether the session stays
  live is decided by how the agent's turn ended.
\<close>

section \<open>Frames\<close>

lemma life_frame_open [simp]: "terminal (life_frame s ev) = None"
  by (cases ev) auto

lemma frame_terminal: "e \<in> set (internal_map_event js s ev) \<Longrightarrow> terminal e \<noteq> None \<Longrightarrow> ends_turn ev"
  by (cases ev) auto

lemma ending_frame: "ends_turn ev \<Longrightarrow> \<exists>e. internal_map_event js s ev = [e] \<and> terminal e \<noteq> None"
  by (cases ev) auto

lemma verdict_none: "verdict evs = None \<longleftrightarrow> (\<forall>e\<in>set evs. terminal e = None)"
proof -
  have "fold (\<lambda>e v. case terminal e of None \<Rightarrow> v | Some s \<Rightarrow> Some s) evs v = None \<longleftrightarrow>
      v = None \<and> (\<forall>e\<in>set evs. terminal e = None)" for v
    by (induction evs arbitrary: v) (auto split: option.split)
  then show ?thesis by (simp add: verdict_def)
qed

lemma verdict_some: "verdict evs = Some st \<Longrightarrow> \<exists>e\<in>set evs. terminal e = Some st"
proof -
  have "fold (\<lambda>e v. case terminal e of None \<Rightarrow> v | Some s \<Rightarrow> Some s) evs v = Some st \<Longrightarrow>
      v = Some st \<or> (\<exists>e\<in>set evs. terminal e = Some st)" for v
    by (induction evs arbitrary: v) (fastforce split: option.splits)+
  then show "verdict evs = Some st \<Longrightarrow> ?thesis" by (auto simp: verdict_def)
qed

lemma stream_open: "verdict (map_stream js s evs) = None \<longleftrightarrow> \<not> list_ex ends_turn evs"
  unfolding verdict_none map_stream_def list_ex_iff
  by (auto dest: frame_terminal) (metis ending_frame list.set_intros(1))

lemma recorded_ends:
  "list_all2 replaced evs evs' \<Longrightarrow> list_ex ends_turn evs \<Longrightarrow> list_ex ends_turn evs'"
  by (induction rule: list_all2_induct) (auto simp: replaced_def)

lemma recorded_done:
  "list_all2 replaced evs evs' \<Longrightarrow> EvDone \<in> set evs' \<Longrightarrow> EvDone \<in> set evs"
  by (induction rule: list_all2_induct) (auto simp: replaced_def)

lemma merged_done: "EvDone \<in> set (with_subagent_lifecycle sk evs) \<Longrightarrow> EvDone \<in> set evs"
proof -
  have "ev \<in> set evs" if "ev \<in> set (with_subagent_lifecycle sk evs)" "ends_turn ev" for ev
  proof -
    have "ev \<in> set (filter ends_turn (with_subagent_lifecycle sk evs))" using that by simp
    then have "ev \<in> set (take 1 (filter ends_turn evs))"
      by (simp only: with_subagent_lifecycle_def merge_settles_once)
    then show ?thesis using set_take_subset by fastforce
  qed
  then show "EvDone \<in> set (with_subagent_lifecycle sk evs) \<Longrightarrow> ?thesis" by simp
qed

lemma yielded_iff: "ev \<in> set (yielded tr) \<longleftrightarrow> Out ev \<in> set (acts_of tr)"
  by (induction tr) (auto simp: yielded_def map_filter_simps split: act.splits option.splits)

lemma done_frame: "terminal e = Some TurnSuccess \<Longrightarrow> e \<in> set (map_stream js s evs) \<Longrightarrow> EvDone \<in> set evs"
proof -
  have "terminal e = Some TurnSuccess \<Longrightarrow> e \<in> set (internal_map_event js s ev) \<Longrightarrow> ev = EvDone" for ev
    by (cases ev) auto
  then show "terminal e = Some TurnSuccess \<Longrightarrow> e \<in> set (map_stream js s evs) \<Longrightarrow> ?thesis"
    by (auto simp: map_stream_def)
qed

section \<open>A turn's stream and its end\<close>

lemma sent_out_replaced:
  "list_all2 replaced (with_subagent_lifecycle (he_sink e) (yielded (fst run))) (fst (sent_out e run))"
  by (simp add: sent_out_def recorded_all)

lemma sent_out_open:
  assumes "\<not> list_ex ends_turn (fst (sent_out e run))"
  shows "\<not> list_ex ends_turn (yielded (fst run))"
proof -
  have "filter ends_turn (with_subagent_lifecycle (he_sink e) (yielded (fst run))) = []"
    using assms recorded_ends [OF sent_out_replaced, of e run] by (auto simp: list_ex_iff filter_empty_conv)
  then have "take 1 (filter ends_turn (yielded (fst run))) = []"
    by (simp only: with_subagent_lifecycle_def merge_settles_once)
  then show ?thesis by (simp add: list_ex_iff filter_empty_conv)
qed

lemma open_turn_suspended:
  assumes "\<not> list_ex ends_turn (yielded tr)" "tr \<noteq> []" "settles (last (acts_of tr))"
  shows "suspends (last (acts_of tr))"
proof -
  obtain ev where ev: "last (acts_of tr) = Out ev"
    using assms(3) by (cases "last (acts_of tr)" rule: settles.cases) auto
  then have "ev \<in> set (yielded tr)" unfolding yielded_iff using assms(2) last_in_set [of "acts_of tr"] by simp
  with assms(1,3) ev show ?thesis by (cases ev) (auto simp: list_ex_iff)
qed

section \<open>The agent under the daemon\<close>

text \<open>C10. A prompt through the daemon to the main agent and back (\<open>daemon_run\<close>, \<open>InternalHarness::run\<close>,
  \<open>Harness::run_turn\<close>, \<open>run_mission_turn\<close>, \<open>spawn_stream\<close>): the session's history gets one record, with every event
  of the agent's stream. After the stream the session is only left live when the agent's turn stopped at a
  question or at a command that waits for an approval, so that it can be resumed; in every other case the
  turn is settled. It is only recorded as a success when the agent said that it is done. And unless
  approvals are automatic, the turn's own loop has executed no call of \<open>run_command\<close>. What its other tools
  do is not looked into: the tools are parameters, and \<open>git\<close> tools or a sub-agent start processes of
  their own.\<close>

theorem agent_turn_through_daemon:
  assumes "daemon_wf d" "fst (daemon_run env turn d) = Ok ()"
    "registry_resolve (ds_registry d) (turn_harness_id turn) = Some (internal_runtime henv js h)"
  shows "let s = turn_session_id turn; e = henv (env_now env);
             acts = acts_of (fst (run_mission_turn (he_turn e)
               (turn_cfg_of (ih_harness h) (sid s) (ih_provider h) (ih_model h)) (turn_goal turn) (he_world e)));
             evs = hr_run (internal_runtime henv js h) (env_now env) turn;
             d' = (drain_step env' (length (ds_drains d)) ^^ drain_len evs) (snd (daemon_run env turn d))
    in map tr_events (history s d') = map tr_events (history s d) @ [evs] \<and>
       (live s d' \<longrightarrow> suspends (last acts)) \<and>
       (tr_status (last (history s d')) = TurnSuccess \<longrightarrow> Out EvDone \<in> set acts) \<and>
       (hn_auto_approve (ih_harness h) \<or> list_all (\<lambda>a. \<nexists>c. a = Used c \<and> lc_name c = COMMAND_TOOL) acts)"
proof -
  let ?e = "henv (env_now env)" and ?s = "turn_session_id turn"
  let ?cfg = "turn_cfg_of (ih_harness h) (sid ?s) (ih_provider h) (ih_model h)"
  let ?run = "run_mission_turn (he_turn ?e) ?cfg (turn_goal turn) (he_world ?e)"
  let ?evs = "hr_run (internal_runtime henv js h) (env_now env) turn"
  let ?d = "(drain_step env' (length (ds_drains d)) ^^ drain_len ?evs) (snd (daemon_run env turn d))"
  have evs: "?evs = map_stream js ?s (fst (sent_out ?e ?run))"
    by (simp add: internal_runtime_def harness_default_def run_turn_def)
  have hist: "history ?s ?d = history ?s d @ [finish_record (env_now env') ?evs
      (fresh_record (env_now env) turn (length (history ?s d)))]" and live: "live ?s ?d \<longleftrightarrow> verdict ?evs = None"
    using turn_life(1) [OF assms refl refl refl refl, of ?s env'] turn_life(2) [OF assms refl refl refl refl, of env'] by simp_all
  have "suspends (last (acts_of (fst ?run)))" if "live ?s ?d"
  proof -
    have "\<not> list_ex ends_turn (fst (sent_out ?e ?run))" using that live stream_open by (simp add: evs)
    then show ?thesis using sent_out_open open_turn_suspended turn_settles [OF refl] by simp
  qed
  moreover have "Out EvDone \<in> set (acts_of (fst ?run))" if "tr_status (last (history ?s ?d)) = TurnSuccess"
  proof -
    have "verdict ?evs = Some TurnSuccess"
      using that unfolding hist by (auto simp: finish_fresh_record split: option.splits)
    then obtain f where "f \<in> set ?evs" "terminal f = Some TurnSuccess" using verdict_some by blast
    then have "EvDone \<in> set (fst (sent_out ?e ?run))" using done_frame evs by metis
    then show ?thesis using recorded_done [OF sent_out_replaced] merged_done yielded_iff by metis
  qed
  moreover have "map tr_events (history ?s ?d) = map tr_events (history ?s d) @ [?evs]"
    unfolding hist by (simp add: finish_fresh_record)
  moreover have "hn_auto_approve (ih_harness h) \<or>
      list_all (\<lambda>a. \<nexists>c. a = Used c \<and> lc_name c = COMMAND_TOOL) (acts_of (fst ?run))"
    using turn_gated [of ?cfg] by (simp add: turn_cfg_of_def)
  ultimately show ?thesis unfolding Let_def by blast
qed

text \<open>The agent of the demonstration proposes a command: its session is left live.\<close>

definition demo_henv :: harness_env where
  "demo_henv = \<lparr>he_turn = demo_turn_env, he_world = demo_turn_world, he_sink = \<lparr>sk_before = (\<lambda>_. []), sk_late = []\<rparr>,
     he_usage = [], he_usage_fault = (\<lambda>_. None)\<rparr>"

definition demo_agent :: harness_runtime where
  "demo_agent = internal_runtime (\<lambda>_. demo_henv) (\<lambda>_. JNull) (internal_new ''/w'')"

definition agent_turn :: harness_turn where
  "agent_turn = harness_turn_new (HarnessId ''internal'') (SessionId ''c'') ''hi''"

definition agent_daemon :: daemon where
  "agent_daemon = daemon_new (registry_register demo_agent registry_new)"

lemma demo_agent_open: "verdict (hr_run demo_agent 1 agent_turn) = None"
  by code_simp

lemma agent_daemon_wf: "daemon_wf agent_daemon"
  by (simp add: agent_daemon_def daemon_wf_new registry_wf_register)

lemma agent_daemon_resolve: "registry_resolve (ds_registry agent_daemon) (turn_harness_id agent_turn) = Some demo_agent"
  by (simp add: agent_daemon_def daemon_new_def registry_resolve_register agent_turn_def harness_turn_new_def demo_agent_def
      internal_runtime_def harness_default_def internal_new_def)

lemma agent_daemon_run: "fst (daemon_run demo_env agent_turn agent_daemon) = Ok ()"
proof -
  have "ds_workspace_root agent_daemon = None" by (simp add: agent_daemon_def daemon_new_def)
  then show ?thesis
    using agent_daemon_resolve by (simp add: daemon_run_def prepare_workspace_def Let_def split_beta)
qed

theorem agent_turn_through_daemon_witness:
  "\<exists>n. let s = SessionId ''c''; d' = (drain_step demo_env 0 ^^ n) (snd (daemon_run demo_env agent_turn agent_daemon))
    in live s d' \<and> map tr_events (history s d') = [hr_run demo_agent 1 agent_turn] \<and>
       suspends (last (acts_of (fst (run_mission_turn demo_turn_env
         (turn_cfg_of (harness_new ''/w'') ''c'' ''mock'' ''mock'') ''hi'' demo_turn_world))))"
proof -
  let ?n = "drain_len (hr_run demo_agent 1 agent_turn)"
  let ?d = "(drain_step demo_env 0 ^^ ?n) (snd (daemon_run demo_env agent_turn agent_daemon))"
  have now: "env_now demo_env = 1" and s: "turn_session_id agent_turn = SessionId ''c''" and g: "turn_goal agent_turn = ''hi''"
    and d: "ds_drains agent_daemon = []" and h: "history (SessionId ''c'') agent_daemon = []"
    by (simp_all add: demo_env_def agent_turn_def harness_turn_new_def agent_daemon_def daemon_new_def history_def)
  have "live (SessionId ''c'') ?d"
    using turn_life(2) [OF agent_daemon_wf agent_daemon_run agent_daemon_resolve refl refl refl refl, of demo_env]
      demo_agent_open unfolding now s d by simp
  moreover note agent_turn_through_daemon [OF agent_daemon_wf agent_daemon_run agent_daemon_resolve [unfolded demo_agent_def],
      of demo_env, folded demo_agent_def, unfolded Let_def now s g d h]
  ultimately show ?thesis
    unfolding Let_def by (intro exI [of _ ?n]) (simp add: internal_new_def demo_henv_def)
qed

end
