(* ===== verification/Terminal_Taps.thy ===== *)
theory Terminal_Taps
  imports Rust_Text
begin

text \<open>
  The two byte taps between a terminal's pty and its VT parser, from
  \<^verbatim>\<open>goble-terminal/src/osc.rs\<close> and \<^verbatim>\<open>goble-terminal/src/hooks.rs\<close>. \<open>OscTap\<close> observes the working
  directory and the prompt markers a shell reports and passes every byte on. \<open>HookTap\<close> lifts the
  shell-integration envelopes out of the stream. Each is a state machine over single bytes that
  keeps its state between two reads of the pty. The hexadecimal and JSON codecs of an envelope are
  third-party crates and the fields of the parameter \<open>hook_codec\<close>. Bytes are characters.
\<close>

section \<open>Readers of a stream of chunks\<close>

text \<open>What a reader of a byte stream promises: reading two chunks is reading their concatenation,
  as far as \<open>obs\<close> looks. Then only the bytes matter, and not how the reads cut them.\<close>

locale chunked_reader =
  fixes feed :: "'s \<Rightarrow> 'b list \<Rightarrow> 's" and obs :: "'s \<Rightarrow> 'o"
  assumes feed_append: "obs (feed s (a @ b)) = obs (feed (feed s a) b)"
    and feed_cong: "obs s = obs t \<Longrightarrow> obs (feed s a) = obs (feed t a)"
    and feed_empty: "obs (feed s []) = obs s"
begin

lemma chunking: "obs (foldl feed s cs) = obs (feed s (concat cs))"
proof (induction cs arbitrary: s)
  case (Cons c cs)
  then show ?case by (simp add: feed_append)
qed (simp add: feed_empty)

lemma same_bytes: "concat cs = concat ds \<Longrightarrow> obs (foldl feed s cs) = obs (foldl feed s ds)"
  by (simp add: chunking)

end

definition ESC :: char where
  "ESC = CHR 0x1B"

definition BEL :: char where
  "BEL = CHR 0x07"

section \<open>Operating system commands\<close>

definition OSC_MAX_BODY :: nat where
  "OSC_MAX_BODY = 8 * 1024"

datatype prompt_marker = PromptStart | CommandStart | OutputStart | CommandEnd "int option"

datatype osc_event = WorkingDirectory string | Prompt prompt_marker

datatype osc_state = OscGround | OscEscape | OscBody string bool

record osc_tap =
  osc_state :: osc_state
  osc_dropped :: nat

definition osc_new :: osc_tap where
  "osc_new = \<lparr>osc_state = OscGround, osc_dropped = 0\<rparr>"

text \<open>\<open>str::parse::<i32>\<close>: an optional sign, then decimal digits, in range.\<close>

definition i32_ok :: "int \<Rightarrow> bool" where
  "i32_ok v \<longleftrightarrow> - (2 ^ 31) \<le> v \<and> v < 2 ^ 31"

definition parse_i32 :: "string \<Rightarrow> int option" where
  "parse_i32 s =
     (let neg = (s \<noteq> [] \<and> hd s = CHR ''-'');
          ds = (if s \<noteq> [] \<and> (hd s = CHR ''+'' \<or> hd s = CHR ''-'') then tl s else s);
          v = (if neg then - int (read_nat ds) else int (read_nat ds))
      in if ds = [] \<or> \<not> list_all is_digit ds \<or> \<not> i32_ok v then None else Some v)"

definition split_once :: "string \<Rightarrow> char \<Rightarrow> (string \<times> string) option" where
  "split_once s c =
     (if c \<in> set s then Some (takeWhile (\<lambda>x. x \<noteq> c) s, tl (dropWhile (\<lambda>x. x \<noteq> c) s)) else None)"

definition hex_digit :: "char \<Rightarrow> nat option" where
  "hex_digit c =
     (let n = (of_char c :: nat) in
      if 48 \<le> n \<and> n \<le> 57 then Some (n - 48)
      else if 97 \<le> n \<and> n \<le> 102 then Some (n - 97 + 10)
      else if 65 \<le> n \<and> n \<le> 70 then Some (n - 65 + 10)
      else None)"

text \<open>The loop of \<open>percent_decode\<close> over the bytes, and the conversion of its result.\<close>

fun percent_bytes :: "string \<Rightarrow> string" where
  "percent_bytes [] = []"
| "percent_bytes (c # s) =
     (case s of
        h # l # r \<Rightarrow>
          (case (if c = CHR ''%'' then (hex_digit h, hex_digit l) else (None, None)) of
             (Some a, Some b) \<Rightarrow> char_of (a * 16 + b) # percent_bytes r
           | _ \<Rightarrow> c # percent_bytes s)
      | _ \<Rightarrow> c # percent_bytes s)"

definition percent_decode :: "string \<Rightarrow> string" where
  "percent_decode s = from_utf8_lossy (percent_bytes s)"

definition path_from_uri :: "string \<Rightarrow> string option" where
  "path_from_uri uri =
     (if take 7 uri \<noteq> ''file://'' then None
      else
        let path = dropWhile (\<lambda>c. c \<noteq> CHR ''/'') (drop 7 uri) in
        if path = [] then None else Some (percent_decode path))"

definition command_end_code :: "string \<Rightarrow> int option" where
  "command_end_code rest =
     (case split_once rest (CHR '';'') of
        None \<Rightarrow> None
      | Some (_, v) \<Rightarrow> if v = [] \<or> \<not> utf8_ok v then None else parse_i32 (trim v))"

definition osc_decode :: "string \<Rightarrow> osc_event option" where
  "osc_decode body =
     (case split_once body (CHR '';'') of
        None \<Rightarrow> None
      | Some (number, rest) \<Rightarrow>
          if number = ''7'' then
            (if utf8_ok rest then map_option WorkingDirectory (path_from_uri rest) else None)
          else if number = ''133'' then
            (case rest of
               [] \<Rightarrow> None
             | c # _ \<Rightarrow>
                 if c = CHR ''A'' then Some (Prompt PromptStart)
                 else if c = CHR ''B'' then Some (Prompt CommandStart)
                 else if c = CHR ''C'' then Some (Prompt OutputStart)
                 else if c = CHR ''D'' then Some (Prompt (CommandEnd (command_end_code rest)))
                 else None)
          else None)"

definition osc_finish :: "string \<Rightarrow> osc_event list" where
  "osc_finish body = (case osc_decode body of None \<Rightarrow> [] | Some e \<Rightarrow> [e])"

text \<open>One turn of the loop of \<open>OscTap::tap\<close>.\<close>

definition osc_step :: "osc_tap \<Rightarrow> char \<Rightarrow> osc_tap \<times> osc_event list" where
  "osc_step t b =
     (case osc_state t of
        OscGround \<Rightarrow> (if b = ESC then t\<lparr>osc_state := OscEscape\<rparr> else t, [])
      | OscEscape \<Rightarrow>
          (if b = CHR '']'' then t\<lparr>osc_state := OscBody [] False\<rparr>
           else if b = ESC then t
           else t\<lparr>osc_state := OscGround\<rparr>, [])
      | OscBody body esc \<Rightarrow>
          if esc then
            if b = CHR 0x5C then (t\<lparr>osc_state := OscGround\<rparr>, osc_finish body)
            else if b = ESC then (t, [])
            else (t\<lparr>osc_state := OscGround, osc_dropped := osc_dropped t + 1\<rparr>, [])
          else if b = BEL then (t\<lparr>osc_state := OscGround\<rparr>, osc_finish body)
          else if b = ESC then (t\<lparr>osc_state := OscBody body True\<rparr>, [])
          else if OSC_MAX_BODY \<le> length body
          then (t\<lparr>osc_state := OscGround, osc_dropped := osc_dropped t + 1\<rparr>, [])
          else (t\<lparr>osc_state := OscBody (body @ [b]) False\<rparr>, []))"

text \<open>\<open>OscTap::tap\<close>: the tap, the events it returned so far and the pass-through buffer it is given.\<close>

fun tap_osc :: "osc_tap \<times> osc_event list \<times> string \<Rightarrow> string \<Rightarrow> osc_tap \<times> osc_event list \<times> string" where
  "tap_osc (t, evs, out) [] = (t, evs, out)"
| "tap_osc (t, evs, out) (b # bs) =
     (let (t', es) = osc_step t b in tap_osc (t', evs @ es, out @ [b]) bs)"

definition osc_flush :: "osc_tap \<Rightarrow> osc_tap" where
  "osc_flush t =
     (case osc_state t of
        OscGround \<Rightarrow> t
      | OscEscape \<Rightarrow> t\<lparr>osc_state := OscGround\<rparr>
      | OscBody _ _ \<Rightarrow> t\<lparr>osc_state := OscGround, osc_dropped := osc_dropped t + 1\<rparr>)"

lemma tap_osc_append: "tap_osc s (a @ b) = tap_osc (tap_osc s a) b"
  by (induction s a rule: tap_osc.induct) (auto split: prod.splits)

interpretation osc: chunked_reader tap_osc id
  by unfold_locales (simp_all add: tap_osc_append, metis prod_cases3 tap_osc.simps(1))

text \<open>The state after some bytes and the events they give: the tap only adds to the two buffers.\<close>

fun osc_after :: "osc_tap \<Rightarrow> string \<Rightarrow> osc_tap" where
  "osc_after t [] = t"
| "osc_after t (b # bs) = osc_after (fst (osc_step t b)) bs"

fun osc_seen :: "osc_tap \<Rightarrow> string \<Rightarrow> osc_event list" where
  "osc_seen t [] = []"
| "osc_seen t (b # bs) = snd (osc_step t b) @ osc_seen (fst (osc_step t b)) bs"

lemma tap_osc_split: "tap_osc (t, evs, out) bs = (osc_after t bs, evs @ osc_seen t bs, out @ bs)"
  by (induction bs arbitrary: t evs out) (simp_all split: prod.splits)

lemma osc_after_append: "osc_after t (a @ b) = osc_after (osc_after t a) b"
  by (induction a arbitrary: t) simp_all

lemma osc_seen_append: "osc_seen t (a @ b) = osc_seen t a @ osc_seen (osc_after t a) b"
  by (induction a arbitrary: t) simp_all

subsection \<open>What an event carries\<close>

lemma good_len_cases:
  assumes "0 < good_len s"
  obtains (one) a t where "s = a # t" "(of_char a :: nat) < 128"
  | (two) a b t where "s = a # b # t" "128 \<le> (of_char a :: nat)" "(of_char a :: nat) \<le> 223" "second_ok (of_char a) b"
  | (three) a b c t where "s = a # b # c # t" "223 < (of_char a :: nat)" "(of_char a :: nat) \<le> 239"
      "second_ok (of_char a) b" "cont c"
  | (four) a b c d t where "s = a # b # c # d # t" "239 < (of_char a :: nat)" "second_ok (of_char a) b" "cont c" "cont d"
  using assms by (fastforce simp: good_len_def Let_def not_less not_le split: list.splits if_splits)

lemma good_len_take: "0 < good_len s \<Longrightarrow> good_len (take (good_len s) s @ r) = good_len s"
  by (erule good_len_cases) (simp_all add: good_len_def Let_def)

lemma utf8_ok_lossy: "utf8_ok (from_utf8_lossy s)"
proof (induction s rule: from_utf8_lossy.induct)
  case (1 s)
  consider "s = []" | "s \<noteq> []" "0 < good_len s" | "s \<noteq> []" "good_len s = 0" by blast
  then show ?case
  proof cases
    case 2
    let ?r = "from_utf8_lossy (drop (good_len s) s)"
    have "utf8_ok (take (good_len s) s @ ?r)"
      using 1(1) 2 good_len_le [of s] by (subst utf8_ok_good_len) (simp add: good_len_take)
    then show ?thesis using 2 by (simp add: from_utf8_lossy.simps [of s])
  next
    case 3
    then show ?thesis using 1(2) by (simp add: from_utf8_lossy.simps [of s] cont_def)
  qed simp
qed

lemma percent_decode_slash: "percent_decode (CHR ''/'' # s) = CHR ''/'' # percent_decode s"
proof -
  have "percent_bytes (CHR ''/'' # s) = CHR ''/'' # percent_bytes s" by (simp split: list.splits)
  moreover have "good_len (CHR ''/'' # percent_bytes s) = 1" by (simp add: good_len_def)
  ultimately show ?thesis
    by (simp add: percent_decode_def from_utf8_lossy.simps [of "CHR ''/'' # percent_bytes s"])
qed

text \<open>A working directory is a Rust string and an absolute path; an exit code is an \<open>i32\<close>.\<close>

fun osc_event_ok :: "osc_event \<Rightarrow> bool" where
  "osc_event_ok (WorkingDirectory p) \<longleftrightarrow> utf8_ok p \<and> p \<noteq> [] \<and> hd p = CHR ''/''"
| "osc_event_ok (Prompt (CommandEnd (Some c))) \<longleftrightarrow> i32_ok c"
| "osc_event_ok (Prompt _) \<longleftrightarrow> True"

lemma parse_i32_ok: "parse_i32 s = Some v \<Longrightarrow> i32_ok v"
  by (auto simp: parse_i32_def Let_def split: if_splits)

lemma path_from_uri_ok: "path_from_uri u = Some p \<Longrightarrow> utf8_ok p \<and> p \<noteq> [] \<and> hd p = CHR ''/''"
proof -
  assume p: "path_from_uri u = Some p"
  then obtain c q where d: "dropWhile (\<lambda>c. c \<noteq> CHR ''/'') (drop 7 u) = c # q" and e: "p = percent_decode (c # q)"
    by (cases "dropWhile (\<lambda>c. c \<noteq> CHR ''/'') (drop 7 u)") (auto simp: path_from_uri_def Let_def split: if_splits)
  from d have "c = CHR ''/''" by (simp add: dropWhile_eq_Cons_conv)
  moreover have "utf8_ok p" unfolding e percent_decode_def by (rule utf8_ok_lossy)
  ultimately show ?thesis using e by (simp add: percent_decode_slash)
qed

lemma command_end_ok: "osc_event_ok (Prompt (CommandEnd (command_end_code r)))"
  by (cases "command_end_code r") (auto simp: command_end_code_def dest: parse_i32_ok split: option.splits if_splits)

lemma osc_decode_ok: "osc_decode b = Some e \<Longrightarrow> osc_event_ok e"
  by (auto simp: osc_decode_def command_end_ok path_from_uri_ok split: option.splits if_splits list.splits)

lemma osc_seen_ok: "e \<in> set (osc_seen t bs) \<Longrightarrow> osc_event_ok e"
proof (induction bs arbitrary: t)
  case (Cons b bs)
  moreover have "e \<in> set (snd (osc_step t b)) \<Longrightarrow> osc_event_ok e"
    by (auto simp: osc_step_def osc_finish_def osc_decode_ok split: osc_state.splits if_splits option.splits)
  ultimately show ?case by auto
qed simp

text \<open>The body the tap holds never outgrows its bound.\<close>

definition osc_bounded :: "osc_tap \<Rightarrow> bool" where
  "osc_bounded t \<longleftrightarrow> (case osc_state t of OscBody body _ \<Rightarrow> length body \<le> OSC_MAX_BODY | _ \<Rightarrow> True)"

lemma osc_step_bounded: "osc_bounded t \<Longrightarrow> osc_bounded (fst (osc_step t b))"
  by (auto simp: osc_bounded_def osc_step_def split: osc_state.splits)

lemma osc_after_bounded: "osc_bounded t \<Longrightarrow> osc_bounded (osc_after t bs)"
  by (induction bs arbitrary: t) (simp_all add: osc_step_bounded)

subsection \<open>Recognising a sequence\<close>

text \<open>The two terminators, and a body the tap collects whole.\<close>

definition osc_wire :: "string \<Rightarrow> string \<Rightarrow> string" where
  "osc_wire body st = [ESC, CHR '']''] @ body @ st"

definition osc_terminator :: "string \<Rightarrow> bool" where
  "osc_terminator st \<longleftrightarrow> st = [BEL] \<or> st = [ESC, CHR 0x5C]"

lemma osc_collects:
  "ESC \<notin> set w \<Longrightarrow> BEL \<notin> set w \<Longrightarrow> length (body @ w) \<le> OSC_MAX_BODY \<Longrightarrow> osc_state t = OscBody body False \<Longrightarrow>
   osc_after t w = t\<lparr>osc_state := OscBody (body @ w) False\<rparr> \<and> osc_seen t w = []"
proof (induction w arbitrary: t body)
  case (Cons b w)
  have "osc_step t b = (t\<lparr>osc_state := OscBody (body @ [b]) False\<rparr>, [])"
    using Cons.prems by (auto simp: osc_step_def)
  then show ?case using Cons.prems Cons.IH [of "body @ [b]" "t\<lparr>osc_state := OscBody (body @ [b]) False\<rparr>"] by simp
qed simp

lemma osc_recognised:
  assumes "osc_state t = OscGround" "ESC \<notin> set body" "BEL \<notin> set body" "length body \<le> OSC_MAX_BODY" "osc_terminator st"
  shows "osc_after t (osc_wire body st) = t \<and> osc_seen t (osc_wire body st) = osc_finish body"
proof -
  let ?t1 = "t\<lparr>osc_state := OscBody [] False\<rparr>" and ?t2 = "t\<lparr>osc_state := OscBody body False\<rparr>"
  have start: "osc_after t [ESC, CHR '']''] = ?t1" "osc_seen t [ESC, CHR '']''] = []"
    using assms(1) by (simp_all add: osc_step_def ESC_def)
  have mid: "osc_after ?t1 body = ?t2" "osc_seen ?t1 body = []"
    using osc_collects [of body "[]" ?t1] assms(2-4) by simp_all
  have fin: "osc_after ?t2 st = t\<lparr>osc_state := OscGround\<rparr>" "osc_seen ?t2 st = osc_finish body"
    using assms(5) by (auto simp: osc_terminator_def osc_step_def ESC_def BEL_def)
  have "t\<lparr>osc_state := OscGround\<rparr> = t" using assms(1) by (cases t) simp
  with start mid fin show ?thesis
    unfolding osc_wire_def by (simp only: osc_after_append osc_seen_append append_Nil append_Nil2)
qed

text \<open>The encoder of the shells: a byte of the path stands for itself or is escaped.\<close>

definition hex_char :: "nat \<Rightarrow> char" where
  "hex_char n = (if n < 10 then char_of (48 + n) else char_of (55 + n))"

definition percent_encode :: "(char \<Rightarrow> bool) \<Rightarrow> string \<Rightarrow> string" where
  "percent_encode safe s =
     concat (map (\<lambda>c. if safe c then [c]
                      else [CHR ''%'', hex_char (of_char c div 16), hex_char (of_char c mod 16)]) s)"

definition uri_safe :: "(char \<Rightarrow> bool) \<Rightarrow> bool" where
  "uri_safe safe \<longleftrightarrow> safe (CHR ''/'') \<and> \<not> safe (CHR ''%'') \<and> (\<forall>c. safe c \<longrightarrow> visible c)"

lemma hex_digit_char: "n < 16 \<Longrightarrow> hex_digit (hex_char n) = Some n"
  by (simp add: hex_digit_def hex_char_def)

lemma visible_hex_char: "n < 16 \<Longrightarrow> visible (hex_char n)"
  by (simp add: visible_def hex_char_def)

lemma percent_bytes_plain: "c \<noteq> CHR ''%'' \<Longrightarrow> percent_bytes (c # s) = c # percent_bytes s"
  by (simp split: list.splits)

lemma percent_bytes_escape:
  "percent_bytes (CHR ''%'' # hex_char (of_char c div 16) # hex_char (of_char c mod 16) # r) = c # percent_bytes r"
proof -
  let ?n = "of_char c :: nat"
  have "?n div 16 < 16" using nat_of_char_less_256 [of c] by (simp add: less_mult_imp_div_less)
  then have "hex_digit (hex_char (?n div 16)) = Some (?n div 16)" "hex_digit (hex_char (?n mod 16)) = Some (?n mod 16)"
    by (simp_all add: hex_digit_char)
  then show ?thesis by (simp add: div_mult_mod_eq)
qed

lemma percent_bytes_encode:
  assumes "\<not> safe (CHR ''%'')"
  shows "percent_bytes (percent_encode safe s) = s"
proof (induction s)
  case (Cons c s)
  have "percent_encode safe (c # s) =
      (if safe c then c # percent_encode safe s
       else CHR ''%'' # hex_char (of_char c div 16) # hex_char (of_char c mod 16) # percent_encode safe s)"
    by (simp add: percent_encode_def)
  moreover have "safe c \<Longrightarrow> c \<noteq> CHR ''%''" using assms by auto
  ultimately show ?case
    using Cons by (cases "safe c") (simp_all add: percent_bytes_plain percent_bytes_escape del: percent_bytes.simps)
qed (simp add: percent_encode_def)

lemma visible_percent_encode: "uri_safe safe \<Longrightarrow> list_all visible (percent_encode safe s)"
proof (induction s)
  case (Cons c s)
  have "(of_char c :: nat) div 16 < 16" using nat_of_char_less_256 [of c] by (simp add: less_mult_imp_div_less)
  then show ?case using Cons
    by (auto simp: percent_encode_def uri_safe_def visible_hex_char) (simp add: visible_def)
qed (simp add: percent_encode_def)

lemma utf8_ok_visible: "list_all visible s \<Longrightarrow> utf8_ok s"
  by (induction s) (simp_all add: visible_def)

lemma path_from_uri_encode:
  assumes "uri_safe safe" "utf8_ok (CHR ''/'' # q)" "CHR ''/'' \<notin> set host"
  shows "path_from_uri (''file://'' @ host @ percent_encode safe (CHR ''/'' # q)) = Some (CHR ''/'' # q)"
proof -
  have "percent_encode safe (CHR ''/'' # q) = CHR ''/'' # percent_encode safe q"
    using assms(1) by (simp add: percent_encode_def uri_safe_def)
  moreover have "dropWhile (\<lambda>c. c \<noteq> CHR ''/'') (host @ CHR ''/'' # r) = CHR ''/'' # r" for r
    using assms(3) by (induction host) auto
  moreover have "percent_decode (CHR ''/'' # percent_encode safe q) = CHR ''/'' # q"
    using assms percent_bytes_encode [of safe "CHR ''/'' # q"] from_utf8_lossy_ok [OF assms(2)] calculation(1)
    by (simp add: percent_decode_def uri_safe_def del: percent_bytes.simps)
  ultimately show ?thesis by (simp add: path_from_uri_def)
qed

lemma osc_finish_directory:
  assumes "uri_safe safe" "utf8_ok (CHR ''/'' # q)" "CHR ''/'' \<notin> set host" "list_all visible host"
  shows "osc_finish (''7;file://'' @ host @ percent_encode safe (CHR ''/'' # q)) = [WorkingDirectory (CHR ''/'' # q)]"
proof -
  let ?u = "''file://'' @ host @ percent_encode safe (CHR ''/'' # q)"
  have "list_all visible ?u" using visible_percent_encode [OF assms(1)] assms(4) by (simp add: visible_def)
  then have "utf8_ok ?u" by (rule utf8_ok_visible)
  then show ?thesis
    using path_from_uri_encode [OF assms(1-3)] by (simp add: osc_finish_def osc_decode_def split_once_def)
qed

subsection \<open>The observer\<close>

text \<open>The observer never alters the stream it watches, its events are well formed, and the body it
  holds for an unfinished sequence stays within its bound.\<close>

lemma osc_tap_transparent:
  assumes "foldl tap_osc (osc_new, [], []) chunks = (t, events, out)"
  shows "out = concat chunks \<and> list_all osc_event_ok events \<and> osc_bounded t"
proof -
  have "tap_osc (osc_new, [], []) (concat chunks) = (t, events, out)"
    using osc.chunking [of "(osc_new, [], [])" chunks] assms by simp
  then have "t = osc_after osc_new (concat chunks)" "events = osc_seen osc_new (concat chunks)" "out = concat chunks"
    by (auto simp: tap_osc_split)
  moreover have "osc_bounded osc_new" by (simp add: osc_bounded_def osc_new_def)
  ultimately show ?thesis
    using osc_after_bounded [of osc_new] by (auto simp: list_all_iff dest: osc_seen_ok)
qed

text \<open>What a program writes, with its commands: text in which no escape introduces a command, the
  reports of the shell's integration (either terminator), and commands of other numbers, such as a title.\<close>

fun osc_text :: "string \<Rightarrow> bool" where
  "osc_text [] \<longleftrightarrow> True"
| "osc_text [c] \<longleftrightarrow> c \<noteq> ESC"
| "osc_text (c # d # s) \<longleftrightarrow>
     (if c \<noteq> ESC then osc_text (d # s) else if d = ESC then osc_text (d # s) else d \<noteq> CHR '']'' \<and> osc_text s)"

definition show_int :: "int \<Rightarrow> string" where
  "show_int v = (if v < 0 then CHR ''-'' # show_nat (nat (- v)) else show_nat (nat v))"

fun report_body :: "(char \<Rightarrow> bool) \<Rightarrow> string \<Rightarrow> osc_event \<Rightarrow> string" where
  "report_body safe host (WorkingDirectory p) = ''7;file://'' @ host @ percent_encode safe p"
| "report_body safe host (Prompt PromptStart) = ''133;A''"
| "report_body safe host (Prompt CommandStart) = ''133;B''"
| "report_body safe host (Prompt OutputStart) = ''133;C''"
| "report_body safe host (Prompt (CommandEnd None)) = ''133;D''"
| "report_body safe host (Prompt (CommandEnd (Some v))) = ''133;D;'' @ show_int v"

datatype osc_piece = OscText string | OscReport osc_event string | OscForeign string string

fun osc_piece_wire :: "(char \<Rightarrow> bool) \<Rightarrow> string \<Rightarrow> osc_piece \<Rightarrow> string" where
  "osc_piece_wire safe host (OscText s) = s"
| "osc_piece_wire safe host (OscReport e st) = osc_wire (report_body safe host e) st"
| "osc_piece_wire safe host (OscForeign body st) = osc_wire body st"

fun osc_piece_events :: "osc_piece \<Rightarrow> osc_event list" where
  "osc_piece_events (OscReport e _) = [e]"
| "osc_piece_events _ = []"

fun osc_piece_ok :: "(char \<Rightarrow> bool) \<Rightarrow> string \<Rightarrow> osc_piece \<Rightarrow> bool" where
  "osc_piece_ok safe host (OscText s) \<longleftrightarrow> osc_text s"
| "osc_piece_ok safe host (OscReport e st) \<longleftrightarrow>
     osc_event_ok e \<and> length (report_body safe host e) \<le> OSC_MAX_BODY \<and> osc_terminator st"
| "osc_piece_ok safe host (OscForeign body st) \<longleftrightarrow>
     ESC \<notin> set body \<and> BEL \<notin> set body \<and> length body \<le> OSC_MAX_BODY \<and> osc_terminator st \<and>
     takeWhile (\<lambda>c. c \<noteq> CHR '';'') body \<notin> {''7'', ''133''}"

lemma osc_text_passes:
  "osc_text s \<Longrightarrow> osc_state t = OscGround \<Longrightarrow> osc_after t s = t \<and> osc_seen t s = []"
proof (induction s arbitrary: t rule: osc_text.induct)
  case (3 c d s)
  have same: "t\<lparr>osc_state := OscGround\<rparr> = t" using 3(5) by (cases t) simp
  have step: "osc_step t c = (if c = ESC then t\<lparr>osc_state := OscEscape\<rparr> else t, [])"
    using 3(5) by (simp add: osc_step_def)
  have again: "osc_step (t\<lparr>osc_state := OscEscape\<rparr>) d =
      (if d = CHR '']'' then t\<lparr>osc_state := OscBody [] False\<rparr>
       else if d = ESC then t\<lparr>osc_state := OscEscape\<rparr> else t, [])"
    by (simp add: osc_step_def same)
  have esc: "osc_step t ESC = (t\<lparr>osc_state := OscEscape\<rparr>, [])" "ESC \<noteq> CHR '']''"
    using 3(5) by (simp_all add: osc_step_def ESC_def)
  consider "c \<noteq> ESC" | "c = ESC" "d = ESC" | "c = ESC" "d \<noteq> ESC" by blast
  then show ?case
  proof cases
    case 1
    then show ?thesis using 3(1) [OF 1] 3(4,5) step by simp
  next
    case 2
    then show ?thesis using 3(2) [of t] 3(4,5) step again esc by simp
  next
    case 3
    then show ?thesis using 3 "3.IH"(3) [of t] "3.prems" step again by simp
  qed
qed (simp_all add: osc_step_def)

lemma show_int_reads:
  assumes "i32_ok v"
  shows "parse_i32 (show_int v) = Some v" "list_all visible (show_int v)" "show_int v \<noteq> []"
proof -
  have digits: "list_all is_digit (show_nat n)" for n by (rule show_nat_digits)
  then have hd: "hd (show_nat n) \<noteq> CHR ''-''" "hd (show_nat n) \<noteq> CHR ''+''" for n
    using digits [of n] by (cases "show_nat n"; auto simp: is_digit_def)+
  show "parse_i32 (show_int v) = Some v"
    using assms digits hd by (auto simp: parse_i32_def show_int_def)
  show "list_all visible (show_int v)"
    using digits digit_visible by (auto simp: show_int_def list_all_iff visible_def)
  show "show_int v \<noteq> []" by (simp add: show_int_def)
qed

lemma osc_finish_report:
  assumes "uri_safe safe" "CHR ''/'' \<notin> set host" "list_all visible host" "osc_event_ok e"
  shows "osc_finish (report_body safe host e) = [e]" "list_all visible (report_body safe host e)"
proof -
  have "osc_finish (report_body safe host e) = [e] \<and> list_all visible (report_body safe host e)"
  proof (cases e)
    case (WorkingDirectory p)
    then obtain q where "p = CHR ''/'' # q" using assms(4) by (cases p) auto
    then show ?thesis
      using WorkingDirectory assms osc_finish_directory [of safe q host] visible_percent_encode [OF assms(1)]
      by (simp add: visible_def)
  next
    case (Prompt m)
    show ?thesis
    proof (cases "\<exists>v. m = CommandEnd (Some v)")
      case True
      then obtain v where v: "m = CommandEnd (Some v)" "i32_ok v" using assms(4) Prompt by auto
      note r = show_int_reads [OF v(2)]
      have "trim (show_int v) = show_int v" "utf8_ok (show_int v)"
        using trim_visible utf8_ok_visible r(2) by blast+
      then show ?thesis
        using r by (simp add: Prompt v(1) osc_finish_def osc_decode_def split_once_def command_end_code_def)
          (simp add: visible_def)
    next
      case False
      then show ?thesis
        by (cases m) (auto simp: Prompt osc_finish_def osc_decode_def split_once_def command_end_code_def visible_def)
    qed
  qed
  then show "osc_finish (report_body safe host e) = [e]" "list_all visible (report_body safe host e)" by auto
qed

lemma osc_finish_foreign: "takeWhile (\<lambda>c. c \<noteq> CHR '';'') body \<notin> {''7'', ''133''} \<Longrightarrow> osc_finish body = []"
  by (simp add: osc_finish_def osc_decode_def split_once_def)

lemma visible_no_control: "list_all visible s \<Longrightarrow> ESC \<notin> set s \<and> BEL \<notin> set s"
  by (auto simp: list_all_iff visible_def ESC_def BEL_def)

lemma osc_piece_seen:
  assumes "uri_safe safe" "CHR ''/'' \<notin> set host" "list_all visible host"
    and "osc_piece_ok safe host p" "osc_state t = OscGround"
  shows "osc_after t (osc_piece_wire safe host p) = t \<and> osc_seen t (osc_piece_wire safe host p) = osc_piece_events p"
proof (cases p)
  case (OscReport e st)
  note fin = osc_finish_report [OF assms(1-3), of e]
  show ?thesis
    using OscReport assms(4) fin visible_no_control [OF fin(2)] osc_recognised [OF assms(5), of "report_body safe host e" st]
    by simp
next
  case (OscForeign body st)
  then show ?thesis
    using assms(4) osc_recognised [OF assms(5), of body st] osc_finish_foreign [of body] by simp
qed (use assms osc_text_passes in simp)

text \<open>C30. What a shell reports in band is what the terminal records (\<open>OscTap::tap\<close>): a program's output is
  text in which no escape introduces a command, commands of other numbers, and the shell's reports of its
  working directory and of its prompt, with either terminator. However the reads cut it, the tap returns
  exactly the reports, in order, each with its path or exit code, passes every byte on and is ready for
  the next. A path is any absolute one in valid UTF-8, however the shell chose which bytes to escape, as
  long as it escapes the percent sign and what is not printable; the host name before it is left out. Bodies
  within the tap's bound of 8 KiB; a command that starts inside an unfinished one is outside of this.\<close>

theorem shell_reports_recovered:
  assumes "uri_safe safe" "CHR ''/'' \<notin> set host" "list_all visible host"
    and "list_all (osc_piece_ok safe host) pieces" "osc_state t = OscGround"
    and "concat chunks = concat (map (osc_piece_wire safe host) pieces)"
  shows "foldl tap_osc (t, events, out) chunks =
    (t, events @ concat (map osc_piece_events pieces), out @ concat chunks)"
proof -
  have "osc_after t (concat (map (osc_piece_wire safe host) pieces)) = t \<and>
      osc_seen t (concat (map (osc_piece_wire safe host) pieces)) = concat (map osc_piece_events pieces)"
    using assms(4)
  proof (induction pieces)
    case (Cons p pieces)
    then show ?case
      using osc_piece_seen [OF assms(1-3) _ assms(5), of p] by (simp add: osc_after_append osc_seen_append)
  qed simp
  then show ?thesis using osc.chunking [of "(t, events, out)" chunks] assms(6) by (simp add: tap_osc_split)
qed

definition sample_reports :: "osc_piece list" where
  "sample_reports = [OscText ''$ '', OscReport (Prompt OutputStart) [BEL], OscForeign ''0;ls'' [ESC, CHR 0x5C],
     OscReport (WorkingDirectory ''/a b'') [ESC, CHR 0x5C], OscReport (Prompt (CommandEnd (Some (- 1)))) [BEL]]"

definition sample_safe :: "char \<Rightarrow> bool" where
  "sample_safe c \<longleftrightarrow> visible c \<and> c \<noteq> CHR ''%''"

theorem shell_reports_recovered_witness:
  "foldl tap_osc (osc_new, [], []) [''$ '' @ [ESC],
      ('']133;C'' @ [BEL, ESC]) @ '']0;ls'' @ [ESC], [CHR 0x5C, ESC] @ '']7;file://h/a%20b'' @ [ESC, CHR 0x5C, ESC],
      '']133;D;-1'' @ [BEL]] =
   (osc_new, [Prompt OutputStart, WorkingDirectory ''/a b'', Prompt (CommandEnd (Some (- 1)))],
    ''$ '' @ [ESC] @ '']133;C'' @ [BEL, ESC] @ '']0;ls'' @ [ESC, CHR 0x5C, ESC] @ '']7;file://h/a%20b'' @ [ESC, CHR 0x5C, ESC] @
      '']133;D;-1'' @ [BEL])" (is "foldl _ _ ?chunks = _")
proof -
  have safe: "uri_safe sample_safe" by (simp add: uri_safe_def sample_safe_def visible_def)
  have ok: "list_all (osc_piece_ok sample_safe ''h'') sample_reports" by code_simp
  have wire: "concat ?chunks = concat (map (osc_piece_wire sample_safe ''h'') sample_reports)" by code_simp
  have host: "CHR ''/'' \<notin> set ''h''" "list_all visible ''h''" by (simp_all add: visible_def)
  from shell_reports_recovered [OF safe host ok _ wire, of osc_new "[]" "[]"]
  show ?thesis by (simp add: osc_new_def sample_reports_def)
qed

text \<open>A sequence that starts inside an unfinished one is lost with it.\<close>

lemma osc_restart_lost:
  "tap_osc (osc_new, [], []) ([ESC, CHR '']''] @ ''0;title'' @ [ESC, CHR '']''] @ ''133;A'' @ [BEL]) =
     (osc_new\<lparr>osc_dropped := 1\<rparr>, [],
      [ESC, CHR '']''] @ ''0;title'' @ [ESC, CHR '']''] @ ''133;A'' @ [BEL])"
  by (simp add: osc_step_def osc_new_def ESC_def BEL_def OSC_MAX_BODY_def)

section \<open>Shell-integration hooks\<close>

definition HOOK_PREFIX :: string where
  "HOOK_PREFIX = [ESC, CHR ''P'', CHR ''$'', CHR ''d'']"

definition STRING_TERMINATOR :: string where
  "STRING_TERMINATOR = [ESC, CHR 0x5C]"

definition HOOK_MAX_BODY :: nat where
  "HOOK_MAX_BODY = 64 * 1024"

record init_shell_value =
  is_session_id :: "string option"
  is_shell :: "string option"
  is_host :: "string option"
  is_cwd :: "string option"
  is_honor_ps1 :: "bool option"

record precmd_value =
  pc_pwd :: "string option"
  pc_git_branch :: "string option"
  pc_rprompt :: "string option"
  pc_session_id :: "string option"
  pc_virtual_env :: "string option"
  pc_conda_env :: "string option"
  pc_node_version :: "string option"
  pc_honor_ps1 :: "bool option"

record command_finished_value =
  cf_exit_code :: int
  cf_next_block_id :: "string option"

record input_buffer_value =
  ib_buffer :: string
  ib_cursor :: "nat option"

text \<open>\<open>Bootstrapped\<close> carries the version and \<open>Preexec\<close> the command, their only fields.\<close>

datatype hook_event =
    InitShell init_shell_value
  | HookBootstrapped "string option"
  | Precmd precmd_value
  | Preexec "string option"
  | CommandFinished command_finished_value
  | InputBuffer input_buffer_value
  | Clear

datatype hook_error = BadHex | BadJson string | TooLarge

text \<open>The crates \<open>hex\<close> and \<open>serde_json\<close>.\<close>

record hook_codec =
  hex_encode :: "string \<Rightarrow> string"
  hex_decode :: "string \<Rightarrow> string option"
  to_vec :: "hook_event \<Rightarrow> string"
  from_slice :: "string \<Rightarrow> (string, hook_event) result"

definition encode_hook :: "hook_codec \<Rightarrow> hook_event \<Rightarrow> string" where
  "encode_hook c e = HOOK_PREFIX @ hex_encode c (to_vec c e) @ STRING_TERMINATOR"

definition decode_hook :: "hook_codec \<Rightarrow> string \<Rightarrow> (hook_error, hook_event) result" where
  "decode_hook c body =
     (if HOOK_MAX_BODY < length body then Err TooLarge
      else
        (case hex_decode c body of
           None \<Rightarrow> Err BadHex
         | Some json \<Rightarrow> (case from_slice c json of Inl m \<Rightarrow> Err (BadJson m) | Inr e \<Rightarrow> Ok e)))"

datatype hook_state = HookGround | HookPrefix string | HookBody string

record hook_tap =
  hook_state :: hook_state
  hook_dropped :: nat

definition hook_new :: hook_tap where
  "hook_new = \<lparr>hook_state = HookGround, hook_dropped = 0\<rparr>"

definition ends_with :: "string \<Rightarrow> string \<Rightarrow> bool" where
  "ends_with s e \<longleftrightarrow> length e \<le> length s \<and> drop (length s - length e) s = e"

text \<open>One turn of the loop of \<open>HookTap::tap_ordered\<close>: the tap, the bytes it releases and the hook it
  completes.\<close>

definition hook_step :: "hook_codec \<Rightarrow> hook_tap \<Rightarrow> char \<Rightarrow> hook_tap \<times> string \<times> hook_event option" where
  "hook_step c t b =
     (let drop1 = t\<lparr>hook_state := HookGround, hook_dropped := hook_dropped t + 1\<rparr> in
      case hook_state t of
        HookGround \<Rightarrow>
          if b = ESC then (t\<lparr>hook_state := HookPrefix [ESC]\<rparr>, [], None) else (t, [b], None)
      | HookPrefix p \<Rightarrow>
          let p' = p @ [b] in
          if take (length p') HOOK_PREFIX \<noteq> p' then (t\<lparr>hook_state := HookGround\<rparr>, p', None)
          else if length p' = length HOOK_PREFIX then (t\<lparr>hook_state := HookBody []\<rparr>, [], None)
          else (t\<lparr>hook_state := HookPrefix p'\<rparr>, [], None)
      | HookBody body \<Rightarrow>
          let after_escape = (body \<noteq> [] \<and> last body = ESC); body' = body @ [b] in
          if ends_with body' STRING_TERMINATOR then
            (case decode_hook c (take (length body' - length STRING_TERMINATOR) body') of
               Inr e \<Rightarrow> (t\<lparr>hook_state := HookGround\<rparr>, [], Some e)
             | Inl _ \<Rightarrow> (drop1, [], None))
          else if after_escape \<and> b \<noteq> CHR 0x5C then (drop1, [], None)
          else if HOOK_MAX_BODY < length body' then (drop1, [], None)
          else (t\<lparr>hook_state := HookBody body'\<rparr>, [], None))"

fun tap_ordered ::
  "hook_codec \<Rightarrow> hook_tap \<times> string \<times> (nat \<times> hook_event) list \<Rightarrow> string \<Rightarrow>
   hook_tap \<times> string \<times> (nat \<times> hook_event) list" where
  "tap_ordered c (t, out, hs) [] = (t, out, hs)"
| "tap_ordered c (t, out, hs) (b # bs) =
     (let (t', rel, h) = hook_step c t b; out' = out @ rel in
      tap_ordered c (t', out', hs @ (case h of None \<Rightarrow> [] | Some e \<Rightarrow> [(length out', e)])) bs)"

definition tap_hooks :: "hook_codec \<Rightarrow> hook_tap \<Rightarrow> string \<Rightarrow> string \<Rightarrow> hook_tap \<times> string \<times> hook_event list" where
  "tap_hooks c t input out = (let (t', out', hs) = tap_ordered c (t, out, []) input in (t', out', map snd hs))"

definition hook_flush :: "hook_codec \<Rightarrow> hook_tap \<Rightarrow> string \<Rightarrow> hook_tap \<times> string \<times> hook_event list" where
  "hook_flush c t out =
     (let t' = t\<lparr>hook_state := HookGround\<rparr>; drop1 = t'\<lparr>hook_dropped := hook_dropped t + 1\<rparr> in
      case hook_state t of
        HookGround \<Rightarrow> (t', out, [])
      | HookPrefix p \<Rightarrow> (t', out @ p, [])
      | HookBody body \<Rightarrow>
          if ends_with body STRING_TERMINATOR then
            (case decode_hook c (take (length body - length STRING_TERMINATOR) body) of
               Inr e \<Rightarrow> (t', out, [e])
             | Inl _ \<Rightarrow> (drop1, out, []))
          else if body \<noteq> [] then (drop1, out, [])
          else (t', out, []))"

text \<open>The stream as the tap orders it: released bytes and hooks, each where it stood.\<close>

fun hook_after :: "hook_codec \<Rightarrow> hook_tap \<Rightarrow> string \<Rightarrow> hook_tap" where
  "hook_after c t [] = t"
| "hook_after c t (b # bs) = hook_after c (fst (hook_step c t b)) bs"

fun step_tokens :: "hook_tap \<times> string \<times> hook_event option \<Rightarrow> (char + hook_event) list" where
  "step_tokens (t, rel, h) = map Inl rel @ (case h of None \<Rightarrow> [] | Some e \<Rightarrow> [Inr e])"

fun hook_tokens :: "hook_codec \<Rightarrow> hook_tap \<Rightarrow> string \<Rightarrow> (char + hook_event) list" where
  "hook_tokens c t [] = []"
| "hook_tokens c t (b # bs) = step_tokens (hook_step c t b) @ hook_tokens c (fst (hook_step c t b)) bs"

fun token_bytes :: "(char + hook_event) list \<Rightarrow> string" where
  "token_bytes [] = []"
| "token_bytes (Inl b # ts) = b # token_bytes ts"
| "token_bytes (Inr _ # ts) = token_bytes ts"

fun placed :: "nat \<Rightarrow> (char + hook_event) list \<Rightarrow> (nat \<times> hook_event) list" where
  "placed n [] = []"
| "placed n (Inl b # ts) = placed (n + 1) ts"
| "placed n (Inr e # ts) = (n, e) # placed n ts"

lemma token_bytes_append [simp]: "token_bytes (a @ b) = token_bytes a @ token_bytes b"
  by (induction a rule: token_bytes.induct) simp_all

lemma token_bytes_Inl [simp]: "token_bytes (map Inl s) = s"
  by (induction s) simp_all

lemma placed_append [simp]: "placed n (a @ b) = placed n a @ placed (n + length (token_bytes a)) b"
  by (induction n a rule: placed.induct) simp_all

lemma placed_Inl [simp]: "placed n (map Inl s) = []"
  by (induction s arbitrary: n) simp_all

lemma tap_ordered_split:
  "tap_ordered c (t, out, hs) bs =
     (hook_after c t bs, out @ token_bytes (hook_tokens c t bs), hs @ placed (length out) (hook_tokens c t bs))"
proof (induction bs arbitrary: t out hs)
  case (Cons b bs)
  obtain t' rel h where "hook_step c t b = (t', rel, h)" by (rule prod_cases3)
  then show ?case by (cases h) (simp_all add: Cons.IH Let_def)
qed simp

lemma hook_after_append: "hook_after c t (a @ b) = hook_after c (hook_after c t a) b"
  by (induction a arbitrary: t) simp_all

lemma hook_tokens_append: "hook_tokens c t (a @ b) = hook_tokens c t a @ hook_tokens c (hook_after c t a) b"
  by (induction a arbitrary: t) simp_all

lemma tap_ordered_append: "tap_ordered c s (a @ b) = tap_ordered c (tap_ordered c s a) b"
  by (cases s) (simp add: tap_ordered_split hook_after_append hook_tokens_append)

interpretation hooks: chunked_reader "tap_ordered c" id
  by unfold_locales (simp_all add: tap_ordered_append, metis prod_cases3 tap_ordered.simps(1))

subsection \<open>What passes and what is lifted out\<close>

text \<open>A stretch of output in which no envelope starts and that leaves no escape open: the byte
  after an escape belongs to it.\<close>

fun plain :: "string \<Rightarrow> bool" where
  "plain [] \<longleftrightarrow> True"
| "plain (c # s) \<longleftrightarrow>
     (if c \<noteq> ESC then plain s
      else
        (case s of
           [] \<Rightarrow> False
         | x # s1 \<Rightarrow>
             if x \<noteq> CHR ''P'' then plain s1
             else
               (case s1 of
                  [] \<Rightarrow> False
                | y # s2 \<Rightarrow>
                    if y \<noteq> CHR ''$'' then plain s2
                    else (case s2 of [] \<Rightarrow> False | z # s3 \<Rightarrow> z \<noteq> CHR ''d'' \<and> plain s3))))"

declare plain.simps(2) [simp del]

lemmas tap_const_defs = ESC_def BEL_def HOOK_PREFIX_def STRING_TERMINATOR_def

lemma plain_cases:
  assumes "plain s"
  obtains (nil) "s = []"
  | (byte) b r where "s = b # r" "b \<noteq> ESC" "plain r"
  | (esc1) x r where "s = ESC # x # r" "x \<noteq> CHR ''P''" "plain r"
  | (esc2) x r where "s = ESC # CHR ''P'' # x # r" "x \<noteq> CHR ''$''" "plain r"
  | (esc3) x r where "s = ESC # CHR ''P'' # CHR ''$'' # x # r" "x \<noteq> CHR ''d''" "plain r"
proof (cases s)
  case (Cons b r)
  then show ?thesis
    using assms that plain.simps(2) [of b r] by (cases "b = ESC") (auto split: if_splits list.splits)
qed (rule nil)

lemma not_last: "x \<notin> set w \<Longrightarrow> \<not> (w \<noteq> [] \<and> last w = x)"
  using last_in_set by fastforce

lemma hook_state_id [simp]: "hook_state t = HookGround \<Longrightarrow> t\<lparr>hook_state := HookGround\<rparr> = t"
  by (cases t) simp

text \<open>The steps outside a body.\<close>

lemma hook_step_ground:
  "hook_state t = HookGround \<Longrightarrow> b \<noteq> ESC \<Longrightarrow> hook_step c t b = (t, [b], None)"
  "hook_state t = HookGround \<Longrightarrow> hook_step c t ESC = (t\<lparr>hook_state := HookPrefix [ESC]\<rparr>, [], None)"
  by (simp_all add: hook_step_def)

lemma hook_step_prefix:
  "hook_state t = HookPrefix [ESC] \<Longrightarrow> hook_step c t b =
     (if b = CHR ''P'' then (t\<lparr>hook_state := HookPrefix [ESC, b]\<rparr>, [], None)
      else (t\<lparr>hook_state := HookGround\<rparr>, [ESC, b], None))"
  "hook_state t = HookPrefix [ESC, CHR ''P''] \<Longrightarrow> hook_step c t b =
     (if b = CHR ''$'' then (t\<lparr>hook_state := HookPrefix [ESC, CHR ''P'', b]\<rparr>, [], None)
      else (t\<lparr>hook_state := HookGround\<rparr>, [ESC, CHR ''P'', b], None))"
  "hook_state t = HookPrefix [ESC, CHR ''P'', CHR ''$''] \<Longrightarrow> hook_step c t b =
     (if b = CHR ''d'' then (t\<lparr>hook_state := HookBody []\<rparr>, [], None)
      else (t\<lparr>hook_state := HookGround\<rparr>, [ESC, CHR ''P'', CHR ''$'', b], None))"
  by (simp_all add: hook_step_def HOOK_PREFIX_def)

lemmas hook_steps = hook_step_ground hook_step_prefix

lemma plain_passes:
  "plain s \<Longrightarrow> hook_state t = HookGround \<Longrightarrow> hook_after c t s = t \<and> hook_tokens c t s = map Inl s"
proof (induction s rule: length_induct)
  case (1 s)
  from \<open>plain s\<close> show ?case
    by (cases rule: plain_cases) (use 1 in \<open>simp_all add: hook_steps\<close>)
qed

text \<open>An envelope: what its encoding and its decoding have to agree on.\<close>

definition envelope_ok :: "hook_codec \<Rightarrow> hook_event \<Rightarrow> bool" where
  "envelope_ok c e \<longleftrightarrow>
     (let h = hex_encode c (to_vec c e) in
      ESC \<notin> set h \<and> length h < HOOK_MAX_BODY \<and> hex_decode c h = Some (to_vec c e) \<and>
      from_slice c (to_vec c e) = Ok e)"

lemma hook_collects:
  "ESC \<notin> set w \<Longrightarrow> length (body @ w) \<le> HOOK_MAX_BODY \<Longrightarrow> ESC \<notin> set body \<Longrightarrow> hook_state t = HookBody body \<Longrightarrow>
   hook_after c t w = t\<lparr>hook_state := HookBody (body @ w)\<rparr> \<and> hook_tokens c t w = []"
proof (induction w arbitrary: t body)
  case (Cons b w)
  have "\<not> ends_with (body @ [b]) STRING_TERMINATOR"
    using Cons.prems(1,3) by (cases body rule: rev_cases) (auto simp: ends_with_def STRING_TERMINATOR_def)
  moreover have "\<not> (body \<noteq> [] \<and> last body = ESC)" using Cons.prems(3) by (rule not_last)
  ultimately have "hook_step c t b = (t\<lparr>hook_state := HookBody (body @ [b])\<rparr>, [], None)"
    using Cons.prems by (auto simp: hook_step_def Let_def)
  then show ?case using Cons.prems Cons.IH [of "body @ [b]" "t\<lparr>hook_state := HookBody (body @ [b])\<rparr>"] by simp
qed simp

lemma hook_closes:
  assumes "hook_state t = HookBody h" "ESC \<notin> set h" "length h < HOOK_MAX_BODY" "decode_hook c h = Ok e"
  shows "hook_after c t STRING_TERMINATOR = t\<lparr>hook_state := HookGround\<rparr> \<and>
         hook_tokens c t STRING_TERMINATOR = [Inr e]"
proof -
  have "\<not> (h \<noteq> [] \<and> last h = ESC)" using assms(2) by (rule not_last)
  then have "hook_step c t ESC = (t\<lparr>hook_state := HookBody (h @ [ESC])\<rparr>, [], None)"
    using assms(1,3) by (auto simp: hook_step_def Let_def ends_with_def STRING_TERMINATOR_def ESC_def)
  moreover have "hook_step c (t\<lparr>hook_state := HookBody (h @ [ESC])\<rparr>) (CHR 0x5C) =
      (t\<lparr>hook_state := HookGround\<rparr>, [], Some e)"
    using assms(4) by (simp add: hook_step_def Let_def ends_with_def STRING_TERMINATOR_def)
  ultimately show ?thesis by (simp add: STRING_TERMINATOR_def)
qed

lemma envelope_lifted:
  assumes "envelope_ok c e" "hook_state t = HookGround"
  shows "hook_after c t (encode_hook c e) = t \<and> hook_tokens c t (encode_hook c e) = [Inr e]"
proof -
  let ?h = "hex_encode c (to_vec c e)"
  let ?t1 = "t\<lparr>hook_state := HookBody []\<rparr>" and ?t2 = "t\<lparr>hook_state := HookBody ?h\<rparr>"
  have start: "hook_after c t HOOK_PREFIX = ?t1" "hook_tokens c t HOOK_PREFIX = []"
    using assms(2) by (simp_all add: HOOK_PREFIX_def hook_steps)
  have mid: "hook_after c ?t1 ?h = ?t2" "hook_tokens c ?t1 ?h = []"
    using hook_collects [of ?h "[]" ?t1] assms(1) by (simp_all add: envelope_ok_def Let_def)
  have "decode_hook c ?h = Ok e" using assms(1) by (simp add: envelope_ok_def decode_hook_def Let_def)
  then have "hook_after c ?t2 STRING_TERMINATOR = t\<lparr>hook_state := HookGround\<rparr>" "hook_tokens c ?t2 STRING_TERMINATOR = [Inr e]"
    using hook_closes [of ?t2 ?h c e] assms(1) by (simp_all add: envelope_ok_def Let_def)
  with start mid assms(2) show ?thesis
    unfolding encode_hook_def by (simp add: hook_after_append hook_tokens_append)
qed

subsection \<open>The channel\<close>

text \<open>What a shell writes: its own output with envelopes in between.\<close>

datatype piece = Output string | Hook hook_event

fun piece_wire :: "hook_codec \<Rightarrow> piece \<Rightarrow> string" where
  "piece_wire c (Output s) = s"
| "piece_wire c (Hook e) = encode_hook c e"

fun piece_ok :: "hook_codec \<Rightarrow> piece \<Rightarrow> bool" where
  "piece_ok c (Output s) \<longleftrightarrow> plain s"
| "piece_ok c (Hook e) \<longleftrightarrow> envelope_ok c e"

fun piece_tokens :: "piece \<Rightarrow> (char + hook_event) list" where
  "piece_tokens (Output s) = map Inl s"
| "piece_tokens (Hook e) = [Inr e]"

lemma pieces_read:
  "list_all (piece_ok c) ps \<Longrightarrow> hook_state t = HookGround \<Longrightarrow>
   hook_after c t (concat (map (piece_wire c) ps)) = t \<and>
   hook_tokens c t (concat (map (piece_wire c) ps)) = concat (map piece_tokens ps)"
proof (induction ps)
  case (Cons p ps)
  then show ?case
    by (cases p) (simp_all add: hook_after_append hook_tokens_append plain_passes envelope_lifted)
qed simp

text \<open>C27. The hook channel is faithful: when a shell interleaves its output with envelopes, then however
  the reads cut the stream, the tap gives the parser exactly the output, returns exactly the hooks in
  order, each with the number of output bytes that precede it, drops nothing and holds nothing back. Each
  piece of output between envelopes is one that holds no start of an envelope and does not end inside an
  escape sequence; each envelope's hexadecimal text is below the tap's bound of 64 KiB and holds no escape,
  and the codec decodes what it encoded. Outside of this the channel loses envelopes, as the two lemmas at
  the end of this theory show.\<close>

theorem hook_stream_recovered:
  assumes "list_all (piece_ok c) pieces" "concat chunks = concat (map (piece_wire c) pieces)"
  shows "foldl (tap_ordered c) (hook_new, [], []) chunks =
    (hook_new, token_bytes (concat (map piece_tokens pieces)), placed 0 (concat (map piece_tokens pieces)))"
  using hooks.chunking [of c "(hook_new, [], [])" chunks] pieces_read [OF assms(1), of hook_new] assms(2)
  by (simp add: tap_ordered_split hook_new_def)

text \<open>A codec for the examples: two hexadecimal digits per byte, and the JSON of \<open>Clear\<close>.\<close>

definition sample_hex :: "string \<Rightarrow> string" where
  "sample_hex s = concat (map (\<lambda>c. [hex_char (of_char c div 16), hex_char (of_char c mod 16)]) s)"

fun sample_unhex :: "string \<Rightarrow> string option" where
  "sample_unhex [] = Some []"
| "sample_unhex (h # l # s) =
     (case (hex_digit h, hex_digit l) of
        (Some a, Some b) \<Rightarrow> map_option (Cons (char_of (a * 16 + b))) (sample_unhex s)
      | _ \<Rightarrow> None)"
| "sample_unhex _ = None"

definition sample_codec :: hook_codec where
  "sample_codec =
     \<lparr>hex_encode = sample_hex, hex_decode = sample_unhex,
      to_vec = (\<lambda>_. ''C''), from_slice = (\<lambda>j. if j = ''C'' then Ok Clear else Err ''?'')\<rparr>"

lemma sample_clear: "envelope_ok sample_codec Clear"
  by (simp add: envelope_ok_def sample_codec_def sample_hex_def hex_char_def ESC_def HOOK_MAX_BODY_def hex_digit_def Let_def)
    code_simp

theorem hook_stream_recovered_witness:
  "foldl (tap_ordered sample_codec) (hook_new, [], [])
     [''a'', take 5 (encode_hook sample_codec Clear), drop 5 (encode_hook sample_codec Clear) @ ''bc''] =
   (hook_new, ''abc'', [(1, Clear)])"
proof -
  have "list_all (piece_ok sample_codec) [Output ''a'', Hook Clear, Output ''bc'']"
    by (simp add: sample_clear plain.simps ESC_def)
  then show ?thesis
    using hook_stream_recovered [of sample_codec "[Output ''a'', Hook Clear, Output ''bc'']"
        "[''a'', take 5 (encode_hook sample_codec Clear), drop 5 (encode_hook sample_codec Clear) @ ''bc'']"]
    by simp
qed

subsection \<open>Foreign sequences\<close>

text \<open>The bytes the tap holds back, and the invariant of its states.\<close>

fun held :: "hook_state \<Rightarrow> string" where
  "held HookGround = []"
| "held (HookPrefix p) = p"
| "held (HookBody body) = HOOK_PREFIX @ body"

definition hook_bounded :: "hook_tap \<Rightarrow> bool" where
  "hook_bounded t \<longleftrightarrow>
     (case hook_state t of
        HookGround \<Rightarrow> True
      | HookPrefix p \<Rightarrow> p \<in> {[ESC], [ESC, CHR ''P''], [ESC, CHR ''P'', CHR ''$'']}
      | HookBody body \<Rightarrow> length body \<le> HOOK_MAX_BODY)"

lemma hook_step_bounded: "hook_bounded t \<Longrightarrow> hook_bounded (fst (hook_step c t b))"
  by (cases "hook_state t")
    (auto simp: hook_bounded_def hook_steps, auto simp: hook_step_def Let_def split: sum.splits)

lemma hook_after_bounded: "hook_bounded t \<Longrightarrow> hook_bounded (hook_after c t bs)"
  by (induction bs arbitrary: t) (simp_all add: hook_step_bounded)

text \<open>Outside a body nothing is lost, and a body is entered only after the whole prefix.\<close>

lemma hook_step_held:
  assumes "\<forall>body. hook_state t \<noteq> HookBody body" "hook_bounded t"
  shows "\<exists>t' rel. hook_step c t b = (t', rel, None) \<and> rel @ held (hook_state t') = held (hook_state t) @ [b] \<and>
    hook_dropped t' = hook_dropped t"
  using assms by (cases "hook_state t") (auto simp: hook_bounded_def hook_steps HOOK_PREFIX_def, simp add: hook_step_def)

lemma foreign_passes:
  assumes "\<not> sublist HOOK_PREFIX bs"
  shows "(\<forall>body. hook_state (hook_after c hook_new bs) \<noteq> HookBody body) \<and>
    hook_dropped (hook_after c hook_new bs) = 0 \<and>
    (\<exists>out. hook_tokens c hook_new bs = map Inl out \<and> out @ held (hook_state (hook_after c hook_new bs)) = bs)"
  using assms
proof (induction bs rule: rev_induct)
  case Nil
  then show ?case by (simp add: hook_new_def)
next
  case (snoc b bs)
  let ?t = "hook_after c hook_new bs"
  have "\<not> sublist HOOK_PREFIX bs" using snoc.prems by (metis append.assoc sublist_appendI sublist_def)
  with snoc.IH obtain out where ih: "\<forall>body. hook_state ?t \<noteq> HookBody body" "hook_dropped ?t = 0"
      "hook_tokens c hook_new bs = map Inl out" "out @ held (hook_state ?t) = bs" by blast
  have "hook_bounded hook_new" by (simp add: hook_bounded_def hook_new_def)
  then have "hook_bounded ?t" by (rule hook_after_bounded)
  from hook_step_held [OF ih(1) this] obtain t' rel where
    st: "hook_step c ?t b = (t', rel, None)" "rel @ held (hook_state t') = held (hook_state ?t) @ [b]"
      "hook_dropped t' = hook_dropped ?t" by blast
  have whole: "(out @ rel) @ held (hook_state t') = bs @ [b]" using ih(4) st(2) by simp
  have "hook_state t' \<noteq> HookBody body" for body
  proof
    assume "hook_state t' = HookBody body"
    with whole have "bs @ [b] = (out @ rel) @ HOOK_PREFIX @ body" by simp
    then show False using snoc.prems by (metis sublist_appendI)
  qed
  then show ?case using ih(2,3) st whole
    by (auto simp: hook_after_append hook_tokens_append intro!: exI [of _ "out @ rel"])
qed

text \<open>A program's own escape sequences are safe: in a stream that nowhere contains the start of an
  envelope the tap never drops or reorders a byte and never invents a hook. What it returned so far
  together with what it releases at the end of the session is the stream, however it was cut.\<close>

theorem foreign_bytes_untouched:
  assumes "\<not> sublist HOOK_PREFIX (concat chunks)" "foldl (tap_ordered c) (hook_new, [], []) chunks = (t, out, hs)"
  shows "hs = [] \<and> hook_flush c t out = (hook_new, concat chunks, [])"
proof -
  obtain w where w: "\<forall>body. hook_state (hook_after c hook_new (concat chunks)) \<noteq> HookBody body"
      "hook_dropped (hook_after c hook_new (concat chunks)) = 0"
      "hook_tokens c hook_new (concat chunks) = map Inl w"
      "w @ held (hook_state (hook_after c hook_new (concat chunks))) = concat chunks"
    using foreign_passes [OF assms(1)] by blast
  have "(t, out, hs) = tap_ordered c (hook_new, [], []) (concat chunks)"
    using hooks.chunking [of c "(hook_new, [], [])" chunks] assms(2) by simp
  then have "t = hook_after c hook_new (concat chunks)" "out = w" "hs = []"
    using w(3) by (simp_all add: tap_ordered_split)
  with w show ?thesis
    by (cases t; cases "hook_state t") (auto simp: hook_flush_def hook_new_def)
qed

theorem foreign_bytes_untouched_witness:
  "hook_flush sample_codec (hook_new\<lparr>hook_state := HookPrefix [ESC, CHR ''P'']\<rparr>) ([ESC] @ ''[0m'') =
     (hook_new, [ESC] @ ''[0m'' @ [ESC] @ ''P'', [])"
proof -
  have "foldl (tap_ordered sample_codec) (hook_new, [], []) [[ESC], ''[0m'' @ [ESC], ''P''] =
      (hook_new\<lparr>hook_state := HookPrefix [ESC, CHR ''P'']\<rparr>, [ESC] @ ''[0m'', [])" by code_simp
  moreover have "\<not> sublist HOOK_PREFIX (concat [[ESC], ''[0m'' @ [ESC], ''P''])" by code_simp
  ultimately show ?thesis
    using foreign_bytes_untouched by fastforce
qed

text \<open>An envelope right after a lone escape is not recognised: its bytes reach the parser.\<close>

lemma envelope_after_escape_missed:
  "tap_ordered sample_codec (hook_new, [], []) (ESC # encode_hook sample_codec Clear) =
     (hook_new, ESC # encode_hook sample_codec Clear, [])"
  by code_simp

text \<open>A payload of exactly the bound is one \<open>decode_hook\<close> accepts and the tap drops, and the last byte of
  its terminator reaches the parser as text.\<close>

lemma payload_at_bound_dropped:
  assumes "ESC \<notin> set h" "length h = HOOK_MAX_BODY"
  shows "tap_ordered c (hook_new, [], []) (HOOK_PREFIX @ h @ STRING_TERMINATOR) =
    (hook_new\<lparr>hook_dropped := 1\<rparr>, [CHR 0x5C], [])"
proof -
  let ?t1 = "hook_new\<lparr>hook_state := HookBody []\<rparr>" and ?t2 = "hook_new\<lparr>hook_state := HookBody h\<rparr>"
  let ?t3 = "hook_new\<lparr>hook_dropped := 1\<rparr>"
  have start: "hook_after c hook_new HOOK_PREFIX = ?t1" "hook_tokens c hook_new HOOK_PREFIX = []"
    by (simp_all add: HOOK_PREFIX_def hook_steps hook_new_def)
  have mid: "hook_after c ?t1 h = ?t2" "hook_tokens c ?t1 h = []"
    using hook_collects [of h "[]" ?t1] assms by simp_all
  have "\<not> (h \<noteq> [] \<and> last h = ESC)" using assms(1) by (rule not_last)
  then have "hook_step c ?t2 ESC = (?t3, [], None)"
    using assms(2) by (auto simp: hook_step_def Let_def ends_with_def STRING_TERMINATOR_def ESC_def hook_new_def)
  moreover have "hook_step c ?t3 (CHR 0x5C) = (?t3, [CHR 0x5C], None)"
    by (simp add: hook_step_def hook_new_def ESC_def)
  ultimately have "hook_after c ?t2 STRING_TERMINATOR = ?t3" "hook_tokens c ?t2 STRING_TERMINATOR = [Inl (CHR 0x5C)]"
    by (simp_all add: STRING_TERMINATOR_def)
  with start mid show ?thesis by (simp add: tap_ordered_split hook_after_append hook_tokens_append)
qed

end
