(* ===== verification/Terminal_Sixel.thy ===== *)
theory Terminal_Sixel
  imports Rust_Text
begin

text \<open>
  The sixel decoder of \<^verbatim>\<open>goble-terminal/src/image.rs\<close>: the operators, the palette and the raster a
  stream paints into. A position in the data is the list of the bytes from there on. A pixel is its four bytes. The
  coordinates are natural numbers: every product the code saturates is compared with a bound far
  below the width of \<open>usize\<close>, and a comparison with such a bound does not see the saturation.
\<close>

definition MAX_SIXEL_DIMENSION :: nat where
  "MAX_SIXEL_DIMENSION = 16384"

definition MAX_SIXEL_PIXELS :: nat where
  "MAX_SIXEL_PIXELS = 8000000"

type_synonym pixel = string

definition rgb :: "nat \<Rightarrow> nat \<Rightarrow> nat \<Rightarrow> pixel" where
  "rgb r g b = [char_of r, char_of g, char_of b, char_of (255 :: nat)]"

definition TRANSPARENT :: pixel where
  "TRANSPARENT = [CHR 0x00, CHR 0x00, CHR 0x00, CHR 0x00]"

definition DEFAULT_SIXEL_PALETTE :: "(nat \<times> pixel) list" where
  "DEFAULT_SIXEL_PALETTE =
     zip [0..<16]
       [rgb 0 0 0, rgb 205 0 0, rgb 0 205 0, rgb 205 205 0, rgb 0 0 238, rgb 205 0 205,
        rgb 0 205 205, rgb 229 229 229, rgb 127 127 127, rgb 255 0 0, rgb 0 255 0, rgb 255 255 0,
        rgb 92 92 255, rgb 255 0 255, rgb 0 255 255, rgb 255 255 255]"

section \<open>Numbers\<close>

definition U32_MAX :: nat where
  "U32_MAX = 2 ^ 32 - 1"

fun digits_value :: "nat \<Rightarrow> string \<Rightarrow> nat" where
  "digits_value v [] = v"
| "digits_value v (d # ds) = digits_value (min (min (v * 10) U32_MAX + (of_char d - 48)) U32_MAX) ds"

definition parse_number :: "string \<Rightarrow> (nat \<times> string) option" where
  "parse_number s =
     (let ds = takeWhile is_digit s in
      if ds = [] then None else Some (digits_value 0 ds, dropWhile is_digit s))"

lemma parse_number_shorter: "parse_number s = Some (v, r) \<Longrightarrow> length r < length s"
  by (cases s) (auto simp: parse_number_def Let_def length_dropWhile_le le_imp_less_Suc split: if_splits)

text \<open>The loops that read parameters separated by semicolons: without a limit for \<^verbatim>\<open>#\<close>, at most four
  for the raster attributes.\<close>

function sixel_params :: "string \<Rightarrow> (nat list \<times> string) option" where
  "sixel_params s =
     (case parse_number s of
        None \<Rightarrow> None
      | Some (v, r) \<Rightarrow>
          if r \<noteq> [] \<and> hd r = CHR '';'' then
            (case sixel_params (tl r) of None \<Rightarrow> None | Some (vs, r') \<Rightarrow> Some (v # vs, r'))
          else Some ([v], r))"
  by pat_completeness auto
termination
  by (relation "measure length") (auto dest!: parse_number_shorter)

declare sixel_params.simps [simp del]

fun raster_params :: "nat \<Rightarrow> string \<Rightarrow> (nat list \<times> string) option" where
  "raster_params 0 s = Some ([], s)"
| "raster_params (Suc n) s =
     (case parse_number s of
        None \<Rightarrow> None
      | Some (v, r) \<Rightarrow>
          if r \<noteq> [] \<and> hd r = CHR '';'' then
            (case raster_params n (tl r) of None \<Rightarrow> None | Some (vs, r') \<Rightarrow> Some (v # vs, r'))
          else Some ([v], r))"

lemma sixel_params_shorter: "sixel_params s = Some (vs, r) \<Longrightarrow> length r < length s \<and> vs \<noteq> []"
proof (induction s arbitrary: vs r rule: sixel_params.induct)
  case (1 s)
  obtain v q where p: "parse_number s = Some (v, q)"
    using 1(2) by (cases "parse_number s") (auto simp: sixel_params.simps [of s])
  show ?case
  proof (cases "q \<noteq> [] \<and> hd q = CHR '';''")
    case True
    then obtain us where "sixel_params (tl q) = Some (us, r)" "vs = v # us"
      using 1(2) p by (auto simp: sixel_params.simps [of s] split: option.splits)
    then show ?thesis using 1(1) [OF p refl True] parse_number_shorter [OF p] by fastforce
  next
    case False
    then have "r = q" "vs = [v]" using 1(2) p by (auto simp: sixel_params.simps [of s] split: if_splits)
    then show ?thesis using parse_number_shorter [OF p] by simp
  qed
qed

lemma raster_params_shorter: "raster_params n s = Some (vs, r) \<Longrightarrow> length r \<le> length s"
proof (induction n s arbitrary: vs r rule: raster_params.induct)
  case (2 n s)
  obtain v q where p: "parse_number s = Some (v, q)" using 2(2) by (cases "parse_number s") auto
  show ?case
  proof (cases "q \<noteq> [] \<and> hd q = CHR '';''")
    case True
    then obtain us where "raster_params n (tl q) = Some (us, r)"
      using 2(2) p by (auto split: option.splits)
    then show ?thesis using 2(1) [OF p refl True] parse_number_shorter [OF p] by fastforce
  next
    case False
    then show ?thesis using 2(2) p parse_number_shorter [OF p] by (auto split: if_splits)
  qed
qed simp

section \<open>The raster\<close>

record sixel_raster =
  sr_rows :: "pixel list list"
  sr_max_x :: "nat option"
  sr_max_y :: "nat option"

definition raster_default :: sixel_raster where
  "raster_default = \<lparr>sr_rows = [], sr_max_x = None, sr_max_y = None\<rparr>"

text \<open>\<open>line.resize(x + 1, TRANSPARENT)\<close> when the line is too short, then the cell.\<close>

definition put_pixel :: "pixel \<Rightarrow> pixel list \<Rightarrow> nat \<Rightarrow> pixel list" where
  "put_pixel col line i =
     ((if length line \<le> i then line @ replicate (i + 1 - length line) TRANSPARENT else line)[i := col])"

definition max_opt :: "nat option \<Rightarrow> nat \<Rightarrow> nat" where
  "max_opt m v = (case m of None \<Rightarrow> v | Some w \<Rightarrow> max w v)"

definition draw_row :: "nat \<Rightarrow> nat \<Rightarrow> pixel \<Rightarrow> nat \<Rightarrow> sixel_raster \<Rightarrow> sixel_raster option" where
  "draw_row x repeat col row r =
     (if MAX_SIXEL_DIMENSION \<le> row then None
      else
        let rows = sr_rows r @ replicate (row + 1 - length (sr_rows r)) [];
            line = foldl (put_pixel col) (rows ! row) [x..<x + repeat]
        in Some (r\<lparr>sr_rows := rows[row := line], sr_max_y := Some (max_opt (sr_max_y r) row)\<rparr>))"

fun draw_bits ::
  "nat \<Rightarrow> nat \<Rightarrow> nat \<Rightarrow> pixel \<Rightarrow> nat \<Rightarrow> nat list \<Rightarrow> sixel_raster \<Rightarrow> sixel_raster option" where
  "draw_bits x y repeat col bits [] r = Some r"
| "draw_bits x y repeat col bits (k # ks) r =
     (if \<not> odd (bits div 2 ^ k) then draw_bits x y repeat col bits ks r
      else
        (case draw_row x repeat col (y + k) r of
           None \<Rightarrow> None
         | Some r' \<Rightarrow> draw_bits x y repeat col bits ks r'))"

definition draw ::
  "nat \<Rightarrow> nat \<Rightarrow> char \<Rightarrow> nat \<Rightarrow> (nat \<times> pixel) list \<Rightarrow> nat \<Rightarrow> sixel_raster \<Rightarrow> sixel_raster option" where
  "draw x y sixel repeat palette cur r =
     (let bits = of_char sixel - 63;
          col = (case map_of palette cur of None \<Rightarrow> rgb 0 0 0 | Some p \<Rightarrow> p)
      in if MAX_SIXEL_DIMENSION < x + repeat \<or> MAX_SIXEL_PIXELS < (x + repeat) * (y + 6) then None
         else
           (case draw_bits x y repeat col bits [0..<6] r of
              None \<Rightarrow> None
            | Some r' \<Rightarrow>
                Some (if bits \<noteq> 0 then r'\<lparr>sr_max_x := Some (max_opt (sr_max_x r') (x + repeat - 1))\<rparr> else r')))"

section \<open>The decoder\<close>

record sixel_state =
  sx_palette :: "(nat \<times> pixel) list"
  sx_current :: nat
  sx_raster :: sixel_raster
  sx_x :: nat
  sx_y :: nat

definition sixel_start :: sixel_state where
  "sixel_start =
     \<lparr>sx_palette = DEFAULT_SIXEL_PALETTE, sx_current = 0, sx_raster = raster_default, sx_x = 0, sx_y = 0\<rparr>"

definition is_sixel :: "char \<Rightarrow> bool" where
  "is_sixel c \<longleftrightarrow> 63 \<le> (of_char c :: nat) \<and> (of_char c :: nat) \<le> 126"

definition sixel_draw :: "sixel_state \<Rightarrow> char \<Rightarrow> nat \<Rightarrow> sixel_state option" where
  "sixel_draw st c repeat =
     (case draw (sx_x st) (sx_y st) c repeat (sx_palette st) (sx_current st) (sx_raster st) of
        None \<Rightarrow> None
      | Some r \<Rightarrow> Some (st\<lparr>sx_raster := r, sx_x := sx_x st + repeat\<rparr>))"

definition to_byte :: "nat \<Rightarrow> nat" where
  "to_byte v = (min v 100 * 255) div 100"

text \<open>The palette operator: the first number selects a register, five numbers also define it. The
  numbers are truncated to 16 bits.\<close>

definition sixel_select :: "sixel_state \<Rightarrow> nat list \<Rightarrow> sixel_state" where
  "sixel_select st vals =
     (case map (\<lambda>v. v mod 2 ^ 16) vals of
        [] \<Rightarrow> st
      | pc # vs \<Rightarrow>
          let st' = st\<lparr>sx_current := pc\<rparr> in
          if 4 \<le> length vs
          then st'\<lparr>sx_palette := (pc, rgb (to_byte (vs ! 1)) (to_byte (vs ! 2)) (to_byte (vs ! 3))) # sx_palette st\<rparr>
          else st')"

text \<open>One turn of the loop of \<open>decode_sixel\<close>: the state and the bytes that are left. A repeat count
  at the end of the data leaves the loop.\<close>

definition sixel_step :: "sixel_state \<Rightarrow> char \<Rightarrow> string \<Rightarrow> (sixel_state \<times> string) option" where
  "sixel_step st b s =
     (if b = CHR ''!'' then
        (case parse_number s of
           None \<Rightarrow> None
         | Some (count, s1) \<Rightarrow>
             let repeat = max 1 (min count MAX_SIXEL_DIMENSION) in
             (case s1 of
                [] \<Rightarrow> Some (st, [])
              | c # s2 \<Rightarrow>
                  if is_sixel c then map_option (\<lambda>st'. (st', s2)) (sixel_draw st c repeat)
                  else Some (st, s2)))
      else if b = CHR ''#'' then
        map_option (\<lambda>(vals, s1). (sixel_select st vals, s1)) (sixel_params s)
      else if b = CHR 0x22 then
        (case raster_params 4 s of
           None \<Rightarrow> None
         | Some (vals, s1) \<Rightarrow>
             if 3 < length vals \<and> MAX_SIXEL_DIMENSION < vals ! 3 then None else Some (st, s1))
      else if b = CHR ''$'' then Some (st\<lparr>sx_x := 0\<rparr>, s)
      else if b = CHR ''-'' then
        (if MAX_SIXEL_DIMENSION \<le> sx_y st + 6 then None
         else Some (st\<lparr>sx_x := 0, sx_y := sx_y st + 6\<rparr>, s))
      else if is_sixel b then map_option (\<lambda>st'. (st', s)) (sixel_draw st b 1)
      else Some (st, s))"

lemma sixel_step_shorter: "sixel_step st b s = Some (st', r) \<Longrightarrow> length r \<le> length s"
  by (auto simp: sixel_step_def Let_def split: if_splits option.splits list.splits
      dest!: parse_number_shorter sixel_params_shorter raster_params_shorter)

function sixel_loop :: "sixel_state \<Rightarrow> string \<Rightarrow> sixel_state option" where
  "sixel_loop st [] = Some st"
| "sixel_loop st (b # s) =
     (case sixel_step st b s of None \<Rightarrow> None | Some (st', r) \<Rightarrow> sixel_loop st' r)"
  by pat_completeness auto
termination
  by (relation "measure (length \<circ> snd)") (auto dest: sixel_step_shorter)

definition pixel_at :: "pixel list \<Rightarrow> nat \<Rightarrow> pixel" where
  "pixel_at row x = (if x < length row then row ! x else TRANSPARENT)"

definition decode_sixel :: "string \<Rightarrow> (nat \<times> nat \<times> string) option" where
  "decode_sixel data =
     (case sixel_loop sixel_start data of
        None \<Rightarrow> None
      | Some st \<Rightarrow>
          (case (sr_max_x (sx_raster st), sr_max_y (sx_raster st)) of
             (Some mx, Some my) \<Rightarrow>
               let width = mx + 1; height = my + 1 in
               if width = 0 \<or> height = 0 \<or> MAX_SIXEL_DIMENSION < width \<or> MAX_SIXEL_DIMENSION < height then None
               else Some (width, height,
                 concat (map (\<lambda>row. concat (map (pixel_at row) [0..<width])) (take height (sr_rows (sx_raster st)))))
           | _ \<Rightarrow> None))"

section \<open>Every decoded image is whole\<close>

text \<open>Pixels are four bytes, and the extent of a raster is inside its rows and inside the bound.\<close>

definition raster_ok :: "sixel_raster \<Rightarrow> bool" where
  "raster_ok r \<longleftrightarrow>
     list_all (list_all (\<lambda>p. length p = 4)) (sr_rows r) \<and>
     (\<forall>m. sr_max_x r = Some m \<longrightarrow> m < MAX_SIXEL_DIMENSION) \<and>
     (\<forall>m. sr_max_y r = Some m \<longrightarrow> m < MAX_SIXEL_DIMENSION \<and> m < length (sr_rows r))"

definition sixel_ok :: "sixel_state \<Rightarrow> bool" where
  "sixel_ok st \<longleftrightarrow> list_all (\<lambda>e. length (snd e) = 4) (sx_palette st) \<and> raster_ok (sx_raster st)"

lemma rgb_pixel [simp]: "length (rgb r g b) = 4"
  by (simp add: rgb_def)

lemma transparent_pixel [simp]: "length TRANSPARENT = 4"
  by (simp add: TRANSPARENT_def)

lemma list_all_update: "list_all P xs \<Longrightarrow> P v \<Longrightarrow> list_all P (xs[i := v])"
  by (auto simp: list_all_iff dest!: subsetD [OF set_update_subset_insert])

lemma put_pixel_ok:
  "length col = 4 \<Longrightarrow> list_all (\<lambda>p. length p = 4) line \<Longrightarrow> list_all (\<lambda>p. length p = 4) (put_pixel col line i)"
  by (auto simp: put_pixel_def list_all_update list_all_iff dest!: subsetD [OF set_update_subset_insert])

lemma put_pixels_ok:
  "length col = 4 \<Longrightarrow> list_all (\<lambda>p. length p = 4) line \<Longrightarrow>
   list_all (\<lambda>p. length p = 4) (foldl (put_pixel col) line is)"
  by (induction "is" arbitrary: line) (simp_all add: put_pixel_ok)

lemma draw_row_ok:
  assumes "draw_row x rp col row r = Some r'" "raster_ok r" "length col = 4"
  shows "raster_ok r' \<and> sr_max_x r' = sr_max_x r \<and> sr_max_y r' = Some (max_opt (sr_max_y r) row) \<and> row < MAX_SIXEL_DIMENSION"
proof -
  let ?rows = "sr_rows r @ replicate (row + 1 - length (sr_rows r)) []"
  let ?line = "foldl (put_pixel col) (?rows ! row) [x..<x + rp]"
  have row: "row < MAX_SIXEL_DIMENSION" "row < length ?rows"
    and r': "r' = r\<lparr>sr_rows := ?rows[row := ?line], sr_max_y := Some (max_opt (sr_max_y r) row)\<rparr>"
    using assms(1) by (auto simp: draw_row_def Let_def split: if_splits)
  have all: "list_all (list_all (\<lambda>p. length p = 4)) ?rows"
    using assms(2) by (auto simp: raster_ok_def list_all_iff)
  then have "list_all (\<lambda>p. length p = 4) (?rows ! row)"
    using nth_mem [OF row(2)] unfolding list_all_iff [of "list_all _"] by blast
  then have "list_all (list_all (\<lambda>p. length p = 4)) (?rows[row := ?line])"
    using all assms(3) by (simp only: list_all_update put_pixels_ok)
  then show ?thesis using row assms(2) unfolding r'
    by (auto simp: raster_ok_def max_opt_def split: option.splits)
qed

lemma draw_bits_ok:
  "draw_bits x y rp col bits ks r = Some r' \<Longrightarrow> raster_ok r \<Longrightarrow> length col = 4 \<Longrightarrow>
   raster_ok r' \<and> sr_max_x r' = sr_max_x r"
proof (induction x y rp col bits ks r rule: draw_bits.induct)
  case (2 x y rp col bits k ks r)
  show ?case
  proof (cases "odd (bits div 2 ^ k)")
    case True
    then obtain q where q: "draw_row x rp col (y + k) r = Some q" "draw_bits x y rp col bits ks q = Some r'"
      using "2.prems"(1) by (auto split: option.splits)
    then show ?thesis using "2.IH"(2) [of q] True draw_row_ok [OF q(1) "2.prems"(2,3)] "2.prems"(3) by simp
  next
    case False
    then show ?thesis using 2 by simp
  qed
qed simp

lemma draw_ok:
  assumes "draw x y c rp pal cur r = Some r'" "raster_ok r" "list_all (\<lambda>e. length (snd e) = 4) pal" "0 < rp"
  shows "raster_ok r'"
proof -
  define col where "col = (case map_of pal cur of None \<Rightarrow> rgb 0 0 0 | Some p \<Rightarrow> p)"
  define bits where "bits = (of_char c - 63 :: nat)"
  define ks where "ks = [0..<6::nat]"
  have "length col = 4"
    using assms(3) by (auto simp: col_def list_all_iff split: option.splits dest!: map_of_SomeD)
  moreover obtain q where "draw_bits x y rp col bits ks r = Some q" "x + rp \<le> MAX_SIXEL_DIMENSION"
      "r' = (if bits \<noteq> 0 then q\<lparr>sr_max_x := Some (max_opt (sr_max_x q) (x + rp - 1))\<rparr> else q)"
    using assms(1) unfolding draw_def Let_def col_def [symmetric] bits_def [symmetric] ks_def [symmetric]
    by (cases "draw_bits x y rp col bits ks r") (auto simp: not_less split: if_splits)
  moreover from calculation have "raster_ok q" using draw_bits_ok assms(2) by blast
  ultimately show ?thesis
    using assms(4) by (cases "sr_max_x q"; cases "bits = 0") (simp_all add: raster_ok_def max_opt_def)
qed

lemma sixel_draw_ok: "sixel_draw st c rp = Some st' \<Longrightarrow> sixel_ok st \<Longrightarrow> 0 < rp \<Longrightarrow> sixel_ok st'"
  by (auto simp: sixel_draw_def sixel_ok_def intro: draw_ok split: option.splits)

lemma sixel_select_ok: "sixel_ok st \<Longrightarrow> sixel_ok (sixel_select st vals)"
  by (cases "map (\<lambda>v. v mod 2 ^ 16) vals") (auto simp: sixel_select_def sixel_ok_def Let_def simp del: map_eq_Cons_conv map_is_Nil_conv)

lemma sixel_draw_repeat_ok:
  "sixel_draw st c (max (Suc 0) n) = Some st' \<Longrightarrow> sixel_ok st \<Longrightarrow> sixel_ok st'"
  by (erule sixel_draw_ok) (simp_all add: max_def)

lemma sixel_step_ok: "sixel_step st b s = Some (st', r) \<Longrightarrow> sixel_ok st \<Longrightarrow> sixel_ok st'"
  by (auto simp: sixel_step_def Let_def sixel_select_ok split: if_splits option.splits list.splits
      dest: sixel_draw_ok sixel_draw_repeat_ok) (simp_all add: sixel_ok_def)

lemma sixel_loop_ok: "sixel_loop st s = Some st' \<Longrightarrow> sixel_ok st \<Longrightarrow> sixel_ok st'"
  by (induction st s rule: sixel_loop.induct) (auto dest: sixel_step_ok split: option.splits)

lemma sixel_start_ok: "sixel_ok sixel_start"
  by (simp add: sixel_ok_def sixel_start_def raster_ok_def raster_default_def DEFAULT_SIXEL_PALETTE_def upt_rec)

text \<open>A row cut to a width, and the image as the rows of its height.\<close>

lemma row_bytes_length:
  "list_all (\<lambda>p. length p = 4) row \<Longrightarrow> length (concat (map (pixel_at row) [0..<w])) = 4 * w"
  by (induction w) (simp_all add: pixel_at_def list_all_length)

lemma rows_bytes_length:
  "list_all (list_all (\<lambda>p. length p = 4)) rows \<Longrightarrow>
   length (concat (map (\<lambda>row. concat (map (pixel_at row) [0..<w])) rows)) = 4 * w * length rows"
proof (induction rows)
  case (Cons row rows)
  then show ?case using row_bytes_length [of row w] by (simp del: map_map)
qed simp

lemma decode_sixel_whole:
  assumes "decode_sixel data = Some (w, h, rgba)"
  shows "0 < w \<and> w \<le> MAX_SIXEL_DIMENSION \<and> 0 < h \<and> h \<le> MAX_SIXEL_DIMENSION \<and> length rgba = 4 * w * h"
proof -
  obtain st mx my where st: "sixel_loop sixel_start data = Some st"
      "sr_max_x (sx_raster st) = Some mx" "sr_max_y (sx_raster st) = Some my"
    and wh: "w = mx + 1" "h = my + 1" "w \<le> MAX_SIXEL_DIMENSION" "h \<le> MAX_SIXEL_DIMENSION"
    and b: "rgba = concat (map (\<lambda>row. concat (map (pixel_at row) [0..<w])) (take h (sr_rows (sx_raster st))))"
    using assms by (auto simp: decode_sixel_def Let_def simp del: upt_Suc split: option.splits if_splits)
  have ok: "raster_ok (sx_raster st)" using sixel_loop_ok [OF st(1) sixel_start_ok] by (simp add: sixel_ok_def)
  then have "list_all (list_all (\<lambda>p. length p = 4)) (take h (sr_rows (sx_raster st)))"
    by (auto simp: raster_ok_def list_all_iff dest: in_set_takeD)
  moreover have "length (take h (sr_rows (sx_raster st))) = h" using ok st(3) wh(2) by (simp add: raster_ok_def)
  ultimately have "length rgba = 4 * w * h" unfolding b by (simp only: rows_bytes_length)
  then show ?thesis using wh by simp
qed

section \<open>The cap on pixels\<close>

text \<open>What a full column of six pixels adds to the extent.\<close>

lemma draw_bits_full:
  assumes "y + 6 \<le> MAX_SIXEL_DIMENSION" "n \<le> 6"
  shows "\<exists>r'. draw_bits x y rp col 63 [6 - n..<6] r = Some r' \<and> sr_max_x r' = sr_max_x r \<and>
     (0 < n \<longrightarrow> sr_max_y r' = Some (max_opt (sr_max_y r) (y + 5)))"
  using assms(2)
proof (induction n arbitrary: r)
  case (Suc n)
  let ?k = "6 - Suc n"
  have k: "?k \<in> {0, 1, 2, 3, 4, 5}" using Suc.prems by auto
  have "?k < 6" "Suc ?k = 6 - n" using Suc.prems by simp_all
  then have l: "[?k..<6] = ?k # [6 - n..<6]" by (metis upt_conv_Cons)
  have o: "odd (63 div 2 ^ ?k :: nat)" using k by (elim insertE) simp_all
  have "y + ?k < MAX_SIXEL_DIMENSION" using assms(1) k by auto
  then obtain q where q: "draw_row x rp col (y + ?k) r = Some q" "sr_max_x q = sr_max_x r"
      "sr_max_y q = Some (max_opt (sr_max_y r) (y + ?k))"
    by (auto simp: draw_row_def Let_def)
  from Suc.IH [of q] Suc.prems obtain r' where r': "draw_bits x y rp col 63 [6 - n..<6] q = Some r'"
      "sr_max_x r' = sr_max_x q" "0 < n \<longrightarrow> sr_max_y r' = Some (max_opt (sr_max_y q) (y + 5))" by auto
  have "sr_max_y r' = Some (max_opt (sr_max_y r) (y + 5))"
  proof (cases n)
    case 0
    then have "r' = q" using r'(1) by simp
    then show ?thesis using q(3) 0 by simp
  next
    case (Suc m)
    have "y + ?k \<le> y + 5" using k by auto
    with r'(3) q(3) Suc show ?thesis by (auto simp: max_opt_def split: option.splits)
  qed
  then show ?case using q r' o by (simp only: l draw_bits.simps) simp
qed simp

lemma draw_full:
  assumes "y + 6 \<le> MAX_SIXEL_DIMENSION" "x + rp \<le> MAX_SIXEL_DIMENSION" "(x + rp) * (y + 6) \<le> MAX_SIXEL_PIXELS"
  shows "\<exists>r'. draw x y (CHR 0x7E) rp pal cur r = Some r' \<and>
    sr_max_x r' = Some (max_opt (sr_max_x r) (x + rp - 1)) \<and> sr_max_y r' = Some (max_opt (sr_max_y r) (y + 5))"
proof -
  define col where "col = (case map_of pal cur of None \<Rightarrow> rgb 0 0 0 | Some p \<Rightarrow> p)"
  have b: "(of_char (CHR 0x7E) - 63 :: nat) = 63" by simp
  obtain q where "draw_bits x y rp col 63 [0..<6] r = Some q" "sr_max_x q = sr_max_x r"
      "sr_max_y q = Some (max_opt (sr_max_y r) (y + 5))"
    using draw_bits_full [OF assms(1), of 6 x rp col r] by (auto simp del: upt_rec_numeral draw_bits.simps)
  then show ?thesis
    using assms(2,3) unfolding draw_def Let_def b col_def [symmetric]
    by (simp del: upt_rec_numeral draw_bits.simps)
qed

lemma sixel_bands:
  "sx_x st = 0 \<Longrightarrow> sx_y st + 6 * n < MAX_SIXEL_DIMENSION \<Longrightarrow>
   sixel_loop st (replicate n (CHR ''-'') @ s) = sixel_loop (st\<lparr>sx_y := sx_y st + 6 * n\<rparr>) s"
proof (induction n arbitrary: st)
  case (Suc n)
  have "st\<lparr>sx_x := 0, sx_y := sx_y st + 6\<rparr> = st\<lparr>sx_y := sx_y st + 6\<rparr>" using Suc.prems(1) by (cases st) simp
  then have "sixel_step st (CHR ''-'') (replicate n (CHR ''-'') @ s) =
      Some (st\<lparr>sx_y := sx_y st + 6\<rparr>, replicate n (CHR ''-'') @ s)"
    using Suc.prems(2) by (simp add: sixel_step_def)
  then show ?case using Suc.IH [of "st\<lparr>sx_y := sx_y st + 6\<rparr>"] Suc.prems by (simp add: algebra_simps)
qed simp

text \<open>The cap bounds the rectangle up to each drawn column, not the image: a wide band at the top and one
  column far below give an image of more pixels than the cap.\<close>

definition tall_and_wide :: string where
  "tall_and_wide = ''!8000~'' @ replicate 334 (CHR ''-'') @ ''~''"

lemma sixel_cap_exceeded:
  "\<exists>w h rgba. decode_sixel tall_and_wide = Some (w, h, rgba) \<and> MAX_SIXEL_PIXELS < w * h"
proof -
  let ?rest = "replicate 334 (CHR ''-'') @ ''~''"
  have "\<exists>r. draw 0 0 (CHR 0x7E) 8000 DEFAULT_SIXEL_PALETTE 0 raster_default = Some r \<and>
      sr_max_x r = Some (max_opt (sr_max_x raster_default) (0 + 8000 - 1)) \<and>
      sr_max_y r = Some (max_opt (sr_max_y raster_default) (0 + 5))"
    by (rule draw_full) (simp_all add: MAX_SIXEL_DIMENSION_def MAX_SIXEL_PIXELS_def)
  then obtain r where r: "draw 0 0 (CHR 0x7E) 8000 DEFAULT_SIXEL_PALETTE 0 raster_default = Some r"
      "sr_max_x r = Some 7999" "sr_max_y r = Some 5" by (auto simp: max_opt_def raster_default_def)
  have "\<exists>q. draw 0 2004 (CHR 0x7E) 1 DEFAULT_SIXEL_PALETTE 0 r = Some q \<and>
      sr_max_x q = Some (max_opt (sr_max_x r) (0 + 1 - 1)) \<and> sr_max_y q = Some (max_opt (sr_max_y r) (2004 + 5))"
    by (rule draw_full) (simp_all add: MAX_SIXEL_DIMENSION_def MAX_SIXEL_PIXELS_def)
  then obtain q where q: "draw 0 2004 (CHR 0x7E) 1 DEFAULT_SIXEL_PALETTE 0 r = Some q"
      "sr_max_x q = Some 7999" "sr_max_y q = Some 2009" using r by (auto simp: max_opt_def)
  let ?st = "sixel_start\<lparr>sx_raster := r, sx_x := 8000\<rparr>"
  have n: "parse_number (''8000~'' @ s) = Some (8000, CHR 0x7E # s)" for s
    by (simp add: parse_number_def is_digit_def U32_MAX_def)
  have "sixel_step sixel_start (CHR ''!'') (''8000~'' @ ?rest) = Some (?st, ?rest)"
    unfolding sixel_step_def n
    using r(1) by (simp add: Let_def is_sixel_def sixel_draw_def sixel_start_def MAX_SIXEL_DIMENSION_def)
  then have 1: "sixel_loop sixel_start tall_and_wide = sixel_loop ?st ?rest"
    unfolding tall_and_wide_def by (simp only: append_Cons append_Nil sixel_loop.simps) simp
  let ?s1 = "?st\<lparr>sx_x := 0, sx_y := 6\<rparr>" and ?s2 = "?st\<lparr>sx_x := 0, sx_y := 2004\<rparr>"
  have "sixel_step ?st (CHR ''-'') s = Some (?s1, s)" for s
    by (simp add: sixel_step_def MAX_SIXEL_DIMENSION_def sixel_start_def)
  moreover have "?rest = CHR ''-'' # replicate 333 (CHR ''-'') @ ''~''"
    using replicate_Suc [of 333 "CHR ''-''"] by simp
  ultimately have 2: "sixel_loop ?st ?rest = sixel_loop ?s1 (replicate 333 (CHR ''-'') @ ''~'')"
    by (simp only: sixel_loop.simps) simp
  have 3: "sixel_loop ?s1 (replicate 333 (CHR ''-'') @ ''~'') = sixel_loop ?s2 ''~''"
    using sixel_bands [of ?s1 333 "''~''"] by (simp add: MAX_SIXEL_DIMENSION_def)
  have 4: "sixel_loop ?s2 ''~'' = Some (?s2\<lparr>sx_raster := q, sx_x := 1\<rparr>)"
    using q(1) by (simp add: sixel_step_def is_sixel_def sixel_draw_def sixel_start_def)
  have "\<exists>rgba. decode_sixel tall_and_wide = Some (8000, 2010, rgba)"
    unfolding decode_sixel_def 1 2 3 4 using q by (simp add: Let_def MAX_SIXEL_DIMENSION_def)
  then show ?thesis by (force simp: MAX_SIXEL_PIXELS_def)
qed

end
