(* ===== verification/Terminal_Images.thy ===== *)
theory Terminal_Images
  imports Terminal_Taps Terminal_Sixel
begin

text \<open>
  In-band images, from \<^verbatim>\<open>goble-terminal/src/image.rs\<close>: the bounded cache of placements, the tap that
  lifts kitty and sixel sequences out of a byte stream, and the kitty control language with its
  chunked transmissions and its store of transmitted images. Base64 and the PNG decoder are
  third-party crates and the fields of the parameter \<open>image_codec\<close>. Products of \<open>usize\<close> values wrap at
  64 bits, as they do in the release profile; everything else that is counted stays far below that
  width and is a natural number.
\<close>

definition DEFAULT_IMAGE_CACHE_IMAGES :: nat where
  "DEFAULT_IMAGE_CACHE_IMAGES = 32"

definition DEFAULT_IMAGE_CACHE_BYTES :: nat where
  "DEFAULT_IMAGE_CACHE_BYTES = 32 * 1024 * 1024"

definition MAX_SEQUENCE_BYTES :: nat where
  "MAX_SEQUENCE_BYTES = 16 * 1024 * 1024"

definition MAX_IMAGE_PIXELS :: nat where
  "MAX_IMAGE_PIXELS = 8000000"

definition usize_mul :: "nat \<Rightarrow> nat \<Rightarrow> nat" where
  "usize_mul a b = (a * b) mod 2 ^ 64"

datatype image_format = KittyPng | KittyRgb | KittyRgba | Sixel

record image_event =
  ie_id :: u32
  ie_format :: image_format
  ie_width :: u32
  ie_height :: u32
  ie_payload :: string
  ie_rgba :: "string option"
  ie_columns :: "nat option"
  ie_rows :: "nat option"
  ie_display :: bool

definition is_renderable :: "image_event \<Rightarrow> bool" where
  "is_renderable e \<longleftrightarrow>
     (case ie_rgba e of
        None \<Rightarrow> False
      | Some r \<Rightarrow> length r = usize_mul (usize_mul (unat (ie_width e)) (unat (ie_height e))) 4)"

section \<open>The cache of placements\<close>

record cached_image =
  ci_id :: u32
  ci_format :: image_format
  ci_width :: u32
  ci_height :: u32
  ci_payload :: string
  ci_rgba :: string
  ci_row :: nat
  ci_column :: nat
  ci_columns :: "nat option"
  ci_rows :: "nat option"
  ci_sequence :: u64

record image_placement =
  ip_id :: u32
  ip_format :: image_format
  ip_width :: u32
  ip_height :: u32
  ip_row :: nat
  ip_column :: nat
  ip_columns :: "nat option"
  ip_rows :: "nat option"
  ip_rgba :: string
  ip_sequence :: u64

record image_cache =
  ic_images :: "cached_image list"
  ic_max_images :: nat
  ic_max_bytes :: nat
  ic_bytes :: nat
  ic_next_sequence :: u64

definition cache_new :: "nat \<Rightarrow> nat \<Rightarrow> image_cache" where
  "cache_new mi mb =
     \<lparr>ic_images = [], ic_max_images = mi, ic_max_bytes = mb, ic_bytes = 0, ic_next_sequence = 0\<rparr>"

definition cache_default :: image_cache where
  "cache_default = cache_new DEFAULT_IMAGE_CACHE_IMAGES DEFAULT_IMAGE_CACHE_BYTES"

definition cache_clear :: "image_cache \<Rightarrow> image_cache" where
  "cache_clear c = c\<lparr>ic_images := [], ic_bytes := 0\<rparr>"

definition image_cost :: "cached_image \<Rightarrow> nat" where
  "image_cost i = length (ci_payload i) + length (ci_rgba i)"

definition cache_remove :: "u32 \<Rightarrow> image_cache \<Rightarrow> image_cache" where
  "cache_remove k c =
     (let removed = sum_list (map image_cost (filter (\<lambda>i. ci_id i = k) (ic_images c)))
      in c\<lparr>ic_images := filter (\<lambda>i. ci_id i \<noteq> k) (ic_images c), ic_bytes := ic_bytes c - removed\<rparr>)"

text \<open>The two loops of \<open>enforce_bounds\<close>, over the front of the queue.\<close>

fun evict_count :: "nat \<Rightarrow> cached_image list \<Rightarrow> nat \<Rightarrow> cached_image list \<times> nat" where
  "evict_count mx [] b = ([], b)"
| "evict_count mx (i # is) b =
     (if 0 < mx \<and> mx < length (i # is) then evict_count mx is (b - image_cost i) else (i # is, b))"

fun evict_bytes :: "nat \<Rightarrow> cached_image list \<Rightarrow> nat \<Rightarrow> cached_image list \<times> nat" where
  "evict_bytes mx [] b = ([], b)"
| "evict_bytes mx (i # is) b =
     (if 0 < mx \<and> mx < b then evict_bytes mx is (b - image_cost i) else (i # is, b))"

definition enforce_bounds :: "image_cache \<Rightarrow> image_cache" where
  "enforce_bounds c =
     (let (is, b) = evict_count (ic_max_images c) (ic_images c) (ic_bytes c);
          (is', b') = evict_bytes (ic_max_bytes c) is b
      in c\<lparr>ic_images := is', ic_bytes := b'\<rparr>)"

definition new_image :: "image_event \<Rightarrow> string \<Rightarrow> nat \<Rightarrow> nat \<Rightarrow> u64 \<Rightarrow> cached_image" where
  "new_image e rgba row col n =
     \<lparr>ci_id = ie_id e, ci_format = ie_format e, ci_width = ie_width e, ci_height = ie_height e,
      ci_payload = ie_payload e, ci_rgba = rgba, ci_row = row, ci_column = col,
      ci_columns = ie_columns e, ci_rows = ie_rows e, ci_sequence = n\<rparr>"

definition cache_push :: "cached_image \<Rightarrow> image_cache \<Rightarrow> image_cache" where
  "cache_push img c =
     c\<lparr>ic_next_sequence := ic_next_sequence c + 1, ic_images := ic_images c @ [img],
       ic_bytes := ic_bytes c + image_cost img\<rparr>"

definition cache_insert :: "image_event \<Rightarrow> nat \<Rightarrow> nat \<Rightarrow> image_cache \<Rightarrow> image_cache \<times> u32 option" where
  "cache_insert e row col c =
     (if \<not> ie_display e \<or> \<not> is_renderable e then (c, None)
      else
        (case ie_rgba e of
           None \<Rightarrow> (c, None)
         | Some rgba \<Rightarrow>
             if 0 < ic_max_bytes c \<and> ic_max_bytes c < length (ie_payload e) + length rgba then (c, None)
             else
               let c1 = cache_remove (ie_id e) c
               in (enforce_bounds (cache_push (new_image e rgba row col (ic_next_sequence c1)) c1), Some (ie_id e))))"

definition cache_visible :: "image_cache \<Rightarrow> nat \<Rightarrow> nat \<Rightarrow> nat \<Rightarrow> image_placement list" where
  "cache_visible c history offset lines =
     (let top = history - offset; bottom = top + lines in
      map (\<lambda>i. \<lparr>ip_id = ci_id i, ip_format = ci_format i, ip_width = ci_width i, ip_height = ci_height i,
                ip_row = ci_row i - top, ip_column = ci_column i, ip_columns = ci_columns i,
                ip_rows = ci_rows i, ip_rgba = ci_rgba i, ip_sequence = ci_sequence i\<rparr>)
        (filter (\<lambda>i. top \<le> ci_row i \<and> ci_row i < bottom) (ic_images c)))"

subsection \<open>What the cache keeps\<close>

definition cache_ok :: "image_cache \<Rightarrow> bool" where
  "cache_ok c \<longleftrightarrow>
     ic_bytes c = sum_list (map image_cost (ic_images c)) \<and> distinct (map ci_id (ic_images c)) \<and>
     (0 < ic_max_images c \<longrightarrow> length (ic_images c) \<le> ic_max_images c) \<and>
     (0 < ic_max_bytes c \<longrightarrow> ic_bytes c \<le> ic_max_bytes c)"

lemma evict_count_spec:
  assumes "b = sum_list (map image_cost is)" "evict_count mx is b = (is', b')"
  shows "suffix is' is \<and> b' = sum_list (map image_cost is') \<and> (0 < mx \<longrightarrow> length is' = min mx (length is))"
  using assms
proof (induction mx "is" b rule: evict_count.induct)
  case (2 mx i "is" b)
  then show ?case by (cases "0 < mx \<and> mx < length (i # is)") (auto simp: suffix_Cons)
qed simp

lemma evict_bytes_spec:
  assumes "b = sum_list (map image_cost is)" "evict_bytes mx is b = (is', b')"
  shows "suffix is' is \<and> b' = sum_list (map image_cost is') \<and> (0 < mx \<longrightarrow> b' \<le> mx)"
  using assms
proof (induction mx "is" b rule: evict_bytes.induct)
  case (2 mx i "is" b)
  then show ?case by (cases "0 < mx \<and> mx < b") (auto simp: suffix_Cons)
qed simp

lemma evict_bytes_last:
  "b = sum_list (map image_cost (is @ [x])) \<Longrightarrow> 0 < mx \<longrightarrow> image_cost x \<le> mx \<Longrightarrow>
   evict_bytes mx (is @ [x]) b = (is', b') \<Longrightarrow> is' \<noteq> [] \<and> last is' = x"
  by (induction "is" arbitrary: b) (auto split: if_splits)

lemma evict_count_last: "evict_count mx (is @ [x]) b = (is', b') \<Longrightarrow> \<exists>js. is' = js @ [x]"
  by (induction "is" arbitrary: b) (auto split: if_splits)

lemma enforce_bounds_ok:
  assumes "ic_bytes c = sum_list (map image_cost (ic_images c))" "distinct (map ci_id (ic_images c))"
  shows "cache_ok (enforce_bounds c) \<and> ic_max_images (enforce_bounds c) = ic_max_images c \<and>
    ic_max_bytes (enforce_bounds c) = ic_max_bytes c"
proof -
  obtain is1 b1 where e1: "evict_count (ic_max_images c) (ic_images c) (ic_bytes c) = (is1, b1)" by fastforce
  obtain is2 b2 where e2: "evict_bytes (ic_max_bytes c) is1 b1 = (is2, b2)" by fastforce
  note s1 = evict_count_spec [OF assms(1) e1]
  then have s2: "suffix is2 is1" "b2 = sum_list (map image_cost is2)" "0 < ic_max_bytes c \<longrightarrow> b2 \<le> ic_max_bytes c"
    using evict_bytes_spec [OF _ e2] by auto
  obtain u v where "is1 = u @ is2" "ic_images c = v @ is1" using s1 s2(1) by (auto simp: suffix_def)
  then have "distinct (map ci_id is2)" "length is2 \<le> length is1" using assms(2) by auto
  then show ?thesis
    using s1 s2 e1 e2 by (auto simp: enforce_bounds_def cache_ok_def)
qed

lemma enforce_bounds_last:
  assumes "ic_images c = is @ [x]" "ic_bytes c = sum_list (map image_cost (ic_images c))"
    and "0 < ic_max_bytes c \<longrightarrow> image_cost x \<le> ic_max_bytes c"
  shows "ic_images (enforce_bounds c) \<noteq> [] \<and> last (ic_images (enforce_bounds c)) = x"
proof -
  obtain is1 b1 where e1: "evict_count (ic_max_images c) (ic_images c) (ic_bytes c) = (is1, b1)" by fastforce
  obtain js where js: "is1 = js @ [x]" using evict_count_last e1 assms(1) by metis
  obtain is2 b2 where e2: "evict_bytes (ic_max_bytes c) is1 b1 = (is2, b2)" by fastforce
  have "is2 \<noteq> [] \<and> last is2 = x"
    using evict_bytes_last [OF _ assms(3)] e2 evict_count_spec [OF assms(2) e1] js by blast
  then show ?thesis using e1 e2 by (simp add: enforce_bounds_def)
qed

lemma sum_filter_split:
  "sum_list (map f (filter P xs)) + sum_list (map f (filter (\<lambda>x. \<not> P x) xs)) = (sum_list (map f xs) :: nat)"
  by (induction xs) auto

lemma cache_remove_ok:
  assumes "cache_ok c"
  shows "cache_ok (cache_remove k c)" "k \<notin> ci_id ` set (ic_images (cache_remove k c))"
proof -
  let ?i = "ic_images c"
  have "sum_list (map image_cost (filter (\<lambda>i. ci_id i = k) ?i)) +
      sum_list (map image_cost (filter (\<lambda>i. ci_id i \<noteq> k) ?i)) = sum_list (map image_cost ?i)"
    by (rule sum_filter_split)
  then have "ic_bytes (cache_remove k c) = sum_list (map image_cost (ic_images (cache_remove k c)))"
    using assms by (simp add: cache_ok_def cache_remove_def Let_def)
  then show "cache_ok (cache_remove k c)"
    using assms
    by (auto simp: cache_ok_def cache_remove_def Let_def distinct_map_filter intro: order_trans [OF length_filter_le])
  show "k \<notin> ci_id ` set (ic_images (cache_remove k c))" by (auto simp: cache_remove_def Let_def)
qed

text \<open>What an insertion does when it is not refused.\<close>

lemma cache_insert_cases:
  assumes "cache_insert e row col c = (c', k)"
  obtains (refused) "c' = c" "k = None"
  | (placed) rgba n where "ie_rgba e = Some rgba" "k = Some (ie_id e)"
      "0 < ic_max_bytes c \<longrightarrow> image_cost (new_image e rgba row col n) \<le> ic_max_bytes c"
      "c' = enforce_bounds (cache_push (new_image e rgba row col n) (cache_remove (ie_id e) c))"
proof -
  consider "\<not> ie_display e \<or> \<not> is_renderable e \<or> ie_rgba e = None" | rgba where "ie_display e" "is_renderable e" "ie_rgba e = Some rgba"
    by (cases "ie_rgba e") blast+
  then show thesis
  proof cases
    case 1
    then show thesis using assms refused by (auto simp: cache_insert_def split: if_splits)
  next
    case 2
    note s = assms [unfolded cache_insert_def]
    show thesis
    proof (cases "0 < ic_max_bytes c \<and> ic_max_bytes c < length (ie_payload e) + length rgba")
      case True
      then show thesis using s 2 refused by simp
    next
      case False
      let ?img = "new_image e rgba row col (ic_next_sequence (cache_remove (ie_id e) c))"
      have "c' = enforce_bounds (cache_push ?img (cache_remove (ie_id e) c))" "k = Some (ie_id e)"
        using s 2 False by (auto simp: Let_def)
      moreover have "0 < ic_max_bytes c \<longrightarrow> image_cost ?img \<le> ic_max_bytes c"
        using False by (auto simp: image_cost_def new_image_def)
      ultimately show thesis by (intro placed [OF 2(3)])
    qed
  qed
qed

lemma cache_push_ok:
  assumes "cache_ok c" "ci_id img = k"
  shows "ic_bytes (cache_push img (cache_remove k c)) = sum_list (map image_cost (ic_images (cache_push img (cache_remove k c))))"
    and "distinct (map ci_id (ic_images (cache_push img (cache_remove k c))))"
    and "ic_max_images (cache_push img (cache_remove k c)) = ic_max_images c"
    and "ic_max_bytes (cache_push img (cache_remove k c)) = ic_max_bytes c"
  using cache_remove_ok [OF assms(1), of k] assms(2)
  by (simp_all add: cache_ok_def cache_push_def) (simp_all add: cache_remove_def Let_def)

lemma cache_insert_ok:
  assumes "cache_ok c" "cache_insert e row col c = (c', k)"
  shows "cache_ok c' \<and> ic_max_images c' = ic_max_images c \<and> ic_max_bytes c' = ic_max_bytes c"
  using assms(2)
proof (cases rule: cache_insert_cases)
  case (placed rgba n)
  note push = cache_push_ok [OF assms(1), of "new_image e rgba row col n" "ie_id e"]
  show ?thesis unfolding placed(4) using enforce_bounds_ok [OF push(1,2)] push(3,4) by (simp add: new_image_def)
qed (use assms in simp)

lemma cache_insert_last:
  assumes "cache_ok c" "cache_insert e row col c = (c', Some k)"
  shows "k = ie_id e \<and> ic_images c' \<noteq> [] \<and> ci_id (last (ic_images c')) = k \<and> ci_row (last (ic_images c')) = row \<and>
    ci_column (last (ic_images c')) = col \<and> Some (ci_rgba (last (ic_images c'))) = ie_rgba e"
  using assms(2)
proof (cases rule: cache_insert_cases)
  case (placed rgba n)
  let ?img = "new_image e rgba row col n"
  note push = cache_push_ok [OF assms(1), of ?img "ie_id e"]
  have "ic_images (cache_push ?img (cache_remove (ie_id e) c)) = ic_images (cache_remove (ie_id e) c) @ [?img]"
    by (simp add: cache_push_def)
  then have "ic_images c' \<noteq> [] \<and> last (ic_images c') = ?img"
    unfolding placed(4) using push(1,4) placed(3) by (intro enforce_bounds_last) (auto simp: new_image_def)
  then show ?thesis using placed by (simp add: new_image_def)
qed simp

text \<open>The operations a screen uses.\<close>

datatype cache_op = Insert image_event nat nat | Remove u32 | ClearAll

fun cache_apply :: "image_cache \<Rightarrow> cache_op \<Rightarrow> image_cache" where
  "cache_apply c (Insert e row col) = fst (cache_insert e row col c)"
| "cache_apply c (Remove k) = cache_remove k c"
| "cache_apply c ClearAll = cache_clear c"

lemma cache_apply_ok:
  "cache_ok c \<Longrightarrow> cache_ok (cache_apply c op) \<and> ic_max_images (cache_apply c op) = ic_max_images c \<and>
     ic_max_bytes (cache_apply c op) = ic_max_bytes c"
proof (cases op)
  case (Insert e row col)
  assume "cache_ok c"
  then show ?thesis using Insert cache_insert_ok [of c e row col] by (cases "cache_insert e row col c") simp
next
  case (Remove k)
  assume "cache_ok c"
  then show ?thesis using Remove cache_remove_ok by (simp add: cache_remove_def Let_def)
qed (simp add: cache_clear_def cache_ok_def)

lemma cache_run_ok:
  "cache_ok c \<Longrightarrow> cache_ok (foldl cache_apply c ops) \<and> ic_max_images (foldl cache_apply c ops) = ic_max_images c \<and>
     ic_max_bytes (foldl cache_apply c ops) = ic_max_bytes c"
  by (induction ops arbitrary: c) (simp_all add: cache_apply_ok)

lemma cache_default_ok: "cache_ok cache_default"
  by (simp add: cache_ok_def cache_default_def cache_new_def)

text \<open>C31. A pane's image cache never outgrows its bounds and never forgets what it just accepted: after
  any sequence of placements, deletions and clears it holds at most 32 images with distinct ids
  whose payloads and pixels together take at most 32 MiB, its byte count is exact, and the last placement it did not
  refuse is its newest entry, with the pixels that were transmitted, at the cell it was placed at.\<close>

theorem image_cache_bounded:
  "let c = foldl cache_apply cache_default ops; (c', k) = cache_insert e row col c in
     length (ic_images c') \<le> 32 \<and> distinct (map ci_id (ic_images c')) \<and>
     ic_bytes c' = sum_list (map image_cost (ic_images c')) \<and> ic_bytes c' \<le> 32 * 1024 * 1024 \<and>
     (case k of
        None \<Rightarrow> c' = c
      | Some n \<Rightarrow> n = ie_id e \<and> ic_images c' \<noteq> [] \<and> ci_id (last (ic_images c')) = n \<and>
          ci_row (last (ic_images c')) = row \<and> ci_column (last (ic_images c')) = col \<and>
          Some (ci_rgba (last (ic_images c'))) = ie_rgba e)"
proof -
  define c where "c = foldl cache_apply cache_default ops"
  obtain c' k where i: "cache_insert e row col c = (c', k)" by fastforce
  have c: "cache_ok c" "ic_max_images c = 32" "ic_max_bytes c = 32 * 1024 * 1024"
    using cache_run_ok [OF cache_default_ok, of ops]
    by (simp_all add: c_def cache_default_def cache_new_def DEFAULT_IMAGE_CACHE_IMAGES_def DEFAULT_IMAGE_CACHE_BYTES_def)
  have "k = None \<Longrightarrow> c' = c" using i by (cases rule: cache_insert_cases) auto
  moreover note cache_insert_ok [OF c(1) i] cache_insert_last [OF c(1)]
  ultimately show ?thesis
    using i c(2,3) unfolding c_def [symmetric] by (auto simp: cache_ok_def split: option.splits)
qed

section \<open>The kitty control language\<close>

text \<open>The crates \<open>base64\<close> and \<open>image\<close>: the decoded bytes; the width, height and RGBA bytes of a PNG file.\<close>

record image_codec =
  b64_decode :: "string \<Rightarrow> string option"
  png_decode :: "string \<Rightarrow> (u32 \<times> u32 \<times> string) option"

datatype image_delete = DeleteImage u32 | AllPlacements | DeleteAll

datatype kitty_outcome = KImage image_event | KDelete image_delete | KIgnored | KPending | KDropped

record pending_kitty =
  pk_id :: u32
  pk_control :: string
  pk_payload :: string

record stored_image =
  si_event :: image_event
  si_bytes :: nat

datatype body_kind = Apc | Dcs

datatype tap_state = TapGround | TapEscape | TapBody body_kind string bool

record image_tap =
  it_state :: tap_state
  it_next_id :: u32
  it_pending :: "pending_kitty option"
  it_stored :: "stored_image list"
  it_stored_bytes :: nat
  it_dropped :: nat

definition image_tap_new :: image_tap where
  "image_tap_new =
     \<lparr>it_state = TapGround, it_next_id = 1, it_pending = None, it_stored = [], it_stored_bytes = 0, it_dropped = 0\<rparr>"

definition take_id :: "u32 option \<Rightarrow> image_tap \<Rightarrow> u32 \<times> image_tap" where
  "take_id wanted t =
     (case wanted of
        Some k \<Rightarrow>
          if k \<noteq> 0 then (k, t\<lparr>it_next_id := max (it_next_id t) (saturating_add k 1)\<rparr>)
          else (it_next_id t, t\<lparr>it_next_id := max (it_next_id t + 1) 1\<rparr>)
      | None \<Rightarrow> (it_next_id t, t\<lparr>it_next_id := max (it_next_id t + 1) 1\<rparr>))"

text \<open>\<open>control_fields\<close>: the last value of each one-letter key.\<close>

definition control_fields :: "string \<Rightarrow> char \<Rightarrow> string option" where
  "control_fields control =
     foldl (\<lambda>m pair. case split_once pair (CHR ''='') of
                None \<Rightarrow> m
              | Some (key, value) \<Rightarrow> (case key of [k] \<Rightarrow> m(k \<mapsto> value) | _ \<Rightarrow> m))
       Map.empty (split_on (CHR '','') control)"

definition first_char :: "string option \<Rightarrow> char option" where
  "first_char v = (case v of Some (c # _) \<Rightarrow> Some c | _ \<Rightarrow> None)"

definition u32_field :: "(char \<Rightarrow> string option) \<Rightarrow> char \<Rightarrow> u32 option" where
  "u32_field flds k = Option.bind (flds k) parse_u32"

text \<open>\<open>str::parse::<usize>\<close>.\<close>

definition parse_usize :: "string \<Rightarrow> nat option" where
  "parse_usize s =
     (let ds = (if s \<noteq> [] \<and> hd s = CHR ''+'' then tl s else s) in
      if ds = [] \<or> \<not> list_all is_digit ds \<or> 2 ^ 64 \<le> read_nat ds then None else Some (read_nat ds))"

definition cells_field :: "(char \<Rightarrow> string option) \<Rightarrow> char \<Rightarrow> nat option" where
  "cells_field flds k =
     (case Option.bind (flds k) parse_usize of None \<Rightarrow> None | Some n \<Rightarrow> if 0 < n then Some n else None)"

definition image_bytes :: "image_event \<Rightarrow> nat" where
  "image_bytes e = length (ie_payload e) + (case ie_rgba e of None \<Rightarrow> 0 | Some r \<Rightarrow> length r)"

text \<open>\<open>remove_stored\<close> and the removal of the older copy in \<open>store\<close>: the first entry with the id.\<close>

fun drop_stored :: "u32 \<Rightarrow> stored_image list \<Rightarrow> nat \<Rightarrow> stored_image list \<times> nat" where
  "drop_stored k [] b = ([], b)"
| "drop_stored k (s # ss) b =
     (if ie_id (si_event s) = k then (ss, b - si_bytes s)
      else let (ss', b') = drop_stored k ss b in (s # ss', b'))"

fun trim_stored_count :: "stored_image list \<Rightarrow> nat \<Rightarrow> stored_image list \<times> nat" where
  "trim_stored_count [] b = ([], b)"
| "trim_stored_count (s # ss) b =
     (if DEFAULT_IMAGE_CACHE_IMAGES < length (s # ss) then trim_stored_count ss (b - si_bytes s) else (s # ss, b))"

fun trim_stored_bytes :: "stored_image list \<Rightarrow> nat \<Rightarrow> stored_image list \<times> nat" where
  "trim_stored_bytes [] b = ([], b)"
| "trim_stored_bytes (s # ss) b =
     (if DEFAULT_IMAGE_CACHE_BYTES < b \<and> 1 < length (s # ss) then trim_stored_bytes ss (b - si_bytes s) else (s # ss, b))"

definition store_image :: "image_event \<Rightarrow> image_tap \<Rightarrow> image_tap" where
  "store_image e t =
     (let n = image_bytes e in
      if DEFAULT_IMAGE_CACHE_BYTES < n then t
      else
        let (ss, b) = drop_stored (ie_id e) (it_stored t) (it_stored_bytes t);
            (ss1, b1) = trim_stored_count (ss @ [\<lparr>si_event = e, si_bytes = n\<rparr>]) (b + n);
            (ss2, b2) = trim_stored_bytes ss1 b1
        in t\<lparr>it_stored := ss2, it_stored_bytes := b2\<rparr>)"

definition remove_stored :: "u32 \<Rightarrow> image_tap \<Rightarrow> image_tap" where
  "remove_stored k t =
     (let (ss, b) = drop_stored k (it_stored t) (it_stored_bytes t) in t\<lparr>it_stored := ss, it_stored_bytes := b\<rparr>)"

definition clear_stored :: "image_tap \<Rightarrow> image_tap" where
  "clear_stored t = t\<lparr>it_stored := [], it_stored_bytes := 0\<rparr>"

definition delete_image :: "(char \<Rightarrow> string option) \<Rightarrow> u32 \<Rightarrow> image_tap \<Rightarrow> image_tap \<times> kitty_outcome" where
  "delete_image flds k t =
     (case first_char (flds (CHR ''d'')) of
        None \<Rightarrow> if k = 0 then (clear_stored t, KDelete DeleteAll) else (remove_stored k t, KDelete (DeleteImage k))
      | Some c \<Rightarrow>
          if c = CHR ''a'' then (clear_stored t, KDelete DeleteAll)
          else if c = CHR ''A'' then (t, KDelete AllPlacements)
          else if c = CHR ''I'' \<or> c = CHR ''P'' then (t, if k = 0 then KIgnored else KDelete (DeleteImage k))
          else if c = CHR ''p'' then (t, if k = 0 then KIgnored else KDelete (DeleteImage k))
          else if c = CHR ''i''
          then (if k = 0 then (clear_stored t, KDelete DeleteAll) else (remove_stored k t, KDelete (DeleteImage k)))
          else (t, KDropped))"

definition be32 :: "string \<Rightarrow> nat" where
  "be32 s = foldl (\<lambda>n c. n * 256 + of_char c) 0 s"

definition PNG_MAGIC :: string where
  "PNG_MAGIC = [CHR 0x89, CHR ''P'', CHR ''N'', CHR ''G'', CHR 0x0D, CHR 0x0A, CHR 0x1A, CHR 0x0A]"

fun add_alpha :: "string \<Rightarrow> string" where
  "add_alpha (r # g # b # s) = [r, g, b, CHR 0xFF] @ add_alpha s"
| "add_alpha _ = []"

text \<open>The pixels of a transmission.\<close>

definition kitty_pixels :: "image_codec \<Rightarrow> image_format \<Rightarrow> u32 \<Rightarrow> u32 \<Rightarrow> string \<Rightarrow> (u32 \<times> u32 \<times> string) option" where
  "kitty_pixels c fmt w h payload =
     (case fmt of
        KittyPng \<Rightarrow>
          if length payload < 24 \<or> take 8 payload \<noteq> PNG_MAGIC then None
          else
            let dw = be32 (take 4 (drop 16 payload)); dh = be32 (take 4 (drop 20 payload)) in
            if dw = 0 \<or> dh = 0 \<or> MAX_IMAGE_PIXELS < dw * dh then None else png_decode c payload
      | KittyRgb \<Rightarrow>
          if w = 0 \<or> h = 0 then None
          else
            let expected = usize_mul (usize_mul (unat w) (unat h)) 3 in
            if length payload < expected then None else Some (w, h, add_alpha (take expected payload))
      | KittyRgba \<Rightarrow>
          if w = 0 \<or> h = 0 then None
          else
            let expected = usize_mul (usize_mul (unat w) (unat h)) 4 in
            if length payload < expected then None else Some (w, h, take expected payload)
      | Sixel \<Rightarrow> None)"

definition kitty_format :: "(char \<Rightarrow> string option) \<Rightarrow> image_format option" where
  "kitty_format flds =
     (case u32_field flds (CHR ''f'') of
        None \<Rightarrow> Some KittyRgba
      | Some n \<Rightarrow> if n = 100 then Some KittyPng else if n = 24 then Some KittyRgb else if n = 32 then Some KittyRgba else None)"

text \<open>A transmission, with or without display.\<close>

definition kitty_transmit ::
  "image_codec \<Rightarrow> (char \<Rightarrow> string option) \<Rightarrow> bool \<Rightarrow> u32 \<Rightarrow> string \<Rightarrow> image_tap \<Rightarrow> image_tap \<times> kitty_outcome" where
  "kitty_transmit c flds display k payload t =
     (case kitty_format flds of
        None \<Rightarrow> (t, KDropped)
      | Some fmt \<Rightarrow>
          (case b64_decode c payload of
             None \<Rightarrow> (t, KDropped)
           | Some data \<Rightarrow>
               if MAX_SEQUENCE_BYTES < length data then (t, KDropped)
               else
                 let num = (\<lambda>key. case u32_field flds key of None \<Rightarrow> 0 | Some n \<Rightarrow> n) in
                 (case kitty_pixels c fmt (num (CHR ''s'')) (num (CHR ''v'')) data of
                    None \<Rightarrow> (t, KDropped)
                  | Some (w, h, rgba) \<Rightarrow>
                      let (n, t1) = take_id (Some k) t;
                          e = \<lparr>ie_id = n, ie_format = fmt, ie_width = w, ie_height = h, ie_payload = data,
                               ie_rgba = Some rgba, ie_columns = cells_field flds (CHR ''c''),
                               ie_rows = cells_field flds (CHR ''r''), ie_display = display\<rparr>
                      in (store_image e t1, KImage e))))"

text \<open>A placement of an image transmitted earlier.\<close>

definition kitty_place :: "(char \<Rightarrow> string option) \<Rightarrow> u32 \<Rightarrow> image_tap \<Rightarrow> kitty_outcome" where
  "kitty_place flds k t =
     (case find (\<lambda>s. ie_id (si_event s) = k) (it_stored t) of
        None \<Rightarrow> KDropped
      | Some s \<Rightarrow>
          let e = (si_event s)\<lparr>ie_display := True\<rparr>;
              e1 = (case cells_field flds (CHR ''c'') of None \<Rightarrow> e | n \<Rightarrow> e\<lparr>ie_columns := n\<rparr>);
              e2 = (case cells_field flds (CHR ''r'') of None \<Rightarrow> e1 | n \<Rightarrow> e1\<lparr>ie_rows := n\<rparr>)
          in KImage e2)"

definition split_control :: "string \<Rightarrow> (string \<times> string) option" where
  "split_control body =
     (case split_once body (CHR '';'') of
        Some (control, payload) \<Rightarrow> if utf8_ok control \<and> utf8_ok payload then Some (control, payload) else None
      | None \<Rightarrow> if utf8_ok body then Some (body, []) else None)"

definition request_id :: "(char \<Rightarrow> string option) \<Rightarrow> u32" where
  "request_id flds = (case u32_field flds (CHR ''i'') of None \<Rightarrow> 0 | Some n \<Rightarrow> n)"

definition or_else :: "'a option \<Rightarrow> 'a option \<Rightarrow> 'a option" where
  "or_else a b = (case a of None \<Rightarrow> b | Some _ \<Rightarrow> a)"

definition parse_kitty :: "image_codec \<Rightarrow> image_tap \<Rightarrow> string \<Rightarrow> image_tap \<times> kitty_outcome" where
  "parse_kitty c t body =
     (case body of
        [] \<Rightarrow> (t, KDropped)
      | g # rest \<Rightarrow>
          if g \<noteq> CHR ''G'' then (t, KDropped)
          else
            (case split_control rest of
               None \<Rightarrow> (t, KDropped)
             | Some (control, payload) \<Rightarrow>
                 let flds = control_fields control;
                     initial_action = first_char (flds (CHR ''a''));
                     n = request_id flds
                 in
                 if flds (CHR ''m'') = Some ''1'' then
                   (t\<lparr>it_pending := Some
                        (case it_pending t of
                           Some p \<Rightarrow> p\<lparr>pk_payload := pk_payload p @ payload\<rparr>
                         | None \<Rightarrow> \<lparr>pk_id = n, pk_control = control, pk_payload = payload\<rparr>)\<rparr>,
                    KPending)
                 else
                   let (control', payload') =
                         (case it_pending t of
                            Some p \<Rightarrow> (pk_control p, pk_payload p @ payload)
                          | None \<Rightarrow> (control, payload));
                       t' = t\<lparr>it_pending := None\<rparr>;
                       flds' = control_fields control';
                       action = or_else initial_action (first_char (flds' (CHR ''a'')));
                       k = max n (request_id flds')
                   in
                   if action = Some (CHR ''d'') then delete_image flds' k t'
                   else if action = Some (CHR ''q'') then (t', KIgnored)
                   else if action = Some (CHR ''p'') then (t', kitty_place flds' k t')
                   else if action = None \<or> action = Some (CHR ''t'') \<or> action = Some (CHR ''T'')
                   then kitty_transmit c flds' (action = Some (CHR ''T'')) k payload' t'
                   else (t', KDropped)))"

section \<open>The store of transmissions\<close>

definition stored_ok :: "image_tap \<Rightarrow> bool" where
  "stored_ok t \<longleftrightarrow>
     it_stored_bytes t = sum_list (map si_bytes (it_stored t)) \<and>
     list_all (\<lambda>s. si_bytes s = image_bytes (si_event s) \<and> si_bytes s \<le> DEFAULT_IMAGE_CACHE_BYTES) (it_stored t) \<and>
     distinct (map (\<lambda>s. ie_id (si_event s)) (it_stored t)) \<and>
     length (it_stored t) \<le> DEFAULT_IMAGE_CACHE_IMAGES \<and> it_stored_bytes t \<le> DEFAULT_IMAGE_CACHE_BYTES"

abbreviation stored_ids :: "stored_image list \<Rightarrow> u32 list" where
  "stored_ids ss \<equiv> map (\<lambda>s. ie_id (si_event s)) ss"

lemma drop_stored_spec:
  "distinct (stored_ids ss) \<Longrightarrow> sum_list (map si_bytes ss) \<le> b \<Longrightarrow>
   drop_stored k ss b =
     (filter (\<lambda>s. ie_id (si_event s) \<noteq> k) ss,
      b - sum_list (map si_bytes (filter (\<lambda>s. ie_id (si_event s) = k) ss)))"
proof (induction k ss b rule: drop_stored.induct)
  case (2 k s ss b)
  show ?case
  proof (cases "ie_id (si_event s) = k")
    case True
    then have "k \<notin> set (stored_ids ss)" using "2.prems"(1) by auto
    then have "filter (\<lambda>s. ie_id (si_event s) \<noteq> k) ss = ss" "filter (\<lambda>s. ie_id (si_event s) = k) ss = []"
      by (auto simp: filter_id_conv filter_empty_conv)
    then show ?thesis using True by simp
  next
    case False
    then show ?thesis using 2 by simp
  qed
qed simp

lemma trim_count_spec:
  assumes "b = sum_list (map si_bytes ss)" "trim_stored_count ss b = (ss', b')"
  shows "suffix ss' ss \<and> b' = sum_list (map si_bytes ss') \<and> length ss' \<le> DEFAULT_IMAGE_CACHE_IMAGES"
  using assms
proof (induction ss b rule: trim_stored_count.induct)
  case (2 s ss b)
  then show ?case
    by (cases "DEFAULT_IMAGE_CACHE_IMAGES < length (s # ss)") (auto simp: suffix_Cons)
qed simp

lemma trim_bytes_spec:
  assumes "b = sum_list (map si_bytes ss)" "trim_stored_bytes ss b = (ss', b')"
  shows "suffix ss' ss \<and> b' = sum_list (map si_bytes ss') \<and> (b' \<le> DEFAULT_IMAGE_CACHE_BYTES \<or> length ss' = 1)"
  using assms
proof (induction ss b rule: trim_stored_bytes.induct)
  case (2 s ss b)
  then show ?case
    by (cases "DEFAULT_IMAGE_CACHE_BYTES < b \<and> 1 < length (s # ss)") (auto simp: suffix_Cons Suc_lessI)
qed simp

lemma trim_bytes_last: "ss \<noteq> [] \<Longrightarrow> trim_stored_bytes ss b = (ss', b') \<Longrightarrow> ss' \<noteq> [] \<and> last ss' = last ss"
  by (induction ss b rule: trim_stored_bytes.induct) (auto split: if_splits)

lemma trim_count_last: "ss \<noteq> [] \<Longrightarrow> trim_stored_count ss b = (ss', b') \<Longrightarrow> ss' \<noteq> [] \<and> last ss' = last ss"
proof (induction ss b rule: trim_stored_count.induct)
  case (2 s ss b)
  then show ?case
    by (cases "ss = []") (auto simp: DEFAULT_IMAGE_CACHE_IMAGES_def split: if_splits)
qed simp

lemma suffix_distinct_map: "suffix xs ys \<Longrightarrow> distinct (map f ys) \<Longrightarrow> distinct (map f xs)"
  by (auto simp: suffix_def)

lemma suffix_list_all: "suffix xs ys \<Longrightarrow> list_all P ys \<Longrightarrow> list_all P xs"
  by (auto simp: suffix_def)

lemma stored_removed:
  assumes "stored_ok t" "drop_stored k (it_stored t) (it_stored_bytes t) = (ss, b)"
  shows "b = sum_list (map si_bytes ss)" "k \<notin> set (stored_ids ss)" "distinct (stored_ids ss)"
    "list_all (\<lambda>s. si_bytes s = image_bytes (si_event s) \<and> si_bytes s \<le> DEFAULT_IMAGE_CACHE_BYTES) ss"
    "length ss \<le> DEFAULT_IMAGE_CACHE_IMAGES" "b \<le> DEFAULT_IMAGE_CACHE_BYTES" "set ss \<subseteq> set (it_stored t)"
proof -
  have d: "ss = filter (\<lambda>s. ie_id (si_event s) \<noteq> k) (it_stored t)"
      "b = it_stored_bytes t - sum_list (map si_bytes (filter (\<lambda>s. ie_id (si_event s) = k) (it_stored t)))"
    using assms drop_stored_spec [of "it_stored t" "it_stored_bytes t" k] by (simp_all add: stored_ok_def)
  show "b = sum_list (map si_bytes ss)"
    using assms(1) sum_filter_split [of si_bytes "\<lambda>s. ie_id (si_event s) = k" "it_stored t"]
    by (simp add: d stored_ok_def)
  show "b \<le> DEFAULT_IMAGE_CACHE_BYTES" using assms(1) unfolding d stored_ok_def by linarith
  show "length ss \<le> DEFAULT_IMAGE_CACHE_IMAGES"
    using assms(1) by (auto simp: d stored_ok_def intro: order_trans [OF length_filter_le])
qed (use assms drop_stored_spec [of "it_stored t" "it_stored_bytes t" k]
  in \<open>auto simp: stored_ok_def distinct_map_filter list_all_iff\<close>)

lemma store_image_ok:
  assumes "stored_ok t"
  shows "stored_ok (store_image e t) \<and> set (it_stored (store_image e t)) \<subseteq>
      insert \<lparr>si_event = e, si_bytes = image_bytes e\<rparr> (set (it_stored t)) \<and>
    (image_bytes e \<le> DEFAULT_IMAGE_CACHE_BYTES \<longrightarrow>
       find (\<lambda>s. ie_id (si_event s) = ie_id e) (it_stored (store_image e t)) = Some \<lparr>si_event = e, si_bytes = image_bytes e\<rparr>)"
proof (cases "DEFAULT_IMAGE_CACHE_BYTES < image_bytes e")
  case False
  let ?n = "\<lparr>si_event = e, si_bytes = image_bytes e\<rparr>"
  obtain ss b where d: "drop_stored (ie_id e) (it_stored t) (it_stored_bytes t) = (ss, b)" by fastforce
  obtain s1 b1 where c1: "trim_stored_count (ss @ [?n]) (b + image_bytes e) = (s1, b1)" by fastforce
  obtain s2 b2 where c2: "trim_stored_bytes s1 b1 = (s2, b2)" by fastforce
  note r = stored_removed [OF assms d]
  have t1: "suffix s1 (ss @ [?n])" "b1 = sum_list (map si_bytes s1)" "length s1 \<le> DEFAULT_IMAGE_CACHE_IMAGES"
    using trim_count_spec [OF _ c1] r(1) by auto
  have t2: "suffix s2 s1" "b2 = sum_list (map si_bytes s2)" "b2 \<le> DEFAULT_IMAGE_CACHE_BYTES \<or> length s2 = 1"
    using trim_bytes_spec [OF t1(2) c2] by auto
  have suf: "suffix s2 (ss @ [?n])" using t1(1) t2(1) by (meson suffix_order.order_trans)
  have la: "s2 \<noteq> []" "last s2 = ?n"
    using trim_count_last [OF _ c1] trim_bytes_last [OF _ c2] by auto
  have all: "list_all (\<lambda>s. si_bytes s = image_bytes (si_event s) \<and> si_bytes s \<le> DEFAULT_IMAGE_CACHE_BYTES) s2"
    using suffix_list_all [OF suf] r(4) False by simp
  have dis: "distinct (stored_ids s2)" using suffix_distinct_map [OF suf, of "\<lambda>s. ie_id (si_event s)"] r(2,3) by auto
  have "b2 \<le> DEFAULT_IMAGE_CACHE_BYTES" using t2 all la by (cases s2) auto
  moreover have "length s2 \<le> length s1" using t2(1) by (auto simp: suffix_def)
  moreover have "store_image e t = t\<lparr>it_stored := s2, it_stored_bytes := b2\<rparr>"
    using False d c1 c2 by (simp add: store_image_def Let_def)
  moreover have "find (\<lambda>s. ie_id (si_event s) = ie_id e) s2 = Some ?n"
  proof -
    obtain us where us: "s2 = us @ [?n]" using la by (metis append_butlast_last_id)
    then have "\<forall>s\<in>set us. ie_id (si_event s) \<noteq> ie_id e" using dis by (auto simp: image_iff)
    then show ?thesis unfolding us by (induction us) auto
  qed
  ultimately show ?thesis
    using t1(3) t2(2) all dis set_mono_suffix [OF suf] r(7) by (auto simp: stored_ok_def)
qed (use assms in \<open>auto simp: store_image_def Let_def\<close>)

lemma remove_stored_ok:
  assumes "stored_ok t"
  shows "stored_ok (remove_stored k t) \<and> set (it_stored (remove_stored k t)) \<subseteq> set (it_stored t)"
proof -
  obtain ss b where d: "drop_stored k (it_stored t) (it_stored_bytes t) = (ss, b)" by fastforce
  show ?thesis using stored_removed [OF assms d] by (simp add: remove_stored_def d stored_ok_def)
qed

lemma clear_stored_ok: "stored_ok (clear_stored t)"
  by (simp add: stored_ok_def clear_stored_def)

section \<open>What a kitty sequence does\<close>

text \<open>The branches of \<open>parse_kitty\<close> after a transmission is complete.\<close>

definition kitty_act ::
  "image_codec \<Rightarrow> char option \<Rightarrow> u32 \<Rightarrow> string \<Rightarrow> string \<Rightarrow> image_tap \<Rightarrow> image_tap \<times> kitty_outcome" where
  "kitty_act c initial n control payload t =
     (let flds = control_fields control;
          action = or_else initial (first_char (flds (CHR ''a'')));
          k = max n (request_id flds)
      in if action = Some (CHR ''d'') then delete_image flds k t
         else if action = Some (CHR ''q'') then (t, KIgnored)
         else if action = Some (CHR ''p'') then (t, kitty_place flds k t)
         else if action = None \<or> action = Some (CHR ''t'') \<or> action = Some (CHR ''T'')
         then kitty_transmit c flds (action = Some (CHR ''T'')) k payload t
         else (t, KDropped))"

lemma parse_kitty_act:
  assumes "split_control rest = Some (control, payload)" "control_fields control (CHR ''m'') \<noteq> Some ''1''"
  shows "parse_kitty c t (CHR ''G'' # rest) =
    kitty_act c (first_char (control_fields control (CHR ''a''))) (request_id (control_fields control))
      (case it_pending t of None \<Rightarrow> control | Some p \<Rightarrow> pk_control p)
      (case it_pending t of None \<Rightarrow> payload | Some p \<Rightarrow> pk_payload p @ payload) (t\<lparr>it_pending := None\<rparr>)"
  using assms by (simp add: parse_kitty_def kitty_act_def Let_def split: option.splits)

lemma parse_kitty_more:
  assumes "split_control rest = Some (control, payload)" "control_fields control (CHR ''m'') = Some ''1''"
  shows "parse_kitty c t (CHR ''G'' # rest) =
    (t\<lparr>it_pending := Some
         (case it_pending t of
            Some p \<Rightarrow> p\<lparr>pk_payload := pk_payload p @ payload\<rparr>
          | None \<Rightarrow> \<lparr>pk_id = request_id (control_fields control), pk_control = control, pk_payload = payload\<rparr>)\<rparr>, KPending)"
  using assms by (simp add: parse_kitty_def Let_def)

lemma parse_kitty_cases:
  obtains (dropped) "parse_kitty c t body = (t, KDropped)"
  | (more) p where "parse_kitty c t body = (t\<lparr>it_pending := Some p\<rparr>, KPending)"
  | (act) initial n control payload where
      "parse_kitty c t body = kitty_act c initial n control payload (t\<lparr>it_pending := None\<rparr>)"
proof (cases body)
  case (Cons g rest)
  show thesis
  proof (cases "g = CHR ''G''")
    case True
    show thesis
    proof (cases "split_control rest")
      case None
      then show thesis using Cons True by (intro dropped) (simp add: parse_kitty_def)
    next
      case (Some cp)
      obtain control payload where s: "split_control rest = Some (control, payload)" using Some by (cases cp) simp
      show thesis
      proof (cases "control_fields control (CHR ''m'') = Some ''1''")
        case True
        then show thesis using parse_kitty_more [OF s True, of c t] more \<open>g = _\<close> Cons by blast
      next
        case False
        then show thesis using parse_kitty_act [OF s False, of c t] act \<open>g = _\<close> Cons by blast
      qed
    qed
  qed (use Cons dropped in \<open>simp add: parse_kitty_def\<close>)
qed (use dropped in \<open>simp add: parse_kitty_def\<close>)

text \<open>The pixels of an event: whole, where the product of its dimensions does not overflow.\<close>

definition event_whole :: "image_event \<Rightarrow> bool" where
  "event_whole e \<longleftrightarrow>
     (unat (ie_width e) * unat (ie_height e) * 4 < 2 ^ 64 \<longrightarrow>
      (\<exists>r. ie_rgba e = Some r \<and> length r = unat (ie_width e) * unat (ie_height e) * 4))"

text \<open>What is relied on of the PNG decoder: it returns four bytes for every pixel.\<close>

definition png_whole :: "image_codec \<Rightarrow> bool" where
  "png_whole c \<longleftrightarrow> (\<forall>p w h r. png_decode c p = Some (w, h, r) \<longrightarrow> length r = unat w * unat h * 4)"

lemma length_add_alpha: "length s = 3 * n \<Longrightarrow> length (add_alpha s) = 4 * n"
proof (induction n arbitrary: s)
  case (Suc n)
  then obtain r g b u where "s = r # g # b # u" "length u = 3 * n"
    by (auto simp: numeral_eq_Suc length_Suc_conv)
  then show ?case using Suc.IH [of u] by simp
qed simp

lemma usize_mul_exact: "a * b * k < 2 ^ 64 \<Longrightarrow> 0 < k \<Longrightarrow> usize_mul (usize_mul a b) k = a * b * k"
  by (metis mod_less mult_le_mono2 mult.right_neutral Suc_leI One_nat_def le_less_trans usize_mul_def)

lemma kitty_pixels_whole:
  assumes "png_whole c" "kitty_pixels c fmt w h p = Some (w', h', r)" "unat w' * unat h' * 4 < 2 ^ 64"
  shows "length r = unat w' * unat h' * 4"
proof (cases fmt)
  case KittyPng
  then show ?thesis using assms by (auto simp: kitty_pixels_def png_whole_def Let_def split: if_splits)
next
  case KittyRgb
  then have wh: "w' = w" "h' = h" using assms(2) by (auto simp: kitty_pixels_def Let_def split: if_splits)
  then have "unat w * unat h * 3 < 2 ^ 64" using assms(3) [unfolded wh] by linarith
  then have "usize_mul (usize_mul (unat w) (unat h)) 3 = 3 * (unat w * unat h)"
    by (subst usize_mul_exact) simp_all
  then have "r = add_alpha (take (3 * (unat w * unat h)) p)" "3 * (unat w * unat h) \<le> length p"
    using assms(2) KittyRgb by (auto simp: kitty_pixels_def Let_def split: if_splits)
  then show ?thesis using length_add_alpha [of "take (3 * (unat w * unat h)) p" "unat w * unat h"] wh by simp
next
  case KittyRgba
  then have wh: "w' = w" "h' = h" using assms(2) by (auto simp: kitty_pixels_def Let_def split: if_splits)
  then have "usize_mul (usize_mul (unat w) (unat h)) 4 = unat w * unat h * 4"
    using assms(3) by (subst usize_mul_exact) simp_all
  then show ?thesis using assms(2) KittyRgba wh by (auto simp: kitty_pixels_def Let_def split: if_splits)
next
  case Sixel
  then show ?thesis using assms(2) by (simp add: kitty_pixels_def)
qed

text \<open>The invariant of a tap: the store within its bounds, every stored event whole.\<close>

definition tap_ok :: "image_tap \<Rightarrow> bool" where
  "tap_ok t \<longleftrightarrow> stored_ok t \<and> list_all (\<lambda>s. event_whole (si_event s)) (it_stored t)"

lemma stored_ok_cong:
  "it_stored t' = it_stored t \<Longrightarrow> it_stored_bytes t' = it_stored_bytes t \<Longrightarrow> stored_ok t' = stored_ok t"
  by (simp add: stored_ok_def)

lemma tap_ok_cong: "it_stored t' = it_stored t \<Longrightarrow> it_stored_bytes t' = it_stored_bytes t \<Longrightarrow> tap_ok t' = tap_ok t"
  by (simp add: tap_ok_def stored_ok_def)

lemma take_id_keeps:
  "it_stored (snd (take_id w t)) = it_stored t" "it_stored_bytes (snd (take_id w t)) = it_stored_bytes t"
  "it_pending (snd (take_id w t)) = it_pending t" "it_state (snd (take_id w t)) = it_state t"
  by (auto simp: take_id_def split: option.splits)

lemma kitty_place_whole:
  assumes "kitty_place flds k t = KImage e"
  shows "\<exists>s. find (\<lambda>s. ie_id (si_event s) = k) (it_stored t) = Some s \<and> ie_id e = k \<and> ie_display e \<and>
    ie_format e = ie_format (si_event s) \<and> ie_width e = ie_width (si_event s) \<and> ie_height e = ie_height (si_event s) \<and>
    ie_payload e = ie_payload (si_event s) \<and> ie_rgba e = ie_rgba (si_event s)"
  using assms by (auto simp: kitty_place_def Let_def find_Some_iff split: option.splits)

lemma kitty_transmit_cases:
  obtains (dropped) "kitty_transmit c flds d k p t = (t, KDropped)"
  | (image) fmt data w h rgba e where
      "kitty_transmit c flds d k p t = (store_image e (snd (take_id (Some k) t)), KImage e)"
      "kitty_pixels c fmt w h data = Some (ie_width e, ie_height e, rgba)" "ie_rgba e = Some rgba"
      "ie_payload e = data" "length data \<le> MAX_SEQUENCE_BYTES" "ie_display e = d" "ie_id e = fst (take_id (Some k) t)"
  by (force simp: kitty_transmit_def Let_def not_less split: option.splits if_splits prod.splits)

lemma tap_ok_stored:
  assumes "tap_ok t" "find P (it_stored t) = Some s"
  shows "event_whole (si_event s)" "s \<in> set (it_stored t)"
  using assms by (auto simp: tap_ok_def list_all_iff find_Some_iff)

lemma store_image_tap_ok: "tap_ok t \<Longrightarrow> event_whole e \<Longrightarrow> tap_ok (store_image e t)"
  using store_image_ok [of t e] by (auto simp: tap_ok_def list_all_iff)

lemma delete_image_ok:
  assumes "tap_ok t"
  shows "tap_ok (fst (delete_image flds k t))" "\<nexists>e. snd (delete_image flds k t) = KImage e"
    "it_pending (fst (delete_image flds k t)) = it_pending t"
  using assms remove_stored_ok [of t k] clear_stored_ok [of t]
  by (auto simp: delete_image_def tap_ok_def list_all_iff clear_stored_def remove_stored_def split: option.splits if_splits prod.splits)

text \<open>What an image outcome means: its pixels are whole, and unless it is too large to keep, the
  image with its id is in the store with the same content.\<close>

definition same_image :: "image_event \<Rightarrow> image_event \<Rightarrow> bool" where
  "same_image a b \<longleftrightarrow>
     ie_id a = ie_id b \<and> ie_format a = ie_format b \<and> ie_width a = ie_width b \<and> ie_height a = ie_height b \<and>
     ie_payload a = ie_payload b \<and> ie_rgba a = ie_rgba b"

definition kept :: "image_event \<Rightarrow> image_tap \<Rightarrow> bool" where
  "kept e t \<longleftrightarrow>
     (image_bytes e \<le> DEFAULT_IMAGE_CACHE_BYTES \<longrightarrow>
      (\<exists>s. find (\<lambda>s. ie_id (si_event s) = ie_id e) (it_stored t) = Some s \<and> same_image (si_event s) e))"

lemma kitty_transmit_ok:
  assumes "tap_ok t" "png_whole c" "kitty_transmit c flds d k p t = (t', out)"
  shows "tap_ok t' \<and> it_pending t' = it_pending t \<and> (\<forall>e. out = KImage e \<longrightarrow> event_whole e \<and> kept e t')"
proof (cases rule: kitty_transmit_cases [of c flds d k p t])
  case dropped
  then show ?thesis using assms by auto
next
  case (image fmt data w h rgba e)
  let ?u = "snd (take_id (Some k) t)"
  have r: "t' = store_image e ?u" "out = KImage e" using image(1) assms(3) by auto
  have u: "tap_ok ?u" using assms(1) tap_ok_cong [of ?u t] by (simp add: take_id_keeps)
  have w: "event_whole e" using kitty_pixels_whole [OF assms(2) image(2)] image(3) by (simp add: event_whole_def)
  have "it_pending (store_image e ?u) = it_pending ?u" by (simp add: store_image_def Let_def split: prod.splits)
  moreover have "kept e (store_image e ?u)"
    using store_image_ok [of ?u e] u by (auto simp: kept_def tap_ok_def same_image_def)
  ultimately show ?thesis using r w store_image_tap_ok [OF u w] by (simp add: take_id_keeps)
qed

lemma kitty_act_ok:
  assumes "tap_ok t" "png_whole c" "kitty_act c initial n control payload t = (t', out)"
  shows "tap_ok t' \<and> it_pending t' = it_pending t \<and> (\<forall>e. out = KImage e \<longrightarrow> event_whole e \<and> kept e t')"
proof -
  define flds where "flds = control_fields control"
  define action where "action = or_else initial (first_char (flds (CHR ''a'')))"
  define k where "k = max n (request_id flds)"
  note a = assms(3) [unfolded kitty_act_def Let_def flds_def [symmetric] action_def [symmetric] k_def [symmetric]]
  have "delete_image flds k t = (t', out) \<or> t' = t \<and> (out = KIgnored \<or> out = KDropped) \<or>
      t' = t \<and> out = kitty_place flds k t \<or> (\<exists>d. kitty_transmit c flds d k payload t = (t', out))"
    using a by (simp split: if_splits) blast+
  then consider "delete_image flds k t = (t', out)" | "t' = t" "out = KIgnored \<or> out = KDropped"
    | "t' = t" "out = kitty_place flds k t" | d where "kitty_transmit c flds d k payload t = (t', out)"
    by blast
  then show ?thesis
  proof cases
    case 1
    then show ?thesis using delete_image_ok [OF assms(1), of flds k] by (metis fst_conv snd_conv)
  next
    case 2
    then show ?thesis using assms(1) by auto
  next
    case 3
    show ?thesis
    proof (intro conjI allI impI)
      fix e assume "out = KImage e"
      then obtain s where s: "find (\<lambda>s. ie_id (si_event s) = k) (it_stored t) = Some s" "ie_id e = k"
          "ie_format e = ie_format (si_event s)" "ie_width e = ie_width (si_event s)" "ie_height e = ie_height (si_event s)"
          "ie_payload e = ie_payload (si_event s)" "ie_rgba e = ie_rgba (si_event s)"
        using kitty_place_whole [of flds k t e] 3(2) by auto
      have "ie_id (si_event s) = k" using s(1) by (auto simp: find_Some_iff)
      with s show "event_whole e" "kept e t'"
        using tap_ok_stored(1) [OF assms(1) s(1)] 3(1) by (auto simp: event_whole_def kept_def same_image_def)
    qed (use 3 assms(1) in simp_all)
  next
    case 4
    then show ?thesis by (rule kitty_transmit_ok [OF assms(1,2)])
  qed
qed

lemma parse_kitty_ok:
  assumes "tap_ok t" "png_whole c" "parse_kitty c t body = (t', out)"
  shows "tap_ok t' \<and> (\<forall>e. out = KImage e \<longrightarrow> event_whole e \<and> kept e t' \<and> it_pending t' = None)"
proof (cases rule: parse_kitty_cases [of c t body])
  case dropped
  then show ?thesis using assms by simp
next
  case (more p)
  then show ?thesis using assms tap_ok_cong [of "t\<lparr>it_pending := Some p\<rparr>" t] by auto
next
  case (act initial n control payload)
  have "tap_ok (t\<lparr>it_pending := None\<rparr>)" using assms(1) tap_ok_cong [of "t\<lparr>it_pending := None\<rparr>" t] by simp
  from kitty_act_ok [OF this assms(2), of initial n control payload t' out]
  show ?thesis using act assms(3) by auto
qed

lemma tap_new_ok: "tap_ok image_tap_new"
  by (simp add: tap_ok_def stored_ok_def image_tap_new_def)

text \<open>A tap after some kitty sequences.\<close>

definition kitty_run :: "image_codec \<Rightarrow> image_tap \<Rightarrow> string list \<Rightarrow> image_tap" where
  "kitty_run c t bodies = foldl (\<lambda>t b. fst (parse_kitty c t b)) t bodies"

lemma kitty_run_ok: "png_whole c \<Longrightarrow> tap_ok t \<Longrightarrow> tap_ok (kitty_run c t bodies)"
proof (induction bodies arbitrary: t)
  case (Cons b bodies)
  then show ?case
    using parse_kitty_ok [of t c b] by (cases "parse_kitty c t b") (auto simp: kitty_run_def)
qed (simp add: kitty_run_def)

subsection \<open>Transmit and place\<close>

lemma split_on_append: "split_on c (s @ c # w) = split_on c s @ split_on c w"
  by (induction s) (auto split: list.splits)

lemma show_nat_visible: "list_all visible (show_nat n)"
  using show_nat_digits [of n] digit_visible by (auto simp: list_all_iff)

lemma show_nat_no: "\<not> is_digit x \<Longrightarrow> x \<notin> set (show_nat n)"
  using show_nat_digits [of n] by (rule digits_no_char)

lemma split_once_at: "c \<notin> set k \<Longrightarrow> split_once (k @ c # v) c = Some (k, v)"
  by (induction k) (auto simp: split_once_def)

lemma place_fields:
  "control_fields (''a=p,i='' @ show_nat n) = [CHR ''a'' \<mapsto> ''p'', CHR ''i'' \<mapsto> show_nat n]"
proof -
  have c: "CHR '','' \<notin> set (''i='' @ show_nat n)" using show_nat_no [of "CHR '',''" n] by (simp add: is_digit_def)
  have "split_on (CHR '','') (''a=p,i='' @ show_nat n) = [''a=p'', ''i='' @ show_nat n]"
    using split_on_word [of "CHR '',''" "''a=p''" "''i='' @ show_nat n"] split_on_last [OF c] by simp
  moreover have "split_once ''a=p'' (CHR ''='') = Some (''a'', ''p'')" by code_simp
  moreover have "split_once (''i='' @ show_nat n) (CHR ''='') = Some (''i'', show_nat n)"
    using split_once_at [of "CHR ''=''" "''i''" "show_nat n"] by simp
  ultimately show ?thesis by (simp add: control_fields_def)
qed

text \<open>C39. A transmitted image can be shown by its id: whatever sequences came before, when a sequence
  produced an image that fits the store, a following placement request for its id yields that image,
  displayed, with the same format, dimensions, payload and pixels.\<close>

theorem transmitted_image_placed:
  assumes "png_whole c" "parse_kitty c (kitty_run c image_tap_new bodies) body = (t, KImage e)"
    and "image_bytes e \<le> DEFAULT_IMAGE_CACHE_BYTES"
  shows "\<exists>t' e'. parse_kitty c t (''Ga=p,i='' @ show_nat (unat (ie_id e))) = (t', KImage e') \<and>
    ie_display e' \<and> same_image e' e"
proof -
  let ?ctl = "''a=p,i='' @ show_nat (unat (ie_id e))"
  have ok: "kept e t" "it_pending t = None"
    using parse_kitty_ok [OF kitty_run_ok [OF assms(1) tap_new_ok] assms(1,2)] by auto
  then obtain s where s: "find (\<lambda>s. ie_id (si_event s) = ie_id e) (it_stored t) = Some s" "same_image (si_event s) e"
    using assms(3) by (auto simp: kept_def)
  have "CHR '';'' \<notin> set ?ctl" "list_all visible ?ctl"
    using show_nat_no [of "CHR '';''"] show_nat_visible by (simp_all add: is_digit_def visible_def)
  then have sc: "split_control ?ctl = Some (?ctl, [])"
    using utf8_ok_visible [of ?ctl] by (simp add: split_control_def split_once_def)
  have "request_id (control_fields ?ctl) = ie_id e"
    unfolding request_id_def u32_field_def place_fields by (simp add: parse_show_u32)
  moreover have "control_fields ?ctl (CHR ''a'') = Some ''p''" "control_fields ?ctl (CHR ''m'') \<noteq> Some ''1''"
    unfolding place_fields by simp_all
  ultimately have "parse_kitty c t (CHR ''G'' # ?ctl) =
      (t\<lparr>it_pending := None\<rparr>, kitty_place (control_fields ?ctl) (ie_id e) (t\<lparr>it_pending := None\<rparr>))"
    using parse_kitty_act [OF sc, of c t] ok(2) by (simp add: kitty_act_def Let_def first_char_def or_else_def)
  moreover obtain e' where "kitty_place (control_fields ?ctl) (ie_id e) (t\<lparr>it_pending := None\<rparr>) = KImage e'"
    using s(1) by (simp add: kitty_place_def Let_def)
  moreover from kitty_place_whole [OF this] have "ie_display e'" "same_image e' e"
    using s by (auto simp: same_image_def)
  ultimately show ?thesis by simp
qed

text \<open>A codec for the examples: payloads stand for themselves and there are no PNG files.\<close>

definition sample_images :: image_codec where
  "sample_images = \<lparr>b64_decode = Some, png_decode = (\<lambda>_. None)\<rparr>"

lemma sample_images_whole: "png_whole sample_images"
  by (simp add: png_whole_def sample_images_def)

definition sample_event :: image_event where
  "sample_event = \<lparr>ie_id = 7, ie_format = KittyRgba, ie_width = 1, ie_height = 1, ie_payload = ''RGBA'',
     ie_rgba = Some ''RGBA'', ie_columns = None, ie_rows = None, ie_display = False\<rparr>"

lemma sample_transmission:
  "snd (parse_kitty sample_images image_tap_new ''Ga=t,i=7,s=1,v=1;RGBA'') = KImage sample_event"
proof -
  have sc: "split_control ''a=t,i=7,s=1,v=1;RGBA'' = Some (''a=t,i=7,s=1,v=1'', ''RGBA'')"
    by (simp add: split_control_def split_once_def)
  have f: "control_fields ''a=t,i=7,s=1,v=1'' =
      [CHR ''a'' \<mapsto> ''t'', CHR ''i'' \<mapsto> ''7'', CHR ''s'' \<mapsto> ''1'', CHR ''v'' \<mapsto> ''1'']"
    by (simp add: control_fields_def split_once_def)
  have n: "parse_u32 ''7'' = Some 7" "parse_u32 ''1'' = Some 1" by (simp_all add: parse_u32_def is_digit_def read_nat_def)
  have p: "parse_kitty sample_images image_tap_new (CHR ''G'' # ''a=t,i=7,s=1,v=1;RGBA'') =
      kitty_act sample_images (Some (CHR ''t'')) 7 ''a=t,i=7,s=1,v=1'' ''RGBA'' image_tap_new"
    using parse_kitty_act [OF sc, of sample_images image_tap_new]
    by (simp add: f n first_char_def request_id_def u32_field_def image_tap_new_def)
  show ?thesis unfolding p
    by (simp add: kitty_act_def Let_def f n first_char_def or_else_def request_id_def u32_field_def kitty_transmit_def
        kitty_format_def sample_images_def MAX_SEQUENCE_BYTES_def kitty_pixels_def usize_mul_def take_id_def
        cells_field_def sample_event_def)
qed

theorem transmitted_image_placed_witness:
  "\<exists>t' e'. parse_kitty sample_images (fst (parse_kitty sample_images image_tap_new ''Ga=t,i=7,s=1,v=1;RGBA'')) ''Ga=p,i=7'' =
      (t', KImage e') \<and> ie_display e' \<and> ie_rgba e' = Some ''RGBA''"
proof -
  have t: "parse_kitty sample_images (kitty_run sample_images image_tap_new []) ''Ga=t,i=7,s=1,v=1;RGBA'' =
      (fst (parse_kitty sample_images image_tap_new ''Ga=t,i=7,s=1,v=1;RGBA''), KImage sample_event)"
    using sample_transmission by (simp add: kitty_run_def prod_eq_iff)
  have "image_bytes sample_event \<le> DEFAULT_IMAGE_CACHE_BYTES"
    by (simp add: sample_event_def image_bytes_def DEFAULT_IMAGE_CACHE_BYTES_def)
  moreover have "''Ga=p,i='' @ show_nat (unat (ie_id sample_event)) = ''Ga=p,i=7''"
    unfolding sample_event_def by code_simp
  moreover have "ie_rgba sample_event = Some ''RGBA''" by (simp add: sample_event_def)
  ultimately show ?thesis
    using transmitted_image_placed [OF sample_images_whole t] unfolding same_image_def by metis
qed

subsection \<open>Chunked transmissions\<close>

lemma fields_snoc:
  "c \<notin> {CHR '','', CHR ''=''} \<Longrightarrow> CHR '','' \<notin> set v \<Longrightarrow>
   control_fields (control @ [CHR '','', c, CHR ''=''] @ v) = (control_fields control)(c \<mapsto> v)"
proof -
  assume c: "c \<notin> {CHR '','', CHR ''=''}" and v: "CHR '','' \<notin> set v"
  have "split_on (CHR '','') (control @ CHR '','' # [c, CHR ''=''] @ v) = split_on (CHR '','') control @ [[c, CHR ''=''] @ v]"
    using c v by (simp add: split_on_append split_on_last)
  moreover have "split_once ([c, CHR ''=''] @ v) (CHR ''='') = Some ([c], v)"
    using split_once_at [of "CHR ''=''" "[c]" v] c by auto
  ultimately show ?thesis by (simp add: control_fields_def)
qed

text \<open>The chunk marker is not read once a transmission is complete.\<close>

lemma marker_unread:
  "k \<noteq> CHR ''m'' \<Longrightarrow> u32_field (f(CHR ''m'' \<mapsto> v)) k = u32_field f k"
  "k \<noteq> CHR ''m'' \<Longrightarrow> cells_field (f(CHR ''m'' \<mapsto> v)) k = cells_field f k"
  by (simp_all add: u32_field_def cells_field_def)

lemma marker_ignored:
  "request_id (f(CHR ''m'' \<mapsto> v)) = request_id f"
  "delete_image (f(CHR ''m'' \<mapsto> v)) n t = delete_image f n t"
  "kitty_place (f(CHR ''m'' \<mapsto> v)) n t = kitty_place f n t"
  "kitty_transmit c (f(CHR ''m'' \<mapsto> v)) d n p t = kitty_transmit c f d n p t"
proof -
  show "kitty_transmit c (f(CHR ''m'' \<mapsto> v)) d n p t = kitty_transmit c f d n p t"
    by (simp add: kitty_transmit_def kitty_format_def marker_unread Let_def cong: option.case_cong if_cong)
qed (simp_all add: request_id_def delete_image_def kitty_place_def marker_unread Let_def cong: option.case_cong if_cong)

lemma kitty_act_marker:
  "kitty_act c initial n (control @ '',m=1'') payload t = kitty_act c initial n control payload t"
proof -
  have "control_fields (control @ '',m=1'') = (control_fields control)(CHR ''m'' \<mapsto> ''1'')"
    using fields_snoc [of "CHR ''m''" "''1''" control] by simp
  then show ?thesis by (simp add: kitty_act_def Let_def marker_ignored)
qed

lemma split_control_visible:
  assumes "CHR '';'' \<notin> set ctl" "list_all visible ctl" "list_all visible p"
  shows "split_control (ctl @ CHR '';'' # p) = Some (ctl, p)"
  using assms split_once_at [of "CHR '';''" ctl p] utf8_ok_visible by (simp add: split_control_def)

lemma marker_fields: "control_fields ''m=1'' = [CHR ''m'' \<mapsto> ''1'']" "control_fields ''m=0'' = [CHR ''m'' \<mapsto> ''0'']"
  by (simp_all add: control_fields_def split_once_def)

lemma marker_split:
  assumes "list_all visible p"
  shows "split_control (''m=1;'' @ p) = Some (''m=1'', p)" "split_control (''m=0;'' @ p) = Some (''m=0'', p)"
proof -
  have "list_all visible ''m=1''" "list_all visible ''m=0''" by (simp_all add: visible_def)
  then show "split_control (''m=1;'' @ p) = Some (''m=1'', p)" "split_control (''m=0;'' @ p) = Some (''m=0'', p)"
    using split_control_visible [of "''m=1''" p] split_control_visible [of "''m=0''" p] assms by simp_all
qed

lemma middle_chunks:
  assumes "list_all (list_all visible) ps" "it_pending t = Some q"
  shows "kitty_run c t (map (\<lambda>p. ''Gm=1;'' @ p) ps) = t\<lparr>it_pending := Some (q\<lparr>pk_payload := pk_payload q @ concat ps\<rparr>)\<rparr>"
  using assms
proof (induction ps arbitrary: t q)
  case Nil
  then show ?case by (cases t; cases q) (simp add: kitty_run_def)
next
  case (Cons p ps)
  have sc: "split_control (''m=1;'' @ p) = Some (''m=1'', p)"
    using marker_split(1) Cons.prems(1) by simp
  let ?q = "q\<lparr>pk_payload := pk_payload q @ p\<rparr>"
  have "parse_kitty c t (''Gm=1;'' @ p) = (t\<lparr>it_pending := Some ?q\<rparr>, KPending)"
    using parse_kitty_more [OF sc] marker_fields Cons.prems(2) by simp
  then show ?case
    using Cons.IH [of "t\<lparr>it_pending := Some ?q\<rparr>" ?q] Cons.prems(1) by (simp add: kitty_run_def)
qed

text \<open>A transmission cut into chunks: for every control string without a chunk
  marker of its own and every way to cut a payload, the last chunk has the outcome of the
  transmission sent whole and leaves the tap in the same state.\<close>

lemma kitty_chunks_as_whole:
  assumes "CHR '';'' \<notin> set control" "list_all visible control" "control_fields control (CHR ''m'') \<noteq> Some ''1''"
    and "list_all (list_all visible) (first # ps @ [last_part])" "it_pending t = None"
  shows "parse_kitty c
      (kitty_run c t ((''G'' @ control @ '',m=1;'' @ first) # map (\<lambda>p. ''Gm=1;'' @ p) ps)) (''Gm=0;'' @ last_part) =
    parse_kitty c t (''G'' @ control @ '';'' @ first @ concat ps @ last_part)"
proof -
  let ?ctl = "control @ '',m=1''"
  let ?q = "\<lparr>pk_id = request_id (control_fields ?ctl), pk_control = ?ctl, pk_payload = first\<rparr>"
  let ?p = "first @ concat ps @ last_part"
  have vis: "list_all visible ?p" using assms(4) by (auto simp: list_all_iff)
  have f: "control_fields ?ctl = (control_fields control)(CHR ''m'' \<mapsto> ''1'')"
    using fields_snoc [of "CHR ''m''" "''1''" control] by simp
  have s1: "split_control (?ctl @ CHR '';'' # first) = Some (?ctl, first)"
    using assms(1,2,4) by (intro split_control_visible) (auto simp: visible_def)
  have "parse_kitty c t (''G'' @ ?ctl @ CHR '';'' # first) = (t\<lparr>it_pending := Some ?q\<rparr>, KPending)"
    using parse_kitty_more [OF s1, of c t] f assms(5) by simp
  then have run: "kitty_run c t ((''G'' @ control @ '',m=1;'' @ first) # map (\<lambda>p. ''Gm=1;'' @ p) ps) =
      t\<lparr>it_pending := Some (?q\<lparr>pk_payload := first @ concat ps\<rparr>)\<rparr>"
    using middle_chunks [of ps "t\<lparr>it_pending := Some ?q\<rparr>" ?q c] assms(4) by (simp add: kitty_run_def)
  have s2: "split_control (''m=0;'' @ last_part) = Some (''m=0'', last_part)"
    using marker_split(2) assms(4) by simp
  have "parse_kitty c (t\<lparr>it_pending := Some (?q\<lparr>pk_payload := first @ concat ps\<rparr>)\<rparr>) (''Gm=0;'' @ last_part) =
      kitty_act c None 0 control ?p (t\<lparr>it_pending := None\<rparr>)"
    using parse_kitty_act [OF s2] marker_fields(2) kitty_act_marker
    by (simp add: first_char_def request_id_def u32_field_def)
  moreover have "parse_kitty c t (''G'' @ control @ '';'' @ ?p) = kitty_act c None 0 control ?p (t\<lparr>it_pending := None\<rparr>)"
    using parse_kitty_act [OF split_control_visible [OF assms(1,2) vis] assms(3), of c t] assms(5)
    by (simp add: kitty_act_def Let_def or_else_def split: option.splits)
  ultimately show ?thesis unfolding run by simp
qed

subsection \<open>Limits of the protocol handling\<close>

text \<open>A chunk for another image id is joined to the transmission in progress.\<close>

lemma chunks_ignore_ids:
  "it_pending (kitty_run sample_images image_tap_new [''Gi=1,m=1;A'', ''Gi=2,m=1;B'']) =
     Some \<lparr>pk_id = 1, pk_control = ''i=1,m=1'', pk_payload = ''AB''\<rparr>"
  by (simp add: kitty_run_def parse_kitty_def Let_def split_control_def split_once_def control_fields_def
      image_tap_new_def request_id_def u32_field_def parse_u32_def is_digit_def read_nat_def)

text \<open>The payload collected by unfinished chunks has no bound.\<close>

lemma pending_unbounded:
  assumes "list_all visible p"
  shows "\<exists>q. it_pending (kitty_run c image_tap_new (replicate (Suc n) (''Gm=1;'' @ p))) = Some q \<and>
    length (pk_payload q) = Suc n * length p"
proof -
  let ?q = "\<lparr>pk_id = 0, pk_control = ''m=1'', pk_payload = p\<rparr>"
  have sc: "split_control (''m=1;'' @ p) = Some (''m=1'', p)"
    using marker_split(1) assms by simp
  have "parse_kitty c image_tap_new (''Gm=1;'' @ p) = (image_tap_new\<lparr>it_pending := Some ?q\<rparr>, KPending)"
    using parse_kitty_more [OF sc, of c image_tap_new] marker_fields
    by (simp add: image_tap_new_def request_id_def u32_field_def)
  then have "kitty_run c image_tap_new (replicate (Suc n) (''Gm=1;'' @ p)) =
      image_tap_new\<lparr>it_pending := Some (?q\<lparr>pk_payload := p @ concat (replicate n p)\<rparr>)\<rparr>"
    using middle_chunks [of "replicate n p" "image_tap_new\<lparr>it_pending := Some ?q\<rparr>" ?q c] assms
    by (simp add: kitty_run_def list_all_iff map_replicate_const)
  then show ?thesis by (simp add: length_concat sum_list_replicate)
qed

text \<open>Dimensions whose product overflows: an image of \<open>2 ^ 31\<close> by \<open>2 ^ 31\<close> pixels without any bytes is
  accepted, counts as renderable and is cached.\<close>

lemma dimensions_overflow:
  "kitty_pixels c KittyRgba (2 ^ 31) (2 ^ 31) [] = Some (2 ^ 31, 2 ^ 31, [])"
  "is_renderable (sample_event\<lparr>ie_width := 2 ^ 31, ie_height := 2 ^ 31, ie_rgba := Some []\<rparr>)"
  by (simp_all add: kitty_pixels_def usize_mul_def is_renderable_def sample_event_def)

end
