(* ===== verification/Terminal_Image_Tap.thy ===== *)
theory Terminal_Image_Tap
  imports Terminal_Images
begin

text \<open>
  The tap that lifts image sequences out of a byte stream, \<open>ImageTap\<close> of
  \<^verbatim>\<open>goble-terminal/src/image.rs\<close>: the state machine over single bytes, the end of a string body, the
  chunks it hands to a screen and what it releases at the end of a stream.
\<close>

section \<open>The state machine\<close>

datatype image_chunk = Bytes string | Image image_event | Delete image_delete

definition body_intro :: "body_kind \<Rightarrow> string" where
  "body_intro kind = (case kind of Apc \<Rightarrow> [ESC, CHR ''_''] | Dcs \<Rightarrow> [ESC, CHR ''P''])"

text \<open>\<open>push_bytes\<close> extends the last chunk when it holds bytes.\<close>

definition push_bytes :: "image_chunk list \<Rightarrow> string \<Rightarrow> image_chunk list" where
  "push_bytes out bs =
     (case rev out of
        Bytes e # r \<Rightarrow> rev r @ [Bytes (e @ bs)]
      | _ \<Rightarrow> out @ [Bytes bs])"

definition sixel_payload :: "string \<Rightarrow> string option" where
  "sixel_payload body =
     (case split_once body (CHR ''q'') of
        None \<Rightarrow> None
      | Some (pre, data) \<Rightarrow> if list_all (\<lambda>b. is_digit b \<or> b = CHR '';'') pre then Some data else None)"

definition finish_body ::
  "image_codec \<Rightarrow> image_tap \<Rightarrow> body_kind \<Rightarrow> string \<Rightarrow> image_chunk list \<Rightarrow> image_tap \<times> image_chunk list" where
  "finish_body c t kind body out =
     (let foreign = out @ [Bytes (body_intro kind @ body @ [ESC, CHR 0x5C])] in
      case kind of
        Apc \<Rightarrow>
          if body \<noteq> [] \<and> hd body = CHR ''G'' then
            (case parse_kitty c t body of
               (t', KImage e) \<Rightarrow> (t'\<lparr>it_state := TapGround\<rparr>, out @ [Image e])
             | (t', KDelete d) \<Rightarrow> (t'\<lparr>it_state := TapGround\<rparr>, out @ [Delete d])
             | (t', KDropped) \<Rightarrow> (t'\<lparr>it_state := TapGround, it_dropped := it_dropped t' + 1\<rparr>, out)
             | (t', _) \<Rightarrow> (t'\<lparr>it_state := TapGround\<rparr>, out))
          else (t\<lparr>it_state := TapGround\<rparr>, foreign)
      | Dcs \<Rightarrow>
          (case sixel_payload body of
             None \<Rightarrow> (t\<lparr>it_state := TapGround\<rparr>, foreign)
           | Some data \<Rightarrow>
               (case decode_sixel data of
                  None \<Rightarrow> (t\<lparr>it_state := TapGround, it_dropped := it_dropped t + 1\<rparr>, out)
                | Some (w, h, rgba) \<Rightarrow>
                    let (n, t') = take_id None t in
                    (t'\<lparr>it_state := TapGround\<rparr>,
                     out @ [Image \<lparr>ie_id = n, ie_format = Sixel, ie_width = word_of_nat w, ie_height = word_of_nat h,
                                   ie_payload = data, ie_rgba = Some rgba, ie_columns = None, ie_rows = None,
                                   ie_display = True\<rparr>]))))"

definition image_step ::
  "image_codec \<Rightarrow> image_tap \<times> image_chunk list \<Rightarrow> char \<Rightarrow> image_tap \<times> image_chunk list" where
  "image_step c s b =
     (let (t, out) = s; ground = t\<lparr>it_state := TapGround\<rparr> in
      case it_state t of
        TapGround \<Rightarrow> if b = ESC then (t\<lparr>it_state := TapEscape\<rparr>, out) else (t, push_bytes out [b])
      | TapEscape \<Rightarrow>
          if b = CHR ''_'' then (t\<lparr>it_state := TapBody Apc [] False\<rparr>, out)
          else if b = CHR ''P'' then (t\<lparr>it_state := TapBody Dcs [] False\<rparr>, out)
          else if b = ESC then (t, push_bytes out [ESC])
          else (ground, push_bytes out [ESC, b])
      | TapBody kind body esc \<Rightarrow>
          if esc then
            if b = CHR 0x5C then finish_body c t kind body out
            else (ground, out @ [Bytes (body_intro kind @ body @ [ESC, b])])
          else if b = ESC then (t\<lparr>it_state := TapBody kind body True\<rparr>, out)
          else if kind = Apc \<and> b = BEL then finish_body c t kind body out
          else
            let body' = body @ [b] in
            if MAX_SEQUENCE_BYTES < length body' then
              (ground\<lparr>it_dropped := it_dropped t + 1\<rparr>, if kind = Dcs then out @ [Bytes (body_intro kind @ body')] else out)
            else (t\<lparr>it_state := TapBody kind body' False\<rparr>, out))"

definition tap_images :: "image_codec \<Rightarrow> image_tap \<times> image_chunk list \<Rightarrow> string \<Rightarrow> image_tap \<times> image_chunk list" where
  "tap_images c s input = foldl (image_step c) s input"

definition image_flush :: "image_tap \<Rightarrow> image_tap \<times> image_chunk list" where
  "image_flush t =
     (let t' = t\<lparr>it_state := TapGround, it_pending := None,
                 it_dropped := it_dropped t + (if it_pending t = None then 0 else 1)\<rparr> in
      case it_state t of
        TapGround \<Rightarrow> (t', [])
      | TapEscape \<Rightarrow> (t', [Bytes [ESC]])
      | TapBody kind body _ \<Rightarrow> (t', [Bytes (body_intro kind @ body)]))"

section \<open>The stream it hands on\<close>

text \<open>How bytes are grouped into chunks depends on the reads; what the chunks contain does not.\<close>

datatype image_token = TByte char | TImage image_event | TDelete image_delete

fun chunk_tokens :: "image_chunk \<Rightarrow> image_token list" where
  "chunk_tokens (Bytes bs) = map TByte bs"
| "chunk_tokens (Image e) = [TImage e]"
| "chunk_tokens (Delete d) = [TDelete d]"

abbreviation stream_tokens :: "image_chunk list \<Rightarrow> image_token list" where
  "stream_tokens out \<equiv> concat (map chunk_tokens out)"

lemma push_bytes_tokens [simp]: "stream_tokens (push_bytes out bs) = stream_tokens out @ map TByte bs"
proof (cases out rule: rev_cases)
  case (snoc us u)
  then show ?thesis by (cases u) (simp_all add: push_bytes_def)
qed (simp add: push_bytes_def)

text \<open>A step depends on the tap alone and appends to what was handed on.\<close>

definition image_step_tokens :: "image_codec \<Rightarrow> image_tap \<Rightarrow> char \<Rightarrow> image_token list" where
  "image_step_tokens c t b = stream_tokens (snd (image_step c (t, []) b))"

lemma finish_body_out:
  "fst (finish_body c t kind body out) = fst (finish_body c t kind body []) \<and>
   snd (finish_body c t kind body out) = out @ snd (finish_body c t kind body [])"
proof (cases kind)
  case Apc
  obtain t' k where "parse_kitty c t body = (t', k)" by (rule prod.exhaust)
  then show ?thesis using Apc by (cases k) (simp_all add: finish_body_def Let_def)
next
  case Dcs
  then show ?thesis by (simp add: finish_body_def Let_def split: option.split prod.split)
qed

lemma image_step_out:
  "fst (image_step c (t, out) b) = fst (image_step c (t, []) b) \<and>
   stream_tokens (snd (image_step c (t, out) b)) = stream_tokens out @ image_step_tokens c t b"
proof (cases "it_state t")
  case (TapBody kind body esc)
  then show ?thesis
    using finish_body_out [of c t kind body out]
    by (cases kind; cases esc) (simp_all add: image_step_def image_step_tokens_def Let_def)
qed (simp_all add: image_step_def image_step_tokens_def Let_def)

fun image_after :: "image_codec \<Rightarrow> image_tap \<Rightarrow> string \<Rightarrow> image_tap" where
  "image_after c t [] = t"
| "image_after c t (b # bs) = image_after c (fst (image_step c (t, []) b)) bs"

fun image_tokens :: "image_codec \<Rightarrow> image_tap \<Rightarrow> string \<Rightarrow> image_token list" where
  "image_tokens c t [] = []"
| "image_tokens c t (b # bs) = image_step_tokens c t b @ image_tokens c (fst (image_step c (t, []) b)) bs"

lemma tap_images_split:
  "fst (tap_images c (t, out) bs) = image_after c t bs \<and>
   stream_tokens (snd (tap_images c (t, out) bs)) = stream_tokens out @ image_tokens c t bs"
proof (induction bs arbitrary: t out)
  case (Cons b bs)
  obtain t' out' where s: "image_step c (t, out) b = (t', out')" by fastforce
  then have "t' = fst (image_step c (t, []) b)" "stream_tokens out' = stream_tokens out @ image_step_tokens c t b"
    using image_step_out [of c t out b] by simp_all
  then show ?case using Cons.IH [of t' out'] s by (simp add: tap_images_def)
qed (simp add: tap_images_def)

lemma image_after_append: "image_after c t (a @ b) = image_after c (image_after c t a) b"
  by (induction a arbitrary: t) simp_all

lemma image_tokens_append: "image_tokens c t (a @ b) = image_tokens c t a @ image_tokens c (image_after c t a) b"
  by (induction a arbitrary: t) simp_all

text \<open>What a screen sees of the tap between two reads: each read starts with no chunks.\<close>

definition read_images :: "image_codec \<Rightarrow> image_tap \<times> image_token list \<Rightarrow> string \<Rightarrow> image_tap \<times> image_token list" where
  "read_images c s input =
     (case tap_images c (fst s, []) input of (t, out) \<Rightarrow> (t, snd s @ stream_tokens out))"

lemma read_images_split: "read_images c (t, seen) bs = (image_after c t bs, seen @ image_tokens c t bs)"
  using tap_images_split [of c t "[]" bs] by (cases "tap_images c (t, []) bs") (simp add: read_images_def)

interpretation images: chunked_reader "read_images c" id
  by unfold_locales (auto simp: read_images_split image_after_append image_tokens_append)

section \<open>Foreign sequences\<close>

lemma image_ground [simp]: "it_state t = TapGround \<Longrightarrow> t\<lparr>it_state := TapGround\<rparr> = t"
  by (cases t) simp

text \<open>Text in which no string starts: no introducer follows an escape, and no escape is left open;
  and strings of other protocols.\<close>

fun image_text :: "bool \<Rightarrow> string \<Rightarrow> bool" where
  "image_text esc [] \<longleftrightarrow> \<not> esc"
| "image_text esc (b # s) \<longleftrightarrow>
     (if b = ESC then image_text True s else \<not> (esc \<and> (b = CHR ''_'' \<or> b = CHR ''P'')) \<and> image_text False s)"

text \<open>The body of a string the tap can collect: no escape and, where a bell ends the string, no bell; and one that
  is not an image.\<close>

definition string_body :: "body_kind \<Rightarrow> string \<Rightarrow> bool" where
  "string_body kind body \<longleftrightarrow> ESC \<notin> set body \<and> (kind = Apc \<longrightarrow> BEL \<notin> set body)"

definition foreign_body :: "body_kind \<Rightarrow> string \<Rightarrow> bool" where
  "foreign_body kind body \<longleftrightarrow>
     string_body kind body \<and> length body \<le> MAX_SEQUENCE_BYTES \<and>
     (case kind of
        Apc \<Rightarrow> \<not> (body \<noteq> [] \<and> hd body = CHR ''G'')
      | Dcs \<Rightarrow> sixel_payload body = None)"

text \<open>A sequence ends with a bell or with a string terminator; a bell ends an application string only.\<close>

definition string_end :: "string \<Rightarrow> bool" where
  "string_end e \<longleftrightarrow> e = [BEL] \<or> e = [ESC, CHR 0x5C]"

text \<open>The pieces of a stream without images: text; a complete string of another protocol, with what ends it;
  any string broken off by an escape and a byte other than a backslash; and the start of any
  string up to the byte with which it outgrows what the tap collects.\<close>

datatype foreign_piece =
  Text string | Str body_kind string string | Broken body_kind string char | Overlong body_kind string

fun foreign_wire :: "foreign_piece \<Rightarrow> string" where
  "foreign_wire (Text s) = s"
| "foreign_wire (Str kind body e) = body_intro kind @ body @ e"
| "foreign_wire (Broken kind body b) = body_intro kind @ body @ [ESC, b]"
| "foreign_wire (Overlong kind body) = body_intro kind @ body"

fun foreign_ok :: "foreign_piece \<Rightarrow> bool" where
  "foreign_ok (Text s) \<longleftrightarrow> image_text False s"
| "foreign_ok (Str kind body e) \<longleftrightarrow> foreign_body kind body \<and> string_end e \<and> (kind = Dcs \<longrightarrow> e \<noteq> [BEL])"
| "foreign_ok (Broken kind body b) \<longleftrightarrow> string_body kind body \<and> length body \<le> MAX_SEQUENCE_BYTES \<and> b \<noteq> CHR 0x5C"
| "foreign_ok (Overlong kind body) \<longleftrightarrow> string_body kind body \<and> length body = Suc MAX_SEQUENCE_BYTES"

text \<open>What the parser sees of a piece, and how many strings the tap counts as dropped for it.\<close>

fun foreign_seen :: "foreign_piece \<Rightarrow> string" where
  "foreign_seen (Str kind body e) = body_intro kind @ body @ [ESC, CHR 0x5C]"
| "foreign_seen (Overlong kind body) = (case kind of Dcs \<Rightarrow> body_intro kind @ body | Apc \<Rightarrow> [])"
| "foreign_seen p = foreign_wire p"

fun foreign_dropped :: "foreign_piece \<Rightarrow> nat" where
  "foreign_dropped (Overlong kind body) = 1"
| "foreign_dropped p = 0"

abbreviation add_dropped :: "nat \<Rightarrow> image_tap \<Rightarrow> image_tap" where
  "add_dropped n t \<equiv> t\<lparr>it_dropped := it_dropped t + n\<rparr>"

lemma text_passes:
  "image_text esc s \<Longrightarrow> it_state t = (if esc then TapEscape else TapGround) \<Longrightarrow>
   image_after c t s = t\<lparr>it_state := TapGround\<rparr> \<and>
   image_tokens c t s = map TByte ((if esc then [ESC] else []) @ s)"
proof (induction esc s arbitrary: t rule: image_text.induct)
  case (2 esc b s)
  show ?case
  proof (cases "b = ESC")
    case True
    then have "image_step c (t, []) b = (t\<lparr>it_state := TapEscape\<rparr>, if esc then [Bytes [ESC]] else [])"
      using "2.prems"(2) by (cases t) (auto simp: image_step_def Let_def ESC_def push_bytes_def)
    then show ?thesis
      using "2.IH"(1) [of "t\<lparr>it_state := TapEscape\<rparr>"] "2.prems" True by (simp add: image_step_tokens_def)
  next
    case False
    then have "image_step c (t, []) b =
        (t\<lparr>it_state := TapGround\<rparr>, [Bytes ((if esc then [ESC] else []) @ [b])])"
      using "2.prems" by (cases t) (auto simp: image_step_def Let_def push_bytes_def)
    then show ?thesis
      using "2.IH"(2) [of "t\<lparr>it_state := TapGround\<rparr>"] "2.prems" False by (simp add: image_step_tokens_def)
  qed
qed simp

lemma text_from_ground:
  "image_text False s \<Longrightarrow> it_state t = TapGround \<Longrightarrow> image_after c t s = t \<and> image_tokens c t s = map TByte s"
  using text_passes [of False s t c] by simp

lemma body_collects:
  "ESC \<notin> set w \<Longrightarrow> (kind = Apc \<longrightarrow> BEL \<notin> set w) \<Longrightarrow> length (body @ w) \<le> MAX_SEQUENCE_BYTES \<Longrightarrow>
   it_state t = TapBody kind body False \<Longrightarrow>
   image_after c t w = t\<lparr>it_state := TapBody kind (body @ w) False\<rparr> \<and> image_tokens c t w = []"
proof (induction w arbitrary: t body)
  case (Cons b w)
  have "image_step c (t, []) b = (t\<lparr>it_state := TapBody kind (body @ [b]) False\<rparr>, [])"
    using Cons.prems by (auto simp: image_step_def Let_def)
  then show ?case
    using Cons.prems Cons.IH [of "body @ [b]" "t\<lparr>it_state := TapBody kind (body @ [b]) False\<rparr>"]
    by (simp add: image_step_tokens_def)
qed simp

lemma string_starts:
  assumes "it_state t = TapGround" "string_body kind body" "length body \<le> MAX_SEQUENCE_BYTES"
  shows "image_after c t (body_intro kind @ body) = t\<lparr>it_state := TapBody kind body False\<rparr> \<and>
    image_tokens c t (body_intro kind @ body) = []"
proof -
  let ?t1 = "t\<lparr>it_state := TapBody kind [] False\<rparr>"
  have start: "image_after c t (body_intro kind) = ?t1" "image_tokens c t (body_intro kind) = []"
    using assms(1)
    by (cases kind; simp add: body_intro_def image_step_def image_step_tokens_def Let_def ESC_def)+
  have mid: "image_after c ?t1 body = t\<lparr>it_state := TapBody kind body False\<rparr>" "image_tokens c ?t1 body = []"
    using body_collects [of body kind "[]" ?t1 c] assms(2,3) by (simp_all add: string_body_def)
  show ?thesis using start mid by (simp add: image_after_append image_tokens_append)
qed

lemma foreign_string_passes:
  assumes "foreign_ok (Str kind body e)" "it_state t = TapGround"
  shows "image_after c t (body_intro kind @ body @ e) = t \<and>
    image_tokens c t (body_intro kind @ body @ e) = map TByte (body_intro kind @ body @ [ESC, CHR 0x5C])"
proof -
  let ?t2 = "t\<lparr>it_state := TapBody kind body False\<rparr>"
  have fin: "finish_body c (t\<lparr>it_state := TapBody kind body esc\<rparr>) kind body [] =
      (t, [Bytes (body_intro kind @ body @ [ESC, CHR 0x5C])])" for esc
    using assms by (cases kind) (auto simp: finish_body_def foreign_body_def Let_def)
  have "image_after c ?t2 e = t \<and> image_tokens c ?t2 e = map TByte (body_intro kind @ body @ [ESC, CHR 0x5C])"
    using assms(1) fin by (cases kind) (auto simp: string_end_def image_step_def image_step_tokens_def Let_def ESC_def BEL_def)
  then show ?thesis
    using string_starts [OF assms(2), of kind body c] assms(1)
    by (simp add: foreign_body_def image_after_append image_tokens_append flip: append_assoc)
qed

lemma broken_string_passes:
  assumes "foreign_ok (Broken kind body b)" "it_state t = TapGround"
  shows "image_after c t (body_intro kind @ body @ [ESC, b]) = t \<and>
    image_tokens c t (body_intro kind @ body @ [ESC, b]) = map TByte (body_intro kind @ body @ [ESC, b])"
proof -
  let ?t2 = "t\<lparr>it_state := TapBody kind body False\<rparr>"
  have "image_after c ?t2 [ESC, b] = t \<and> image_tokens c ?t2 [ESC, b] = map TByte (body_intro kind @ body @ [ESC, b])"
    using assms by (simp add: image_step_def image_step_tokens_def Let_def)
  then show ?thesis
    using string_starts [OF assms(2), of kind body c] assms(1)
    by (simp add: image_after_append image_tokens_append flip: append_assoc)
qed

lemma overlong_string_released:
  assumes "foreign_ok (Overlong kind body)" "it_state t = TapGround"
  shows "image_after c t (body_intro kind @ body) = add_dropped 1 t \<and>
    image_tokens c t (body_intro kind @ body) = map TByte (foreign_seen (Overlong kind body))"
proof -
  obtain w b where w: "body = w @ [b]" "length w = MAX_SEQUENCE_BYTES"
    using assms(1) by (cases body rule: rev_cases) auto
  have ok: "string_body kind w" "b \<noteq> ESC" "kind = Apc \<longrightarrow> b \<noteq> BEL" using assms(1) w by (auto simp: string_body_def)
  let ?t2 = "t\<lparr>it_state := TapBody kind w False\<rparr>"
  have "image_after c ?t2 [b] = add_dropped 1 t \<and> image_tokens c ?t2 [b] = map TByte (foreign_seen (Overlong kind body))"
    using ok w assms(2) by (cases kind; cases t) (simp_all add: image_step_def image_step_tokens_def Let_def)
  then show ?thesis
    using string_starts [OF assms(2) ok(1), of c] w(2) unfolding w(1)
    by (simp add: image_after_append image_tokens_append flip: append_assoc)
qed

lemma foreign_piece_passes:
  assumes "foreign_ok p" "it_state t = TapGround"
  shows "image_after c t (foreign_wire p) = add_dropped (foreign_dropped p) t \<and>
    image_tokens c t (foreign_wire p) = map TByte (foreign_seen p)"
proof (cases p)
  case (Text s)
  then show ?thesis using assms text_from_ground [of s t c] by (cases t) simp
next
  case (Str kind body e)
  then show ?thesis using foreign_string_passes [of kind body e t c] assms by (cases t) simp
next
  case (Broken kind body b)
  then show ?thesis using broken_string_passes [of kind body b t c] assms by (cases t) simp
next
  case (Overlong kind body)
  then show ?thesis using overlong_string_released [of kind body t c] assms by simp
qed

lemma foreign_pieces_pass:
  "list_all foreign_ok ps \<Longrightarrow> it_state t = TapGround \<Longrightarrow>
   image_after c t (concat (map foreign_wire ps)) = add_dropped (sum_list (map foreign_dropped ps)) t \<and>
   image_tokens c t (concat (map foreign_wire ps)) = map TByte (concat (map foreign_seen ps))"
proof (induction ps arbitrary: t)
  case Nil
  then show ?case by (cases t) simp
next
  case (Cons p ps)
  let ?u = "add_dropped (foreign_dropped p) t"
  show ?case
    using foreign_piece_passes [of p t c] Cons.IH [of ?u] Cons.prems
    by (simp add: image_after_append image_tokens_append add.assoc)
qed

text \<open>C33. What is not an image reaches the parser, for any stream made of the four kinds of pieces, in any order
  and however the reads cut it, starting between sequences: text in which no string starts, and strings
  broken off by an escape and another byte, byte for byte; complete strings of other protocols (at
  most \<open>MAX_SEQUENCE_BYTES\<close> long) with their introducer and body unchanged and a string terminator at the end, also when
  a bell ended them; and of a string that outgrows the bound, what was collected of it when
  it is a device control string, nothing when it is an application string. No image and
  no deletion is told, nothing is held back, and the tap changes in nothing but its count of drops, which grows by
  the number of overlong strings.\<close>

theorem foreign_strings_untouched:
  assumes "list_all foreign_ok pieces" "concat chunks = concat (map foreign_wire pieces)" "it_state t = TapGround"
  shows "foldl (read_images c) (t, []) chunks =
    (add_dropped (sum_list (map foreign_dropped pieces)) t, map TByte (concat (map foreign_seen pieces)))"
  using images.chunking [of c "(t, [])" chunks] foreign_pieces_pass [OF assms(1,3), of c] assms(2)
  by (simp add: read_images_split)

theorem foreign_strings_untouched_witness:
  "foldl (read_images sample_images) (image_tap_new, [])
     [[ESC], ''[0m'' @ [ESC] @ ''P>|x'', [ESC, CHR 0x5C] @ ''ok'' @ [ESC], ''_X'' @ [BEL, ESC], ''_Ga=T'' @ [ESC], ''c''] =
   (image_tap_new,
    map TByte ([ESC] @ ''[0m'' @ [ESC] @ ''P>|x'' @ [ESC, CHR 0x5C] @ ''ok'' @ [ESC] @ ''_X'' @ [ESC, CHR 0x5C] @
      [ESC] @ ''_Ga=T'' @ [ESC] @ ''c''))"
proof -
  let ?ps = "[Text ([ESC] @ ''[0m''), Str Dcs ''>|x'' [ESC, CHR 0x5C], Text ''ok'', Str Apc ''X'' [BEL], Broken Apc ''Ga=T'' CHR ''c'']"
  let ?reads = "[[ESC], ''[0m'' @ [ESC] @ ''P>|x'', [ESC, CHR 0x5C] @ ''ok'' @ [ESC], ''_X'' @ [BEL, ESC], ''_Ga=T'' @ [ESC], ''c'']"
  have t: "image_text False ([ESC] @ ''[0m'')" "image_text False ''ok''" by (simp_all add: ESC_def)
  have "sixel_payload ''>|x'' = None" by (simp add: sixel_payload_def split_once_def)
  then have "foreign_body Dcs ''>|x''" "foreign_body Apc ''X''" "string_body Apc ''Ga=T''"
    by (simp_all add: foreign_body_def string_body_def ESC_def BEL_def MAX_SEQUENCE_BYTES_def)
  then have ok: "list_all foreign_ok ?ps"
    using t by (simp add: string_end_def MAX_SEQUENCE_BYTES_def BEL_def)
  have "foldl (read_images sample_images) (image_tap_new, []) ?reads =
      (add_dropped (sum_list (map foreign_dropped ?ps)) image_tap_new, map TByte (concat (map foreign_seen ?ps)))"
    by (rule foreign_strings_untouched [OF ok]) (simp_all add: body_intro_def image_tap_new_def)
  also have "\<dots> = (image_tap_new,
      map TByte ([ESC] @ ''[0m'' @ [ESC] @ ''P>|x'' @ [ESC, CHR 0x5C] @ ''ok'' @ [ESC] @ ''_X'' @ [ESC, CHR 0x5C] @
        [ESC] @ ''_Ga=T'' @ [ESC] @ ''c''))"
    by (simp add: body_intro_def image_tap_new_def)
  finally show ?thesis .
qed

section \<open>Chunked transmissions\<close>

text \<open>What a kitty sequence does does not depend on where the tap is in the stream.\<close>

abbreviation at_state :: "tap_state \<Rightarrow> image_tap \<Rightarrow> image_tap" where
  "at_state x \<equiv> it_state_update (\<lambda>_. x)"

lemma store_image_at: "store_image e (at_state x t) = at_state x (store_image e t)"
  by (cases t) (simp add: store_image_def Let_def split: prod.split)

lemma delete_image_at: "delete_image f n (at_state x t) = map_prod (at_state x) id (delete_image f n t)"
  by (cases t) (simp add: delete_image_def clear_stored_def remove_stored_def split: option.split prod.split)

lemma take_id_at: "take_id w (at_state x t) = map_prod id (at_state x) (take_id w t)"
  by (cases t) (simp add: take_id_def Let_def split: option.split)

lemma kitty_transmit_at:
  "kitty_transmit c f d n p (at_state x t) = map_prod (at_state x) id (kitty_transmit c f d n p t)"
  by (simp add: kitty_transmit_def Let_def take_id_at store_image_at split: option.split prod.split)

lemma kitty_act_at: "kitty_act c i n ctl p (at_state x t) = map_prod (at_state x) id (kitty_act c i n ctl p t)"
  by (simp add: kitty_act_def Let_def delete_image_at kitty_transmit_at kitty_place_def)

lemma parse_kitty_at: "parse_kitty c (at_state x t) body = map_prod (at_state x) id (parse_kitty c t body)"
proof -
  have none: "at_state x t\<lparr>it_pending := None\<rparr> = at_state x (t\<lparr>it_pending := None\<rparr>)" for t :: image_tap
    by (cases t) simp
  show ?thesis
  proof (cases "body \<noteq> [] \<and> hd body = CHR ''G''")
    case True
    then obtain rest where b: "body = CHR ''G'' # rest" by (cases body) auto
    show ?thesis
    proof (cases "split_control rest")
      case None
      then show ?thesis by (simp add: b parse_kitty_def)
    next
      case (Some cp)
      obtain ctl p where s: "split_control rest = Some (ctl, p)" using Some by (cases cp) simp
      show ?thesis
      proof (cases "control_fields ctl (CHR ''m'') = Some ''1''")
        case True
        show ?thesis unfolding b parse_kitty_more [OF s True] by (cases t) simp
      next
        case False
        show ?thesis unfolding b parse_kitty_act [OF s False] none kitty_act_at by simp
      qed
    qed
  qed (auto simp: parse_kitty_def split: list.split)
qed

text \<open>A kitty sequence on the wire.\<close>

definition kitty_wire :: "string \<times> string \<Rightarrow> string" where
  "kitty_wire w = body_intro Apc @ fst w @ snd w"

definition kitty_fits :: "string \<Rightarrow> bool" where
  "kitty_fits body \<longleftrightarrow>
     body \<noteq> [] \<and> hd body = CHR ''G'' \<and> ESC \<notin> set body \<and> BEL \<notin> set body \<and> length body \<le> MAX_SEQUENCE_BYTES"

fun kitty_told :: "image_tap \<times> kitty_outcome \<Rightarrow> image_tap \<times> image_token list" where
  "kitty_told (t, KImage e) = (t, [TImage e])"
| "kitty_told (t, KDelete d) = (t, [TDelete d])"
| "kitty_told (t, KDropped) = (t\<lparr>it_dropped := it_dropped t + 1\<rparr>, [])"
| "kitty_told (t, _) = (t, [])"

lemma finish_kitty:
  assumes "body \<noteq> [] \<and> hd body = CHR ''G''" "it_state t = TapGround"
  shows "map_prod id stream_tokens (finish_body c (at_state x t) Apc body []) = kitty_told (parse_kitty c t body)"
proof -
  obtain u k where k: "parse_kitty c t body = (u, k)" by fastforce
  have "at_state TapGround t = t" using assms(2) by simp
  then have "at_state TapGround u = u"
    using parse_kitty_at [of c TapGround t body] k by simp
  then show ?thesis
    using assms(1) k by (cases k; cases u) (simp_all add: finish_body_def parse_kitty_at Let_def)
qed

lemma kitty_wire_runs:
  assumes "kitty_fits body" "string_end e" "it_state t = TapGround"
  shows "(image_after c t (kitty_wire (body, e)), image_tokens c t (kitty_wire (body, e))) = kitty_told (parse_kitty c t body)"
proof -
  let ?t1 = "at_state (TapBody Apc [] False) t" and ?t2 = "at_state (TapBody Apc body False) t"
  have start: "image_after c t (body_intro Apc) = ?t1" "image_tokens c t (body_intro Apc) = []"
    using assms(3) by (simp_all add: body_intro_def image_step_def image_step_tokens_def Let_def ESC_def)
  have mid: "image_after c ?t1 body = ?t2" "image_tokens c ?t1 body = []"
    using body_collects [of body Apc "[]" ?t1 c] assms(1) by (simp_all add: kitty_fits_def)
  note fin = finish_kitty [OF _ assms(3), of body c]
  have "(image_after c ?t2 e, image_tokens c ?t2 e) = kitty_told (parse_kitty c t body)"
    using assms(1,2) fin [of "TapBody Apc body False"] fin [of "TapBody Apc body True"]
    by (auto simp: string_end_def kitty_fits_def image_step_def image_step_tokens_def Let_def ESC_def BEL_def
        map_prod_def split_def)
  with start mid show ?thesis by (simp add: kitty_wire_def image_after_append image_tokens_append)
qed

text \<open>Sequences on the wire act on the tap in their order, whatever ends each of them.\<close>

fun kitty_sequence :: "image_codec \<Rightarrow> image_tap \<Rightarrow> string list \<Rightarrow> image_tap \<times> image_token list" where
  "kitty_sequence c t [] = (t, [])"
| "kitty_sequence c t (b # bs) =
     (let (u, told) = kitty_told (parse_kitty c t b); (v, rest) = kitty_sequence c u bs in (v, told @ rest))"

lemma kitty_told_ground:
  assumes "it_state t = TapGround" "kitty_told (parse_kitty c t body) = (u, told)"
  shows "it_state u = TapGround"
proof -
  obtain v k where k: "parse_kitty c t body = (v, k)" by fastforce
  have "at_state TapGround t = t" using assms(1) by simp
  then have "at_state TapGround v = v" using parse_kitty_at [of c TapGround t body] k by simp
  then have "it_state v = TapGround" by (metis image_tap.select_convs(1) image_tap.surjective image_tap.update_convs(1))
  then show ?thesis using assms(2) k by (cases k) auto
qed

lemma kitty_wires_run:
  "list_all kitty_fits (map fst ws) \<Longrightarrow> list_all string_end (map snd ws) \<Longrightarrow> it_state t = TapGround \<Longrightarrow>
   (image_after c t (concat (map kitty_wire ws)), image_tokens c t (concat (map kitty_wire ws))) =
     kitty_sequence c t (map fst ws)"
proof (induction ws arbitrary: t)
  case (Cons w ws)
  obtain u told where k: "kitty_told (parse_kitty c t (fst w)) = (u, told)" by fastforce
  have "image_after c t (kitty_wire w) = u" "image_tokens c t (kitty_wire w) = told"
    using kitty_wire_runs [of "fst w" "snd w" t c] Cons.prems k by simp_all
  then show ?case
    using Cons.IH [of u] Cons.prems kitty_told_ground [OF _ k]
    by (simp add: image_after_append image_tokens_append k split_def prod_eq_iff Let_def)
qed simp

lemma middle_chunks_told:
  assumes "list_all (list_all visible) ps" "it_pending t = Some q"
  shows "kitty_sequence c t (map (\<lambda>p. ''Gm=1;'' @ p) ps @ rest) =
    kitty_sequence c (kitty_run c t (map (\<lambda>p. ''Gm=1;'' @ p) ps)) rest"
  using assms
proof (induction ps arbitrary: t q)
  case (Cons p ps)
  have sc: "split_control (''m=1;'' @ p) = Some (''m=1'', p)"
    using marker_split(1) Cons.prems(1) by simp
  let ?t = "t\<lparr>it_pending := Some (q\<lparr>pk_payload := pk_payload q @ p\<rparr>)\<rparr>"
  have "parse_kitty c t (''Gm=1;'' @ p) = (?t, KPending)"
    using parse_kitty_more [OF sc] marker_fields Cons.prems(2) by simp
  then show ?case using Cons.IH [of ?t] Cons.prems(1) by (simp add: kitty_run_def)
qed (simp add: kitty_run_def)

text \<open>The bodies of a transmission sent whole and in chunks.\<close>

definition whole_body :: "string \<Rightarrow> string \<Rightarrow> string" where
  "whole_body control payload = ''G'' @ control @ '';'' @ payload"

definition chunk_bodies :: "string \<Rightarrow> string \<Rightarrow> string list \<Rightarrow> string \<Rightarrow> string list" where
  "chunk_bodies control first ps last_part =
     (''G'' @ control @ '',m=1;'' @ first) # map (\<lambda>p. ''Gm=1;'' @ p) ps @ [''Gm=0;'' @ last_part]"

lemma chunks_told_as_whole:
  assumes "CHR '';'' \<notin> set control" "list_all visible control" "control_fields control (CHR ''m'') \<noteq> Some ''1''"
    and "list_all (list_all visible) (first # ps @ [last_part])" "it_pending t = None"
  shows "kitty_sequence c t (chunk_bodies control first ps last_part) =
    kitty_sequence c t [whole_body control (first @ concat ps @ last_part)]"
proof -
  let ?ctl = "control @ '',m=1''" and ?one = "''G'' @ control @ '',m=1;'' @ first"
  let ?t = "t\<lparr>it_pending := Some \<lparr>pk_id = request_id (control_fields ?ctl), pk_control = ?ctl, pk_payload = first\<rparr>\<rparr>"
  have "control_fields ?ctl = (control_fields control)(CHR ''m'' \<mapsto> ''1'')"
    using fields_snoc [of "CHR ''m''" "''1''" control] by simp
  moreover have "split_control (?ctl @ CHR '';'' # first) = Some (?ctl, first)"
    using assms(1,2,4) by (intro split_control_visible) (auto simp: visible_def)
  ultimately have one: "parse_kitty c t ?one = (?t, KPending)"
    using parse_kitty_more [of "?ctl @ CHR '';'' # first" ?ctl first c t] assms(5) by simp
  then have run: "kitty_run c t (?one # map (\<lambda>p. ''Gm=1;'' @ p) ps) = kitty_run c ?t (map (\<lambda>p. ''Gm=1;'' @ p) ps)"
    by (simp add: kitty_run_def)
  have "kitty_sequence c t (chunk_bodies control first ps last_part) =
      kitty_sequence c ?t (map (\<lambda>p. ''Gm=1;'' @ p) ps @ [''Gm=0;'' @ last_part])"
    using one by (simp add: chunk_bodies_def split_def)
  also have "\<dots> = kitty_sequence c (kitty_run c ?t (map (\<lambda>p. ''Gm=1;'' @ p) ps)) [''Gm=0;'' @ last_part]"
    using assms(4) by (intro middle_chunks_told) simp_all
  also have "\<dots> = kitty_sequence c t [whole_body control (first @ concat ps @ last_part)]"
    by (simp only: run [symmetric] kitty_sequence.simps whole_body_def kitty_chunks_as_whole [OF assms])
  finally show ?thesis .
qed

lemma visible_fits: "list_all visible s \<Longrightarrow> ESC \<notin> set s \<and> BEL \<notin> set s"
  by (auto simp: list_all_iff visible_def ESC_def BEL_def)

lemma transmission_fits:
  assumes "list_all visible control" "list_all (list_all visible) (first # ps @ [last_part])"
    and "list_all (\<lambda>b. length b \<le> MAX_SEQUENCE_BYTES)
      (whole_body control (first @ concat ps @ last_part) # chunk_bodies control first ps last_part)"
  shows "list_all kitty_fits (whole_body control (first @ concat ps @ last_part) # chunk_bodies control first ps last_part)"
proof -
  have "list_all (list_all visible) (whole_body control (first @ concat ps @ last_part) # chunk_bodies control first ps last_part)"
    using assms(1,2) by (auto simp: whole_body_def chunk_bodies_def list_all_iff visible_def)
  then have "\<forall>b\<in>set (whole_body control (first @ concat ps @ last_part) # chunk_bodies control first ps last_part).
      ESC \<notin> set b \<and> BEL \<notin> set b"
    using visible_fits by (simp add: list_all_iff)
  moreover have "\<forall>b\<in>set (whole_body control (first @ concat ps @ last_part) # chunk_bodies control first ps last_part).
      b \<noteq> [] \<and> hd b = CHR ''G''"
    by (auto simp: whole_body_def chunk_bodies_def)
  ultimately show ?thesis using assms(3) by (simp add: list_all_iff kitty_fits_def)
qed

text \<open>C32. Cutting a kitty transmission into chunks changes nothing of what the tap tells a screen. Take a
  control string and a payload of printable characters other than blanks, the control without a semicolon and
  without a marker \<open>m=1\<close> of its own, and any cut of the payload into two or more parts. When the tap is
  between sequences with no transmission under way, and neither the transmission sent whole nor one of its
  chunks is longer than the \<open>MAX_SEQUENCE_BYTES\<close> the tap accepts in one string, the chunked bytes and the whole
  bytes, each string ended by a bell or by a string terminator and both streams cut by any reads, give the
  same image, deletion or drop and leave the tap in the same state. (A transmission too long to be
  sent whole is dropped by the tap; its chunks are not.)\<close>

theorem kitty_stream_chunks_as_whole:
  assumes "CHR '';'' \<notin> set control" "list_all visible control" "control_fields control (CHR ''m'') \<noteq> Some ''1''"
    and "list_all (list_all visible) (first # ps @ [last_part])"
    and "whole = whole_body control (first @ concat ps @ last_part)" "bodies = chunk_bodies control first ps last_part"
    and "list_all (\<lambda>b. length b \<le> MAX_SEQUENCE_BYTES) (whole # bodies)"
    and "length ends = length bodies" "list_all string_end (e # ends)"
    and "concat chunk_reads = concat (map kitty_wire (zip bodies ends))" "concat whole_reads = kitty_wire (whole, e)"
    and "it_state t = TapGround" "it_pending t = None"
  shows "foldl (read_images c) (t, []) chunk_reads = foldl (read_images c) (t, []) whole_reads"
proof -
  have fits: "list_all kitty_fits bodies" "kitty_fits whole"
    using transmission_fits [OF assms(2,4)] assms(5-7) by simp_all
  have "foldl (read_images c) (t, []) chunk_reads = kitty_sequence c t bodies"
    using images.chunking [of c "(t, [])" chunk_reads] kitty_wires_run [of "zip bodies ends" t c] fits assms(8-10,12)
    by (simp add: read_images_split)
  also have "\<dots> = kitty_sequence c t [whole]"
    using chunks_told_as_whole [OF assms(1-4,13)] assms(5,6) by simp
  also have "\<dots> = foldl (read_images c) (t, []) whole_reads"
    using images.chunking [of c "(t, [])" whole_reads] kitty_wires_run [of "[(whole, e)]" t c] fits assms(9,11,12)
    by (simp add: read_images_split)
  finally show ?thesis .
qed

theorem kitty_stream_chunks_as_whole_witness:
  "foldl (read_images sample_images) (image_tap_new, [])
     [[ESC, CHR ''_''] @ ''Ga=T,s=1,v=1,m=1;R'', [BEL, ESC, CHR ''_''] @ ''Gm=1;GB'', [ESC, CHR 0x5C, ESC, CHR ''_''], ''Gm=0;A'' @ [BEL]] =
   foldl (read_images sample_images) (image_tap_new, []) [[ESC, CHR ''_''] @ ''Ga=T,s=1,v=1;RG'', ''BA'' @ [ESC, CHR 0x5C]]"
proof (rule kitty_stream_chunks_as_whole [OF _ _ _ _ refl refl])
  show "control_fields ''a=T,s=1,v=1'' (CHR ''m'') \<noteq> Some ''1''" by (simp add: control_fields_def split_once_def)
  show "list_all string_end ([ESC, CHR 0x5C] # [[BEL], [ESC, CHR 0x5C], [BEL]])" by (simp add: string_end_def)
  show "concat [[ESC, CHR ''_''] @ ''Ga=T,s=1,v=1,m=1;R'', [BEL, ESC, CHR ''_''] @ ''Gm=1;GB'', [ESC, CHR 0x5C, ESC, CHR ''_''], ''Gm=0;A'' @ [BEL]] =
      concat (map kitty_wire (zip (chunk_bodies ''a=T,s=1,v=1'' ''R'' [''GB''] ''A'') [[BEL], [ESC, CHR 0x5C], [BEL]]))"
    by (simp add: kitty_wire_def chunk_bodies_def body_intro_def)
  show "concat [[ESC, CHR ''_''] @ ''Ga=T,s=1,v=1;RG'', ''BA'' @ [ESC, CHR 0x5C]] =
      kitty_wire (whole_body ''a=T,s=1,v=1'' (''R'' @ concat [''GB''] @ ''A''), [ESC, CHR 0x5C])"
    by (simp add: kitty_wire_def whole_body_def body_intro_def)
qed (simp_all add: visible_def image_tap_new_def chunk_bodies_def whole_body_def MAX_SEQUENCE_BYTES_def)

section \<open>What a tap keeps and what it emits\<close>

definition image_bounded :: "image_tap \<Rightarrow> bool" where
  "image_bounded t \<longleftrightarrow>
     (case it_state t of TapBody _ body _ \<Rightarrow> length body \<le> MAX_SEQUENCE_BYTES | _ \<Rightarrow> True)"

fun token_whole :: "image_token \<Rightarrow> bool" where
  "token_whole (TImage e) \<longleftrightarrow> event_whole e"
| "token_whole _ \<longleftrightarrow> True"

lemma sixel_event_whole:
  assumes "decode_sixel data = Some (w, h, rgba)" "ie_width e = word_of_nat w" "ie_height e = word_of_nat h" "ie_rgba e = Some rgba"
  shows "event_whole e"
proof -
  have d: "w \<le> 16384" "h \<le> 16384" "length rgba = 4 * w * h"
    using decode_sixel_whole [OF assms(1)] by (simp_all add: MAX_SIXEL_DIMENSION_def)
  then have "unat (word_of_nat w :: u32) = w" "unat (word_of_nat h :: u32) = h"
    by (simp_all add: unat_of_nat take_bit_nat_eq_self)
  then show ?thesis using assms d by (simp add: event_whole_def)
qed

lemma finish_body_ok:
  assumes "tap_ok t" "png_whole c" "finish_body c t kind body [] = (t', out)"
  shows "tap_ok t' \<and> it_state t' = TapGround \<and> list_all token_whole (stream_tokens out)"
proof (cases kind)
  case Apc
  obtain u k where k: "parse_kitty c t body = (u, k)" by fastforce
  note ok = parse_kitty_ok [OF assms(1,2) k]
  show ?thesis
  proof (cases "body \<noteq> [] \<and> hd body = CHR ''G''")
    case True
    then have f: "finish_body c t kind body [] =
        (case k of KImage e \<Rightarrow> (u\<lparr>it_state := TapGround\<rparr>, [Image e])
         | KDelete d \<Rightarrow> (u\<lparr>it_state := TapGround\<rparr>, [Delete d])
         | KDropped \<Rightarrow> (u\<lparr>it_state := TapGround, it_dropped := it_dropped u + 1\<rparr>, [])
         | _ \<Rightarrow> (u\<lparr>it_state := TapGround\<rparr>, []))"
      using Apc k by (simp add: finish_body_def Let_def split: kitty_outcome.splits)
    show ?thesis using assms(3) [unfolded f] ok by (cases k) (auto simp: tap_ok_def stored_ok_def)
  next
    case False
    then have "finish_body c t kind body [] = (t\<lparr>it_state := TapGround\<rparr>, [Bytes (body_intro Apc @ body @ [ESC, CHR 0x5C])])"
      using Apc by (auto simp: finish_body_def Let_def)
    then show ?thesis using assms(1,3) by (auto simp: tap_ok_def stored_ok_def list_all_iff)
  qed
next
  case Dcs
  show ?thesis
  proof (cases "sixel_payload body")
    case None
    then show ?thesis using Dcs assms(1,3) by (auto simp: finish_body_def Let_def tap_ok_def stored_ok_def list_all_iff)
  next
    case (Some data)
    show ?thesis
    proof (cases "decode_sixel data")
      case None
      then show ?thesis using Dcs Some assms(1,3) by (auto simp: finish_body_def Let_def tap_ok_def stored_ok_def)
    next
      case (Some d)
      obtain w h rgba where d: "decode_sixel data = Some (w, h, rgba)" using Some by (cases d) auto
      obtain n u where n: "take_id None t = (n, u)" by fastforce
      have "tap_ok u" using assms(1) tap_ok_cong [of u t] take_id_keeps [of None t] n by simp
      then show ?thesis
        using Dcs \<open>sixel_payload body = Some data\<close> d n assms(3) sixel_event_whole [OF d]
        by (auto simp: finish_body_def Let_def tap_ok_def stored_ok_def)
    qed
  qed
qed

lemma image_step_ok:
  assumes "tap_ok t" "image_bounded t" "png_whole c" "image_step c (t, []) b = (t', out)"
  shows "tap_ok t' \<and> image_bounded t' \<and> list_all token_whole (stream_tokens out)"
proof -
  have fin: ?thesis if "finish_body c t kind body [] = (t', out)" for kind body
    using finish_body_ok [OF assms(1,3) that] by (simp add: image_bounded_def)
  show ?thesis
  proof (cases "it_state t")
    case (TapBody kind body esc)
    show ?thesis
    proof (cases "(esc \<and> b = CHR 0x5C) \<or> (\<not> esc \<and> b \<noteq> ESC \<and> kind = Apc \<and> b = BEL)")
      case True
      then have "finish_body c t kind body [] = (t', out)"
        using assms(4) TapBody by (auto simp: image_step_def Let_def)
      then show ?thesis by (rule fin)
    next
      case False
      then show ?thesis using assms TapBody
        by (auto simp: image_step_def Let_def image_bounded_def tap_ok_def stored_ok_def list_all_iff split: if_splits)
    qed
  qed (use assms in \<open>auto simp: image_step_def Let_def image_bounded_def tap_ok_def stored_ok_def push_bytes_def split: if_splits\<close>)
qed

lemma image_run_ok:
  "tap_ok t \<Longrightarrow> image_bounded t \<Longrightarrow> png_whole c \<Longrightarrow>
   tap_ok (image_after c t bs) \<and> image_bounded (image_after c t bs) \<and> list_all token_whole (image_tokens c t bs)"
proof (induction bs arbitrary: t)
  case (Cons b bs)
  obtain t' out where s: "image_step c (t, []) b = (t', out)" by fastforce
  then show ?case using Cons image_step_ok [OF Cons.prems s] by (simp add: image_step_tokens_def)
qed simp

text \<open>No stream of bytes makes the image tap grow without bound through what it stores, and no image it
  emits is torn: after any reads the string it collects is at most 16 MiB, it keeps at
  most 32 transmissions with distinct ids and at most 32 MiB of them, and every emitted image, kitty or sixel, whose
  dimensions do not overflow has exactly four bytes for each of its pixels.\<close>

theorem image_tap_bounded:
  assumes "png_whole c" "foldl (read_images c) (image_tap_new, []) chunks = (t, tokens)"
  shows "image_bounded t \<and> length (it_stored t) \<le> 32 \<and> distinct (stored_ids (it_stored t)) \<and>
    sum_list (map (\<lambda>s. image_bytes (si_event s)) (it_stored t)) \<le> 32 * 1024 * 1024 \<and> list_all token_whole tokens"
proof -
  have "(t, tokens) = (image_after c image_tap_new (concat chunks), image_tokens c image_tap_new (concat chunks))"
    using images.chunking [of c "(image_tap_new, [])" chunks] assms(2) by (simp add: read_images_split)
  moreover have "image_bounded image_tap_new" by (simp add: image_bounded_def image_tap_new_def)
  ultimately have r: "tap_ok t" "image_bounded t" "list_all token_whole tokens"
    using image_run_ok [OF tap_new_ok _ assms(1)] by auto
  have m: "map (\<lambda>s. image_bytes (si_event s)) (it_stored t) = map si_bytes (it_stored t)"
    using r(1) by (auto simp: tap_ok_def stored_ok_def list_all_iff)
  show ?thesis unfolding m
    using r by (simp add: tap_ok_def stored_ok_def DEFAULT_IMAGE_CACHE_IMAGES_def DEFAULT_IMAGE_CACHE_BYTES_def)
qed

theorem image_tap_bounded_witness:
  "image_bounded (fst (foldl (read_images sample_images) (image_tap_new, []) [[ESC, CHR ''_''], ''Ga=T,s=1,v=1;RGBA'', [BEL]])) \<and>
   list_all token_whole (snd (foldl (read_images sample_images) (image_tap_new, []) [[ESC, CHR ''_''], ''Ga=T,s=1,v=1;RGBA'', [BEL]]))"
  using image_tap_bounded [OF sample_images_whole prod.collapse [symmetric]] by blast

text \<open>A string of another protocol that ends with a bell is handed on with another terminator.\<close>

lemma bell_terminator_replaced:
  "image_tokens c image_tap_new [ESC, CHR ''_'', CHR ''X'', BEL] = map TByte [ESC, CHR ''_'', CHR ''X'', ESC, CHR 0x5C]"
  by (simp add: image_step_tokens_def image_step_def Let_def finish_body_def body_intro_def image_tap_new_def ESC_def BEL_def
      MAX_SEQUENCE_BYTES_def push_bytes_def)

end
