(* ===== verification/Terminal_Screen.thy ===== *)
theory Terminal_Screen
  imports Terminal_Image_Tap
begin

text \<open>
  A terminal surface, from \<^verbatim>\<open>goble-terminal/src/screen\<close>: size and policy, cells and lines, and the
  \<open>Screen\<close> around the VT emulator. The emulator with its parser (\<open>Term\<close> and \<open>Processor\<close> of
  \<^verbatim>\<open>alacritty_terminal\<close>) is third-party code, vendored in \<^verbatim>\<open>src/vendor\<close>, and the parameter \<open>vt\<close>: its states, how it takes bytes and
  what is read off its grid. A character is the string of its UTF-8 bytes. Colours and text attributes
  that only a renderer reads are not modelled.
\<close>

section \<open>Sizes, policies and lines\<close>

record screen_size =
  ss_columns :: nat
  ss_lines :: nat

definition BLOCK_HISTORY :: nat where
  "BLOCK_HISTORY = 50000"

record screen_config =
  sc_history :: nat
  sc_allow_clipboard_read :: bool

definition block_config :: screen_config where
  "block_config = \<lparr>sc_history = BLOCK_HISTORY, sc_allow_clipboard_read = False\<rparr>"

definition scrolling_config :: "nat \<Rightarrow> screen_config" where
  "scrolling_config history = \<lparr>sc_history = history, sc_allow_clipboard_read = False\<rparr>"

definition allow_clipboard_read :: "screen_config \<Rightarrow> screen_config" where
  "allow_clipboard_read c = c\<lparr>sc_allow_clipboard_read := True\<rparr>"

record screen_cell =
  cell_ch :: string
  cell_wide_spacer :: bool
  cell_leading_wide_spacer :: bool
  cell_zerowidth :: "string list"

type_synonym screen_line = "screen_cell list"

definition line_text :: "screen_line \<Rightarrow> string" where
  "line_text cells =
     trim_end (concat (map (\<lambda>c. (if cell_wide_spacer c \<or> cell_leading_wide_spacer c then [] else cell_ch c) @
                                concat (cell_zerowidth c)) cells))"

definition is_blank :: "screen_line \<Rightarrow> bool" where
  "is_blank cells \<longleftrightarrow> list_all (\<lambda>c. cell_ch c = '' '' \<and> cell_zerowidth c = []) cells"

section \<open>The emulator and the screen\<close>

record 't vt =
  vt_new :: "screen_size \<Rightarrow> screen_config \<Rightarrow> 't"
  vt_resize :: "screen_size \<Rightarrow> 't \<Rightarrow> 't"
  vt_advance :: "'t \<Rightarrow> string \<Rightarrow> 't"
  vt_scroll :: "int \<Rightarrow> 't \<Rightarrow> 't"
  vt_alt :: "'t \<Rightarrow> bool"
  vt_cursor :: "'t \<Rightarrow> int \<times> nat"
  vt_total_lines :: "'t \<Rightarrow> nat"
  vt_grid_lines :: "'t \<Rightarrow> nat"
  vt_display_offset :: "'t \<Rightarrow> nat"
  vt_rows :: "'t \<Rightarrow> screen_line list"
  vt_visible_rows :: "'t \<Rightarrow> screen_line list"

record 't screen =
  sn_term :: 't
  sn_size :: screen_size
  sn_image_tap :: image_tap
  sn_images :: image_cache
  sn_frozen :: bool
  sn_dropped_bytes :: nat
  sn_revision :: u64

definition screen_new :: "'t vt \<Rightarrow> screen_size \<Rightarrow> screen_config \<Rightarrow> 't screen" where
  "screen_new vt sz config =
     \<lparr>sn_term = vt_new vt sz config, sn_size = sz, sn_image_tap = image_tap_new, sn_images = cache_default,
      sn_frozen = False, sn_dropped_bytes = 0, sn_revision = 0\<rparr>"

definition screen_resize :: "'t vt \<Rightarrow> screen_size \<Rightarrow> 't screen \<Rightarrow> 't screen" where
  "screen_resize vt sz s =
     s\<lparr>sn_size := sz, sn_term := vt_resize vt sz (sn_term s), sn_revision := sn_revision s + 1\<rparr>"

definition history_size :: "'t vt \<Rightarrow> 't screen \<Rightarrow> nat" where
  "history_size vt s = vt_total_lines vt (sn_term s) - vt_grid_lines vt (sn_term s)"

definition placement_cell :: "'t vt \<Rightarrow> 't screen \<Rightarrow> nat \<times> nat" where
  "placement_cell vt s =
     (let (line, col) = vt_cursor vt (sn_term s) in (history_size vt s + nat (max line 0), col))"

definition screen_advance :: "'t vt \<Rightarrow> 't screen \<Rightarrow> string \<Rightarrow> 't screen" where
  "screen_advance vt s bs =
     (let alt = vt_alt vt (sn_term s); s' = s\<lparr>sn_term := vt_advance vt (sn_term s) bs\<rparr> in
      if vt_alt vt (sn_term s') \<noteq> alt then s'\<lparr>sn_images := cache_clear (sn_images s')\<rparr> else s')"

definition delete_images :: "image_delete \<Rightarrow> 't screen \<Rightarrow> 't screen" where
  "delete_images d s =
     (case d of
        DeleteImage k \<Rightarrow> s\<lparr>sn_images := cache_remove k (sn_images s)\<rparr>
      | _ \<Rightarrow> s\<lparr>sn_images := cache_clear (sn_images s)\<rparr>)"

definition screen_chunk :: "'t vt \<Rightarrow> 't screen \<Rightarrow> image_chunk \<Rightarrow> 't screen" where
  "screen_chunk vt s chunk =
     (case chunk of
        Bytes bs \<Rightarrow> screen_advance vt s bs
      | Image e \<Rightarrow>
          (let (row, col) = placement_cell vt s in s\<lparr>sn_images := fst (cache_insert e row col (sn_images s))\<rparr>)
      | Delete d \<Rightarrow> delete_images d s)"

definition screen_feed :: "'t vt \<Rightarrow> image_codec \<Rightarrow> 't screen \<Rightarrow> string \<Rightarrow> 't screen" where
  "screen_feed vt c s bs =
     (if sn_frozen s then s\<lparr>sn_dropped_bytes := sn_dropped_bytes s + length bs\<rparr>
      else
        let (tap, chunks) = tap_images c (sn_image_tap s, []) bs;
            s' = foldl (screen_chunk vt) (s\<lparr>sn_image_tap := tap\<rparr>) chunks
        in s'\<lparr>sn_revision := sn_revision s' + 1\<rparr>)"

definition screen_images :: "'t vt \<Rightarrow> 't screen \<Rightarrow> image_placement list" where
  "screen_images vt s =
     cache_visible (sn_images s) (history_size vt s) (vt_display_offset vt (sn_term s)) (ss_lines (sn_size s))"

definition screen_reset :: "'t vt \<Rightarrow> 't screen \<Rightarrow> 't screen" where
  "screen_reset vt s =
     s\<lparr>sn_frozen := False, sn_image_tap := image_tap_new, sn_images := cache_clear (sn_images s),
       sn_term := vt_advance vt (sn_term s) [ESC, CHR ''c''], sn_revision := sn_revision s + 1\<rparr>"

definition screen_freeze :: "'t screen \<Rightarrow> 't screen" where
  "screen_freeze s = s\<lparr>sn_frozen := True\<rparr>"

definition content_lines :: "'t vt \<Rightarrow> 't screen \<Rightarrow> screen_line list" where
  "content_lines vt s = vt_rows vt (sn_term s)"

text \<open>\<open>Screen::text\<close>: the visible rows without the empty ones at the end.\<close>

fun drop_last_while :: "('a \<Rightarrow> bool) \<Rightarrow> 'a list \<Rightarrow> 'a list" where
  "drop_last_while P xs = rev (dropWhile P (rev xs))"

definition screen_text :: "'t vt \<Rightarrow> 't screen \<Rightarrow> string" where
  "screen_text vt s =
     join [CHR 0x0A] (drop_last_while (\<lambda>l. l = []) (map line_text (vt_visible_rows vt (sn_term s))))"

text \<open>The viewport over history and screen.\<close>

definition visible_row_of :: "'t vt \<Rightarrow> 't screen \<Rightarrow> nat \<Rightarrow> nat option" where
  "visible_row_of vt s line =
     (let top = history_size vt s - vt_display_offset vt (sn_term s) in
      if line < top then None else if line - top < ss_lines (sn_size s) then Some (line - top) else None)"

definition scroll_to_line :: "'t vt \<Rightarrow> 't screen \<Rightarrow> nat \<Rightarrow> 't screen" where
  "scroll_to_line vt s line =
     (let top = history_size vt s - vt_display_offset vt (sn_term s);
          bottom = top + (max (ss_lines (sn_size s)) 1 - 1);
          i32 = (\<lambda>n. if n < 2 ^ 31 then int n else 2 ^ 31 - 1)
      in if line < top then s\<lparr>sn_term := vt_scroll vt (i32 (top - line)) (sn_term s)\<rparr>
         else if bottom < line then s\<lparr>sn_term := vt_scroll vt (- i32 (line - bottom)) (sn_term s)\<rparr>
         else s)"

section \<open>What the emulator is given\<close>

text \<open>What is relied on of the emulator: its parser takes a stream of bytes, so it does not matter
  how they are cut. The parser of \<open>alacritty_terminal\<close> buffers the bytes of a synchronized update up to a bound;
  an update that outgrows it is cut where a read ends, so a stream with such an update is not
  covered by this hypothesis.\<close>

definition vt_stream :: "'t vt \<Rightarrow> bool" where
  "vt_stream vt \<longleftrightarrow>
     (\<forall>t. vt_advance vt t [] = t) \<and> (\<forall>t a b. vt_advance vt t (a @ b) = vt_advance vt (vt_advance vt t a) b)"

fun shown_bytes :: "image_token list \<Rightarrow> string" where
  "shown_bytes [] = []"
| "shown_bytes (TByte b # ts) = b # shown_bytes ts"
| "shown_bytes (_ # ts) = shown_bytes ts"

lemma shown_bytes_append [simp]: "shown_bytes (a @ b) = shown_bytes a @ shown_bytes b"
  by (induction a rule: shown_bytes.induct) simp_all

lemma shown_bytes_map [simp]: "shown_bytes (map TByte bs) = bs"
  by (induction bs) simp_all

lemma screen_chunk_keeps:
  "sn_term (screen_chunk vt s chunk) =
     (case chunk of Bytes bs \<Rightarrow> vt_advance vt (sn_term s) bs | _ \<Rightarrow> sn_term s)"
  "sn_image_tap (screen_chunk vt s chunk) = sn_image_tap s" "sn_frozen (screen_chunk vt s chunk) = sn_frozen s"
  "sn_size (screen_chunk vt s chunk) = sn_size s" "sn_dropped_bytes (screen_chunk vt s chunk) = sn_dropped_bytes s"
  by (auto simp: screen_chunk_def screen_advance_def delete_images_def Let_def split: image_chunk.splits prod.splits image_delete.splits)

lemma screen_chunks_keep:
  assumes "vt_stream vt"
  shows "sn_term (foldl (screen_chunk vt) s chunks) = vt_advance vt (sn_term s) (shown_bytes (stream_tokens chunks)) \<and>
    sn_image_tap (foldl (screen_chunk vt) s chunks) = sn_image_tap s \<and>
    sn_frozen (foldl (screen_chunk vt) s chunks) = sn_frozen s \<and> sn_size (foldl (screen_chunk vt) s chunks) = sn_size s \<and>
    sn_dropped_bytes (foldl (screen_chunk vt) s chunks) = sn_dropped_bytes s"
proof (induction chunks arbitrary: s)
  case (Cons chunk chunks)
  show ?case using Cons.IH [of "screen_chunk vt s chunk"] assms
    by (cases chunk) (simp_all add: screen_chunk_keeps vt_stream_def)
qed (use assms in \<open>simp add: vt_stream_def\<close>)

text \<open>The parts of a screen that do not depend on how its input was cut: everything but the placed
  images and the revision counter.\<close>

definition screen_view :: "'t screen \<Rightarrow> 't \<times> screen_size \<times> image_tap \<times> bool \<times> nat" where
  "screen_view s = (sn_term s, sn_size s, sn_image_tap s, sn_frozen s, sn_dropped_bytes s)"

lemma screen_feed_view:
  assumes "vt_stream vt"
  shows "screen_view (screen_feed vt c s bs) =
    (if sn_frozen s then (sn_term s, sn_size s, sn_image_tap s, True, sn_dropped_bytes s + length bs)
     else (vt_advance vt (sn_term s) (shown_bytes (image_tokens c (sn_image_tap s) bs)), sn_size s,
           image_after c (sn_image_tap s) bs, False, sn_dropped_bytes s))"
proof -
  obtain tap chunks where t: "tap_images c (sn_image_tap s, []) bs = (tap, chunks)" by fastforce
  then have "tap = image_after c (sn_image_tap s) bs" "stream_tokens chunks = image_tokens c (sn_image_tap s) bs"
    using tap_images_split [of c "sn_image_tap s" "[]" bs] by simp_all
  then show ?thesis
    using screen_chunks_keep [OF assms, of "s\<lparr>sn_image_tap := tap\<rparr>" chunks]
    by (simp add: screen_view_def screen_feed_def t Let_def)
qed

lemma chunked_screen: "vt_stream vt \<Longrightarrow> chunked_reader (screen_feed vt c) screen_view"
proof
  fix s :: "'a screen" and a b
  assume v: "vt_stream vt"
  define u where "u = screen_feed vt c s a"
  have "screen_view u =
    (if sn_frozen s then (sn_term s, sn_size s, sn_image_tap s, True, sn_dropped_bytes s + length a)
     else (vt_advance vt (sn_term s) (shown_bytes (image_tokens c (sn_image_tap s) a)), sn_size s,
           image_after c (sn_image_tap s) a, False, sn_dropped_bytes s))"
    unfolding u_def by (rule screen_feed_view [OF v])
  then show "screen_view (screen_feed vt c s (a @ b)) = screen_view (screen_feed vt c (screen_feed vt c s a) b)"
    unfolding u_def [symmetric] screen_feed_view [OF v] using v
    by (cases "sn_frozen s") (simp_all add: screen_view_def image_after_append image_tokens_append vt_stream_def)
next
  fix s t :: "'a screen" and a
  assume v: "vt_stream vt" "screen_view s = screen_view t"
  then show "screen_view (screen_feed vt c s a) = screen_view (screen_feed vt c t a)"
    by (simp add: screen_feed_view [OF v(1)]) (simp add: screen_view_def)
next
  fix s :: "'a screen"
  assume v: "vt_stream vt"
  show "screen_view (screen_feed vt c s []) = screen_view s"
    unfolding screen_feed_view [OF v] using v by (simp add: vt_stream_def screen_view_def)
qed

text \<open>Whether a swap of the primary and the alternate screen clears the placed images depends on the
  reads: one that goes there and back inside a chunk is not seen. The sample emulator only tracks which
  screen is shown, and every byte swaps it.\<close>

definition sample_vt :: "bool vt" where
  "sample_vt =
     \<lparr>vt_new = (\<lambda>_ _. False), vt_resize = (\<lambda>_ t. t), vt_advance = (\<lambda>t bs. if even (length bs) then t else \<not> t),
      vt_scroll = (\<lambda>_ t. t), vt_alt = (\<lambda>t. t), vt_cursor = (\<lambda>_. (0, 0)), vt_total_lines = (\<lambda>_. 1),
      vt_grid_lines = (\<lambda>_. 1), vt_display_offset = (\<lambda>_. 0), vt_rows = (\<lambda>_. []), vt_visible_rows = (\<lambda>_. [])\<rparr>"

lemma sample_vt_stream: "vt_stream sample_vt"
  by (auto simp: vt_stream_def sample_vt_def)

lemma swap_inside_chunk_unseen:
  fixes s :: "bool screen"
  assumes "sn_image_tap s = image_tap_new" "\<not> sn_frozen s"
  shows "sn_images (screen_feed sample_vt c s ''ab'') = sn_images s"
    "sn_images (screen_feed sample_vt c (screen_feed sample_vt c s ''a'') ''b'') = cache_clear (cache_clear (sn_images s))"
  using assms
  by (simp_all add: screen_feed_def tap_images_def image_step_def Let_def image_tap_new_def ESC_def push_bytes_def
      screen_chunk_def screen_advance_def sample_vt_def)

end
