(* ===== verification/Terminal_Blocks.thy ===== *)
theory Terminal_Blocks
  imports Terminal_Screen
begin

text \<open>
  The blocks of a terminal session, from \<^verbatim>\<open>goble-terminal/src/blocks\<close>: one command and its output, or one
  conversation, per block; the list that routes bytes and shell hooks to the active block; claims
  of commands by the agent and the tool results they end in; which view shows which block. The clock
  is a parameter of the operations that read it: a monotonic instant and a wall time. Counters that
  start at zero and grow by one are natural numbers.
\<close>

type_synonym clock = "nat \<times> timestamp"

section \<open>Blocks\<close>

datatype block_owner = User | Agent string string

datatype block_state = BeforeExecution | Executing | DoneWithExecution | DoneWithNoExecution | Background | Static

datatype block_kind = Shell | AgentView string string

datatype block_view = TerminalView | AgentOf string

definition state_done :: "block_state \<Rightarrow> bool" where
  "state_done st \<longleftrightarrow> st = DoneWithExecution \<or> st = DoneWithNoExecution"

definition accepts_output :: "block_state \<Rightarrow> bool" where
  "accepts_output st \<longleftrightarrow> st = BeforeExecution \<or> st = Executing \<or> st = Background \<or> st = Static"

record block_visibility =
  bv_terminal :: bool
  bv_conversations :: "string set"

definition visibility_terminal :: block_visibility where
  "visibility_terminal = \<lparr>bv_terminal = True, bv_conversations = {}\<rparr>"

definition visibility_agent :: "string \<Rightarrow> block_visibility" where
  "visibility_agent conv = \<lparr>bv_terminal = False, bv_conversations = {conv}\<rparr>"

definition is_visible_in :: "block_visibility \<Rightarrow> block_view \<Rightarrow> bool" where
  "is_visible_in v view =
     (case view of TerminalView \<Rightarrow> bv_terminal v | AgentOf conv \<Rightarrow> conv \<in> bv_conversations v)"

definition associate :: "string \<Rightarrow> block_visibility \<Rightarrow> block_visibility \<times> bool" where
  "associate conv v = (v\<lparr>bv_conversations := insert conv (bv_conversations v)\<rparr>, conv \<notin> bv_conversations v)"

record block_metadata =
  bm_pwd :: "string option"
  bm_git_branch :: "string option"
  bm_rprompt :: "string option"
  bm_session_id :: "string option"
  bm_virtual_env :: "string option"
  bm_conda_env :: "string option"
  bm_node_version :: "string option"

definition metadata_default :: block_metadata where
  "metadata_default =
     \<lparr>bm_pwd = None, bm_git_branch = None, bm_rprompt = None, bm_session_id = None, bm_virtual_env = None,
      bm_conda_env = None, bm_node_version = None\<rparr>"

record 't block =
  bk_id :: nat
  bk_index :: nat
  bk_kind :: block_kind
  bk_visibility :: block_visibility
  bk_owner :: block_owner
  bk_state :: block_state
  bk_command :: "'t screen"
  bk_output :: "'t screen"
  bk_command_text :: string
  bk_exit_code :: "int option"
  bk_metadata :: block_metadata
  bk_honor_ps1 :: bool
  bk_started_at :: "nat option"
  bk_started_wall :: "timestamp option"
  bk_finished_at :: "nat option"
  bk_dropped_bytes :: nat

definition block_new :: "'t vt \<Rightarrow> nat \<Rightarrow> nat \<Rightarrow> screen_size \<Rightarrow> block_state \<Rightarrow> 't block" where
  "block_new vt i index sz st =
     \<lparr>bk_id = i, bk_index = index, bk_kind = Shell, bk_visibility = visibility_terminal, bk_owner = User, bk_state = st,
      bk_command = screen_new vt sz block_config, bk_output = screen_new vt sz block_config, bk_command_text = [],
      bk_exit_code = None, bk_metadata = metadata_default, bk_honor_ps1 = False, bk_started_at = None,
      bk_started_wall = None, bk_finished_at = None, bk_dropped_bytes = 0\<rparr>"

definition block_agent_view :: "'t vt \<Rightarrow> nat \<Rightarrow> nat \<Rightarrow> screen_size \<Rightarrow> string \<Rightarrow> string \<Rightarrow> 't block" where
  "block_agent_view vt i index sz conv label =
     (block_new vt i index sz Static)\<lparr>bk_kind := AgentView conv label, bk_visibility := visibility_terminal\<rparr>"

definition block_conversation :: "'t block \<Rightarrow> string option" where
  "block_conversation b = (case bk_kind b of Shell \<Rightarrow> None | AgentView conv _ \<Rightarrow> Some conv)"

definition block_label :: "'t block \<Rightarrow> string option" where
  "block_label b = (case bk_kind b of Shell \<Rightarrow> None | AgentView _ label \<Rightarrow> Some label)"

definition has_failed :: "'t block \<Rightarrow> bool" where
  "has_failed b \<longleftrightarrow> (case bk_exit_code b of None \<Rightarrow> False | Some code \<Rightarrow> code \<noteq> 0)"

definition block_duration :: "'t block \<Rightarrow> nat option" where
  "block_duration b =
     (case (bk_finished_at b, bk_started_at b) of (Some f, Some s) \<Rightarrow> Some (f - s) | _ \<Rightarrow> None)"

definition block_elapsed :: "nat \<Rightarrow> 't block \<Rightarrow> nat option" where
  "block_elapsed now b =
     (if bk_state b = Executing then map_option (\<lambda>s. now - s) (bk_started_at b) else None)"

definition block_feed :: "'t vt \<Rightarrow> image_codec \<Rightarrow> string \<Rightarrow> 't block \<Rightarrow> 't block" where
  "block_feed vt c bs b =
     (if bk_kind b \<noteq> Shell then b\<lparr>bk_dropped_bytes := bk_dropped_bytes b + length bs\<rparr>
      else
        (case bk_state b of
           BeforeExecution \<Rightarrow> b\<lparr>bk_command := screen_feed vt c (bk_command b) bs\<rparr>
         | Executing \<Rightarrow> b\<lparr>bk_output := screen_feed vt c (bk_output b) bs\<rparr>
         | Background \<Rightarrow> b\<lparr>bk_output := screen_feed vt c (bk_output b) bs\<rparr>
         | Static \<Rightarrow> b\<lparr>bk_output := screen_feed vt c (bk_output b) bs\<rparr>
         | DoneWithExecution \<Rightarrow> b\<lparr>bk_dropped_bytes := bk_dropped_bytes b + length bs\<rparr>
         | DoneWithNoExecution \<Rightarrow> b\<lparr>bk_dropped_bytes := bk_dropped_bytes b + length bs\<rparr>))"

definition block_preexec :: "clock \<Rightarrow> string \<Rightarrow> 't block \<Rightarrow> 't block" where
  "block_preexec now command b =
     (if bk_state b = Executing then b
      else b\<lparr>bk_command_text := command, bk_state := Executing, bk_started_at := Some (fst now),
             bk_started_wall := Some (snd now)\<rparr>)"

definition promote_to_background :: "'t block \<Rightarrow> 't block" where
  "promote_to_background b = (if bk_state b = Executing then b\<lparr>bk_state := Background\<rparr> else b)"

definition has_output :: "'t vt \<Rightarrow> 't block \<Rightarrow> bool" where
  "has_output vt b \<longleftrightarrow> screen_text vt (bk_output b) \<noteq> []"

definition block_freeze :: "'t block \<Rightarrow> 't block" where
  "block_freeze b = b\<lparr>bk_command := screen_freeze (bk_command b), bk_output := screen_freeze (bk_output b)\<rparr>"

definition block_finish :: "'t vt \<Rightarrow> clock \<Rightarrow> int \<Rightarrow> 't block \<Rightarrow> 't block" where
  "block_finish vt now code b =
     block_freeze
       (b\<lparr>bk_exit_code := Some code, bk_finished_at := Some (fst now),
          bk_state := if trim (bk_command_text b) = [] \<and> \<not> has_output vt b then DoneWithNoExecution
                      else DoneWithExecution\<rparr>)"

definition block_clear :: "'t vt \<Rightarrow> 't block \<Rightarrow> 't block" where
  "block_clear vt b = b\<lparr>bk_output := screen_reset vt (bk_output b)\<rparr>"

definition block_resize :: "'t vt \<Rightarrow> screen_size \<Rightarrow> 't block \<Rightarrow> 't block" where
  "block_resize vt sz b =
     b\<lparr>bk_command := screen_resize vt sz (bk_command b), bk_output := screen_resize vt sz (bk_output b)\<rparr>"

definition set_metadata :: "precmd_value \<Rightarrow> 't block \<Rightarrow> 't block" where
  "set_metadata v b =
     b\<lparr>bk_metadata := \<lparr>bm_pwd = pc_pwd v, bm_git_branch = pc_git_branch v, bm_rprompt = pc_rprompt v,
                       bm_session_id = pc_session_id v, bm_virtual_env = pc_virtual_env v,
                       bm_conda_env = pc_conda_env v, bm_node_version = pc_node_version v\<rparr>,
       bk_honor_ps1 := (case pc_honor_ps1 v of None \<Rightarrow> bk_honor_ps1 b | Some honor \<Rightarrow> honor)\<rparr>"

definition trimmed :: "screen_line list \<Rightarrow> screen_line list" where
  "trimmed lines = dropWhile is_blank (drop_last_while is_blank lines)"

definition command_lines :: "'t vt \<Rightarrow> 't block \<Rightarrow> screen_line list" where
  "command_lines vt b = trimmed (content_lines vt (bk_command b))"

definition output_lines :: "'t vt \<Rightarrow> 't block \<Rightarrow> screen_line list" where
  "output_lines vt b = trimmed (content_lines vt (bk_output b))"

definition block_lines :: "'t vt \<Rightarrow> 't block \<Rightarrow> screen_line list" where
  "block_lines vt b = command_lines vt b @ output_lines vt b"

definition output_text :: "'t vt \<Rightarrow> 't block \<Rightarrow> string" where
  "output_text vt b = join [CHR 0x0A] (map line_text (output_lines vt b))"

definition block_text :: "'t vt \<Rightarrow> 't block \<Rightarrow> string" where
  "block_text vt b = join [CHR 0x0A] (drop_last_while (\<lambda>l. l = []) (map line_text (block_lines vt b)))"

text \<open>The prompt line a command was typed at: the text of the command screen before the command.\<close>

definition prompt_text :: "'t vt \<Rightarrow> 't block \<Rightarrow> string option" where
  "prompt_text vt b =
     (let command = trim_end (bk_command_text b); line = trim_end (screen_text vt (bk_command b)) in
      if command = [] \<or> \<not> ends_with line command then None
      else
        let prompt = trim_end (take (length line - length command) line) in
        if prompt = [] then None else Some prompt)"

section \<open>Results and events\<close>

datatype tool_outcome = Finished int | StillRunning

record tool_result =
  tr_block :: nat
  tr_conversation_id :: string
  tr_call_id :: string
  tr_command :: string
  tr_output :: string
  tr_outcome :: tool_outcome

definition result_exit_code :: "tool_result \<Rightarrow> int option" where
  "result_exit_code r = (case tr_outcome r of Finished code \<Rightarrow> Some code | StillRunning \<Rightarrow> None)"

definition is_failure :: "tool_result \<Rightarrow> bool" where
  "is_failure r \<longleftrightarrow> (case result_exit_code r of None \<Rightarrow> False | Some code \<Rightarrow> code \<noteq> 0)"

datatype block_event =
    SessionInitialized "string option" "string option"
  | Bootstrapped
  | BlockStarted nat
  | BlockFinished nat int bool
  | MetadataUpdated nat
  | InputBufferChanged string "nat option"
  | Cleared nat
  | ToolResult tool_result

section \<open>The list\<close>

record session_info =
  se_session_id :: "string option"
  se_shell :: "string option"
  se_host :: "string option"
  se_cwd :: "string option"
  se_honor_ps1 :: bool

record pending_claim =
  cl_block :: nat
  cl_owner :: block_owner

record 't block_list =
  bl_blocks :: "'t block list"
  bl_active :: nat
  bl_size :: screen_size
  bl_next_id :: nat
  bl_session :: session_info
  bl_bootstrapped :: bool
  bl_input_buffer :: string
  bl_input_cursor :: "nat option"
  bl_gaps :: "nat list"
  bl_pending_claim :: "pending_claim option"

definition list_new :: "'t vt \<Rightarrow> screen_size \<Rightarrow> 't block_list" where
  "list_new vt sz =
     \<lparr>bl_blocks = [block_new vt 1 0 sz Static], bl_active = 0, bl_size = sz, bl_next_id = 2,
      bl_session = \<lparr>se_session_id = None, se_shell = None, se_host = None, se_cwd = None, se_honor_ps1 = False\<rparr>,
      bl_bootstrapped = False, bl_input_buffer = [], bl_input_cursor = None, bl_gaps = [], bl_pending_claim = None\<rparr>"

definition active_block :: "'t block_list \<Rightarrow> 't block" where
  "active_block l = bl_blocks l ! bl_active l"

definition on_active :: "('t block \<Rightarrow> 't block) \<Rightarrow> 't block_list \<Rightarrow> 't block_list" where
  "on_active f l = l\<lparr>bl_blocks := (bl_blocks l)[bl_active l := f (active_block l)]\<rparr>"

definition get_block :: "'t block_list \<Rightarrow> nat \<Rightarrow> 't block option" where
  "get_block l i = find (\<lambda>b. bk_id b = i) (bl_blocks l)"

definition list_dropped_bytes :: "'t block_list \<Rightarrow> nat" where
  "list_dropped_bytes l = sum_list (map bk_dropped_bytes (bl_blocks l))"

definition claim_next_pre_exec :: "nat \<Rightarrow> block_owner \<Rightarrow> 't block_list \<Rightarrow> 't block_list \<times> bool" where
  "claim_next_pre_exec i owner l =
     (if bk_id (active_block l) \<noteq> i \<or> bk_state (active_block l) \<noteq> BeforeExecution then (l, False)
      else (l\<lparr>bl_pending_claim := Some \<lparr>cl_block = i, cl_owner = owner\<rparr>\<rparr>, True))"

definition list_resize :: "'t vt \<Rightarrow> screen_size \<Rightarrow> 't block_list \<Rightarrow> 't block_list" where
  "list_resize vt sz l = l\<lparr>bl_size := sz, bl_blocks := map (block_resize vt sz) (bl_blocks l)\<rparr>"

definition list_feed :: "'t vt \<Rightarrow> image_codec \<Rightarrow> string \<Rightarrow> 't block_list \<Rightarrow> 't block_list" where
  "list_feed vt c bs l = (if bs = [] then l else on_active (block_feed vt c bs) l)"

definition push_block :: "'t vt \<Rightarrow> 't block_list \<Rightarrow> 't block_list" where
  "push_block vt l =
     l\<lparr>bl_next_id := bl_next_id l + 1,
       bl_blocks := bl_blocks l @ [block_new vt (bl_next_id l) (length (bl_blocks l)) (bl_size l) BeforeExecution],
       bl_active := length (bl_blocks l)\<rparr>"

definition push_agent_view_block :: "'t vt \<Rightarrow> string \<Rightarrow> string \<Rightarrow> 't block_list \<Rightarrow> 't block_list \<times> nat" where
  "push_agent_view_block vt conv label l =
     (l\<lparr>bl_next_id := bl_next_id l + 1,
        bl_blocks := bl_blocks l @ [block_agent_view vt (bl_next_id l) (length (bl_blocks l)) (bl_size l) conv label]\<rparr>,
      bl_next_id l)"

definition tool_result_of :: "'t vt \<Rightarrow> 't block \<Rightarrow> tool_outcome \<Rightarrow> tool_result option" where
  "tool_result_of vt b outcome =
     (case bk_owner b of
        User \<Rightarrow> None
      | Agent conv call \<Rightarrow>
          Some \<lparr>tr_block = bk_id b, tr_conversation_id = conv, tr_call_id = call, tr_command = bk_command_text b,
                tr_output = output_text vt b, tr_outcome = outcome\<rparr>)"

definition result_events :: "tool_result option \<Rightarrow> block_event list" where
  "result_events r = (case r of None \<Rightarrow> [] | Some t \<Rightarrow> [ToolResult t])"

definition init_shell :: "init_shell_value \<Rightarrow> 't block_list \<Rightarrow> 't block_list \<times> block_event list" where
  "init_shell v l =
     (let s = bl_session l;
          s' = s\<lparr>se_session_id := is_session_id v, se_shell := is_shell v, se_host := is_host v,
                 se_cwd := (case is_cwd v of None \<Rightarrow> se_cwd s | Some d \<Rightarrow> Some d),
                 se_honor_ps1 := (case is_honor_ps1 v of None \<Rightarrow> se_honor_ps1 s | Some h \<Rightarrow> h)\<rparr>
      in (l\<lparr>bl_session := s'\<rparr>, [SessionInitialized (se_session_id s') (se_shell s')]))"

definition on_bootstrapped :: "'t vt \<Rightarrow> 't block_list \<Rightarrow> 't block_list \<times> block_event list" where
  "on_bootstrapped vt l =
     (if bl_bootstrapped l then (l, []) else (push_block vt (l\<lparr>bl_bootstrapped := True\<rparr>), [Bootstrapped]))"

definition on_precmd :: "'t vt \<Rightarrow> precmd_value \<Rightarrow> 't block_list \<Rightarrow> 't block_list \<times> block_event list" where
  "on_precmd vt v l =
     (let l1 = (case pc_pwd v of None \<Rightarrow> l | Some d \<Rightarrow> l\<lparr>bl_session := (bl_session l)\<lparr>se_cwd := Some d\<rparr>\<rparr>);
          (l2, events) =
            (if bk_state (active_block l1) = Executing then
               let p = on_active promote_to_background l1
               in (push_block vt p, result_events (tool_result_of vt (active_block p) StillRunning))
             else (l1, []));
          l3 = on_active (set_metadata v) l2
      in (l3, events @ [MetadataUpdated (bk_id (active_block l3))]))"

definition on_preexec :: "clock \<Rightarrow> string option \<Rightarrow> 't block_list \<Rightarrow> 't block_list \<times> block_event list" where
  "on_preexec now command l =
     (let owned = (\<lambda>b. case bl_pending_claim l of
                         Some claim \<Rightarrow> if cl_block claim = bk_id b then b\<lparr>bk_owner := cl_owner claim\<rparr> else b
                       | None \<Rightarrow> b);
          run = block_preexec now (case command of None \<Rightarrow> [] | Some s \<Rightarrow> s);
          l' = on_active (run \<circ> owned) (l\<lparr>bl_pending_claim := None\<rparr>)
      in (l', [BlockStarted (bk_id (active_block l'))]))"

definition on_command_finished :: "'t vt \<Rightarrow> clock \<Rightarrow> int \<Rightarrow> 't block_list \<Rightarrow> 't block_list \<times> block_event list" where
  "on_command_finished vt now code l =
     (let l1 = on_active (block_finish vt now code) l; b = active_block l1
      in (push_block vt l1,
          BlockFinished (bk_id b) code (has_failed b) # result_events (tool_result_of vt b (Finished code))))"

definition drain_before_active :: "'t block_list \<Rightarrow> 't block_list" where
  "drain_before_active l =
     (if 0 < bl_active l
      then l\<lparr>bl_blocks := map (\<lambda>(i, b). b\<lparr>bk_index := i\<rparr>) (enumerate 0 (drop (bl_active l) (bl_blocks l))),
             bl_active := 0\<rparr>
      else l)"

definition on_clear :: "'t vt \<Rightarrow> 't block_list \<Rightarrow> 't block_list \<times> block_event list" where
  "on_clear vt l =
     (let l2 = on_active (block_clear vt) (drain_before_active l);
          i = bk_id (active_block l2)
      in (l2\<lparr>bl_gaps := if i \<in> set (bl_gaps l2) then bl_gaps l2 else bl_gaps l2 @ [i]\<rparr>, [Cleared (bl_active l)]))"

definition apply_hook :: "'t vt \<Rightarrow> clock \<Rightarrow> hook_event \<Rightarrow> 't block_list \<Rightarrow> 't block_list \<times> block_event list" where
  "apply_hook vt now e l =
     (case e of
        InitShell v \<Rightarrow> init_shell v l
      | HookBootstrapped _ \<Rightarrow> on_bootstrapped vt l
      | Precmd v \<Rightarrow> on_precmd vt v l
      | Preexec command \<Rightarrow> on_preexec now command l
      | CommandFinished v \<Rightarrow> on_command_finished vt now (cf_exit_code v) l
      | InputBuffer v \<Rightarrow>
          (l\<lparr>bl_input_buffer := ib_buffer v, bl_input_cursor := ib_cursor v\<rparr>,
           [InputBufferChanged (ib_buffer v) (ib_cursor v)])
      | Clear \<Rightarrow> on_clear vt l)"

text \<open>Visibility. The first block with the id is the one that is changed.\<close>

fun update_first :: "('a \<Rightarrow> bool) \<Rightarrow> ('a \<Rightarrow> 'a) \<Rightarrow> 'a list \<Rightarrow> 'a list" where
  "update_first P f [] = []"
| "update_first P f (x # xs) = (if P x then f x # xs else x # update_first P f xs)"

definition associate_with_conversation :: "nat \<Rightarrow> string \<Rightarrow> 't block_list \<Rightarrow> 't block_list \<times> bool" where
  "associate_with_conversation i conv l =
     (case get_block l i of
        None \<Rightarrow> (l, False)
      | Some b \<Rightarrow>
          let (v, added) = associate conv (bk_visibility b) in
          (l\<lparr>bl_blocks := update_first (\<lambda>b. bk_id b = i) (\<lambda>b. b\<lparr>bk_visibility := v\<rparr>) (bl_blocks l)\<rparr>, added))"

definition set_visibility :: "nat \<Rightarrow> block_visibility \<Rightarrow> 't block_list \<Rightarrow> 't block_list \<times> bool" where
  "set_visibility i v l =
     (case get_block l i of
        None \<Rightarrow> (l, False)
      | Some _ \<Rightarrow>
          (l\<lparr>bl_blocks := update_first (\<lambda>b. bk_id b = i) (\<lambda>b. b\<lparr>bk_visibility := v\<rparr>) (bl_blocks l)\<rparr>, True))"

definition visible_blocks :: "block_view \<Rightarrow> 't block_list \<Rightarrow> 't block list" where
  "visible_blocks view l =
     filter (\<lambda>b. \<not> (case view of AgentOf conv \<Rightarrow> block_conversation b = Some conv | TerminalView \<Rightarrow> False) \<and>
                 is_visible_in (bk_visibility b) view)
       (bl_blocks l)"

definition list_lines :: "'t vt \<Rightarrow> 't block_list \<Rightarrow> (nat \<times> screen_line) list" where
  "list_lines vt l = concat (map (\<lambda>b. map (Pair (bk_id b)) (block_lines vt b)) (bl_blocks l))"

definition visible_lines :: "'t vt \<Rightarrow> block_view \<Rightarrow> 't block_list \<Rightarrow> (nat \<times> screen_line) list" where
  "visible_lines vt view l = concat (map (\<lambda>b. map (Pair (bk_id b)) (block_lines vt b)) (visible_blocks view l))"

definition list_text :: "'t vt \<Rightarrow> 't block_list \<Rightarrow> string" where
  "list_text vt l = join [CHR 0x0A, CHR 0x0A] (filter (\<lambda>t. t \<noteq> []) (map (block_text vt) (bl_blocks l)))"

text \<open>The answer is also negative for a block that is there and is already in the conversation's view.\<close>

lemma associate_again_refused:
  assumes "get_block l i = Some b" "conv \<in> bv_conversations (bk_visibility b)"
  shows "\<not> snd (associate_with_conversation i conv l)"
  using assms by (simp add: associate_with_conversation_def associate_def)

section \<open>The invariant of the list\<close>

definition frozen_ok :: "'t block \<Rightarrow> bool" where
  "frozen_ok b \<longleftrightarrow>
     sn_frozen (bk_command b) = state_done (bk_state b) \<and> sn_frozen (bk_output b) = state_done (bk_state b)"

definition owner_ok :: "'t block \<Rightarrow> bool" where
  "owner_ok b \<longleftrightarrow> (bk_owner b \<noteq> User \<longrightarrow> bk_state b \<noteq> BeforeExecution \<and> bk_state b \<noteq> Static)"

definition active_ok :: "'t block \<Rightarrow> bool" where
  "active_ok b \<longleftrightarrow> bk_kind b = Shell \<and> bk_state b \<in> {Static, BeforeExecution, Executing}"

definition block_ok :: "nat \<Rightarrow> 't block \<Rightarrow> bool" where
  "block_ok n b \<longleftrightarrow> bk_id b < n \<and> frozen_ok b \<and> owner_ok b"

text \<open>Indices are positions, ids grow; the active block is one the shell still writes to.\<close>

definition list_wf :: "'t block_list \<Rightarrow> bool" where
  "list_wf l \<longleftrightarrow>
     bl_active l < length (bl_blocks l) \<and> map bk_index (bl_blocks l) = [0..<length (bl_blocks l)] \<and>
     sorted_wrt (<) (map bk_id (bl_blocks l)) \<and> list_all (block_ok (bl_next_id l)) (bl_blocks l)"

definition list_ok :: "'t block_list \<Rightarrow> bool" where
  "list_ok l \<longleftrightarrow> list_wf l \<and> active_ok (active_block l)"

text \<open>Replacing the active block by one with the same id and index.\<close>

lemma on_active_fields [simp]:
  "bl_active (on_active f l) = bl_active l" "length (bl_blocks (on_active f l)) = length (bl_blocks l)"
  "bl_next_id (on_active f l) = bl_next_id l" "bl_pending_claim (on_active f l) = bl_pending_claim l"
  "bl_size (on_active f l) = bl_size l"
  by (simp_all add: on_active_def)

lemma active_on_active: "bl_active l < length (bl_blocks l) \<Longrightarrow> active_block (on_active f l) = f (active_block l)"
  by (simp add: on_active_def active_block_def)

lemma on_active_wf:
  assumes "list_wf l" "bk_id (f (active_block l)) = bk_id (active_block l)"
    "bk_index (f (active_block l)) = bk_index (active_block l)" "frozen_ok (f (active_block l))" "owner_ok (f (active_block l))"
  shows "list_wf (on_active f l)"
proof -
  have a: "bl_active l < length (bl_blocks l)" using assms(1) by (simp add: list_wf_def)
  then have "block_ok (bl_next_id l) (active_block l)"
    using assms(1) by (simp add: list_wf_def list_all_length active_block_def)
  then have "block_ok (bl_next_id l) (f (active_block l))" using assms(2,4,5) by (simp add: block_ok_def)
  moreover have "map bk_id (bl_blocks (on_active f l)) = map bk_id (bl_blocks l)"
      "map bk_index (bl_blocks (on_active f l)) = map bk_index (bl_blocks l)"
    using a assms(2,3) by (auto simp: on_active_def active_block_def intro!: list_update_map_same)
  ultimately show ?thesis
    using assms(1) a by (auto simp: list_wf_def on_active_def list_all_iff dest!: subsetD [OF set_update_subset_insert])
qed

lemma active_good: "list_wf l \<Longrightarrow> frozen_ok (active_block l) \<and> owner_ok (active_block l) \<and> bk_id (active_block l) < bl_next_id l \<and> active_block l \<in> set (bl_blocks l)"
  by (auto simp: list_wf_def list_all_length active_block_def block_ok_def)

lemma push_block_ok: "list_wf l \<Longrightarrow> list_ok (push_block vt l)"
  by (auto simp: list_ok_def list_wf_def push_block_def active_block_def active_ok_def block_new_def block_ok_def frozen_ok_def
      owner_ok_def screen_new_def state_done_def sorted_wrt_append list_all_iff less_Suc_eq)

lemma push_card_ok: "list_ok l \<Longrightarrow> list_ok (fst (push_agent_view_block vt conv label l))"
  by (auto simp: list_ok_def list_wf_def push_agent_view_block_def active_block_def nth_append block_agent_view_def block_new_def
      block_ok_def frozen_ok_def owner_ok_def screen_new_def state_done_def sorted_wrt_append list_all_iff less_Suc_eq)

text \<open>The operations of a block.\<close>

lemma screen_frozen:
  "sn_frozen (screen_feed vt c s bs) = sn_frozen s" "sn_frozen (screen_resize vt sz s) = sn_frozen s"
  "sn_frozen (screen_freeze s)" "\<not> sn_frozen (screen_reset vt s)"
proof -
  have "sn_frozen (foldl (screen_chunk vt) u chunks) = sn_frozen u" for u chunks
    by (induction chunks arbitrary: u) (simp_all add: screen_chunk_keeps)
  then show "sn_frozen (screen_feed vt c s bs) = sn_frozen s"
    by (simp add: screen_feed_def Let_def split: prod.splits)
qed (simp_all add: screen_resize_def screen_freeze_def screen_reset_def)

lemma block_feed_fields [simp]:
  "bk_id (block_feed vt c bs b) = bk_id b" "bk_index (block_feed vt c bs b) = bk_index b"
  "bk_state (block_feed vt c bs b) = bk_state b" "bk_owner (block_feed vt c bs b) = bk_owner b"
  "bk_kind (block_feed vt c bs b) = bk_kind b" "bk_command_text (block_feed vt c bs b) = bk_command_text b"
  by (auto simp: block_feed_def split: block_state.splits)

lemma block_feed_frozen: "frozen_ok b \<Longrightarrow> frozen_ok (block_feed vt c bs b)"
  by (cases "bk_state b") (auto simp: frozen_ok_def block_feed_def screen_frozen)

lemma feed_ok:
  assumes "list_ok l"
  shows "list_ok (list_feed vt c bs l)"
proof (cases "bs = []")
  case False
  have a: "bl_active l < length (bl_blocks l)" "active_ok (active_block l)" using assms by (auto simp: list_ok_def list_wf_def)
  have "list_wf (on_active (block_feed vt c bs) l)"
    using assms active_good [of l] by (intro on_active_wf) (auto simp: list_ok_def block_feed_frozen owner_ok_def)
  then show ?thesis using a False by (simp add: list_feed_def list_ok_def active_on_active active_ok_def)
qed (use assms in \<open>simp add: list_feed_def\<close>)

lemma metadata_ok: "list_ok l \<Longrightarrow> list_ok (on_active (set_metadata v) l)"
  using active_good [of l] on_active_wf [of l "set_metadata v"]
  by (auto simp: list_ok_def set_metadata_def frozen_ok_def owner_ok_def active_ok_def active_on_active list_wf_def)

lemma promote_wf: "list_wf l \<Longrightarrow> list_wf (on_active promote_to_background l)"
  using active_good [of l] on_active_wf [of l promote_to_background]
  by (auto simp: promote_to_background_def frozen_ok_def owner_ok_def state_done_def)

lemma finish_wf: "list_wf l \<Longrightarrow> list_wf (on_active (block_finish vt now code) l)"
  using on_active_wf [of l "block_finish vt now code"]
  by (auto simp: block_finish_def block_freeze_def frozen_ok_def owner_ok_def state_done_def screen_frozen)

lemma list_ok_fields [simp]:
  "list_ok (l\<lparr>bl_gaps := g\<rparr>) = list_ok l" "list_ok (l\<lparr>bl_pending_claim := p\<rparr>) = list_ok l"
  "list_ok (l\<lparr>bl_session := s\<rparr>) = list_ok l" "list_ok (l\<lparr>bl_bootstrapped := t\<rparr>) = list_ok l"
  "list_ok (l\<lparr>bl_input_buffer := i, bl_input_cursor := n\<rparr>) = list_ok l"
  by (simp_all add: list_ok_def list_wf_def active_block_def)

lemma precmd_ok: "list_ok l \<Longrightarrow> list_ok (fst (on_precmd vt v l))"
proof -
  assume l: "list_ok l"
  define l1 where "l1 = (case pc_pwd v of None \<Rightarrow> l | Some d \<Rightarrow> l\<lparr>bl_session := (bl_session l)\<lparr>se_cwd := Some d\<rparr>\<rparr>)"
  have "list_ok l1" using l by (cases "pc_pwd v") (auto simp: l1_def)
  moreover from this have "list_ok (push_block vt (on_active promote_to_background l1))"
    by (intro push_block_ok promote_wf) (simp add: list_ok_def)
  ultimately show ?thesis unfolding on_precmd_def l1_def [symmetric] by (auto simp: Let_def metadata_ok)
qed

lemma preexec_ok:
  fixes l :: "'t block_list"
  assumes l: "list_ok l"
  shows "list_ok (fst (on_preexec now command l))"
proof -
  define f :: "'t block \<Rightarrow> 't block" where "f = block_preexec now (case command of None \<Rightarrow> [] | Some s \<Rightarrow> s) \<circ>
    (\<lambda>b. case bl_pending_claim l of
         Some claim \<Rightarrow> if cl_block claim = bk_id b then b\<lparr>bk_owner := cl_owner claim\<rparr> else b | None \<Rightarrow> b)"
  define l1 where "l1 = l\<lparr>bl_pending_claim := None\<rparr>"
  have l1: "list_wf l1" "active_block l1 = active_block l" "active_ok (active_block l)" "bl_active l1 < length (bl_blocks l1)"
    using l by (auto simp: l1_def list_ok_def list_wf_def active_block_def)
  have "bk_id (f b) = bk_id b" "bk_index (f b) = bk_index b" "bk_kind (f b) = bk_kind b" "bk_state (f b) = Executing" for b
    by (auto simp: f_def block_preexec_def split: option.splits)
  moreover have "frozen_ok (f (active_block l))"
    using active_good [OF l1(1)] l1(2,3)
    by (auto simp: f_def block_preexec_def frozen_ok_def active_ok_def state_done_def split: option.splits)
  moreover have "owner_ok (f (active_block l))" using calculation by (simp add: owner_ok_def)
  ultimately have "list_wf (on_active f l1)" "active_ok (active_block (on_active f l1))"
    using l1 on_active_wf [of l1 f] by (simp_all add: active_on_active active_ok_def)
  then show ?thesis by (simp add: on_preexec_def Let_def list_ok_def f_def l1_def)
qed

lemma enumerate_index:
  "map bk_index (map (\<lambda>(i, b). b\<lparr>bk_index := i\<rparr>) (enumerate n bs)) = [n..<n + length bs]"
  "map bk_id (map (\<lambda>(i, b). b\<lparr>bk_index := i\<rparr>) (enumerate n bs)) = map bk_id bs"
  by (auto intro!: nth_equalityI simp: nth_enumerate_eq)

lemma reindexed:
  assumes "b' \<in> set (map (\<lambda>(i, b). b\<lparr>bk_index := i\<rparr>) (enumerate n bs))"
  shows "\<exists>b\<in>set bs. b' = b\<lparr>bk_index := bk_index b'\<rparr>"
  using assms by (force simp: enumerate_eq_zip dest: set_zip_rightD)

lemma drained_blocks:
  assumes "b' \<in> set (bl_blocks (drain_before_active l))"
  shows "\<exists>b\<in>set (bl_blocks l). b' = b\<lparr>bk_index := bk_index b'\<rparr>"
proof (cases "0 < bl_active l")
  case True
  then show ?thesis
    using assms reindexed [of b' 0 "drop (bl_active l) (bl_blocks l)"]
    by (simp add: drain_before_active_def) (blast dest: in_set_dropD)
next
  case False
  then have "b' = b'\<lparr>bk_index := bk_index b'\<rparr>" "b' \<in> set (bl_blocks l)" using assms by (simp_all add: drain_before_active_def)
  then show ?thesis by blast
qed

lemma index_update_fields:
  assumes "b' = b\<lparr>bk_index := n\<rparr>"
  shows "bk_id b' = bk_id b" "bk_owner b' = bk_owner b" "bk_state b' = bk_state b" "frozen_ok b' = frozen_ok b" "owner_ok b' = owner_ok b"
  using assms by (simp_all add: frozen_ok_def owner_ok_def)

lemma drained_ok:
  assumes "list_ok l"
  shows "list_ok (drain_before_active l)" "bk_id (active_block (drain_before_active l)) = bk_id (active_block l)"
proof -
  let ?l = "drain_before_active l"
  have a: "bl_active l < length (bl_blocks l)" using assms by (simp add: list_ok_def list_wf_def)
  then have act: "active_block ?l = (active_block l)\<lparr>bk_index := if 0 < bl_active l then 0 else bk_index (active_block l)\<rparr>"
    by (simp add: drain_before_active_def active_block_def nth_enumerate_eq)
  then show "bk_id (active_block ?l) = bk_id (active_block l)" by auto
  have "sorted_wrt (<) (map bk_id (bl_blocks ?l))"
    using assms sorted_wrt_drop [of "(<)" "map bk_id (bl_blocks l)" "bl_active l"] enumerate_index(2) [of 0 "drop (bl_active l) (bl_blocks l)"]
    by (simp add: drain_before_active_def list_ok_def list_wf_def drop_map)
  moreover have "list_all (block_ok (bl_next_id l)) (bl_blocks ?l)"
    unfolding list_all_iff
  proof
    fix b' assume "b' \<in> set (bl_blocks ?l)"
    then obtain b where b: "b \<in> set (bl_blocks l)" "b' = b\<lparr>bk_index := bk_index b'\<rparr>" using drained_blocks by blast
    show "block_ok (bl_next_id l) b'"
      using assms b(1) index_update_fields [OF b(2)] by (simp add: list_ok_def list_wf_def list_all_iff block_ok_def)
  qed
  ultimately have "list_wf ?l"
    using a assms enumerate_index(1) [of 0 "drop (bl_active l) (bl_blocks l)"]
    by (auto simp: list_wf_def drain_before_active_def list_ok_def)
  then show "list_ok ?l" using assms act by (auto simp: list_ok_def active_ok_def)
qed

lemma clear_ok: "list_ok l \<Longrightarrow> list_ok (fst (on_clear vt l))"
proof -
  assume l: "list_ok l"
  let ?l = "drain_before_active l"
  note ok = drained_ok(1) [OF l]
  then have "list_wf (on_active (block_clear vt) ?l)"
    using active_good [of ?l] on_active_wf [of ?l "block_clear vt"]
    by (auto simp: list_ok_def block_clear_def frozen_ok_def owner_ok_def active_ok_def state_done_def screen_frozen)
  then have "list_ok (on_active (block_clear vt) ?l)"
    using ok by (simp add: list_ok_def list_wf_def active_on_active active_ok_def block_clear_def)
  then show ?thesis unfolding on_clear_def by (simp only: Let_def fst_conv list_ok_fields)
qed

lemma hook_ok: "list_ok l \<Longrightarrow> list_ok (fst (apply_hook vt now e l))"
proof (cases e)
  case (HookBootstrapped v)
  assume l: "list_ok l"
  then have "list_wf (l\<lparr>bl_bootstrapped := True\<rparr>)" by (simp add: list_ok_def list_wf_def)
  then have "list_ok (push_block vt (l\<lparr>bl_bootstrapped := True\<rparr>))" by (rule push_block_ok)
  then show ?thesis using l HookBootstrapped by (simp add: apply_hook_def on_bootstrapped_def)
next
  case (CommandFinished v)
  assume "list_ok l"
  then show ?thesis using CommandFinished
    by (simp add: apply_hook_def on_command_finished_def Let_def push_block_ok finish_wf list_ok_def [of l])
next
  case (InitShell v)
  assume "list_ok l"
  then show ?thesis using InitShell
    by (simp add: apply_hook_def init_shell_def Let_def)
next
  case (InputBuffer v)
  assume "list_ok l"
  then show ?thesis using InputBuffer
    by (simp add: apply_hook_def)
qed (simp_all add: apply_hook_def precmd_ok preexec_ok clear_ok)

section \<open>Sessions\<close>

text \<open>Everything that happens to a list, one operation after the other, with the events it returned.\<close>

datatype list_op =
    OpFeed string
  | OpHook clock hook_event
  | OpClaim nat block_owner
  | OpCard string string
  | OpAssociate nat string
  | OpVisibility nat block_visibility
  | OpResize screen_size

fun list_step :: "'t vt \<Rightarrow> image_codec \<Rightarrow> list_op \<Rightarrow> 't block_list \<Rightarrow> 't block_list \<times> block_event list" where
  "list_step vt c (OpFeed bs) l = (list_feed vt c bs l, [])"
| "list_step vt c (OpHook now e) l = apply_hook vt now e l"
| "list_step vt c (OpClaim i owner) l = (fst (claim_next_pre_exec i owner l), [])"
| "list_step vt c (OpCard conv label) l = (fst (push_agent_view_block vt conv label l), [])"
| "list_step vt c (OpAssociate i conv) l = (fst (associate_with_conversation i conv l), [])"
| "list_step vt c (OpVisibility i v) l = (fst (set_visibility i v l), [])"
| "list_step vt c (OpResize sz) l = (list_resize vt sz l, [])"

fun list_run :: "'t vt \<Rightarrow> image_codec \<Rightarrow> list_op list \<Rightarrow> 't block_list \<Rightarrow> 't block_list \<times> block_event list" where
  "list_run vt c [] l = (l, [])"
| "list_run vt c (op # ops) l =
     (let (l1, es) = list_step vt c op l; (l2, es') = list_run vt c ops l1 in (l2, es @ es'))"

lemma update_first_map: "(\<And>x. g (f x) = g x) \<Longrightarrow> map g (update_first P f xs) = map g xs"
  by (induction xs) simp_all

lemma update_first_nth: "i < length xs \<Longrightarrow> update_first P f xs ! i \<in> {xs ! i, f (xs ! i)}"
proof (induction xs arbitrary: i)
  case (Cons x xs)
  then show ?case by (cases i) auto
qed simp

lemma update_first_length [simp]: "length (update_first P f xs) = length xs"
  by (induction xs) simp_all

lemma set_update_first: "y \<in> set (update_first P f xs) \<Longrightarrow> \<exists>x\<in>set xs. y = x \<or> y = f x"
  by (induction xs) (auto split: if_splits)

lemma visibility_ok:
  assumes "list_ok l"
  shows "list_ok (l\<lparr>bl_blocks := update_first P (\<lambda>b. b\<lparr>bk_visibility := v\<rparr>) (bl_blocks l)\<rparr>)"
proof -
  let ?bs = "update_first P (\<lambda>b. b\<lparr>bk_visibility := v\<rparr>) (bl_blocks l)"
  have a: "bl_active l < length (bl_blocks l)" using assms by (simp add: list_ok_def list_wf_def)
  have "active_ok (?bs ! bl_active l)"
    using update_first_nth [OF a, of P "\<lambda>b. b\<lparr>bk_visibility := v\<rparr>"] assms by (auto simp: list_ok_def active_ok_def active_block_def)
  moreover have "list_all (block_ok (bl_next_id l)) ?bs"
    using assms by (auto simp: list_ok_def list_wf_def list_all_iff block_ok_def frozen_ok_def owner_ok_def dest!: set_update_first)
  moreover have "map bk_index ?bs = map bk_index (bl_blocks l)" "map bk_id ?bs = map bk_id (bl_blocks l)"
    by (simp_all add: update_first_map)
  ultimately show ?thesis using assms a by (simp add: list_ok_def list_wf_def active_block_def)
qed

lemma resize_ok: "list_ok l \<Longrightarrow> list_ok (list_resize vt sz l)"
  by (auto simp: list_ok_def list_wf_def list_resize_def active_block_def active_ok_def block_resize_def list_all_iff block_ok_def
      frozen_ok_def owner_ok_def screen_frozen comp_def)

lemma step_ok: "list_ok l \<Longrightarrow> list_ok (fst (list_step vt c op l))"
  by (cases op)
    (auto simp: feed_ok hook_ok push_card_ok resize_ok visibility_ok claim_next_pre_exec_def associate_with_conversation_def
      set_visibility_def Let_def split: option.splits prod.splits)

lemma list_run_Cons [simp]:
  "fst (list_run vt c (op # ops) l) = fst (list_run vt c ops (fst (list_step vt c op l)))"
  "snd (list_run vt c (op # ops) l) = snd (list_step vt c op l) @ snd (list_run vt c ops (fst (list_step vt c op l)))"
  by (simp_all split: prod.splits)

declare list_run.simps(2) [simp del]

lemma run_ok: "list_ok l \<Longrightarrow> list_ok (fst (list_run vt c ops l))"
  by (induction ops arbitrary: l) (simp_all add: step_ok)

lemma new_ok: "list_ok (list_new vt sz)"
  by (simp add: list_ok_def list_wf_def list_new_def active_block_def active_ok_def block_new_def block_ok_def frozen_ok_def
      owner_ok_def state_done_def screen_new_def)

text \<open>C14. The block list of a session stays consistent whatever the shell and the app do to it: there is
  exactly one active block, it is a shell block that still takes output, every block knows its position,
  ids are unique and grow with age, and a block's screens are frozen exactly when its command has finished.\<close>

theorem block_list_invariant: "list_ok (fst (list_run vt c ops (list_new vt sz)))"
  by (rule run_ok [OF new_ok])

section \<open>Claims and their results\<close>

fun tool_results :: "block_event list \<Rightarrow> tool_result list" where
  "tool_results [] = []"
| "tool_results (ToolResult r # es) = r # tool_results es"
| "tool_results (_ # es) = tool_results es"

text \<open>The claims a run accepted: the block each was aimed at and the owner it was made for.\<close>

fun accepted :: "'t vt \<Rightarrow> image_codec \<Rightarrow> list_op list \<Rightarrow> 't block_list \<Rightarrow> (nat \<times> block_owner) list" where
  "accepted vt c [] l = []"
| "accepted vt c (op # ops) l =
     (case op of
        OpClaim i owner \<Rightarrow> if snd (claim_next_pre_exec i owner l) then [(i, owner)] else []
      | _ \<Rightarrow> []) @ accepted vt c ops (fst (list_step vt c op l))"

abbreviation result_owner :: "tool_result \<Rightarrow> block_owner" where
  "result_owner r \<equiv> Agent (tr_conversation_id r) (tr_call_id r)"

text \<open>A block of the agent was claimed, and has its result unless its command still runs.\<close>

definition answered_block :: "tool_result list \<Rightarrow> (nat \<times> block_owner) list \<Rightarrow> 't block \<Rightarrow> bool" where
  "answered_block R C b \<longleftrightarrow>
     (bk_owner b \<noteq> User \<longrightarrow>
      (bk_id b, bk_owner b) \<in> set C \<and>
      (bk_state b = Executing \<or> (\<exists>r\<in>set R. tr_block r = bk_id b \<and> result_owner r = bk_owner b)))"

definition answers :: "nat \<Rightarrow> 't block_list \<Rightarrow> tool_result list \<Rightarrow> (nat \<times> block_owner) list \<Rightarrow> bool" where
  "answers n l R C \<longleftrightarrow>
     sorted_wrt (<) (map tr_block R) \<and> (\<forall>r\<in>set R. tr_block r < n \<and> (tr_block r, result_owner r) \<in> set C) \<and>
     (\<forall>b\<in>set (bl_blocks l). answered_block R C b) \<and>
     (\<forall>p. bl_pending_claim l = Some p \<longrightarrow> (cl_block p, cl_owner p) \<in> set C)"

lemma answered_block_mono: "answered_block R C b \<Longrightarrow> set R \<subseteq> set R' \<Longrightarrow> set C \<subseteq> set C' \<Longrightarrow> answered_block R' C' b"
  by (auto simp: answered_block_def)

lemma answered_block_key:
  "bk_id b' = bk_id b \<Longrightarrow> bk_owner b' = bk_owner b \<Longrightarrow> bk_state b' = bk_state b \<Longrightarrow> answered_block R C b' = answered_block R C b"
  by (simp add: answered_block_def)

text \<open>A step that keeps id, owner and state of every block it keeps.\<close>

lemma answers_quiet:
  assumes "answers n l R C" "bl_pending_claim l' = bl_pending_claim l \<or> bl_pending_claim l' = None"
    and "\<And>b'. b' \<in> set (bl_blocks l') \<Longrightarrow>
      \<exists>b\<in>set (bl_blocks l). bk_id b' = bk_id b \<and> bk_owner b' = bk_owner b \<and> bk_state b' = bk_state b"
  shows "answers n l' R C"
  using assms unfolding answers_def by (metis (no_types, lifting) answered_block_key option.distinct(1))

lemma answers_on_active:
  assumes "answers n l R C" "answered_block R C (f (active_block l))"
  shows "answers n (on_active f l) R C"
  using assms by (auto simp: answers_def on_active_def dest!: subsetD [OF set_update_subset_insert])

lemma answers_push:
  assumes "answers n l R C" "n \<le> bl_next_id l"
  shows "answers (bk_id (active_block (push_block vt l))) (push_block vt l) R C"
  using assms by (auto simp: answers_def push_block_def active_block_def block_new_def answered_block_def intro: less_le_trans)

lemma answered_block_more: "answered_block R C b \<Longrightarrow> answered_block (R @ S) C b"
  by (auto simp: answered_block_def)

lemma answers_result:
  assumes "answers (bk_id b) l R C" "(bk_id b, bk_owner b) \<in> set C \<or> bk_owner b = User"
  shows "answers (Suc (bk_id b)) l (R @ tool_results (result_events (tool_result_of vt b outcome))) C"
proof (cases "bk_owner b")
  case User
  then show ?thesis using assms(1) by (auto simp: tool_result_of_def result_events_def answers_def)
next
  case (Agent conv call)
  then show ?thesis
    using assms by (auto simp: tool_result_of_def result_events_def answers_def sorted_wrt_append answered_block_more)
qed

lemma tool_results_append [simp]: "tool_results (a @ b) = tool_results a @ tool_results b"
  by (induction a rule: tool_results.induct) simp_all

text \<open>The active block leaves execution: its result is the answer it was missing.\<close>

lemma answers_leave:
  assumes "list_wf l" "answers (bk_id (active_block l)) l R C"
    and "bk_id (f (active_block l)) = bk_id (active_block l)" "bk_owner (f (active_block l)) = bk_owner (active_block l)"
  shows "answers (bk_id (active_block (push_block vt (on_active f l)))) (push_block vt (on_active f l))
    (R @ tool_results (result_events (tool_result_of vt (f (active_block l)) outcome))) C"
proof -
  let ?b = "f (active_block l)"
  let ?R = "R @ tool_results (result_events (tool_result_of vt ?b outcome))"
  note g = active_good [OF assms(1)]
  have claimed: "bk_owner ?b \<noteq> User \<Longrightarrow> (bk_id ?b, bk_owner ?b) \<in> set C"
    using assms(2-) g by (auto simp: answers_def answered_block_def)
  then have 1: "answers (Suc (bk_id ?b)) l ?R C" using answers_result [of ?b l R C vt outcome] assms(2,3) by auto
  have "answered_block ?R C ?b"
    using claimed by (auto simp: answered_block_def tool_result_of_def result_events_def split: block_owner.splits)
  then have "answers (Suc (bk_id ?b)) (on_active f l) ?R C" by (rule answers_on_active [OF 1])
  moreover have "Suc (bk_id ?b) \<le> bl_next_id (on_active f l)" using g assms(3) by (simp add: Suc_leI)
  ultimately show ?thesis by (rule answers_push)
qed

lemma blocks_on_active:
  "b' \<in> set (bl_blocks (on_active f l)) \<Longrightarrow> b' = f (active_block l) \<or> b' \<in> set (bl_blocks l)"
  by (auto simp: on_active_def dest!: subsetD [OF set_update_subset_insert])

text \<open>A change of the active block that keeps id, owner and state.\<close>

lemma answers_keep:
  assumes "list_wf l" "answers (bk_id (active_block l)) l R C"
    and "bk_id (f (active_block l)) = bk_id (active_block l)" "bk_owner (f (active_block l)) = bk_owner (active_block l)"
    and "bk_state (f (active_block l)) = bk_state (active_block l)"
  shows "answers (bk_id (active_block (on_active f l))) (on_active f l) R C"
proof -
  have "active_block (on_active f l) = f (active_block l)" using assms(1) by (intro active_on_active) (simp add: list_wf_def)
  moreover have "answers (bk_id (active_block l)) (on_active f l) R C"
    using assms(3-) active_good [OF assms(1)] by (intro answers_quiet [OF assms(2)]) (auto dest!: blocks_on_active)
  ultimately show ?thesis using assms(3) by simp
qed

abbreviation answers_ok :: "'t block_list \<Rightarrow> tool_result list \<Rightarrow> (nat \<times> block_owner) list \<Rightarrow> bool" where
  "answers_ok l R C \<equiv> answers (bk_id (active_block l)) l R C"

lemma answers_feed: "list_ok l \<Longrightarrow> answers_ok l R C \<Longrightarrow> answers_ok (list_feed vt c bs l) R C"
  by (auto simp: list_feed_def list_ok_def intro!: answers_keep)

lemma answers_precmd:
  assumes "list_ok l" "answers_ok l R C"
  shows "answers_ok (fst (on_precmd vt v l)) (R @ tool_results (snd (on_precmd vt v l))) C"
proof -
  define l1 where "l1 = (case pc_pwd v of None \<Rightarrow> l | Some d \<Rightarrow> l\<lparr>bl_session := (bl_session l)\<lparr>se_cwd := Some d\<rparr>\<rparr>)"
  have l1: "list_ok l1" "answers_ok l1 R C"
    using assms by (cases "pc_pwd v"; simp add: l1_def answers_def active_block_def)+
  have meta: "answers_ok (on_active (set_metadata v) u) S C" if "list_ok u" "answers_ok u S C" for u S
    using that by (intro answers_keep) (simp_all add: list_ok_def set_metadata_def)
  show ?thesis
  proof (cases "bk_state (active_block l1) = Executing")
    case True
    let ?p = "on_active promote_to_background l1"
    have wf: "list_wf l1" using l1 by (simp add: list_ok_def)
    have a: "active_block ?p = promote_to_background (active_block l1)"
      using wf by (intro active_on_active) (simp add: list_wf_def)
    have "list_ok (push_block vt ?p)" using wf by (intro push_block_ok promote_wf)
    moreover have "answers_ok (push_block vt ?p)
        (R @ tool_results (result_events (tool_result_of vt (promote_to_background (active_block l1)) StillRunning))) C"
      using wf l1(2) by (intro answers_leave) (simp_all add: promote_to_background_def)
    ultimately show ?thesis
      unfolding on_precmd_def l1_def [symmetric] using True meta by (simp add: Let_def a)
  next
    case False
    then show ?thesis unfolding on_precmd_def l1_def [symmetric] using meta l1 by (simp add: Let_def)
  qed
qed

lemma answers_preexec:
  fixes l :: "'t block_list"
  assumes "list_ok l" "answers_ok l R C"
  shows "answers_ok (fst (on_preexec now command l)) R C"
proof -
  define f :: "'t block \<Rightarrow> 't block" where "f = block_preexec now (case command of None \<Rightarrow> [] | Some s \<Rightarrow> s) \<circ>
    (\<lambda>b. case bl_pending_claim l of
         Some claim \<Rightarrow> if cl_block claim = bk_id b then b\<lparr>bk_owner := cl_owner claim\<rparr> else b | None \<Rightarrow> b)"
  define l1 where "l1 = l\<lparr>bl_pending_claim := None\<rparr>"
  have l1: "list_wf l1" "active_block l1 = active_block l"
    using assms(1) by (auto simp: l1_def list_ok_def list_wf_def active_block_def)
  have "answers (bk_id (active_block l)) l1 R C"
    using assms(2) by (simp add: l1_def answers_def)
  moreover have "answered_block R C (f (active_block l))"
    using assms active_good [OF l1(1)] l1(2)
    by (auto simp: f_def block_preexec_def answers_def answered_block_def l1_def split: option.splits)
  ultimately have "answers (bk_id (active_block l)) (on_active f l1) R C" using l1(2) by (intro answers_on_active) simp_all
  moreover have "active_block (on_active f l1) = f (active_block l)"
    using l1 by (simp add: active_on_active list_wf_def)
  moreover have "bk_id (f b) = bk_id b" for b by (auto simp: f_def block_preexec_def split: option.splits)
  ultimately show ?thesis by (simp add: on_preexec_def Let_def f_def l1_def)
qed

lemma answers_fields:
  "answers n (l\<lparr>bl_gaps := g\<rparr>) R C = answers n l R C" "active_block (l\<lparr>bl_gaps := g\<rparr>) = active_block l"
  by (simp_all add: answers_def active_block_def)

lemma answers_clear:
  assumes "list_ok l" "answers_ok l R C"
  shows "answers_ok (fst (on_clear vt l)) R C"
proof -
  let ?l = "drain_before_active l"
  have "answers (bk_id (active_block l)) ?l R C"
  proof (rule answers_quiet [OF assms(2)])
    fix b' assume "b' \<in> set (bl_blocks ?l)"
    then obtain b where b: "b \<in> set (bl_blocks l)" "b' = b\<lparr>bk_index := bk_index b'\<rparr>" using drained_blocks by blast
    show "\<exists>b\<in>set (bl_blocks l). bk_id b' = bk_id b \<and> bk_owner b' = bk_owner b \<and> bk_state b' = bk_state b"
      using index_update_fields(1-3) [OF b(2)] b(1) by blast
  qed (simp add: drain_before_active_def)
  then have "answers_ok (on_active (block_clear vt) ?l) R C"
    using drained_ok [OF assms(1)] by (intro answers_keep) (simp_all add: list_ok_def block_clear_def)
  then show ?thesis unfolding on_clear_def by (simp only: Let_def fst_conv answers_fields)
qed

lemma answers_hook:
  assumes "list_ok l" "answers_ok l R C"
  shows "answers_ok (fst (apply_hook vt now e l)) (R @ tool_results (snd (apply_hook vt now e l))) C"
proof (cases e)
  case (HookBootstrapped v)
  show ?thesis
  proof (cases "bl_bootstrapped l")
    case False
    let ?l = "l\<lparr>bl_bootstrapped := True\<rparr>"
    have "answers (bk_id (active_block l)) ?l R C" using assms(2) by (simp add: answers_def)
    moreover have "bk_id (active_block l) \<le> bl_next_id ?l" using assms(1) active_good [of l] by (simp add: list_ok_def)
    ultimately have "answers_ok (push_block vt ?l) R C" by (rule answers_push)
    then show ?thesis using HookBootstrapped False by (simp add: apply_hook_def on_bootstrapped_def)
  qed (use assms HookBootstrapped in \<open>simp add: apply_hook_def on_bootstrapped_def\<close>)
next
  case (CommandFinished v)
  have wf: "list_wf l" using assms(1) by (simp add: list_ok_def)
  let ?f = "block_finish vt now (cf_exit_code v)"
  have "active_block (on_active ?f l) = ?f (active_block l)" using wf by (intro active_on_active) (simp add: list_wf_def)
  then show ?thesis
    using answers_leave [OF wf assms(2), of ?f vt "Finished (cf_exit_code v)"] CommandFinished
    by (simp add: apply_hook_def on_command_finished_def Let_def block_finish_def block_freeze_def)
next
  case (Precmd v)
  then show ?thesis using answers_precmd [OF assms] by (simp add: apply_hook_def)
next
  case (Preexec v)
  then show ?thesis using answers_preexec [OF assms] by (simp add: apply_hook_def on_preexec_def Let_def)
next
  case Clear
  then show ?thesis using answers_clear [OF assms] by (simp add: apply_hook_def on_clear_def Let_def)
next
  case (InitShell v)
  then show ?thesis using assms(2) by (simp add: apply_hook_def init_shell_def Let_def answers_def active_block_def)
next
  case (InputBuffer v)
  then show ?thesis using assms(2) by (simp add: apply_hook_def answers_def active_block_def)
qed

lemma answers_more_claims: "answers n l R C \<Longrightarrow> answers n l R (C @ D)"
  unfolding answers_def by (auto intro: answered_block_mono)

lemma answers_visibility:
  assumes "list_ok l" "answers_ok l R C"
  shows "answers_ok (l\<lparr>bl_blocks := update_first P (\<lambda>b. b\<lparr>bk_visibility := v\<rparr>) (bl_blocks l)\<rparr>) R C"
proof -
  let ?l = "l\<lparr>bl_blocks := update_first P (\<lambda>b. b\<lparr>bk_visibility := v\<rparr>) (bl_blocks l)\<rparr>"
  have "bl_active l < length (bl_blocks l)" using assms(1) by (simp add: list_ok_def list_wf_def)
  from update_first_nth [OF this, of P "\<lambda>b. b\<lparr>bk_visibility := v\<rparr>"]
  have "bk_id (active_block ?l) = bk_id (active_block l)" by (auto simp: active_block_def)
  moreover have "answers (bk_id (active_block l)) ?l R C"
    by (rule answers_quiet [OF assms(2)]) (auto dest!: set_update_first)
  ultimately show ?thesis by simp
qed

lemma answers_step:
  assumes "list_ok l" "answers_ok l R C"
  shows "answers_ok (fst (list_step vt c op l)) (R @ tool_results (snd (list_step vt c op l)))
    (C @ (case op of OpClaim i owner \<Rightarrow> if snd (claim_next_pre_exec i owner l) then [(i, owner)] else [] | _ \<Rightarrow> []))"
proof (cases op)
  case (OpClaim i owner)
  then show ?thesis
    using answers_more_claims [OF assms(2), of "[(i, owner)]"] assms(2)
    by (auto simp: claim_next_pre_exec_def answers_def active_block_def)
next
  case (OpCard conv label)
  have "bl_active l < length (bl_blocks l)" using assms(1) by (simp add: list_ok_def list_wf_def)
  then show ?thesis using OpCard assms(2)
    by (auto simp: push_agent_view_block_def answers_def active_block_def nth_append block_agent_view_def block_new_def answered_block_def)
next
  case (OpResize sz)
  have "bl_active l < length (bl_blocks l)" using assms(1) by (simp add: list_ok_def list_wf_def)
  then have "bk_id (active_block (list_resize vt sz l)) = bk_id (active_block l)"
    by (simp add: active_block_def list_resize_def block_resize_def)
  moreover have "answers (bk_id (active_block l)) (list_resize vt sz l) R C"
    by (rule answers_quiet [OF assms(2)]) (auto simp: list_resize_def block_resize_def)
  ultimately show ?thesis using OpResize by simp
qed (use assms in \<open>auto simp: answers_feed answers_hook answers_visibility associate_with_conversation_def set_visibility_def Let_def
    split: option.splits prod.splits\<close>)

lemma answers_run:
  assumes "list_ok l" "answers_ok l R C"
  shows "answers_ok (fst (list_run vt c ops l)) (R @ tool_results (snd (list_run vt c ops l))) (C @ accepted vt c ops l)"
  using assms
proof (induction ops arbitrary: l R C)
  case (Cons op ops)
  from Cons.IH [OF step_ok [OF Cons.prems(1)] answers_step [OF Cons.prems, of vt c op]] show ?case by simp
qed simp

text \<open>C13. Every command the agent claims is answered once, and nothing else is: in any session the tool results
  come from different blocks in the order of their age, each one answers the call of a claim that was
  accepted for its block, and a block that ran a claimed command has its result unless the command is
  still marked as running.\<close>

theorem claimed_commands_answered_once:
  "let (l, events) = list_run vt c ops (list_new vt sz); results = tool_results events in
     sorted_wrt (<) (map tr_block results) \<and>
     list_all (\<lambda>r. (tr_block r, Agent (tr_conversation_id r) (tr_call_id r)) \<in> set (accepted vt c ops (list_new vt sz))) results \<and>
     list_all (\<lambda>b. bk_owner b = User \<or> bk_state b = Executing \<or>
                   list_ex (\<lambda>r. tr_block r = bk_id b \<and> Agent (tr_conversation_id r) (tr_call_id r) = bk_owner b) results)
       (bl_blocks l)"
proof -
  have "answers_ok (list_new vt sz) [] []"
    by (simp add: answers_def list_new_def active_block_def block_new_def answered_block_def)
  from answers_run [OF new_ok this, of vt c ops] show ?thesis
    by (auto simp: answers_def answered_block_def list_all_iff list_ex_iff split: prod.splits)
qed

section \<open>Finished blocks\<close>

text \<open>What the shell can do to a list: its output and its hooks.\<close>

fun shell_op :: "list_op \<Rightarrow> bool" where
  "shell_op (OpFeed _) \<longleftrightarrow> True"
| "shell_op (OpHook _ _) \<longleftrightarrow> True"
| "shell_op _ \<longleftrightarrow> False"

text \<open>A step on the active block leaves every other block as it is.\<close>

lemma others_kept:
  assumes "b \<in> set (bl_blocks l)" "bk_id b \<noteq> bk_id (active_block l)"
  shows "b \<in> set (bl_blocks (on_active f l))"
proof -
  obtain i where "i < length (bl_blocks l)" "bl_blocks l ! i = b" using assms(1) by (auto simp: in_set_conv_nth)
  moreover have "i \<noteq> bl_active l" using assms(2) calculation by (auto simp: active_block_def)
  ultimately show ?thesis by (auto simp: on_active_def in_set_conv_nth intro!: exI [of _ i])
qed

lemma done_not_active: "list_ok l \<Longrightarrow> b \<in> set (bl_blocks l) \<Longrightarrow> state_done (bk_state b) \<Longrightarrow> bk_id b \<noteq> bk_id (active_block l)"
proof
  assume l: "list_ok l" "b \<in> set (bl_blocks l)" "state_done (bk_state b)" "bk_id b = bk_id (active_block l)"
  have "distinct (map bk_id (bl_blocks l))"
    using l(1) strict_sorted_iff [of "map bk_id (bl_blocks l)"] by (auto simp: list_ok_def list_wf_def)
  then have "b = active_block l" using l(2,4) active_good [of l] l(1) by (auto simp: list_ok_def distinct_map inj_on_def)
  then show False using l(1,3) by (auto simp: list_ok_def active_ok_def state_done_def)
qed

lemma pushed_kept: "b \<in> set (bl_blocks l) \<Longrightarrow> b \<in> set (bl_blocks (push_block vt l))"
  by (simp add: push_block_def)

lemma hook_keeps_finished:
  assumes "list_ok l" "b \<in> set (bl_blocks l)" "state_done (bk_state b)" "e \<noteq> Clear"
  shows "b \<in> set (bl_blocks (fst (apply_hook vt now e l)))"
proof -
  note na = done_not_active [OF assms(1-3)]
  note kept = others_kept [OF assms(2) na]
  show ?thesis
  proof (cases e)
    case (HookBootstrapped v)
    then show ?thesis using pushed_kept [of b "l\<lparr>bl_bootstrapped := True\<rparr>"] assms(2)
      by (simp add: apply_hook_def on_bootstrapped_def)
  next
    case (Precmd v)
    define l1 where "l1 = (case pc_pwd v of None \<Rightarrow> l | Some d \<Rightarrow> l\<lparr>bl_session := (bl_session l)\<lparr>se_cwd := Some d\<rparr>\<rparr>)"
    have l1: "list_ok l1" "b \<in> set (bl_blocks l1)" using assms by (cases "pc_pwd v"; simp add: l1_def)+
    define l2 where "l2 = (if bk_state (active_block l1) = Executing then push_block vt (on_active promote_to_background l1) else l1)"
    have l2: "list_ok l2" "b \<in> set (bl_blocks l2)"
      using l1 push_block_ok [OF promote_wf, of l1 vt]
        pushed_kept [OF others_kept [OF l1(2) done_not_active [OF l1 assms(3)], of promote_to_background], of vt]
      by (auto simp: l2_def list_ok_def)
    have "b \<in> set (bl_blocks (on_active (set_metadata v) l2))"
      by (rule others_kept [OF l2(2) done_not_active [OF l2 assms(3)]])
    moreover have "fst (on_precmd vt v l) = on_active (set_metadata v) l2"
      unfolding on_precmd_def l1_def [symmetric] l2_def by (simp add: Let_def)
    ultimately show ?thesis using Precmd by (simp add: apply_hook_def)
  next
    case (Preexec v)
    have "active_block (l\<lparr>bl_pending_claim := None\<rparr>) = active_block l" by (simp add: active_block_def)
    then show ?thesis using Preexec assms(2) na
      by (auto simp: apply_hook_def on_preexec_def Let_def intro!: others_kept)
  next
    case (CommandFinished v)
    then show ?thesis using pushed_kept [OF kept] by (simp add: apply_hook_def on_command_finished_def Let_def)
  qed (use assms in \<open>simp_all add: apply_hook_def init_shell_def Let_def\<close>)
qed

lemma ids_distinct: "list_ok l \<Longrightarrow> distinct (map bk_id (bl_blocks l))"
  using strict_sorted_iff [of "map bk_id (bl_blocks l)"] by (auto simp: list_ok_def list_wf_def)

lemma clear_keeps_rest:
  assumes "list_ok l" "b \<in> set (bl_blocks l)" "state_done (bk_state b)"
    and "b' \<in> set (bl_blocks (fst (on_clear vt l)))" "bk_id b' = bk_id b"
  shows "b' = b\<lparr>bk_index := bk_index b'\<rparr>"
proof -
  let ?l = "drain_before_active l"
  have "b' \<in> set (bl_blocks (on_active (block_clear vt) ?l))"
    using assms(4) by (simp add: on_clear_def Let_def)
  then have "b' = block_clear vt (active_block ?l) \<or> b' \<in> set (bl_blocks ?l)" by (rule blocks_on_active)
  moreover have "b' \<noteq> block_clear vt (active_block ?l)"
    using done_not_active [OF assms(1-3)] drained_ok(2) [OF assms(1)] assms(5) by (auto simp: block_clear_def)
  ultimately obtain u where u: "u \<in> set (bl_blocks l)" "b' = u\<lparr>bk_index := bk_index b'\<rparr>" using drained_blocks by blast
  then have "u = b"
    using index_update_fields(1) [OF u(2)] ids_distinct [OF assms(1)] assms(2,5) by (auto simp: distinct_map inj_on_def)
  then show ?thesis using u(2) by simp
qed

text \<open>C28. A finished command is history: once the shell reported its exit code, nothing the shell writes or
  reports later changes the block. It stays in the list as it is until a \<open>clear\<close>, and after a \<open>clear\<close>
  a block with its id differs at most in its position.\<close>

theorem finished_blocks_final:
  assumes "l = fst (list_run vt c ops (list_new vt sz))" "b \<in> set (bl_blocks l)" "state_done (bk_state b)" "shell_op op"
  shows "((\<exists>now. op = OpHook now Clear) \<or> b \<in> set (bl_blocks (fst (list_step vt c op l)))) \<and>
    (\<forall>b'\<in>set (bl_blocks (fst (list_step vt c op l))). bk_id b' = bk_id b \<longrightarrow> b' = b\<lparr>bk_index := bk_index b'\<rparr>)"
proof -
  let ?l = "fst (list_step vt c op l)"
  have ok: "list_ok l" using assms(1) run_ok [OF new_ok] by simp
  have keeps: "b \<in> set (bl_blocks ?l)" if "\<forall>now. op \<noteq> OpHook now Clear"
  proof (cases op)
    case (OpFeed bs)
    then show ?thesis using assms(2) others_kept [OF assms(2) done_not_active [OF ok assms(2,3)]] by (simp add: list_feed_def)
  next
    case (OpHook now e)
    then show ?thesis using hook_keeps_finished [OF ok assms(2,3)] that by auto
  qed (use assms(4) in auto)
  have "b' = b\<lparr>bk_index := bk_index b'\<rparr>" if b': "b' \<in> set (bl_blocks ?l)" "bk_id b' = bk_id b" for b'
  proof (cases "\<exists>now. op = OpHook now Clear")
    case True
    then show ?thesis using clear_keeps_rest [OF ok assms(2,3)] b' by (auto simp: apply_hook_def)
  next
    case False
    then have "b \<in> set (bl_blocks ?l)" using keeps by blast
    moreover have "distinct (map bk_id (bl_blocks ?l))" by (rule ids_distinct [OF step_ok [OF ok]])
    ultimately have "b' = b" using b' by (auto simp: distinct_map inj_on_def)
    then show ?thesis by simp
  qed
  then show ?thesis using keeps by blast
qed

definition sample_session :: "list_op list" where
  "sample_session =
     [OpHook (0, 0) (HookBootstrapped None), OpHook (1, 1) (Preexec (Some ''ls'')),
      OpHook (2, 2) (CommandFinished \<lparr>cf_exit_code = 0, cf_next_block_id = None\<rparr>)]"

lemmas session_simps = sample_session_def list_new_def apply_hook_def on_bootstrapped_def on_preexec_def on_command_finished_def
  push_block_def block_new_def on_active_def active_block_def block_finish_def block_freeze_def block_preexec_def Let_def

theorem finished_blocks_final_witness:
  "let l = fst (list_run sample_vt sample_images sample_session (list_new sample_vt \<lparr>ss_columns = 80, ss_lines = 24\<rparr>));
       b = bl_blocks l ! 1
   in state_done (bk_state b) \<and> b \<in> set (bl_blocks (fst (list_step sample_vt sample_images (OpFeed ''late'') l)))"
proof -
  define l where "l = fst (list_run sample_vt sample_images sample_session (list_new sample_vt \<lparr>ss_columns = 80, ss_lines = 24\<rparr>))"
  have "bl_blocks l ! 1 \<in> set (bl_blocks l)" by (simp add: l_def session_simps)
  moreover have "state_done (bk_state (bl_blocks l ! 1))" by (simp add: l_def session_simps state_done_def)
  ultimately show ?thesis
    using finished_blocks_final [OF l_def, of "bl_blocks l ! 1" "OpFeed ''late''"] by (auto simp: l_def)
qed

end
