(* ===== verification/Terminal_Session.thy ===== *)
theory Terminal_Session
  imports Terminal_Blocks
begin

text \<open>
  The VT state of one pane, from \<^verbatim>\<open>app/src/emulator.rs\<close>: \<open>Emulator\<close> puts the hook tap, the OSC tap, the
  block list and the screen behind one \<open>feed\<close>, and gives the views their blocks. Two readings of the
  clock belong to every hook that is applied, so a read of the pty comes with the clock of its \<open>n\<close>-th
  hook. The environment of the process is a parameter of the synthesized prompt. Colours, keys, search
  and the answers to queries of the running program are not modelled.
\<close>

section \<open>The emulator\<close>

definition SCROLLBACK :: nat where
  "SCROLLBACK = 10000"

record 't emulator =
  em_screen :: "'t screen"
  em_hooks :: hook_tap
  em_osc :: osc_tap
  em_hook_events :: "hook_event list"
  em_osc_events :: "osc_event list"
  em_blocks :: "'t block_list"
  em_block_events :: "block_event list"
  em_columns :: nat
  em_screen_lines :: nat

definition emulator_new :: "'t vt \<Rightarrow> nat \<Rightarrow> nat \<Rightarrow> 't emulator" where
  "emulator_new vt columns lines =
     (let sz = \<lparr>ss_columns = columns, ss_lines = lines\<rparr> in
      \<lparr>em_screen = screen_new vt sz (scrolling_config SCROLLBACK), em_hooks = hook_new, em_osc = osc_new,
       em_hook_events = [], em_osc_events = [], em_blocks = list_new vt sz, em_block_events = [],
       em_columns = columns, em_screen_lines = lines\<rparr>)"

definition associate_owner :: "nat \<Rightarrow> 't block_list \<Rightarrow> 't block_list" where
  "associate_owner i l =
     (case map_option bk_owner (get_block l i) of
        Some (Agent conv _) \<Rightarrow> fst (associate_with_conversation i conv l)
      | _ \<Rightarrow> l)"

text \<open>The parts of \<open>Emulator::feed\<close>: a slice of bytes between two hooks, and a hook.\<close>

definition feed_slice :: "'t vt \<Rightarrow> image_codec \<Rightarrow> string \<Rightarrow> 't emulator \<times> string \<Rightarrow> 't emulator \<times> string" where
  "feed_slice vt ic bs = (\<lambda>(em, passthrough).
     let (osc, events, passthrough') = tap_osc (em_osc em, [], passthrough) bs in
     (em\<lparr>em_osc := osc, em_osc_events := em_osc_events em @ events,
         em_blocks := list_feed vt ic (drop (length passthrough) passthrough') (em_blocks em)\<rparr>, passthrough'))"

definition started_owned :: "block_event list \<Rightarrow> 't block_list \<Rightarrow> 't block_list" where
  "started_owned events l = foldl (\<lambda>l e. case e of BlockStarted i \<Rightarrow> associate_owner i l | _ \<Rightarrow> l) l events"

definition feed_hook :: "'t vt \<Rightarrow> clock \<Rightarrow> hook_event \<Rightarrow> 't emulator \<Rightarrow> 't emulator" where
  "feed_hook vt now hook em =
     (let (l, events) = apply_hook vt now hook (em_blocks em) in
      em\<lparr>em_hook_events := em_hook_events em @ [hook], em_blocks := started_owned events l,
         em_block_events := em_block_events em @ events\<rparr>)"

fun feed_hooks ::
  "'t vt \<Rightarrow> image_codec \<Rightarrow> (nat \<Rightarrow> clock) \<Rightarrow> string \<Rightarrow> nat \<Rightarrow> (nat \<times> hook_event) list \<Rightarrow>
   't emulator \<times> string \<Rightarrow> nat \<Rightarrow> ('t emulator \<times> string) \<times> nat" where
  "feed_hooks vt ic clk staged n [] st cursor = (st, cursor)"
| "feed_hooks vt ic clk staged n ((at, hook) # hooks) st cursor =
     (let offset = min at (length staged);
          (st1, cursor1) =
            (if cursor < offset then (feed_slice vt ic (take (offset - cursor) (drop cursor staged)) st, offset)
             else (st, cursor))
      in feed_hooks vt ic clk staged (n + 1) hooks (feed_hook vt (clk n) hook (fst st1), snd st1) cursor1)"

definition emulator_feed ::
  "'t vt \<Rightarrow> hook_codec \<Rightarrow> image_codec \<Rightarrow> (nat \<Rightarrow> clock) \<Rightarrow> 't emulator \<Rightarrow> string \<Rightarrow> 't emulator" where
  "emulator_feed vt hc ic clk em bytes =
     (let (tap, staged, hooks) = tap_ordered hc (em_hooks em, [], []) bytes;
          (st, cursor) = feed_hooks vt ic clk staged 0 hooks (em\<lparr>em_hooks := tap\<rparr>, []) 0;
          (em', passthrough) = (if cursor < length staged then feed_slice vt ic (drop cursor staged) st else st)
      in em'\<lparr>em_screen := screen_feed vt ic (em_screen em') passthrough\<rparr>)"

definition emulator_resize :: "'t vt \<Rightarrow> nat \<Rightarrow> nat \<Rightarrow> 't emulator \<Rightarrow> 't emulator" where
  "emulator_resize vt columns lines em =
     (if columns = em_columns em \<and> lines = em_screen_lines em then em
      else
        let sz = \<lparr>ss_columns = columns, ss_lines = lines\<rparr> in
        em\<lparr>em_columns := columns, em_screen_lines := lines, em_blocks := list_resize vt sz (em_blocks em),
           em_screen := screen_resize vt sz (em_screen em)\<rparr>)"

section \<open>What the pane asks of it\<close>

definition has_running_command :: "'t emulator \<Rightarrow> bool" where
  "has_running_command em = list_ex (\<lambda>b. bk_state b = Executing) (bl_blocks (em_blocks em))"

definition running_command :: "'t emulator \<Rightarrow> string option" where
  "running_command em =
     (case find (\<lambda>b. bk_state b = Executing) (bl_blocks (em_blocks em)) of
        None \<Rightarrow> None
      | Some b \<Rightarrow> if bk_command_text b = [] then None else Some (bk_command_text b))"

definition absolute_line :: "'t vt \<Rightarrow> 't emulator \<Rightarrow> nat \<Rightarrow> nat option" where
  "absolute_line vt em row =
     (let top = history_size vt (em_screen em) - vt_display_offset vt (sn_term (em_screen em)); line = top + row in
      if line < vt_total_lines vt (sn_term (em_screen em)) then Some line else None)"

definition emulator_scroll :: "'t vt \<Rightarrow> int \<Rightarrow> 't emulator \<Rightarrow> 't emulator" where
  "emulator_scroll vt lines em = em\<lparr>em_screen := (em_screen em)\<lparr>sn_term := vt_scroll vt lines (sn_term (em_screen em))\<rparr>\<rparr>"

definition take_hook_events :: "'t emulator \<Rightarrow> 't emulator \<times> hook_event list" where
  "take_hook_events em = (em\<lparr>em_hook_events := []\<rparr>, em_hook_events em)"

definition take_block_events :: "'t emulator \<Rightarrow> 't emulator \<times> block_event list" where
  "take_block_events em = (em\<lparr>em_block_events := []\<rparr>, em_block_events em)"

definition take_osc_events :: "'t emulator \<Rightarrow> 't emulator \<times> osc_event list" where
  "take_osc_events em = (em\<lparr>em_osc_events := []\<rparr>, em_osc_events em)"

record finished_block =
  fb_owner :: block_owner
  fb_duration :: "nat option"
  fb_ran_a_command :: bool

definition finished_block_at :: "nat \<Rightarrow> 't emulator \<Rightarrow> finished_block option" where
  "finished_block_at i em =
     map_option (\<lambda>b. \<lparr>fb_owner = bk_owner b, fb_duration = block_duration b,
                      fb_ran_a_command = (trim (bk_command_text b) \<noteq> [])\<rparr>)
       (get_block (em_blocks em) i)"

definition block_output_lines :: "'t vt \<Rightarrow> block_view \<Rightarrow> 't emulator \<Rightarrow> nat \<rightharpoonup> screen_line list" where
  "block_output_lines vt view em =
     map_of (rev (map (\<lambda>b. (bk_id b, output_lines vt b)) (visible_blocks view (em_blocks em))))"

definition block_output_lines_of :: "'t vt \<Rightarrow> nat \<Rightarrow> 't emulator \<Rightarrow> screen_line list option" where
  "block_output_lines_of vt i em = map_option (output_lines vt) (get_block (em_blocks em) i)"

definition push_card :: "'t vt \<Rightarrow> string \<Rightarrow> string \<Rightarrow> 't emulator \<Rightarrow> 't emulator \<times> nat" where
  "push_card vt conv label em =
     (case find (\<lambda>b. block_conversation b = Some conv) (bl_blocks (em_blocks em)) of
        Some b \<Rightarrow> (em, bk_id b)
      | None \<Rightarrow>
          let (l, i) = push_agent_view_block vt conv label (em_blocks em) in (em\<lparr>em_blocks := l\<rparr>, i))"

definition claim_active_block :: "block_owner \<Rightarrow> 't emulator \<Rightarrow> 't emulator \<times> bool" where
  "claim_active_block owner em =
     (let (l, ok) = claim_next_pre_exec (bk_id (active_block (em_blocks em))) owner (em_blocks em) in
      (em\<lparr>em_blocks := l\<rparr>, ok))"

definition run_block_for_conversation :: "string \<Rightarrow> 't emulator \<Rightarrow> 't emulator \<times> bool" where
  "run_block_for_conversation conv em =
     (let b = active_block (em_blocks em) in
      if bk_state b \<noteq> BeforeExecution then (em, False)
      else
        let (l, ok) = set_visibility (bk_id b) (visibility_agent conv) (em_blocks em) in
        (em\<lparr>em_blocks := l\<rparr>, ok))"

section \<open>The blocks of a view\<close>

definition home_directory :: "(string \<Rightarrow> string option) \<Rightarrow> string option" where
  "home_directory env =
     (case filter (\<lambda>v. v \<noteq> [])
             (map (drop_last_while (\<lambda>c. c = CHR ''/'')) (List.map_filter env [''HOME'', ''USERPROFILE''])) of
        [] \<Rightarrow> None
      | v # _ \<Rightarrow> Some v)"

definition display_path :: "(string \<Rightarrow> string option) \<Rightarrow> string \<Rightarrow> string" where
  "display_path env path =
     (case home_directory env of
        None \<Rightarrow> path
      | Some home \<Rightarrow>
          if take (length home) path \<noteq> home then path
          else
            (case drop (length home) path of
               [] \<Rightarrow> ''~''
             | c # rest \<Rightarrow> if c = CHR ''/'' then CHR ''~'' # c # rest else path))"

definition short_host :: "string \<Rightarrow> string" where
  "short_host host = takeWhile (\<lambda>c. c \<noteq> CHR ''.'') host"

definition synthesized_prompt ::
  "(string \<Rightarrow> string option) \<Rightarrow> string option \<Rightarrow> string option \<Rightarrow> 't block \<Rightarrow> string option" where
  "synthesized_prompt env host shell b =
     (case bm_pwd (bk_metadata b) of
        None \<Rightarrow> None
      | Some pwd \<Rightarrow>
          (case or_else (env ''USER'') (env ''LOGNAME'') of
             None \<Rightarrow> None
           | Some user \<Rightarrow>
               let cwd = display_path env pwd;
                   sigil =
                     (case shell of
                        Some s \<Rightarrow> if take 4 s = ''bash'' then if user = ''root'' then ''#'' else ''$'' else ''%''
                      | None \<Rightarrow> ''%'')
               in Some (case host of
                          Some h \<Rightarrow> user @ ''@'' @ h @ '' '' @ cwd @ '' '' @ sigil
                        | None \<Rightarrow> cwd @ '' '' @ sigil)))"

record agent_view_card =
  av_conversation_id :: string
  av_label :: string

record visible_block =
  vb_id :: nat
  vb_owner :: block_owner
  vb_command :: string
  vb_output :: string
  vb_state :: block_state
  vb_exit_code :: "int option"
  vb_pwd :: "string option"
  vb_git_branch :: "string option"
  vb_duration :: "nat option"
  vb_started_at :: "timestamp option"
  vb_prompt :: "string option"
  vb_card :: "agent_view_card option"

definition view_blocks ::
  "'t vt \<Rightarrow> (string \<Rightarrow> string option) \<Rightarrow> nat \<Rightarrow> block_view \<Rightarrow> 't emulator \<Rightarrow> visible_block list" where
  "view_blocks vt env now view em =
     (let session = bl_session (em_blocks em);
          host = (case map_option short_host (se_host session) of
                    Some h \<Rightarrow> if h = [] then None else Some h
                  | None \<Rightarrow> None)
      in map (\<lambda>b. \<lparr>vb_id = bk_id b, vb_owner = bk_owner b, vb_command = bk_command_text b, vb_output = output_text vt b,
                   vb_state = bk_state b, vb_exit_code = bk_exit_code b, vb_pwd = bm_pwd (bk_metadata b),
                   vb_git_branch = bm_git_branch (bk_metadata b),
                   vb_duration = or_else (block_duration b) (block_elapsed now b), vb_started_at = bk_started_wall b,
                   vb_prompt = or_else (prompt_text vt b) (synthesized_prompt env host (se_shell session) b),
                   vb_card = map_option (\<lambda>conv. \<lparr>av_conversation_id = conv,
                                                 av_label = (case block_label b of None \<Rightarrow> [] | Some s \<Rightarrow> s)\<rparr>)
                               (block_conversation b)\<rparr>)
           (visible_blocks view (em_blocks em)))"

section \<open>What does not depend on the reads\<close>

text \<open>The core of a state: everything but placed images and revision counters, which see the reads, and
  the readings of the clock.\<close>

definition screen_core :: "'t screen \<Rightarrow> 't screen" where
  "screen_core s = s\<lparr>sn_images := cache_default, sn_revision := 0\<rparr>"

definition block_core :: "'t block \<Rightarrow> 't block" where
  "block_core b =
     b\<lparr>bk_command := screen_core (bk_command b), bk_output := screen_core (bk_output b), bk_started_at := None,
       bk_started_wall := None, bk_finished_at := None\<rparr>"

definition list_core :: "'t block_list \<Rightarrow> 't block_list" where
  "list_core l = l\<lparr>bl_blocks := map block_core (bl_blocks l)\<rparr>"

lemma screen_core_iff: "screen_core s = screen_core t \<longleftrightarrow> screen_view s = screen_view t"
  by (cases s; cases t) (auto simp: screen_core_def screen_view_def)

lemma block_core_iff:
  "block_core a = block_core b \<longleftrightarrow>
     bk_id a = bk_id b \<and> bk_index a = bk_index b \<and> bk_kind a = bk_kind b \<and> bk_visibility a = bk_visibility b \<and>
     bk_owner a = bk_owner b \<and> bk_state a = bk_state b \<and> screen_core (bk_command a) = screen_core (bk_command b) \<and>
     screen_core (bk_output a) = screen_core (bk_output b) \<and> bk_command_text a = bk_command_text b \<and>
     bk_exit_code a = bk_exit_code b \<and> bk_metadata a = bk_metadata b \<and> bk_honor_ps1 a = bk_honor_ps1 b \<and>
     bk_dropped_bytes a = bk_dropped_bytes b"
  by (cases a; cases b) (auto simp: block_core_def)

lemma list_core_iff:
  "list_core a = list_core b \<longleftrightarrow>
     map block_core (bl_blocks a) = map block_core (bl_blocks b) \<and> bl_active a = bl_active b \<and> bl_size a = bl_size b \<and>
     bl_next_id a = bl_next_id b \<and> bl_session a = bl_session b \<and> bl_bootstrapped a = bl_bootstrapped b \<and>
     bl_input_buffer a = bl_input_buffer b \<and> bl_input_cursor a = bl_input_cursor b \<and> bl_gaps a = bl_gaps b \<and>
     bl_pending_claim a = bl_pending_claim b"
  by (cases a; cases b) (auto simp: list_core_def)

text \<open>Operations on states with the same core have the same effect on it.\<close>

definition same_effect :: "('t block \<Rightarrow> 't block) \<Rightarrow> ('t block \<Rightarrow> 't block) \<Rightarrow> bool" where
  "same_effect f g \<longleftrightarrow> (\<forall>a b. block_core a = block_core b \<longrightarrow> block_core (f a) = block_core (g b))"

lemma core_length: "list_core a = list_core b \<Longrightarrow> length (bl_blocks a) = length (bl_blocks b)"
  unfolding list_core_iff by (metis length_map)

lemma core_active:
  "list_core a = list_core b \<Longrightarrow> bl_active a < length (bl_blocks a) \<Longrightarrow> block_core (active_block a) = block_core (active_block b)"
  using core_length [of a b] unfolding active_block_def list_core_iff by (metis nth_map)

lemma core_on_active:
  assumes "list_core a = list_core b" "bl_active a < length (bl_blocks a)"
    and "block_core (f (active_block a)) = block_core (g (active_block b))"
  shows "list_core (on_active f a) = list_core (on_active g b)"
  using assms unfolding list_core_iff by (simp add: on_active_def map_update)

lemma screen_core_ops:
  assumes "screen_core s = screen_core t"
  shows "screen_core (screen_freeze s) = screen_core (screen_freeze t)"
    "screen_core (screen_reset vt s) = screen_core (screen_reset vt t)"
    "screen_text vt s = screen_text vt t" "content_lines vt s = content_lines vt t"
    "vt_stream vt \<Longrightarrow> screen_core (screen_feed vt c s bs) = screen_core (screen_feed vt c t bs)"
proof -
  have v: "screen_view s = screen_view t" using assms by (simp add: screen_core_iff)
  then show "screen_core (screen_freeze s) = screen_core (screen_freeze t)"
      "screen_core (screen_reset vt s) = screen_core (screen_reset vt t)"
      "screen_text vt s = screen_text vt t" "content_lines vt s = content_lines vt t"
    unfolding screen_core_iff
    by (simp_all add: screen_view_def screen_freeze_def screen_reset_def screen_text_def content_lines_def)
  assume vs: "vt_stream vt"
  show "screen_core (screen_feed vt c s bs) = screen_core (screen_feed vt c t bs)"
    unfolding screen_core_iff by (rule chunked_reader.feed_cong [OF chunked_screen [OF vs] v])
qed

lemma core_output_text: "block_core a = block_core b \<Longrightarrow> output_text vt a = output_text vt b"
  using screen_core_ops(4) [of "bk_output a" "bk_output b"] by (simp add: block_core_iff output_text_def output_lines_def)

lemma same_effect_feed:
  assumes "vt_stream vt"
  shows "same_effect (block_feed vt c bs) (block_feed vt c bs)"
  unfolding same_effect_def
proof (intro allI impI)
  fix a b :: "'a block"
  assume ab: "block_core a = block_core b"
  then have "screen_core (screen_feed vt c (bk_command a) bs) = screen_core (screen_feed vt c (bk_command b) bs)"
      "screen_core (screen_feed vt c (bk_output a) bs) = screen_core (screen_feed vt c (bk_output b) bs)"
    by (auto simp: block_core_iff intro: screen_core_ops(5) [OF _ assms])
  then show "block_core (block_feed vt c bs a) = block_core (block_feed vt c bs b)"
    using ab by (cases "bk_state b") (simp_all add: block_core_iff block_feed_def)
qed

lemma same_effect_finish: "same_effect (block_finish vt n code) (block_finish vt m code)"
  unfolding same_effect_def
proof (intro allI impI)
  fix a b :: "'a block"
  assume ab: "block_core a = block_core b"
  then have "screen_text vt (bk_output a) = screen_text vt (bk_output b)"
      "screen_core (screen_freeze (bk_command a)) = screen_core (screen_freeze (bk_command b))"
      "screen_core (screen_freeze (bk_output a)) = screen_core (screen_freeze (bk_output b))"
    by (auto simp: block_core_iff intro: screen_core_ops(1,3))
  then show "block_core (block_finish vt n code a) = block_core (block_finish vt m code b)"
    using ab by (simp add: block_core_iff block_finish_def block_freeze_def has_output_def)
qed

lemma same_effect_ops:
  "same_effect (block_preexec n cmd) (block_preexec m cmd)" "same_effect promote_to_background promote_to_background"
  "same_effect (block_clear vt) (block_clear vt)" "same_effect (set_metadata v) (set_metadata v)"
  by (auto simp: same_effect_def block_core_iff block_preexec_def promote_to_background_def block_clear_def set_metadata_def
      intro: screen_core_ops(2) split: option.splits)

lemma core_on_active_same:
  "list_core a = list_core b \<Longrightarrow> bl_active a < length (bl_blocks a) \<Longrightarrow> same_effect f g \<Longrightarrow>
   list_core (on_active f a) = list_core (on_active g b)"
  using core_active [of a b] by (intro core_on_active) (auto simp only: same_effect_def)

lemma core_push: "list_core a = list_core b \<Longrightarrow> list_core (push_block vt a) = list_core (push_block vt b)"
  using core_length [of a b] unfolding list_core_iff by (simp add: push_block_def)

lemma core_result:
  "block_core a = block_core b \<Longrightarrow> tool_result_of vt a outcome = tool_result_of vt b outcome"
  using core_output_text [of a b vt] by (simp add: block_core_iff tool_result_of_def split: block_owner.splits)

text \<open>The same for the operations of the list.\<close>

abbreviation has_active :: "'t block_list \<Rightarrow> bool" where
  "has_active l \<equiv> bl_active l < length (bl_blocks l)"

lemma ok_has_active: "list_ok l \<Longrightarrow> has_active l"
  by (simp add: list_ok_def list_wf_def)

lemma core_has_active: "list_core a = list_core b \<Longrightarrow> has_active a \<Longrightarrow> has_active b"
  using core_length [of a b] by (simp add: list_core_iff)

lemma core_active_fields:
  assumes "list_core a = list_core b" "has_active a"
  shows "bk_id (active_block a) = bk_id (active_block b)" "bk_state (active_block a) = bk_state (active_block b)"
    "bk_exit_code (active_block a) = bk_exit_code (active_block b)"
  using core_active [OF assms] by (simp_all add: block_core_iff)

lemma core_feed:
  "vt_stream vt \<Longrightarrow> list_core a = list_core b \<Longrightarrow> has_active a \<Longrightarrow>
   list_core (list_feed vt c bs a) = list_core (list_feed vt c bs b)"
  by (auto simp: list_feed_def intro: core_on_active_same [OF _ _ same_effect_feed])

lemma core_precmd:
  assumes "list_core a = list_core b" "has_active a"
  shows "list_core (fst (on_precmd vt v a)) = list_core (fst (on_precmd vt v b)) \<and> snd (on_precmd vt v a) = snd (on_precmd vt v b)"
proof -
  define cd :: "'a block_list \<Rightarrow> 'a block_list" where
    "cd = (\<lambda>l. case pc_pwd v of None \<Rightarrow> l | Some d \<Rightarrow> l\<lparr>bl_session := (bl_session l)\<lparr>se_cwd := Some d\<rparr>\<rparr>)"
  have 1: "list_core (cd a) = list_core (cd b)" "has_active (cd a)"
    using assms by (auto simp: cd_def list_core_iff split: option.splits)
  note 2 = core_on_active_same [OF 1 same_effect_ops(2)]
  have pa: "has_active (on_active promote_to_background (cd a))" using 1(2) by simp
  note 3 = core_push [OF 2, of vt]
  have pb: "has_active (push_block vt (on_active promote_to_background (cd a)))" by (simp add: push_block_def)
  have meta: "list_core (on_active (set_metadata v) x) = list_core (on_active (set_metadata v) y) \<and>
      bk_id (active_block (on_active (set_metadata v) x)) = bk_id (active_block (on_active (set_metadata v) y))"
    if "list_core x = list_core y" "has_active x" for x y :: "'a block_list"
    using core_on_active_same [OF that same_effect_ops(4)] core_active_fields(1) that(2) by fastforce
  have "on_precmd vt v l =
      (let (l2, events) =
             (if bk_state (active_block (cd l)) = Executing then
                let p = on_active promote_to_background (cd l)
                in (push_block vt p, result_events (tool_result_of vt (active_block p) StillRunning))
              else (cd l, []));
           l3 = on_active (set_metadata v) l2
       in (l3, events @ [MetadataUpdated (bk_id (active_block l3))]))" for l
    unfolding on_precmd_def cd_def Let_def ..
  then show ?thesis
    using core_active_fields(2) [OF 1] core_result [OF core_active [OF 2 pa], of vt] meta [OF 1] meta [OF 3 pb]
    by (simp add: Let_def)
qed

lemma core_preexec:
  assumes "list_core a = list_core b" "has_active a"
  shows "list_core (fst (on_preexec n cmd a)) = list_core (fst (on_preexec m cmd b)) \<and> snd (on_preexec n cmd a) = snd (on_preexec m cmd b)"
proof -
  let ?own = "\<lambda>(x :: 'a block). case bl_pending_claim b of
      Some claim \<Rightarrow> if cl_block claim = bk_id x then x\<lparr>bk_owner := cl_owner claim\<rparr> else x | None \<Rightarrow> x"
  let ?cmd = "case cmd of None \<Rightarrow> [] | Some s \<Rightarrow> s"
  have own: "block_core (?own x) = block_core (?own y)" if "block_core x = block_core y" for x y
    using that by (auto simp: block_core_iff split: option.splits)
  have "list_core (a\<lparr>bl_pending_claim := None\<rparr>) = list_core (b\<lparr>bl_pending_claim := None\<rparr>)"
      "has_active (a\<lparr>bl_pending_claim := None\<rparr>)" "bl_pending_claim a = bl_pending_claim b"
    using assms by (simp_all add: list_core_iff)
  moreover have "same_effect (block_preexec n ?cmd \<circ> ?own) (block_preexec m ?cmd \<circ> ?own)"
    using own same_effect_ops(1) [of n ?cmd m] unfolding same_effect_def by (metis (no_types, lifting) comp_apply)
  ultimately have "list_core (on_active (block_preexec n ?cmd \<circ> ?own) (a\<lparr>bl_pending_claim := None\<rparr>)) =
      list_core (on_active (block_preexec m ?cmd \<circ> ?own) (b\<lparr>bl_pending_claim := None\<rparr>))"
    by (intro core_on_active_same)
  then show ?thesis
    using core_active_fields(1) assms(2) \<open>bl_pending_claim a = bl_pending_claim b\<close>
    by (fastforce simp: on_preexec_def Let_def)
qed

lemma core_finished:
  assumes "list_core a = list_core b" "has_active a"
  shows "list_core (fst (on_command_finished vt n code a)) = list_core (fst (on_command_finished vt m code b)) \<and>
    snd (on_command_finished vt n code a) = snd (on_command_finished vt m code b)"
proof -
  note 1 = core_on_active_same [OF assms same_effect_finish [of vt n code m]]
  have 2: "has_active (on_active (block_finish vt n code) a)" using assms(2) by simp
  show ?thesis
    using core_push [OF 1, of vt] core_result [OF core_active [OF 1 2], of vt] core_active_fields(1,3) [OF 1 2]
    by (simp add: on_command_finished_def Let_def has_failed_def)
qed

lemma core_drain:
  assumes "list_core a = list_core b"
  shows "list_core (drain_before_active a) = list_core (drain_before_active b)"
proof -
  have "map block_core (map (\<lambda>(i, x). x\<lparr>bk_index := i\<rparr>) (enumerate n xs)) =
      map (\<lambda>(i, x). x\<lparr>bk_index := i\<rparr>) (enumerate n (map block_core xs))" for n and xs :: "'a block list"
    by (induction xs arbitrary: n) (simp_all add: block_core_def)
  then show ?thesis
    using assms unfolding list_core_iff by (simp add: drain_before_active_def drop_map [symmetric])
qed

lemma core_clear:
  assumes "list_core a = list_core b" "has_active a"
  shows "list_core (fst (on_clear vt a)) = list_core (fst (on_clear vt b)) \<and> snd (on_clear vt a) = snd (on_clear vt b)"
proof -
  have 1: "has_active (drain_before_active a)" using assms(2) by (auto simp: drain_before_active_def)
  note 2 = core_on_active_same [OF core_drain [OF assms(1)] 1 same_effect_ops(3) [of vt]]
  have "has_active (on_active (block_clear vt) (drain_before_active a))" using 1 by simp
  note 3 = core_active_fields(1) [OF 2 this]
  show ?thesis using 2 3 assms(1) unfolding list_core_iff by (simp add: on_clear_def Let_def)
qed

lemma core_hook:
  assumes "list_core a = list_core b" "has_active a"
  shows "list_core (fst (apply_hook vt n e a)) = list_core (fst (apply_hook vt m e b)) \<and>
    snd (apply_hook vt n e a) = snd (apply_hook vt m e b)"
proof (cases e)
  case (HookBootstrapped v)
  have "list_core (a\<lparr>bl_bootstrapped := True\<rparr>) = list_core (b\<lparr>bl_bootstrapped := True\<rparr>)"
      "bl_bootstrapped a = bl_bootstrapped b"
    using assms(1) by (simp_all add: list_core_iff)
  then show ?thesis using HookBootstrapped assms(1) by (auto simp: apply_hook_def on_bootstrapped_def intro: core_push)
next
  case (InitShell v)
  then show ?thesis using assms(1) by (auto simp: apply_hook_def init_shell_def list_core_iff Let_def)
next
  case (InputBuffer v)
  then show ?thesis using assms(1) by (auto simp: apply_hook_def list_core_iff)
qed (use assms in \<open>simp_all add: apply_hook_def core_precmd core_preexec core_finished core_clear\<close>)

text \<open>Visibility does not look at what the core leaves out.\<close>

lemma core_get_block: "get_block (list_core l) i = map_option block_core (get_block l i)"
proof -
  have "find (\<lambda>b. bk_id b = i) (map block_core xs) = map_option block_core (find (\<lambda>b. bk_id b = i) xs)" for xs :: "'a block list"
    by (induction xs) (simp_all add: block_core_def)
  then show ?thesis by (simp add: get_block_def list_core_def)
qed

lemma list_core_fields:
  "bl_blocks (list_core l) = map block_core (bl_blocks l)"
  "list_core (l\<lparr>bl_blocks := bs\<rparr>) = (list_core l)\<lparr>bl_blocks := map block_core bs\<rparr>"
  by (simp_all add: list_core_def)

lemma core_update_first:
  "map block_core (update_first (\<lambda>b. bk_id b = i) (\<lambda>b. b\<lparr>bk_visibility := v\<rparr>) xs) =
   update_first (\<lambda>b. bk_id b = i) (\<lambda>b. b\<lparr>bk_visibility := v\<rparr>) (map block_core xs)"
  by (induction xs) (simp_all add: block_core_def)

lemma core_associate_owner: "list_core (associate_owner i l) = associate_owner i (list_core l)"
proof -
  have "bk_owner (block_core b) = bk_owner b" "bk_visibility (block_core b) = bk_visibility b" for b :: "'a block"
    by (simp_all add: block_core_def)
  then show ?thesis
    by (cases "get_block l i"; cases "bk_owner (the (get_block l i))")
      (simp_all add: associate_owner_def associate_with_conversation_def core_get_block associate_def list_core_fields
        core_update_first)
qed

lemma core_started: "list_core (started_owned es l) = started_owned es (list_core l)"
proof (induction es arbitrary: l)
  case (Cons e es)
  then show ?case by (cases e) (simp_all add: started_owned_def core_associate_owner)
qed (simp add: started_owned_def)

lemma associate_ok: "list_ok l \<Longrightarrow> list_ok (associate_owner i l)"
  by (auto simp: associate_owner_def associate_with_conversation_def visibility_ok Let_def
      split: option.splits block_owner.splits prod.splits)

lemma started_ok: "list_ok l \<Longrightarrow> list_ok (started_owned es l)"
proof (induction es arbitrary: l)
  case (Cons e es)
  then show ?case by (cases e) (simp_all add: started_owned_def associate_ok)
qed (simp add: started_owned_def)

section \<open>The stream as a sequence of bytes and hooks\<close>

text \<open>A hook with the association that follows it, and a stream of tokens read one by one.\<close>

definition hooked :: "'t vt \<Rightarrow> clock \<Rightarrow> hook_event \<Rightarrow> 't block_list \<Rightarrow> 't block_list \<times> block_event list" where
  "hooked vt now e l = (let (l', es) = apply_hook vt now e l in (started_owned es l', es))"

fun block_token :: "'t vt \<Rightarrow> image_codec \<Rightarrow> char + hook_event \<Rightarrow> 't block_list \<Rightarrow> 't block_list \<times> block_event list" where
  "block_token vt ic (Inl b) l = (list_feed vt ic [b] l, [])"
| "block_token vt ic (Inr e) l = hooked vt (0, 0) e l"

fun block_tokens :: "'t vt \<Rightarrow> image_codec \<Rightarrow> (char + hook_event) list \<Rightarrow> 't block_list \<Rightarrow> 't block_list \<times> block_event list" where
  "block_tokens vt ic [] l = (l, [])"
| "block_tokens vt ic (t # ts) l =
     (fst (block_tokens vt ic ts (fst (block_token vt ic t l))),
      snd (block_token vt ic t l) @ snd (block_tokens vt ic ts (fst (block_token vt ic t l))))"

lemma hooked_ok: "list_ok l \<Longrightarrow> list_ok (fst (hooked vt now e l))"
  using hook_ok [of l vt now e] by (auto simp: hooked_def split: prod.splits intro: started_ok)

lemma core_hooked:
  assumes "list_core a = list_core b" "list_ok a"
  shows "list_core (fst (hooked vt n e a)) = list_core (fst (hooked vt m e b)) \<and> snd (hooked vt n e a) = snd (hooked vt m e b)"
  using core_hook [OF assms(1) ok_has_active [OF assms(2)], of vt n e m] by (auto simp: hooked_def core_started split: prod.splits)

lemma token_ok: "list_ok l \<Longrightarrow> list_ok (fst (block_token vt ic t l))"
  by (cases t) (simp_all add: feed_ok hooked_ok)

lemma tokens_ok: "list_ok l \<Longrightarrow> list_ok (fst (block_tokens vt ic ts l))"
  by (induction ts arbitrary: l) (simp_all add: token_ok)

lemma core_tokens:
  assumes "vt_stream vt" "list_core a = list_core b" "list_ok a"
  shows "list_core (fst (block_tokens vt ic ts a)) = list_core (fst (block_tokens vt ic ts b)) \<and>
    snd (block_tokens vt ic ts a) = snd (block_tokens vt ic ts b)"
  using assms(2,3)
proof (induction ts arbitrary: a b)
  case (Cons t ts)
  have "list_core (fst (block_token vt ic t a)) = list_core (fst (block_token vt ic t b)) \<and>
      snd (block_token vt ic t a) = snd (block_token vt ic t b)"
    using core_feed [OF assms(1) Cons.prems(1) ok_has_active [OF Cons.prems(2)]] core_hooked [OF Cons.prems] by (cases t) simp_all
  then show ?case using Cons.IH [OF _ token_ok [OF Cons.prems(2)]] by simp
qed simp

lemma tokens_append:
  "fst (block_tokens vt ic (x @ y) l) = fst (block_tokens vt ic y (fst (block_tokens vt ic x l)))"
  "snd (block_tokens vt ic (x @ y) l) = snd (block_tokens vt ic x l) @ snd (block_tokens vt ic y (fst (block_tokens vt ic x l)))"
  by (induction x arbitrary: l) simp_all

lemma core_block_feed_append:
  assumes "vt_stream vt"
  shows "block_core (block_feed vt ic (x @ y) b) = block_core (block_feed vt ic y (block_feed vt ic x b))"
proof -
  have "screen_core (screen_feed vt ic s (x @ y)) = screen_core (screen_feed vt ic (screen_feed vt ic s x) y)" for s
    unfolding screen_core_iff by (rule chunked_reader.feed_append [OF chunked_screen [OF assms]])
  then show ?thesis
    unfolding block_core_iff
    by (cases "bk_kind b = Shell"; cases "bk_state b"; simp add: block_feed_def)
qed

lemma core_feed_append:
  assumes "vt_stream vt" "has_active l"
  shows "list_core (list_feed vt ic (x @ y) l) = list_core (list_feed vt ic y (list_feed vt ic x l))"
proof -
  have "on_active (block_feed vt ic y) (on_active (block_feed vt ic x) l) = on_active (block_feed vt ic y \<circ> block_feed vt ic x) l"
    using assms(2) by (simp add: on_active_def active_block_def)
  moreover have "list_core (on_active (block_feed vt ic (x @ y)) l) = list_core (on_active (block_feed vt ic y \<circ> block_feed vt ic x) l)"
    using assms by (intro core_on_active) (simp_all add: core_block_feed_append)
  ultimately show ?thesis by (cases "x = []"; cases "y = []") (simp_all add: list_feed_def)
qed

lemma tokens_bytes:
  assumes "vt_stream vt" "list_ok l"
  shows "list_core (fst (block_tokens vt ic (map Inl bs) l)) = list_core (list_feed vt ic bs l) \<and>
    snd (block_tokens vt ic (map Inl bs) l) = []"
  using assms(2)
proof (induction bs arbitrary: l)
  case (Cons b bs)
  then show ?case
    using core_feed_append [OF assms(1) ok_has_active, of l ic "[b]" bs] by (simp add: feed_ok)
qed (simp add: list_feed_def)

section \<open>Reading the stream\<close>

fun token_hooks :: "(char + hook_event) list \<Rightarrow> hook_event list" where
  "token_hooks [] = []"
| "token_hooks (Inl _ # ts) = token_hooks ts"
| "token_hooks (Inr e # ts) = e # token_hooks ts"

lemma token_hooks_append [simp]: "token_hooks (a @ b) = token_hooks a @ token_hooks b"
  by (induction a rule: token_hooks.induct) simp_all

lemma token_hooks_bytes [simp]: "token_hooks (map Inl s) = []"
  by (induction s) simp_all

text \<open>What reading a sequence of tokens makes of an emulator, its screen and its hook tap apart.\<close>

definition reads_as :: "'t vt \<Rightarrow> image_codec \<Rightarrow> (char + hook_event) list \<Rightarrow> 't emulator \<Rightarrow> 't emulator \<Rightarrow> bool" where
  "reads_as vt ic ts em em' \<longleftrightarrow>
     em_osc em' = osc_after (em_osc em) (token_bytes ts) \<and>
     em_osc_events em' = em_osc_events em @ osc_seen (em_osc em) (token_bytes ts) \<and>
     em_hook_events em' = em_hook_events em @ token_hooks ts \<and>
     list_core (em_blocks em') = list_core (fst (block_tokens vt ic ts (em_blocks em))) \<and>
     em_block_events em' = em_block_events em @ snd (block_tokens vt ic ts (em_blocks em)) \<and>
     em_columns em' = em_columns em \<and> em_screen_lines em' = em_screen_lines em \<and> list_ok (em_blocks em')"

lemma reads_refl: "list_ok (em_blocks em) \<Longrightarrow> reads_as vt ic [] em em"
  by (simp add: reads_as_def)

lemma reads_trans:
  assumes "vt_stream vt" "reads_as vt ic x em em1" "reads_as vt ic y em1 em2"
  shows "reads_as vt ic (x @ y) em em2"
proof -
  have "list_ok (em_blocks em1)" "list_core (em_blocks em1) = list_core (fst (block_tokens vt ic x (em_blocks em)))"
    using assms(2) by (simp_all add: reads_as_def)
  from core_tokens [OF assms(1) this(2,1), of ic y] assms(2,3) show ?thesis
    by (simp add: reads_as_def osc_after_append osc_seen_append tokens_append)
qed

lemma reads_slice:
  assumes "vt_stream vt" "list_ok (em_blocks em)"
  shows "reads_as vt ic (map Inl bs) em (fst (feed_slice vt ic bs (em, pass))) \<and> snd (feed_slice vt ic bs (em, pass)) = pass @ bs \<and>
    em_screen (fst (feed_slice vt ic bs (em, pass))) = em_screen em \<and> em_hooks (fst (feed_slice vt ic bs (em, pass))) = em_hooks em"
  using tokens_bytes [OF assms, of ic bs] assms(2)
  by (simp add: feed_slice_def tap_osc_split reads_as_def feed_ok)

lemma reads_hook:
  assumes "list_ok (em_blocks em)"
  shows "reads_as vt ic [Inr e] em (feed_hook vt now e em) \<and> em_screen (feed_hook vt now e em) = em_screen em \<and>
    em_hooks (feed_hook vt now e em) = em_hooks em"
proof -
  have "em_blocks (feed_hook vt now e em) = fst (hooked vt now e (em_blocks em))"
      "em_block_events (feed_hook vt now e em) = em_block_events em @ snd (hooked vt now e (em_blocks em))"
    by (simp_all add: feed_hook_def hooked_def split: prod.splits)
  then show ?thesis
    using core_hooked [OF refl assms, of vt now e "(0, 0)"] hooked_ok [OF assms, of vt now e]
    by (simp add: reads_as_def) (simp add: feed_hook_def split: prod.splits)
qed

text \<open>The loop: \<open>pending\<close> are the bytes before the next hook that have not been fed yet.\<close>

definition loop_end :: "'t vt \<Rightarrow> image_codec \<Rightarrow> string \<Rightarrow> ('t emulator \<times> string) \<times> nat \<Rightarrow> 't emulator \<times> string" where
  "loop_end vt ic staged = (\<lambda>(st, cursor). if cursor < length staged then feed_slice vt ic (drop cursor staged) st else st)"

lemma feed_hooks_reads:
  assumes "vt_stream vt" "list_ok (em_blocks em)" "staged = fed @ pending @ token_bytes ts"
  shows "\<exists>em'. loop_end vt ic staged
      (feed_hooks vt ic clk staged n (placed (length fed + length pending) ts) (em, pass) (length fed)) =
      (em', pass @ pending @ token_bytes ts) \<and>
    reads_as vt ic (map Inl pending @ ts) em em' \<and> em_screen em' = em_screen em \<and> em_hooks em' = em_hooks em"
  using assms(2,3)
proof (induction ts arbitrary: em fed pending n pass rule: token_bytes.induct)
  case 1
  then show ?case
    using reads_slice [OF assms(1) 1(1), of ic pending pass] reads_refl [OF 1(1), of vt ic]
    by (cases "pending = []") (auto simp: loop_end_def prod_eq_iff)
next
  case (2 b ts)
  from 2(1) [of em fed "pending @ [b]"] 2(2,3) show ?case by simp
next
  case (3 e ts)
  let ?st = "if pending = [] then (em, pass) else feed_slice vt ic pending (em, pass)"
  have st: "reads_as vt ic (map Inl pending) em (fst ?st)" "snd ?st = pass @ pending"
      "em_screen (fst ?st) = em_screen em" "em_hooks (fst ?st) = em_hooks em"
    using reads_slice [OF assms(1) 3(2), of ic pending pass] reads_refl [OF 3(2), of vt ic] by (cases "pending = []"; simp)+
  then have ok: "list_ok (em_blocks (fst ?st))" by (simp add: reads_as_def)
  note h = reads_hook [OF this, of vt ic e "clk n"]
  let ?em = "feed_hook vt (clk n) e (fst ?st)"
  have "list_ok (em_blocks ?em)" using h by (simp add: reads_as_def)
  from 3(1) [OF this, of "fed @ pending" "[]" "n + 1" "pass @ pending"] 3(3)
  obtain em' where em': "loop_end vt ic staged (feed_hooks vt ic clk staged (n + 1) (placed (length (fed @ pending)) ts)
        (?em, pass @ pending) (length (fed @ pending))) = (em', pass @ pending @ token_bytes ts)"
      "reads_as vt ic ts ?em em'" "em_screen em' = em_screen ?em" "em_hooks em' = em_hooks ?em"
    by auto
  have "reads_as vt ic (map Inl pending @ [Inr e] @ ts) em em'"
    using reads_trans [OF assms(1) st(1) reads_trans [OF assms(1)]] h em'(2) by blast
  moreover have "feed_hooks vt ic clk staged n (placed (length fed + length pending) (Inr e # ts)) (em, pass) (length fed) =
      feed_hooks vt ic clk staged (n + 1) (placed (length (fed @ pending)) ts) (?em, pass @ pending) (length (fed @ pending))"
    using 3(3) st(2) by (cases "pending = []") (simp_all add: Let_def prod_eq_iff)
  ultimately show ?case using em' h st by auto
qed

text \<open>A read, and a sequence of reads, each with its clock.\<close>

fun emulator_reads ::
  "'t vt \<Rightarrow> hook_codec \<Rightarrow> image_codec \<Rightarrow> ((nat \<Rightarrow> clock) \<times> string) list \<Rightarrow> 't emulator \<Rightarrow> 't emulator" where
  "emulator_reads vt hc ic [] em = em"
| "emulator_reads vt hc ic ((clk, bs) # rs) em = emulator_reads vt hc ic rs (emulator_feed vt hc ic clk em bs)"

definition fed_as :: "'t vt \<Rightarrow> hook_codec \<Rightarrow> image_codec \<Rightarrow> string \<Rightarrow> 't emulator \<Rightarrow> 't emulator \<Rightarrow> bool" where
  "fed_as vt hc ic bs em em' \<longleftrightarrow>
     reads_as vt ic (hook_tokens hc (em_hooks em) bs) em em' \<and> em_hooks em' = hook_after hc (em_hooks em) bs \<and>
     screen_core (em_screen em') =
       screen_core (screen_feed vt ic (em_screen em) (token_bytes (hook_tokens hc (em_hooks em) bs)))"

lemma feed_fed:
  assumes "vt_stream vt" "list_ok (em_blocks em)"
  shows "fed_as vt hc ic bs em (emulator_feed vt hc ic clk em bs)"
proof -
  let ?ts = "hook_tokens hc (em_hooks em) bs"
  let ?em = "em\<lparr>em_hooks := hook_after hc (em_hooks em) bs\<rparr>"
  have "list_ok (em_blocks ?em)" using assms(2) by simp
  from feed_hooks_reads [OF assms(1) this, of "token_bytes ?ts" "[]" "[]" ?ts ic clk 0 "[]"]
  obtain em' where em': "loop_end vt ic (token_bytes ?ts) (feed_hooks vt ic clk (token_bytes ?ts) 0 (placed 0 ?ts) (?em, []) 0) =
        (em', token_bytes ?ts)"
      "reads_as vt ic ?ts ?em em'" "em_screen em' = em_screen em" "em_hooks em' = hook_after hc (em_hooks em) bs"
    by auto
  have "emulator_feed vt hc ic clk em bs = em'\<lparr>em_screen := screen_feed vt ic (em_screen em) (token_bytes ?ts)\<rparr>"
    using em'(1,3) unfolding emulator_feed_def loop_end_def
    by (cases "feed_hooks vt ic clk (token_bytes ?ts) 0 (placed 0 ?ts) (?em, []) 0") (simp add: tap_ordered_split Let_def)
  then show ?thesis using em' by (simp add: fed_as_def reads_as_def)
qed

lemma fed_trans:
  assumes "vt_stream vt" "fed_as vt hc ic x em em1" "fed_as vt hc ic y em1 em2"
  shows "fed_as vt hc ic (x @ y) em em2"
proof -
  let ?x = "token_bytes (hook_tokens hc (em_hooks em) x)" and ?y = "token_bytes (hook_tokens hc (em_hooks em1) y)"
  have "screen_core (screen_feed vt ic (em_screen em1) ?y) = screen_core (screen_feed vt ic (screen_feed vt ic (em_screen em) ?x) ?y)"
    using assms(2) by (intro screen_core_ops(5) [OF _ assms(1)]) (simp add: fed_as_def)
  also have "\<dots> = screen_core (screen_feed vt ic (em_screen em) (?x @ ?y))"
    unfolding screen_core_iff by (rule chunked_reader.feed_append [OF chunked_screen [OF assms(1)], symmetric])
  finally show ?thesis
    using assms(2,3) reads_trans [OF assms(1), of ic "hook_tokens hc (em_hooks em) x" em em1 "hook_tokens hc (em_hooks em1) y" em2]
    by (simp add: fed_as_def hook_after_append hook_tokens_append)
qed

lemma fed_nothing:
  assumes "vt_stream vt" "list_ok (em_blocks em)"
  shows "fed_as vt hc ic [] em em"
  using chunked_reader.feed_empty [OF chunked_screen [OF assms(1)], of ic "em_screen em"] reads_refl [OF assms(2)]
  by (simp add: fed_as_def screen_core_iff)

lemma reads_fed:
  assumes "vt_stream vt" "list_ok (em_blocks em)"
  shows "fed_as vt hc ic (concat (map snd reads)) em (emulator_reads vt hc ic reads em)"
  using assms(2)
proof (induction reads arbitrary: em)
  case Nil
  then show ?case using fed_nothing [OF assms(1)] by simp
next
  case (Cons r reads)
  obtain clk bs where r: "r = (clk, bs)" by (rule prod.exhaust)
  note f = feed_fed [OF assms(1) Cons.prems, of hc ic bs clk]
  then have "list_ok (em_blocks (emulator_feed vt hc ic clk em bs))" by (simp add: fed_as_def reads_as_def)
  from fed_trans [OF assms(1) f Cons.IH [OF this]] show ?case by (simp add: r)
qed

definition em_core :: "'t emulator \<Rightarrow> 't emulator" where
  "em_core em = em\<lparr>em_screen := screen_core (em_screen em), em_blocks := list_core (em_blocks em)\<rparr>"

lemma fed_same: "fed_as vt hc ic bs em a \<Longrightarrow> fed_as vt hc ic bs em b \<Longrightarrow> em_core a = em_core b"
  by (cases a; cases b) (simp add: em_core_def fed_as_def reads_as_def)

section \<open>Everything that happens to a pane\<close>

datatype emulator_op =
    EmRead "nat \<Rightarrow> clock" string
  | EmClaim block_owner
  | EmCard string string
  | EmRunFor string
  | EmResize nat nat
  | EmScroll int
  | EmTake

fun emulator_step :: "'t vt \<Rightarrow> hook_codec \<Rightarrow> image_codec \<Rightarrow> 't emulator \<Rightarrow> emulator_op \<Rightarrow> 't emulator" where
  "emulator_step vt hc ic em (EmRead clk bs) = emulator_feed vt hc ic clk em bs"
| "emulator_step vt hc ic em (EmClaim owner) = fst (claim_active_block owner em)"
| "emulator_step vt hc ic em (EmCard conv label) = fst (push_card vt conv label em)"
| "emulator_step vt hc ic em (EmRunFor conv) = fst (run_block_for_conversation conv em)"
| "emulator_step vt hc ic em (EmResize columns lines) = emulator_resize vt columns lines em"
| "emulator_step vt hc ic em (EmScroll lines) = emulator_scroll vt lines em"
| "emulator_step vt hc ic em EmTake =
     fst (take_osc_events (fst (take_block_events (fst (take_hook_events em)))))"

definition pane :: "'t vt \<Rightarrow> hook_codec \<Rightarrow> image_codec \<Rightarrow> nat \<Rightarrow> nat \<Rightarrow> emulator_op list \<Rightarrow> 't emulator" where
  "pane vt hc ic columns lines ops = foldl (emulator_step vt hc ic) (emulator_new vt columns lines) ops"

lemma pane_step_ok:
  assumes "vt_stream vt" "list_ok (em_blocks em)"
  shows "list_ok (em_blocks (emulator_step vt hc ic em op))"
proof (cases op)
  case (EmRead clk bs)
  then show ?thesis using feed_fed [OF assms, of hc ic bs clk] by (simp add: fed_as_def reads_as_def)
next
  case (EmCard conv label)
  then show ?thesis
    using assms(2) push_card_ok [OF assms(2), of vt conv label] by (auto simp: push_card_def split: option.splits prod.splits)
qed (use assms(2) in \<open>auto simp: claim_active_block_def claim_next_pre_exec_def run_block_for_conversation_def set_visibility_def
    visibility_ok emulator_resize_def resize_ok emulator_scroll_def take_osc_events_def take_block_events_def
    take_hook_events_def Let_def split: option.splits prod.splits\<close>)

lemma pane_ok: "vt_stream vt \<Longrightarrow> list_ok (em_blocks (pane vt hc ic columns lines ops))"
  unfolding pane_def
  by (induction ops rule: rev_induct) (simp_all add: pane_step_ok emulator_new_def new_ok Let_def)

section \<open>What holds of the blocks of every pane\<close>

text \<open>A property of block lists that the operations of a list keep holds in every state of a pane.\<close>

locale pane_invariant =
  fixes vt :: "'t vt" and P :: "'t block_list \<Rightarrow> bool"
  assumes at_start: "P (list_new vt sz)"
    and by_bytes: "P l \<Longrightarrow> P (list_feed vt ic bs l)"
    and by_hook: "P l \<Longrightarrow> P (fst (apply_hook vt now e l))"
    and by_visibility: "P l \<Longrightarrow> P (l\<lparr>bl_blocks := update_first Q (\<lambda>b. b\<lparr>bk_visibility := v\<rparr>) (bl_blocks l)\<rparr>)"
    and by_claim: "P l \<Longrightarrow> P (l\<lparr>bl_pending_claim := claim\<rparr>)"
    and by_card: "P l \<Longrightarrow> find (\<lambda>b. block_conversation b = Some conv) (bl_blocks l) = None \<Longrightarrow>
      P (fst (push_agent_view_block vt conv label l))"
    and by_resize: "P l \<Longrightarrow> P (list_resize vt sz l)"
begin

lemma by_owner: "P l \<Longrightarrow> P (associate_owner i l)"
  by (auto simp: associate_owner_def associate_with_conversation_def Let_def
      intro: by_visibility split: option.split block_owner.split prod.split)

lemma by_started: "P l \<Longrightarrow> P (started_owned es l)"
proof (induction es arbitrary: l)
  case (Cons e es)
  then show ?case by (cases e) (simp_all add: started_owned_def by_owner)
qed (simp add: started_owned_def)

lemma by_slice: "P (em_blocks (fst st)) \<Longrightarrow> P (em_blocks (fst (feed_slice vt ic bs st)))"
  by (cases st) (simp add: feed_slice_def by_bytes split: prod.splits)

lemma by_feed_hook: "P (em_blocks em) \<Longrightarrow> P (em_blocks (feed_hook vt now e em))"
  using by_hook [of "em_blocks em" now e] by (auto simp: feed_hook_def by_started split: prod.splits)

lemma by_hooks:
  "P (em_blocks (fst st)) \<Longrightarrow> P (em_blocks (fst (fst (feed_hooks vt ic clk staged n hs st cursor))))"
proof (induction hs arbitrary: n st cursor)
  case (Cons h hs)
  obtain at hook where "h = (at, hook)" by (rule prod.exhaust)
  then show ?case using Cons by (simp add: Let_def by_feed_hook by_slice)
qed simp

lemma by_read: "P (em_blocks em) \<Longrightarrow> P (em_blocks (emulator_feed vt hc ic clk em bs))"
proof -
  assume em: "P (em_blocks em)"
  obtain tap staged hooks where t: "tap_ordered hc (em_hooks em, [], []) bs = (tap, staged, hooks)" by (rule prod_cases3)
  obtain st cursor where f: "feed_hooks vt ic clk staged 0 hooks (em\<lparr>em_hooks := tap\<rparr>, []) 0 = (st, cursor)" by (rule prod.exhaust)
  have "P (em_blocks (fst st))" using by_hooks [of "(em\<lparr>em_hooks := tap\<rparr>, [])" ic clk staged 0 hooks 0] em f by simp
  then show ?thesis
    using by_slice [of st ic "drop cursor staged"] by (auto simp: emulator_feed_def t f split: prod.splits if_splits)
qed

lemma by_step: "P (em_blocks em) \<Longrightarrow> P (em_blocks (emulator_step vt hc ic em op))"
proof (cases op)
  case (EmCard conv label)
  then show "P (em_blocks em) \<Longrightarrow> ?thesis"
    using by_card [of "em_blocks em" conv label] by (auto simp: push_card_def split: option.splits prod.splits)
qed (auto simp: by_read claim_active_block_def claim_next_pre_exec_def run_block_for_conversation_def set_visibility_def
    emulator_resize_def emulator_scroll_def take_osc_events_def take_block_events_def take_hook_events_def Let_def
    intro: by_claim by_visibility by_resize split: option.splits prod.splits)

lemma in_every_pane: "P (em_blocks (pane vt hc ic columns lines ops))"
  unfolding pane_def
  by (induction ops rule: rev_induct) (simp_all add: emulator_new_def at_start by_step Let_def)

end

section \<open>An output screen nothing was written to\<close>

text \<open>A new screen that has at most been resized and reset.\<close>

inductive unwritten :: "'t vt \<Rightarrow> 't screen \<Rightarrow> bool" for vt :: "'t vt" where
  un_new: "unwritten vt (screen_new vt sz block_config)"
| un_resize: "unwritten vt s \<Longrightarrow> unwritten vt (screen_resize vt sz s)"
| un_reset: "unwritten vt s \<Longrightarrow> unwritten vt (screen_reset vt s)"

text \<open>What is shown before the command runs (the prompt, the echo of what is typed) goes to the screen of
  the command line: the output screen of a block whose command has not started is unwritten.\<close>

definition block_fresh :: "'t vt \<Rightarrow> 't block \<Rightarrow> bool" where
  "block_fresh vt b \<longleftrightarrow> (bk_state b = BeforeExecution \<longrightarrow> unwritten vt (bk_output b))"

definition list_fresh :: "'t vt \<Rightarrow> 't block_list \<Rightarrow> bool" where
  "list_fresh vt l \<longleftrightarrow> (\<forall>b \<in> set (bl_blocks l). block_fresh vt b)"

lemma fresh_on_active:
  assumes "list_fresh vt l" "\<And>b. block_fresh vt b \<Longrightarrow> block_fresh vt (f b)"
  shows "list_fresh vt (on_active f l)"
proof (cases "bl_active l < length (bl_blocks l)")
  case True
  then show ?thesis
    using assms by (auto simp: list_fresh_def on_active_def active_block_def dest!: subsetD [OF set_update_subset_insert])
next
  case False
  then show ?thesis using assms(1) by (simp add: list_fresh_def on_active_def list_update_beyond)
qed

lemma fresh_push: "list_fresh vt l \<Longrightarrow> list_fresh vt (push_block vt l)"
  by (auto simp: list_fresh_def push_block_def block_fresh_def block_new_def un_new)

lemma fresh_fields [simp]:
  "list_fresh vt (l\<lparr>bl_session := x1\<rparr>) = list_fresh vt l" "list_fresh vt (l\<lparr>bl_bootstrapped := x2\<rparr>) = list_fresh vt l"
  "list_fresh vt (l\<lparr>bl_pending_claim := x3\<rparr>) = list_fresh vt l" "list_fresh vt (l\<lparr>bl_gaps := x4\<rparr>) = list_fresh vt l"
  "list_fresh vt (l\<lparr>bl_input_buffer := x5, bl_input_cursor := x6\<rparr>) = list_fresh vt l"
  by (simp_all add: list_fresh_def)

lemma fresh_block_ops:
  assumes "block_fresh vt b"
  shows "block_fresh vt (block_feed vt ic bs b)" "block_fresh vt (promote_to_background b)"
    "block_fresh vt (set_metadata v b)" "block_fresh vt (block_preexec now cmd b)" "block_fresh vt (b\<lparr>bk_owner := ow\<rparr>)"
    "block_fresh vt (block_finish vt now code b)" "block_fresh vt (block_clear vt b)" "block_fresh vt (block_resize vt sz b)"
    "block_fresh vt (b\<lparr>bk_visibility := vis\<rparr>)" "block_fresh vt (b\<lparr>bk_index := n\<rparr>)"
  using assms
  by (auto simp: block_fresh_def block_feed_def promote_to_background_def set_metadata_def block_preexec_def block_finish_def
      block_freeze_def block_clear_def block_resize_def intro: un_reset un_resize split: block_state.splits)

lemma fresh_drain: "list_fresh vt l \<Longrightarrow> list_fresh vt (drain_before_active l)"
  unfolding list_fresh_def using drained_blocks fresh_block_ops(10) by metis

lemma fresh_hook: "list_fresh vt l \<Longrightarrow> list_fresh vt (fst (apply_hook vt now e l))"
proof (cases e)
  case (Precmd v)
  assume l: "list_fresh vt l"
  define l1 where "l1 = (case pc_pwd v of None \<Rightarrow> l | Some d \<Rightarrow> l\<lparr>bl_session := (bl_session l)\<lparr>se_cwd := Some d\<rparr>\<rparr>)"
  have "list_fresh vt l1" using l by (cases "pc_pwd v") (auto simp: l1_def)
  then show ?thesis
    unfolding Precmd apply_hook_def hook_event.case on_precmd_def l1_def [symmetric]
    by (auto simp: Let_def intro!: fresh_on_active fresh_push fresh_block_ops)
next
  case (Preexec cmd)
  assume "list_fresh vt l"
  then show ?thesis using Preexec
    by (auto simp: apply_hook_def on_preexec_def Let_def comp_def intro!: fresh_on_active fresh_block_ops split: option.split)
qed (auto simp: apply_hook_def init_shell_def on_bootstrapped_def on_command_finished_def on_clear_def Let_def
    intro!: fresh_on_active fresh_push fresh_block_ops fresh_drain)

interpretation fresh: pane_invariant vt "list_fresh vt" for vt
proof
  show "list_fresh vt (l\<lparr>bl_blocks := update_first Q (\<lambda>b. b\<lparr>bk_visibility := v\<rparr>) (bl_blocks l)\<rparr>)"
    if "list_fresh vt l" for vt Q v and l :: "'a block_list"
    using that by (auto simp: list_fresh_def fresh_block_ops dest!: set_update_first)
  show "list_fresh vt (list_feed vt ic bs l)" if "list_fresh vt l" for vt ic bs and l :: "'a block_list"
    using that by (simp add: list_feed_def fresh_on_active fresh_block_ops)
  show "list_fresh vt (list_resize vt sz l)" if "list_fresh vt l" for vt sz and l :: "'a block_list"
    using that by (simp add: list_fresh_def list_resize_def fresh_block_ops)
qed (auto simp: fresh_hook, auto simp: list_fresh_def list_new_def push_agent_view_block_def block_agent_view_def
    block_new_def block_fresh_def)

text \<open>C12. How the reads of the pty cut a session does not matter: for an emulator whose parser takes a
  stream of bytes (\<open>vt_stream\<close>; a synchronized update that overflows its buffer is outside of it), from any state a pane can get into, two
  sequences of reads of the same bytes leave it with the same blocks, screens, tap states, hooks, OSC
  events, block events and tool results. Placed images, revision counters and times are what may differ.\<close>

theorem session_reads_irrelevant:
  assumes "vt_stream vt" "concat (map snd reads) = concat (map snd reads')"
  shows "em_core (emulator_reads vt hc ic reads (pane vt hc ic columns lines ops)) =
    em_core (emulator_reads vt hc ic reads' (pane vt hc ic columns lines ops))"
proof (rule fed_same)
  note fed = reads_fed [OF assms(1) pane_ok [OF assms(1), of hc ic columns lines ops], of hc ic]
  show "fed_as vt hc ic (concat (map snd reads)) (pane vt hc ic columns lines ops)
      (emulator_reads vt hc ic reads (pane vt hc ic columns lines ops))"
    by (rule fed)
  show "fed_as vt hc ic (concat (map snd reads)) (pane vt hc ic columns lines ops)
      (emulator_reads vt hc ic reads' (pane vt hc ic columns lines ops))"
    unfolding assms(2) by (rule fed)
qed

theorem session_reads_irrelevant_witness:
  "em_core (emulator_reads sample_vt sample_codec sample_images [(\<lambda>_. (0, 0), ''ab'')]
     (pane sample_vt sample_codec sample_images 80 24 [])) =
   em_core (emulator_reads sample_vt sample_codec sample_images [(\<lambda>_. (1, 1), ''a''), (\<lambda>_. (2, 2), ''b'')]
     (pane sample_vt sample_codec sample_images 80 24 []))"
  by (rule session_reads_irrelevant [OF sample_vt_stream]) simp

section \<open>A claimed command\<close>

lemma update_unique:
  "distinct (map bk_id xs) \<Longrightarrow> n < length xs \<Longrightarrow> update_first (\<lambda>b. bk_id b = bk_id (xs ! n)) f xs = xs[n := f (xs ! n)]"
proof (induction xs arbitrary: n)
  case (Cons x xs)
  then show ?case by (cases n) (auto dest: nth_mem)
qed simp

lemma get_active:
  assumes "list_ok l"
  shows "get_block l (bk_id (active_block l)) = Some (active_block l)"
proof -
  note a = ok_has_active [OF assms]
  have "\<forall>i < bl_active l. bk_id (bl_blocks l ! i) \<noteq> bk_id (bl_blocks l ! bl_active l)"
    using ids_distinct [OF assms] a by (auto simp: distinct_conv_nth)
  then show ?thesis using a unfolding get_block_def active_block_def find_Some_iff by auto
qed

lemma associate_active:
  assumes "list_ok l" "bk_owner (active_block l) = Agent conv call"
  shows "associate_owner (bk_id (active_block l)) l =
    on_active (\<lambda>b. b\<lparr>bk_visibility := fst (associate conv (bk_visibility b))\<rparr>) l"
  using update_unique [OF ids_distinct [OF assms(1)] ok_has_active [OF assms(1)]] get_active [OF assms(1)] assms(2)
  by (simp add: associate_owner_def associate_with_conversation_def on_active_def associate_def active_block_def)

text \<open>The three steps: the shell starts the command in the claimed block, its output goes to that block,
  and its end turns the block into the result.\<close>

lemma preexec_claimed:
  assumes "list_ok l" "bk_state (active_block l) = BeforeExecution"
    and "bl_pending_claim l = Some \<lparr>cl_block = bk_id (active_block l), cl_owner = Agent conv call\<rparr>"
  obtains l' where "hooked vt now (Preexec (Some cmd)) l = (l', [BlockStarted (bk_id (active_block l))])" "list_ok l'"
    "active_block l' = (active_block l)\<lparr>bk_owner := Agent conv call, bk_command_text := cmd, bk_state := Executing,
       bk_started_at := Some (fst now), bk_started_wall := Some (snd now),
       bk_visibility := fst (associate conv (bk_visibility (active_block l)))\<rparr>"
proof -
  let ?l = "fst (on_preexec now (Some cmd) l)"
  let ?b = "(active_block l)\<lparr>bk_owner := Agent conv call, bk_command_text := cmd, bk_state := Executing,
      bk_started_at := Some (fst now), bk_started_wall := Some (snd now)\<rparr>"
  have h: "has_active (l\<lparr>bl_pending_claim := None\<rparr>)" "active_block (l\<lparr>bl_pending_claim := None\<rparr>) = active_block l"
    using ok_has_active [OF assms(1)] by (simp_all add: active_block_def)
  have act: "active_block ?l = ?b"
    using assms(2,3) h by (simp add: on_preexec_def Let_def active_on_active block_preexec_def)
  have ev: "snd (on_preexec now (Some cmd) l) = [BlockStarted (bk_id (active_block l))]"
    using act by (simp add: on_preexec_def Let_def)
  note ok = preexec_ok [OF assms(1), of now "Some cmd"]
  let ?v = "\<lambda>b. b\<lparr>bk_visibility := fst (associate conv (bk_visibility b))\<rparr>"
  have as: "associate_owner (bk_id (active_block l)) ?l = on_active ?v ?l"
    using associate_active [OF ok, of conv call] act by simp
  show ?thesis
  proof (rule that)
    show "hooked vt now (Preexec (Some cmd)) l = (on_active ?v ?l, [BlockStarted (bk_id (active_block l))])"
      using ev as by (auto simp: hooked_def apply_hook_def started_owned_def split: prod.splits)
    show "list_ok (on_active ?v ?l)" using associate_ok [OF ok, of "bk_id (active_block l)"] as by simp
    show "active_block (on_active ?v ?l) = ?b\<lparr>bk_visibility := fst (associate conv (bk_visibility (active_block l)))\<rparr>"
      using ok_has_active [OF ok] act by (simp add: active_on_active)
  qed
qed

lemma finish_claimed:
  assumes "has_active l"
  shows "hooked vt now (CommandFinished v) l =
    (push_block vt (on_active (block_finish vt now (cf_exit_code v)) l),
     BlockFinished (bk_id (active_block l)) (cf_exit_code v) (cf_exit_code v \<noteq> 0) #
       result_events (tool_result_of vt (active_block l) (Finished (cf_exit_code v))))"
proof -
  have out: "output_text vt (block_finish vt now code b) = output_text vt b" for code and b :: "'a block"
    by (simp add: output_text_def output_lines_def content_lines_def block_finish_def block_freeze_def screen_freeze_def)
  have key: "bk_id (block_finish vt now code b) = bk_id b" "bk_owner (block_finish vt now code b) = bk_owner b"
      "bk_command_text (block_finish vt now code b) = bk_command_text b" "has_failed (block_finish vt now code b) = (code \<noteq> 0)"
    for code and b :: "'a block"
    by (simp_all add: block_finish_def block_freeze_def has_failed_def)
  have "tool_result_of vt (block_finish vt now code b) o' = tool_result_of vt b o'" for code o' and b :: "'a block"
    by (simp add: tool_result_of_def out key split: block_owner.splits)
  then show ?thesis
    using assms by (auto simp: hooked_def apply_hook_def on_command_finished_def Let_def active_on_active key started_owned_def
        result_events_def split: option.splits)
qed

lemma fed_active:
  assumes "vt_stream vt" "list_ok l" "bk_state (active_block l) = Executing"
  shows "block_core (active_block (list_feed vt ic bs l)) =
    block_core ((active_block l)\<lparr>bk_output := screen_feed vt ic (bk_output (active_block l)) bs\<rparr>)"
proof (cases "bs = []")
  case True
  have "screen_core (screen_feed vt ic s []) = screen_core s" for s
    unfolding screen_core_iff by (rule chunked_reader.feed_empty [OF chunked_screen [OF assms(1)]])
  then show ?thesis using True by (simp add: list_feed_def block_core_iff)
next
  case False
  then show ?thesis
    using assms(2,3) ok_has_active [OF assms(2)]
    by (simp add: list_feed_def active_on_active block_feed_def list_ok_def active_ok_def)
qed

lemma claimed_tokens:
  assumes "vt_stream vt" "list_ok l" "bk_state (active_block l) = BeforeExecution"
    and "bl_pending_claim l = Some \<lparr>cl_block = bk_id (active_block l), cl_owner = Agent conv call\<rparr>"
  shows "snd (block_tokens vt ic (Inr (Preexec (Some cmd)) # map Inl out @ [Inr (CommandFinished v)]) l) =
    [BlockStarted (bk_id (active_block l)), BlockFinished (bk_id (active_block l)) (cf_exit_code v) (cf_exit_code v \<noteq> 0),
     ToolResult \<lparr>tr_block = bk_id (active_block l), tr_conversation_id = conv, tr_call_id = call, tr_command = cmd,
       tr_output = output_text vt ((active_block l)\<lparr>bk_output := screen_feed vt ic (bk_output (active_block l)) out\<rparr>),
       tr_outcome = Finished (cf_exit_code v)\<rparr>]"
proof -
  obtain l1 where l1: "hooked vt (0, 0) (Preexec (Some cmd)) l = (l1, [BlockStarted (bk_id (active_block l))])" "list_ok l1"
      "active_block l1 = (active_block l)\<lparr>bk_owner := Agent conv call, bk_command_text := cmd, bk_state := Executing,
         bk_started_at := Some 0, bk_started_wall := Some 0,
         bk_visibility := fst (associate conv (bk_visibility (active_block l)))\<rparr>"
    by (rule preexec_claimed [OF assms(2-4), where vt = vt and now = "(0, 0)" and cmd = cmd]) simp
  let ?l2 = "list_feed vt ic out l1" and ?l3 = "fst (block_tokens vt ic (map Inl out) l1)"
  let ?b = "(active_block l1)\<lparr>bk_output := screen_feed vt ic (bk_output (active_block l1)) out\<rparr>"
  note bytes = tokens_bytes [OF assms(1) l1(2), of ic out]
  have "list_ok ?l3" using tokens_ok [OF l1(2)] .
  note ev = core_hooked [OF conjunct1 [OF bytes] this, of vt "(0, 0)" "CommandFinished v" "(0, 0)"]
  have "has_active ?l2" using ok_has_active [OF feed_ok [OF l1(2)]] .
  note fin = finish_claimed [OF this, of vt "(0, 0)" v]
  have b: "block_core (active_block ?l2) = block_core ?b" using fed_active [OF assms(1) l1(2), of ic out] l1(3) by simp
  then have "bk_id (active_block ?l2) = bk_id ?b" by (simp add: block_core_iff)
  moreover have "output_text vt ?b = output_text vt ((active_block l)\<lparr>bk_output := screen_feed vt ic (bk_output (active_block l)) out\<rparr>)"
    using l1(3) by (simp add: output_text_def output_lines_def)
  ultimately show ?thesis
    using l1 bytes ev fin core_result [OF b, of vt] by (simp add: tokens_append tool_result_of_def result_events_def)
qed

text \<open>The text shown by a screen, as a tool result quotes it.\<close>

definition shown_text :: "'t vt \<Rightarrow> 't screen \<Rightarrow> string" where
  "shown_text vt s = join [CHR 0x0A] (map line_text (trimmed (content_lines vt s)))"

lemma output_shown: "output_text vt (b\<lparr>bk_output := s\<rparr>) = shown_text vt s"
  by (simp add: output_text_def output_lines_def shown_text_def)

text \<open>C11. The agent's tool call gets its own command's result: after a claim that was accepted, when the
  shell reports the command, prints its output and reports the exit code, then however the reads cut that
  stream the pane records the start, the end and one tool result, addressed to the call that claimed the
  block, with the command line and the exit code. The text of the result is what a screen shows that was
  new, at most resized and reset, and was then given exactly that output: nothing of the prompt, of the
  echo of the command or of another command is in it. The claim is made in a state that any use of the
  pane leads to, with its hook tap between two envelopes; the two envelopes are decoded by the shell's
  codec and below the bound of the tap, the output holds no start of an envelope and does not end inside an
  escape sequence, and the emulator takes its bytes as a stream.\<close>

theorem claimed_command_result:
  assumes "vt_stream vt" "em = pane vt hc ic columns lines ops" "hook_state (em_hooks em) = HookGround"
    and "claim_active_block (Agent conv call) em = (em1, True)"
    and "envelope_ok hc (Preexec (Some cmd))" "plain out" "envelope_ok hc (CommandFinished v)"
    and "concat (map snd reads) = encode_hook hc (Preexec (Some cmd)) @ out @ encode_hook hc (CommandFinished v)"
  shows "\<exists>s. unwritten vt s \<and>
    em_block_events (emulator_reads vt hc ic reads em1) = em_block_events em @
    (let i = bk_id (active_block (em_blocks em)); code = cf_exit_code v in
     [BlockStarted i, BlockFinished i code (code \<noteq> 0),
      ToolResult \<lparr>tr_block = i, tr_conversation_id = conv, tr_call_id = call, tr_command = cmd,
        tr_output = shown_text vt (screen_feed vt ic s out), tr_outcome = Finished code\<rparr>])"
proof -
  let ?l = "em_blocks em" and ?l1 = "em_blocks em1"
  let ?ts = "Inr (Preexec (Some cmd)) # map Inl out @ [Inr (CommandFinished v)]"
  have ok: "list_ok ?l" using pane_ok [OF assms(1)] assms(2) by simp
  have l1: "?l1 = ?l\<lparr>bl_pending_claim := Some \<lparr>cl_block = bk_id (active_block ?l), cl_owner = Agent conv call\<rparr>\<rparr>"
      "bk_state (active_block ?l) = BeforeExecution" "em_hooks em1 = em_hooks em" "em_block_events em1 = em_block_events em"
    using assms(4) by (auto simp: claim_active_block_def claim_next_pre_exec_def split: if_splits)
  have act: "active_block ?l1 = active_block ?l" by (simp add: l1(1) active_block_def)
  have "list_fresh vt ?l" using fresh.in_every_pane assms(2) by blast
  then have un: "unwritten vt (bk_output (active_block ?l))"
    using l1(2) active_good [of ?l] ok by (auto simp: list_fresh_def block_fresh_def list_ok_def)
  have "list_ok ?l1" using ok by (simp add: l1(1))
  moreover from reads_fed [OF assms(1) this, of hc ic reads]
  have "em_block_events (emulator_reads vt hc ic reads em1) = em_block_events em @ snd (block_tokens vt ic ?ts ?l1)"
    using pieces_read [of hc "[Hook (Preexec (Some cmd)), Output out, Hook (CommandFinished v)]" "em_hooks em"] assms(3,5-8) l1(3,4)
    by (simp add: fed_as_def reads_as_def)
  ultimately show ?thesis
    using claimed_tokens [OF assms(1), of ?l1 conv call ic cmd out v] l1 act un output_shown
    by (intro exI [of _ "bk_output (active_block ?l)"]) (simp add: Let_def)
qed

text \<open>A shell and an emulator for the examples: the JSON is the name of the hook, and the emulator
  keeps the bytes on one line and clears it at a reset.\<close>

definition shell_codec :: hook_codec where
  "shell_codec =
     \<lparr>hex_encode = sample_hex, hex_decode = sample_unhex,
      to_vec = (\<lambda>e. case e of HookBootstrapped _ \<Rightarrow> ''B'' | Preexec _ \<Rightarrow> ''P'' | _ \<Rightarrow> ''F''),
      from_slice = (\<lambda>s. if s = ''B'' then Ok (HookBootstrapped None) else if s = ''P'' then Ok (Preexec (Some ''ls''))
                        else Ok (CommandFinished \<lparr>cf_exit_code = 0, cf_next_block_id = None\<rparr>))\<rparr>"

definition line_step :: "bool \<times> string \<Rightarrow> char \<Rightarrow> bool \<times> string" where
  "line_step t c =
     (if fst t then (False, if c = CHR ''c'' then [] else snd t) else if c = ESC then (True, snd t) else (False, snd t @ [c]))"

definition line_vt :: "(bool \<times> string) vt" where
  "line_vt =
     (let row = map (\<lambda>c. \<lparr>cell_ch = [c], cell_wide_spacer = False, cell_leading_wide_spacer = False, cell_zerowidth = []\<rparr>) in
      \<lparr>vt_new = (\<lambda>_ _. (False, [])), vt_resize = (\<lambda>_ t. t), vt_advance = foldl line_step, vt_scroll = (\<lambda>_ t. t), vt_alt = (\<lambda>_. False),
       vt_cursor = (\<lambda>_. (0, 0)), vt_total_lines = (\<lambda>_. 1), vt_grid_lines = (\<lambda>_. 1), vt_display_offset = (\<lambda>_. 0),
       vt_rows = (\<lambda>t. [row (snd t)]), vt_visible_rows = (\<lambda>t. [row (snd t)])\<rparr>)"

lemma line_vt_stream: "vt_stream line_vt"
  by (simp add: vt_stream_def line_vt_def Let_def)

lemma line_unwritten:
  "unwritten line_vt s \<Longrightarrow> sn_term s = (False, []) \<and> \<not> sn_frozen s \<and> sn_image_tap s = image_tap_new"
  by (induction rule: unwritten.induct)
    (simp_all add: screen_new_def screen_resize_def screen_reset_def line_vt_def line_step_def Let_def)

lemma shell_envelopes:
  "envelope_ok shell_codec (HookBootstrapped None)" "envelope_ok shell_codec (Preexec (Some ''ls''))"
  "envelope_ok shell_codec (CommandFinished \<lparr>cf_exit_code = 0, cf_next_block_id = None\<rparr>)"
  by (simp_all add: envelope_ok_def shell_codec_def sample_hex_def hex_char_def ESC_def HOOK_MAX_BODY_def hex_digit_def Let_def)
    code_simp+

lemma booted_pane:
  fixes c :: "nat \<Rightarrow> clock"
  defines "em \<equiv> pane line_vt shell_codec sample_images 80 24 [EmRead c (encode_hook shell_codec (HookBootstrapped None))]"
  shows "hook_state (em_hooks em) = HookGround" "em_block_events em = [Bootstrapped]"
    "block_core (active_block (em_blocks em)) = block_core (block_new line_vt 2 1 \<lparr>ss_columns = 80, ss_lines = 24\<rparr> BeforeExecution)"
proof -
  let ?new = "emulator_new line_vt 80 24" and ?sz = "\<lparr>ss_columns = 80, ss_lines = 24\<rparr>"
  have new: "em_hooks ?new = hook_new" "em_blocks ?new = list_new line_vt ?sz" "em_block_events ?new = []"
    by (simp_all add: emulator_new_def Let_def)
  have "list_ok (em_blocks ?new)" by (simp add: new new_ok)
  from feed_fed [OF line_vt_stream this, of shell_codec sample_images "encode_hook shell_codec (HookBootstrapped None)" c]
  have fed: "fed_as line_vt shell_codec sample_images (encode_hook shell_codec (HookBootstrapped None)) ?new em"
    by (simp add: em_def pane_def)
  have t: "hook_after shell_codec hook_new (encode_hook shell_codec (HookBootstrapped None)) = hook_new"
      "hook_tokens shell_codec hook_new (encode_hook shell_codec (HookBootstrapped None)) = [Inr (HookBootstrapped None)]"
    using envelope_lifted [OF shell_envelopes(1), of hook_new] by (simp_all add: hook_new_def)
  show "hook_state (em_hooks em) = HookGround" using fed t(1) by (simp add: fed_as_def new) (simp add: hook_new_def)
  let ?l = "fst (hooked line_vt (0, 0) (HookBootstrapped None) (list_new line_vt ?sz))"
  have h: "active_block ?l = block_new line_vt 2 1 ?sz BeforeExecution"
      "snd (hooked line_vt (0, 0) (HookBootstrapped None) (list_new line_vt ?sz)) = [Bootstrapped]"
    by (simp_all add: hooked_def apply_hook_def on_bootstrapped_def push_block_def started_owned_def active_block_def list_new_def)
  have r: "list_core (em_blocks em) = list_core ?l" "em_block_events em = [Bootstrapped]" "list_ok (em_blocks em)"
    using fed h(2) by (simp_all add: fed_as_def reads_as_def new t)
  then show "em_block_events em = [Bootstrapped]" by simp
  show "block_core (active_block (em_blocks em)) = block_core (block_new line_vt 2 1 ?sz BeforeExecution)"
    using core_active [OF r(1) ok_has_active [OF r(3)]] h(1) by simp
qed

theorem claimed_command_result_witness:
  "let clock = (\<lambda>_. (0, 0)); done = CommandFinished \<lparr>cf_exit_code = 0, cf_next_block_id = None\<rparr>;
       em = pane line_vt shell_codec sample_images 80 24 [EmRead clock (encode_hook shell_codec (HookBootstrapped None))];
       em1 = fst (claim_active_block (Agent ''chat'' ''call'') em);
       wire = encode_hook shell_codec (Preexec (Some ''ls'')) @ ''a b'' @ encode_hook shell_codec done
   in em_block_events (emulator_reads line_vt shell_codec sample_images [(clock, take 8 wire), (clock, drop 8 wire)] em1) =
      [Bootstrapped, BlockStarted 2, BlockFinished 2 0 False,
       ToolResult \<lparr>tr_block = 2, tr_conversation_id = ''chat'', tr_call_id = ''call'', tr_command = ''ls'',
         tr_output = ''a b'', tr_outcome = Finished 0\<rparr>]"
proof -
  define clock :: "nat \<Rightarrow> clock" where "clock = (\<lambda>_. (0, 0))"
  define em where "em = pane line_vt shell_codec sample_images 80 24 [EmRead clock (encode_hook shell_codec (HookBootstrapped None))]"
  let ?v = "\<lparr>cf_exit_code = 0, cf_next_block_id = None\<rparr>" and ?new = "block_new line_vt 2 1 \<lparr>ss_columns = 80, ss_lines = 24\<rparr> BeforeExecution"
  define wire where "wire = encode_hook shell_codec (Preexec (Some ''ls'')) @ ''a b'' @ encode_hook shell_codec (CommandFinished ?v)"
  have "concat (map snd [(clock, take 8 wire), (clock, drop 8 wire)]) = wire" by simp
  note wire = trans [OF this wire_def]
  note boot = booted_pane [of clock, folded em_def]
  have b: "bk_id (active_block (em_blocks em)) = 2" "bk_state (active_block (em_blocks em)) = BeforeExecution"
    using boot(3) by (simp_all add: block_core_iff block_new_def)
  then have claim: "claim_active_block (Agent ''chat'' ''call'') em = (fst (claim_active_block (Agent ''chat'' ''call'') em), True)"
    by (simp add: claim_active_block_def claim_next_pre_exec_def)
  have "shown_text line_vt (screen_feed line_vt sample_images s ''a b'') = ''a b''" if "unwritten line_vt s" for s
    using line_unwritten [OF that]
    by (simp add: shown_text_def trimmed_def content_lines_def screen_feed_def
        tap_images_def image_step_def image_tap_new_def ESC_def push_bytes_def screen_chunk_def screen_advance_def line_vt_def
        line_step_def is_blank_def line_text_def trim_end_def trim_rev.simps [of "''b a''"] ws1_def ws2_def ws3_def Let_def)
  moreover have "plain ''a b''" by (simp add: plain.simps ESC_def)
  note claimed_command_result [OF line_vt_stream em_def boot(1) claim shell_envelopes(2) this shell_envelopes(3) wire]
  ultimately have "em_block_events (emulator_reads line_vt shell_codec sample_images [(clock, take 8 wire), (clock, drop 8 wire)]
      (fst (claim_active_block (Agent ''chat'' ''call'') em))) =
      [Bootstrapped, BlockStarted 2, BlockFinished 2 0 False,
       ToolResult \<lparr>tr_block = 2, tr_conversation_id = ''chat'', tr_call_id = ''call'', tr_command = ''ls'',
         tr_output = ''a b'', tr_outcome = Finished 0\<rparr>]"
    by (auto simp: boot(2) b Let_def simp del: emulator_reads.simps)
  then show ?thesis unfolding em_def wire_def clock_def Let_def .
qed

section \<open>Conversation cards\<close>

definition kinds :: "'t block_list \<Rightarrow> block_kind list" where
  "kinds l = map bk_kind (bl_blocks l)"

definition kind_cards :: "block_kind list \<Rightarrow> string list" where
  "kind_cards ks = List.map_filter (\<lambda>k. case k of Shell \<Rightarrow> None | AgentView conv _ \<Rightarrow> Some conv) ks"

lemma kind_cards_blocks: "List.map_filter block_conversation bs = kind_cards (map bk_kind bs)"
  by (simp add: kind_cards_def map_filter_def filter_map comp_def block_conversation_def)

lemma kind_cards_append: "kind_cards (a @ b) = kind_cards a @ kind_cards b"
  by (simp add: kind_cards_def map_filter_def)

lemma kinds_on_active:
  assumes "\<And>b. bk_kind (f b) = bk_kind b"
  shows "kinds (on_active f l) = kinds l"
proof (rule nth_equalityI)
  fix i assume "i < length (kinds (on_active f l))"
  then show "kinds (on_active f l) ! i = kinds l ! i"
    using assms by (cases "bl_active l = i") (simp_all add: kinds_def on_active_def active_block_def)
qed (simp add: kinds_def on_active_def)

lemma kinds_push: "kinds (push_block vt l) = kinds l @ [Shell]"
  by (simp add: kinds_def push_block_def block_new_def)

lemma kinds_drain: "\<exists>n. kinds (drain_before_active l) = drop n (kinds l)"
proof -
  have "map bk_kind (map (\<lambda>(i, b). b\<lparr>bk_index := i\<rparr>) (enumerate n bs)) = map bk_kind bs" for n and bs :: "'a block list"
    by (induction bs arbitrary: n) simp_all
  then have "kinds (drain_before_active l) = drop (bl_active l) (kinds l)" by (simp add: kinds_def drain_before_active_def drop_map)
  then show ?thesis by blast
qed

lemma kinds_vis: "kinds (l\<lparr>bl_blocks := update_first P (\<lambda>b. b\<lparr>bk_visibility := v\<rparr>) (bl_blocks l)\<rparr>) = kinds l"
  by (simp add: kinds_def update_first_map)

lemma kinds_started: "kinds (started_owned es l) = kinds l"
proof (induction es arbitrary: l)
  case (Cons e es)
  have "kinds (associate_owner i m) = kinds m" for i and m :: "'a block_list"
    by (auto simp: associate_owner_def associate_with_conversation_def kinds_vis Let_def
        split: option.splits block_owner.splits prod.splits)
  then show ?case using Cons by (cases e) (simp_all add: started_owned_def)
qed (simp add: started_owned_def)

text \<open>A hook forgets the oldest blocks or adds shell blocks.\<close>

lemma kinds_hook: "\<exists>n ys. kinds (fst (apply_hook vt now e l)) = drop n (kinds l) @ ys \<and> set ys \<subseteq> {Shell}"
proof -
  have same: "\<exists>n ys. kinds l = drop n (kinds l) @ ys \<and> set ys \<subseteq> {Shell}" by (rule exI [of _ 0]) simp
  have more: "\<exists>n ys. kinds l @ [Shell] = drop n (kinds l) @ ys \<and> set ys \<subseteq> {Shell}" by (rule exI [of _ 0]) simp
  have less: "\<exists>n ys. kinds (drain_before_active l) = drop n (kinds l) @ ys \<and> set ys \<subseteq> {Shell}"
    using kinds_drain [of l] by (metis append_Nil2 empty_set empty_subsetI)
  have keep: "bk_kind (promote_to_background b) = bk_kind b" "bk_kind (set_metadata v b) = bk_kind b"
      "bk_kind (block_preexec now cmd b) = bk_kind b" "bk_kind (block_finish vt now code b) = bk_kind b"
      "bk_kind (block_clear vt b) = bk_kind b" for b :: "'a block" and v cmd code
    by (simp_all add: promote_to_background_def set_metadata_def block_preexec_def block_finish_def block_freeze_def block_clear_def)
  have upd: "kinds (l\<lparr>bl_session := s\<rparr>) = kinds l" "kinds (l\<lparr>bl_bootstrapped := t\<rparr>) = kinds l" "kinds (l\<lparr>bl_pending_claim := p\<rparr>) = kinds l"
      "kinds (l\<lparr>bl_input_buffer := i, bl_input_cursor := n\<rparr>) = kinds l" "kinds (m\<lparr>bl_gaps := g\<rparr>) = kinds m"
    for s t p i n g and m :: "'a block_list"
    by (simp_all add: kinds_def)
  show ?thesis
  proof (cases e)
    case (Precmd v)
    then show ?thesis using same more
      by (auto simp: apply_hook_def on_precmd_def Let_def kinds_on_active keep kinds_push upd split: option.splits)
  next
    case (Preexec cmd)
    have "bk_kind ((block_preexec now c \<circ> (\<lambda>b. case bl_pending_claim l of
        Some claim \<Rightarrow> if cl_block claim = bk_id b then b\<lparr>bk_owner := cl_owner claim\<rparr> else b | None \<Rightarrow> b)) b) = bk_kind b"
      for c and b :: "'a block"
      by (simp add: keep split: option.splits)
    then show ?thesis using same Preexec by (simp add: apply_hook_def on_preexec_def Let_def kinds_on_active upd)
  qed (use same more less in \<open>simp_all add: apply_hook_def init_shell_def on_bootstrapped_def on_command_finished_def on_clear_def
      Let_def kinds_on_active keep kinds_push upd\<close>)
qed

definition one_card :: "'t block_list \<Rightarrow> bool" where
  "one_card l \<longleftrightarrow> distinct (kind_cards (kinds l))"

lemma one_card_cut:
  assumes "one_card l" "kinds l' = drop n (kinds l) @ ys" "set ys \<subseteq> {Shell}"
  shows "one_card l'"
proof -
  have "kind_cards ys = []" using assms(3) by (auto simp: kind_cards_def map_filter_def filter_empty_conv)
  moreover have "kind_cards (take n (kinds l)) @ kind_cards (drop n (kinds l)) = kind_cards (kinds l)"
    by (metis kind_cards_append append_take_drop_id)
  ultimately show ?thesis using assms(1,2) unfolding one_card_def by (metis append_Nil2 distinct_append kind_cards_append)
qed

lemma one_card_feed: "one_card l \<Longrightarrow> one_card (list_feed vt ic bs l)"
  by (simp add: list_feed_def one_card_def kinds_on_active)

lemma one_card_hook: "one_card l \<Longrightarrow> one_card (fst (apply_hook vt now e l))"
  using kinds_hook [of vt now e l] one_card_cut by blast

lemma one_card_push:
  assumes "one_card l" "find (\<lambda>b. block_conversation b = Some conv) (bl_blocks l) = None"
  shows "one_card (fst (push_agent_view_block vt conv label l))"
proof -
  have "conv \<notin> set (kind_cards (kinds l))"
    using assms(2) by (auto simp: find_None_iff kinds_def kind_cards_blocks [symmetric] map_filter_def)
  then show ?thesis
    using assms(1)
    by (simp add: push_agent_view_block_def one_card_def kinds_def block_agent_view_def kind_cards_append)
      (simp add: kind_cards_def map_filter_def)
qed

lemma one_card_new: "one_card (list_new vt sz)"
  by (simp add: one_card_def list_new_def kinds_def block_new_def kind_cards_def map_filter_def)

interpretation cards: pane_invariant vt one_card for vt
proof
  show "one_card (list_resize vt sz l)" if "one_card l" for vt sz and l :: "'a block_list"
    using that by (simp add: one_card_def kinds_def list_resize_def block_resize_def comp_def)
qed (simp_all add: one_card_new one_card_feed one_card_hook one_card_push, simp_all add: one_card_def kinds_vis,
    simp add: kinds_def)

lemma find_last: "find P xs = None \<Longrightarrow> P x \<Longrightarrow> find P (xs @ [x]) = Some x"
  by (induction xs) (auto split: if_splits)

lemma push_card_again:
  assumes "push_card vt conv label em = (em1, i)"
  shows "list_ex (\<lambda>b. bk_id b = i \<and> block_conversation b = Some conv) (bl_blocks (em_blocks em1))"
    "push_card vt conv other em1 = (em1, i)"
proof -
  let ?P = "\<lambda>b. block_conversation b = Some conv"
  have "\<exists>b. find ?P (bl_blocks (em_blocks em1)) = Some b \<and> bk_id b = i"
  proof (cases "find ?P (bl_blocks (em_blocks em))")
    case None
    let ?b = "block_agent_view vt (bl_next_id (em_blocks em)) (length (bl_blocks (em_blocks em))) (bl_size (em_blocks em)) conv label"
    have "?P ?b" "bk_id ?b = bl_next_id (em_blocks em)"
      by (simp_all add: block_agent_view_def block_new_def block_conversation_def)
    then show ?thesis using assms None find_last [OF None, of ?b] by (auto simp: push_card_def push_agent_view_block_def)
  qed (use assms in \<open>auto simp: push_card_def\<close>)
  then obtain b where b: "find ?P (bl_blocks (em_blocks em1)) = Some b" "bk_id b = i" by blast
  then show "push_card vt conv other em1 = (em1, i)" by (simp add: push_card_def)
  show "list_ex (\<lambda>b. bk_id b = i \<and> ?P b) (bl_blocks (em_blocks em1))" using b by (auto simp: find_Some_iff list_ex_length)
qed

text \<open>C29. A conversation leaves one card: in every state of a pane no two blocks stand for the same
  conversation, and entering a conversation again returns the card that is there and changes nothing.\<close>

theorem one_card_per_conversation:
  "let em = pane vt hc ic columns lines ops; (em1, i) = push_card vt conv label em in
   distinct (List.map_filter block_conversation (bl_blocks (em_blocks em))) \<and>
   list_ex (\<lambda>b. bk_id b = i \<and> block_conversation b = Some conv) (bl_blocks (em_blocks em1)) \<and>
   push_card vt conv other em1 = (em1, i)"
proof -
  let ?em = "pane vt hc ic columns lines ops"
  have "one_card (em_blocks ?em)" by (rule cards.in_every_pane)
  then have "distinct (List.map_filter block_conversation (bl_blocks (em_blocks ?em)))"
    by (simp add: one_card_def kinds_def kind_cards_blocks)
  moreover obtain em1 i where "push_card vt conv label ?em = (em1, i)" by (rule prod.exhaust)
  note this push_card_again [OF this]
  ultimately show ?thesis by (simp add: Let_def)
qed

section \<open>Rows of the viewport\<close>

text \<open>A row of the viewport, turned into a row of the content, is painted where it was.\<close>

lemma viewport_row:
  "absolute_line vt em row = Some line \<Longrightarrow> row < ss_lines (sn_size (em_screen em)) \<Longrightarrow>
   visible_row_of vt (em_screen em) line = Some row"
  by (auto simp: absolute_line_def visible_row_of_def Let_def split: if_splits)

end
