(* ===== verification/Spec2Isabelle.thy ===== *)
theory Spec2Isabelle
  imports Desktop_Restart Subagent_Run Agent_Daemon Terminal_Session
begin

text \<open>
  \<^bold>\<open>Goble: the reversible agent daemon, its durable store, its workflows, its agents, their sub-agents, their tools and its terminal.\<close>

  Goble is a desktop environment for coding agents. A client sends a turn to a daemon, the daemon
  resolves a harness and drains the harness's event stream, mirroring each event to the client and
  recording it in a per-session transcript ledger that can be rewound, forked and replayed. Settled
  ledgers are handed to a checkpoint sink backed by SQLite, from which the next start seeds the
  daemon. Workflows, declarative or scripted, run their steps as turns through a blocking seam of the
  same daemon. A turn of the main agent plans, streams replies into the conversation's rows, runs the calls of
  a reply and stops for the user at a question or a command. Inside a turn an agent may spawn children, which run under a budget and are held in a
  registry that can cancel them as a tree and accounts for their spend. An agent acts through tools:
  the file tools are held to the workspace directory and record a diff of what they changed, which the
  transcript parses back, and commands run on an allow-list in a sandbox, or after an approval.
  A command may also run in a terminal pane: the pane's emulator lifts the shell's hooks and images out of the
  byte stream, keeps a block per command, and turns the block of a claimed command into the result of the
  tool call.

  \<^bold>\<open>Theories, parts of the program, and what is shown.\<close>

  \<^item> \<open>Goble_Prelude\<close>: results, machine integers with saturation, decimal rendering, Rust string
    functions, path joining, the \<open>keyed_store\<close> contract of hash maps and primary-key tables, reachable
    states and the \<open>inductive_invariant\<close> contract.
  \<^item> \<open>Harness_Types\<close>: identifiers, turns, harness events, the harness interface and its registry
    (\<open>crates/goble-harness-types\<close>, \<open>goble-harness-protocol\<close>, \<open>goble-harness-runtime\<close>). A run of a harness is a
    function from the clock and the turn to the list of events it will stream.
  \<^item> \<open>Replay_Ledger\<close>: \<open>ReplayLedger\<close> (\<open>crates/goble-replay/src/lib.rs\<close>), one definition per method. Indices stay contiguous; rewind, fork, restore and the
    select/apply/release/discard protocol are characterised on every branch; interleaved writers land
    on their own turn.
  \<^item> \<open>Checkpoint_Store\<close>: the SQLite store (\<open>crates/goble-persistence/src/lib.rs\<close>) with its legacy migration.
    A table is an association list with distinct keys, an upsert the update of a key; the four entity
    tables interpret one \<open>entity_table\<close> contract. JSON encoding and decoding are parameters.
  \<^item> \<open>Workflow_Model\<close>, \<open>Workflow_Engine\<close>, \<open>Workflow_Script\<close>: \<open>crates/goble-workflow\<close>. The engine logs every
    step exactly once and stops at the first failure; validation is exact; a script never makes more
    agent calls than its budget and its record holds the calls the host received; the scanner for blocking calls is
    exact on a grammar of lexemes. The
    Rhai interpreter and the cron parser are parameters: a script is the tree of host calls it makes.
  \<^item> \<open>Workflow_Host\<close>: the daemon's workflow host (\<open>crates/goble-daemon/src/workflow.rs\<close>): registered
    workflows, the sequenced journal, one session per step or agent call.
  \<^item> \<open>Daemon_Protocol\<close>, \<open>Daemon_State\<close>: the wire vocabulary and \<open>DaemonState\<close>
    (\<open>crates/goble-daemon-protocol\<close>, \<open>goble-daemon/src/state\<close>). Ledgers are shared between the session table
    and the running drains, so they live in a heap and are named by reference; a spawned drain task is
    an entry of a list and \<open>drain_step\<close> advances one of them by one event or, once its stream has ended, by
    one of the regions the end goes through: settling the turn, taking the snapshot, persisting it, setting the
    final status, setting the time, telling the client, removing the session. Every interleaving is a sequence
    of such steps; a request of a client and the handling of one event are one step each. \<open>Utc::now()\<close> and the file system are fields of \<open>call_env\<close>.
  \<^item> \<open>Daemon_Invariants\<close>, \<open>Daemon_Runs\<close>: the daemon's invariant over all operations and drain steps; the
    recorded history, the client's stream and the persisted checkpoint of a turn run to its end;
    resume; isolation of concurrent drains; the guards of rewind and fork; the blocking seam.
  \<^item> \<open>Desktop_Restart\<close>: the composition of daemon and store at start-up
    (\<open>goble-desktop-service/src/state/bootstrap.rs\<close>): a settled turn survives a restart.
  \<^item> \<open>Subagent\<close>, \<open>Subagent_Registry\<close>: child records, budgets and the status machine
    (\<open>crates/goble-core/src/subagent.rs\<close>), and the registry with its cancel walk, lifecycle events and
    spend accounting (\<open>crates/goble-core/src/subagent_run\<close>).
  \<^item> \<open>Chat_Store\<close>: the rows of conversations, missions, questions, proposals and credentials
    (\<open>crates/goble-core/src/store\<close>), each operation a statement or a query that may fail, and the reference predicate
    \<open>owed\<close> of the calls a history has left unanswered.
  \<^item> \<open>Agent_History\<close>: the messages a request is made of (\<open>reasoning/history.rs\<close>): calls and results match.
  \<^item> \<open>Turn_Trace\<close>, \<open>Agent_Turn\<close>: the turn of the main agent (\<open>reasoning/mission.rs\<close> and its helpers) as pieces that leave a
    trace of events, requests, tools and commands, with a logic of triples over them. The model, the tools and the
    store's faults are functions of the world; so is what other tasks do while the turn waits.
  \<^item> \<open>Agent_Approval\<close>: no command without an approval, at most fourteen requests, one last event.
  \<^item> \<open>Agent_Conversation\<close>, \<open>Agent_Resume\<close>: the ways back into a turn (\<open>reasoning/resume.rs\<close>), and what holds over any
    sequence of prompts, answers and decisions: every request is one a provider accepts, and a decision starts
    with the approved line and nothing else, and tells the client its result. Each act of a trace stands with the world it happened in, so this also covers a
    stream that is dropped in the middle.
  \<^item> \<open>Agent_Harness\<close>: \<open>Harness\<close> and its adaptor (\<open>harness/mod.rs\<close>, \<open>subagent_run/events.rs\<close>, \<open>goble-harness-internal\<close>): the
    merge with the sub-agents' events, the token counts recorded on the way out, the frames of the wire.
  \<^item> \<open>Agent_Daemon\<close>: the composition of agent and daemon: what the daemon records of a turn, and when it leaves the
    session live, follows from how the agent's turn ended.
  \<^item> \<open>Subagent_Run\<close>: the child's loop and the task around it (\<open>subagent_run/run.rs\<close>, \<open>host.rs\<close>). The model, the
    tools and the store's faults are functions of the whole shared world, which they may change. Every
    child ends within its budget, also when a call panics. The loop is a \<open>partial_function\<close> in the option
    type, and that it returns is proved.
  \<^item> \<open>Rust_Text\<close>: lemmas on \<open>str::lines\<close>, \<open>find\<close>, \<open>split\<close>, white space, integer parsing and UTF-8.
  \<^item> \<open>Text_Diff\<close>, \<open>Diff_View\<close>: the diff of a file change (\<open>goble-core/src/harness/text_diff.rs\<close>) and its reader
    (\<open>goble-ui/src/elements/diff/model.rs\<close>). The edit script keeps a longest common subsequence of lines; the text of a diff, parsed
    and applied strictly, turns the old lines into the new ones.
  \<^item> \<open>Workspace_Files\<close>: the file tools (\<open>goble-core/src/harness/files.rs\<close>) over a POSIX file tree with symbolic
    links, whose resolution is \<open>namei\<close>. Plain paths stay in the workspace, a written file reads back,
    an edit records its diff; two paths out of the workspace are exhibited.
  \<^item> \<open>Process_Sandbox\<close>: profiles, back ends and the Seatbelt policy (\<open>crates/goble-sandbox\<close>); every back end
    interprets the \<open>isolation\<close> contract.
  \<^item> \<open>Command_Runner\<close>: runners, approvals, credentials and the git tools (\<open>runner.rs\<close>, \<open>commands.rs\<close>, \<open>credentials.rs\<close>,
    \<open>files.rs\<close> of the harness). A runner returns the list of its effects, processes started and lines sent to a
    pane, besides its result. The composed line splits back into its arguments; unattended commands are on the
    allow-list and confined; an approved line runs as shown; credential placeholders are replaced once.
  \<^item> \<open>Terminal_Taps\<close>: the byte taps in front of the VT parser (\<open>crates/goble-terminal/src/osc.rs\<close>, \<open>hooks.rs\<close>). A reader of a
    stream interprets the \<open>chunked_reader\<close> contract: only the bytes matter, not the reads. The OSC tap passes every
    byte on and recovers the reports a shell wrote; the hook channel delivers exactly the hooks in their places.
  \<^item> \<open>Terminal_Sixel\<close>, \<open>Terminal_Images\<close>, \<open>Terminal_Image_Tap\<close>: in-band images (\<open>image.rs\<close>): the sixel decoder, the bounded
    cache, the kitty protocol with its store of transmissions, the tap. Decoded images are whole, cache and store
    keep their bounds, a chunked transmission has the effect of the transmission sent whole, strings of other protocols pass. The base64 and
    PNG decoders are parameters.
  \<^item> \<open>Terminal_Screen\<close>: \<open>Screen\<close> (\<open>screen/surface.rs\<close> and its data) around the VT emulator. The emulator is third-party code
    (vendored in \<open>src/vendor/alacritty_terminal\<close>) and the parameter \<open>vt\<close>; the hypothesis \<open>vt_stream\<close> says that its parser takes
    a stream of bytes, which leaves out a synchronized update that overflows its buffer.
  \<^item> \<open>Terminal_Blocks\<close>: the block list of a session (\<open>crates/goble-terminal/src/blocks\<close>): its invariant over every operation, claims
    and the results that answer them, what a finished block keeps.
  \<^item> \<open>Terminal_Session\<close>: \<open>Emulator\<close> (\<open>app/src/emulator.rs\<close>), the composition of taps, blocks and screen: the reads do not
    matter, a claimed command's result is its own output and exit code, a conversation has one card.

  \<^bold>\<open>Bounds and fuel.\<close> Functions are total and terminate; the child's loop is partial and shown to return. The one bounded recursion is
  \<open>cancel_entry\<close>: its bound is the number of entries, and since every descent ends a live record the
  lemmas on the walk need no more than the number of live records. Drains are advanced a given number
  of steps; path resolution follows at most \<open>MAX_LINKS\<close> links, the limit of the system it stands for. For drains, the length of the stream and eight more steps are shown to be enough to settle a turn and remove its session. Counters that
  are 32 or 64 bits wide in the code are words of that width.

  \<^bold>\<open>Not modelled.\<close> The user interface (\<open>app\<close> but for the emulator, \<open>goble-ui\<close> but for the diff reader, \<open>goble-web\<close>), the colours, keys, mouse
  reports, search and query replies of the terminal with its pseudo-terminal, network
  and process code (gateway, remote, telemetry, MCP), model providers and the other SQLite rows of
  the core store: mostly input/output, rendering or third-party interfaces. The JSON text of messages
  and checkpoints, the Rhai interpreter and the cron crate are parameters of the definitions that use
  them; so are processes, a pane's shell and the credential store. File permissions, quotas and other processes
  on the file tree are left out, and with them a \<open>std::fs::write\<close> that fails after it truncated its file: a write is done
  or not begun. Errors of SQLite other than a violated key reach no operation of the checkpoint store. The tools
  of an agent are functions of the world (\<open>te_tool\<close>): a trace shows that a tool was used, not the processes the tool
  starts, so what is shown of commands concerns \<open>run_command\<close> of the main loop; git tools, sub-agents and a
  \<open>run_command\<close> that the conversation approves by itself run inside a tool. Rows of equal time are read in the order they were
  inserted. A child's spend is noted in one step.
\<close>

end
